(* ===== verification/Prelude.thy ===== *)
theory Prelude
  imports Main "HOL-Library.Word" "HOL-Library.State_Monad"
begin

text \<open>
  Shared vocabulary of the development: the machine types of \<open>lib/types.h\<close>, the return
  codes of \<open>lib/errcode.h\<close>, the reading of a C function as a state transformer, and a
  weakest-precondition calculus for such transformers whose rules are collected in
  \<open>wp_simps\<close>.  Generic lemmas on lists and on single bits of words close the theory.
\<close>

unbundle bit_operations_syntax

section \<open>Machine types and return codes\<close>

type_synonym u8 = "8 word"
type_synonym u16 = "16 word"
type_synonym u32 = "32 word"

text \<open>Return codes are C ints; the constants are those of \<open>lib/errcode.h\<close>.\<close>

type_synonym errno = int

abbreviation (input) ERRNO_SUCCESS :: errno where "ERRNO_SUCCESS \<equiv> 0"
abbreviation (input) ERRNO_FAIL :: errno where "ERRNO_FAIL \<equiv> 1"
abbreviation (input) ERRNO_NOT_FOUND :: errno where "ERRNO_NOT_FOUND \<equiv> 2"
abbreviation (input) ERRNO_EXISTED :: errno where "ERRNO_EXISTED \<equiv> 3"
abbreviation (input) ERRNO_OVERSIZE :: errno where "ERRNO_OVERSIZE \<equiv> 6"
abbreviation (input) ERRNO_MALLOC :: errno where "ERRNO_MALLOC \<equiv> 7"
abbreviation (input) ERRNO_IPC :: errno where "ERRNO_IPC \<equiv> 8"
abbreviation (input) ERRNO_PARAM_ILLEGAL :: errno where "ERRNO_PARAM_ILLEGAL \<equiv> 10"

section \<open>C functions as state transformers\<close>

text \<open>
  A C function that reads and writes shared state is a value of type \<open>('s, 'a) state\<close>
  from HOL-Library.State_Monad: its result is the value returned, and an early
  \<open>return e\<close> is the branch that yields \<open>e\<close> and keeps the writes made so far.
\<close>

definition gets :: "('s \<Rightarrow> 'a) \<Rightarrow> ('s, 'a) state" where
  "gets f = State (\<lambda>s. (f s, s))"

definition modify :: "('s \<Rightarrow> 's) \<Rightarrow> ('s, unit) state" where
  "modify f = State (\<lambda>s. ((), f s))"

text \<open>A conditional statement without an else branch.\<close>

definition when_m :: "bool \<Rightarrow> ('s, unit) state \<Rightarrow> ('s, unit) state" where
  "when_m b m = (if b then m else State_Monad.return ())"

lemma run_gets [simp]: "run_state (gets f) s = (f s, s)"
  by (simp add: gets_def)

lemma run_modify [simp]: "run_state (modify f) s = ((), f s)"
  by (simp add: modify_def)

section \<open>A weakest-precondition calculus\<close>

named_theorems wp_simps

definition wp :: "('s, 'a) state \<Rightarrow> ('a \<Rightarrow> 's \<Rightarrow> bool) \<Rightarrow> 's \<Rightarrow> bool" where
  "wp m Q s = (case run_state m s of (a, s') \<Rightarrow> Q a s')"

lemma wp_fst_snd: "wp m Q s = Q (fst (run_state m s)) (snd (run_state m s))"
  by (simp add: wp_def split_def)

lemma wp_return [wp_simps]: "wp (State_Monad.return a) Q s = Q a s"
  by (simp add: wp_def)

lemma wp_bind [wp_simps]: "wp (State_Monad.bind m f) Q s = wp m (\<lambda>a. wp (f a) Q) s"
  by (simp add: wp_def split_def)

lemma wp_gets [wp_simps]: "wp (gets f) Q s = Q (f s) s"
  by (simp add: wp_def)

lemma wp_modify [wp_simps]: "wp (modify f) Q s = Q () (f s)"
  by (simp add: wp_def)

lemma wp_get [wp_simps]: "wp State_Monad.get Q s = Q s s"
  by (simp add: wp_def)

lemma wp_if [wp_simps]: "wp (if b then m else n) Q s = (if b then wp m Q s else wp n Q s)"
  by simp

lemma wp_when_m [wp_simps]: "wp (when_m b m) Q s = (if b then wp m Q s else Q () s)"
  by (simp add: when_m_def wp_return)

lemma wp_let [wp_simps]: "wp (let x = v in f x) Q s = wp (f v) Q s"
  by (simp add: Let_def)

lemma wp_case_option [wp_simps]:
  "wp (case x of None \<Rightarrow> m | Some y \<Rightarrow> f y) Q s
   = (case x of None \<Rightarrow> wp m Q s | Some y \<Rightarrow> wp (f y) Q s)"
  by (simp split: option.split)

lemma wp_case_prod [wp_simps]: "wp (case p of (x, y) \<Rightarrow> f x y) Q s = wp (f (fst p) (snd p)) Q s"
  by (simp add: split_def)

lemma wp_mono: "wp m P s \<Longrightarrow> (\<And>a t. P a t \<Longrightarrow> Q a t) \<Longrightarrow> wp m Q s"
  by (simp add: wp_fst_snd)

lemma wp_conj: "wp m (\<lambda>a t. P a t \<and> Q a t) s = (wp m P s \<and> wp m Q s)"
  by (simp add: wp_fst_snd)

lemma wp_runI: "wp m Q s \<Longrightarrow> run_state m s = (a, t) \<Longrightarrow> Q a t"
  by (simp add: wp_def)

subsection \<open>Preservation of a state predicate\<close>

text \<open>\<open>preserves I m\<close>: whatever \<open>m\<close> returns, it keeps \<open>I\<close>.\<close>

definition preserves :: "('s \<Rightarrow> bool) \<Rightarrow> ('s, 'a) state \<Rightarrow> bool" where
  "preserves I m = (\<forall>s. I s \<longrightarrow> wp m (\<lambda>_. I) s)"

named_theorems preserves_intros

lemma preservesD: "preserves I m \<Longrightarrow> I s \<Longrightarrow> I (snd (run_state m s))"
  by (simp add: preserves_def wp_fst_snd)

lemma preserves_return [preserves_intros]: "preserves I (State_Monad.return a)"
  by (simp add: preserves_def wp_simps)

lemma preserves_bind [preserves_intros]:
  "preserves I m \<Longrightarrow> (\<And>a. preserves I (f a)) \<Longrightarrow> preserves I (State_Monad.bind m f)"
  unfolding preserves_def wp_bind by (simp add: wp_fst_snd)

lemma preserves_if [preserves_intros]:
  "(b \<Longrightarrow> preserves I m) \<Longrightarrow> (\<not> b \<Longrightarrow> preserves I n) \<Longrightarrow> preserves I (if b then m else n)"
  by simp

lemma preserves_when_m [preserves_intros]:
  "(b \<Longrightarrow> preserves I m) \<Longrightarrow> preserves I (when_m b m)"
  by (simp add: when_m_def preserves_return)

lemma preserves_gets [preserves_intros]: "preserves I (gets f)"
  by (simp add: preserves_def wp_simps)

lemma preserves_get [preserves_intros]: "preserves I State_Monad.get"
  by (simp add: preserves_def wp_simps)

lemma preserves_let [preserves_intros]:
  "(\<And>x. preserves I (f x)) \<Longrightarrow> preserves I (let x = v in f x)"
  by (simp add: Let_def)

lemma preserves_case_option [preserves_intros]:
  "preserves I m \<Longrightarrow> (\<And>y. preserves I (f y)) \<Longrightarrow> preserves I (case x of None \<Rightarrow> m | Some y \<Rightarrow> f y)"
  by (simp split: option.split)

lemma preserves_modify: "(\<And>s. I s \<Longrightarrow> I (f s)) \<Longrightarrow> preserves I (modify f)"
  by (simp add: preserves_def wp_simps)

subsection \<open>Effects within a relation\<close>

text \<open>
  \<open>keeps R m\<close>: every run of \<open>m\<close> moves the state within the preorder \<open>R\<close>; \<open>post m\<close> is
  the state a run ends in.
\<close>

definition post :: "('s, 'a) state \<Rightarrow> 's \<Rightarrow> 's" where
  "post m s = snd (run_state m s)"

definition keeps :: "('s \<Rightarrow> 's \<Rightarrow> bool) \<Rightarrow> ('s, 'a) state \<Rightarrow> bool" where
  "keeps R m \<longleftrightarrow> (\<forall>s. R s (post m s))"

definition preorder_rel :: "('s \<Rightarrow> 's \<Rightarrow> bool) \<Rightarrow> bool" where
  "preorder_rel R \<longleftrightarrow> (\<forall>s. R s s) \<and> (\<forall>s t u. R s t \<longrightarrow> R t u \<longrightarrow> R s u)"

named_theorems keeps_intros

lemma wp_post: "wp m Q s = Q (fst (run_state m s)) (post m s)"
  by (simp add: wp_fst_snd post_def)

lemma keepsD: "keeps R m \<Longrightarrow> R s (post m s)"
  by (simp add: keeps_def)

lemma keeps_return [keeps_intros]: "preorder_rel R \<Longrightarrow> keeps R (State_Monad.return a)"
  by (simp add: keeps_def post_def preorder_rel_def)

lemma keeps_bind [keeps_intros]:
  assumes R: "preorder_rel R" and "keeps R m" "\<And>a. keeps R (f a)"
  shows "keeps R (State_Monad.bind m f)"
  unfolding keeps_def
proof
  fix s
  have "post (State_Monad.bind m f) s = post (f (fst (run_state m s))) (post m s)"
    by (simp add: post_def split_def)
  then show "R s (post (State_Monad.bind m f) s)"
    using assms unfolding keeps_def preorder_rel_def by metis
qed

lemma keeps_if [keeps_intros]:
  "(b \<Longrightarrow> keeps R m) \<Longrightarrow> (\<not> b \<Longrightarrow> keeps R n) \<Longrightarrow> keeps R (if b then m else n)"
  by simp

lemma keeps_when_m [keeps_intros]: "preorder_rel R \<Longrightarrow> (b \<Longrightarrow> keeps R m) \<Longrightarrow> keeps R (when_m b m)"
  by (simp add: when_m_def keeps_return)

lemma keeps_gets [keeps_intros]: "preorder_rel R \<Longrightarrow> keeps R (gets f)"
  by (simp add: keeps_def post_def preorder_rel_def)

lemma keeps_get [keeps_intros]: "preorder_rel R \<Longrightarrow> keeps R State_Monad.get"
  by (simp add: keeps_def post_def preorder_rel_def)

lemma keeps_let [keeps_intros]: "(\<And>x. keeps R (f x)) \<Longrightarrow> keeps R (let x = v in f x)"
  by (simp add: Let_def)

lemma keeps_case_option [keeps_intros]:
  "keeps R m \<Longrightarrow> (\<And>y. x = Some y \<Longrightarrow> keeps R (f y)) \<Longrightarrow> keeps R (case x of None \<Rightarrow> m | Some y \<Rightarrow> f y)"
  by (simp split: option.split)

lemma keeps_case_prod [keeps_intros]:
  "(\<And>x y. keeps R (f x y)) \<Longrightarrow> keeps R (case p of (x, y) \<Rightarrow> f x y)"
  by (simp split: prod.split)

lemma keeps_modify: "(\<And>s. R s (f s)) \<Longrightarrow> keeps R (modify f)"
  by (simp add: keeps_def post_def)

lemma keeps_State: "(\<And>s. R s (snd (f s))) \<Longrightarrow> keeps R (State f)"
  by (simp add: keeps_def post_def)

text \<open>An invariant is a preorder, too.\<close>

lemma preorder_imp: "preorder_rel (\<lambda>s t. I s \<longrightarrow> I t)"
  by (simp add: preorder_rel_def)

section \<open>Bits of a 32-bit word, counted from the top\<close>

text \<open>\<open>0x80000000 >> j\<close>: the mask the index pools use for position \<open>j\<close> of a word.\<close>

definition top_bit :: "nat \<Rightarrow> u32" where
  "top_bit j = drop_bit j 0x80000000"

lemma bit_top_bit: "bit (top_bit j) n \<longleftrightarrow> n + j = 31"
proof -
  have "bit (push_bit 31 1 :: u32) k \<longleftrightarrow> k = 31" for k
    unfolding bit_push_bit_iff bit_1_iff by auto
  moreover have "(push_bit 31 1 :: u32) = 0x80000000" by simp
  ultimately have "bit (0x80000000 :: u32) k \<longleftrightarrow> k = 31" for k by metis
  then show ?thesis by (simp only: top_bit_def bit_drop_bit_eq comp_def add.commute)
qed

lemma and_top_bit_iff:
  assumes "j < 32" shows "w AND top_bit j \<noteq> 0 \<longleftrightarrow> bit w (31 - j)"
proof -
  have "w AND top_bit j \<noteq> 0 \<longleftrightarrow> (\<exists>n. bit w n \<and> n + j = 31)"
    by (simp only: bit_eq_iff [of "w AND top_bit j"] bit_and_iff bit_top_bit bit_0_eq bot_apply)
       (use bit_imp_le_length [of w] in force)
  also have "\<dots> \<longleftrightarrow> bit w (31 - j)"
  proof
    assume "\<exists>n. bit w n \<and> n + j = 31"
    then obtain n where "bit w n" "n = 31 - j" by (metis add_diff_cancel_right')
    then show "bit w (31 - j)" by simp
  next
    assume "bit w (31 - j)"
    then show "\<exists>n. bit w n \<and> n + j = 31" using assms by (intro exI [of _ "31 - j"]) simp
  qed
  finally show ?thesis .
qed

section \<open>Counting on words\<close>

lemma unat_plus1_less:
  fixes a b :: "'a::len word"
  assumes "a < b" shows "unat (a + 1) = Suc (unat a)"
proof -
  have "Suc (unat a) \<le> unat b" using assms by (simp add: word_less_nat_alt)
  also have "unat b < 2 ^ LENGTH('a)" by (rule unsigned_less)
  finally show ?thesis by (simp add: unat_word_ariths)
qed

lemma unat_minus1:
  fixes a :: "'a::len word"
  assumes "0 < unat a" shows "unat (a - 1) = unat a - 1"
  using assms by (metis One_nat_def unat_1 unat_gt_0 unat_minus_one)

section \<open>Options and lists\<close>

lemma option_eqI: "(\<And>b. x = Some b \<longleftrightarrow> y = Some b) \<Longrightarrow> x = y"
  by (cases x; cases y) auto

lemma concat_update_split:
  assumes "i < length xss"
  shows "concat (xss[i := ys]) = concat (take i xss) @ ys @ concat (drop (Suc i) xss)"
  using assms by (simp add: upd_conv_take_nth_drop)

lemma concat_split:
  assumes "i < length xss"
  shows "concat xss = concat (take i xss) @ xss ! i @ concat (drop (Suc i) xss)"
  using concat_update_split [OF assms, of "xss ! i"] by simp

lemma distinct_append_cancel:
  assumes "distinct (map f (xs @ b # ys))" "xs @ b # ys = us @ b # vs"
  shows "xs = us \<and> ys = vs"
proof -
  have "b \<notin> set xs" "b \<notin> set ys" using assms(1) by auto
  then show ?thesis using assms(2) by (simp add: append_Cons_eq_iff)
qed

end
