(* ===== verification/PQueue.thy ===== *)
theory PQueue
  imports Prelude "HOL-Library.Multiset"
begin

text \<open>
  The priority queue of \<open>lib/pqueue.c\<close>, a binary heap in an array of pointers.  The queue
  calls back to compare two nodes and to tell a node its new position; both see the memory
  \<open>'s\<close> of the process, which the second one changes.  The locale \<open>queue_callbacks\<close> states what
  the queue relies on, and the contract of a priority queue is proved in it.
\<close>

section \<open>Data\<close>

abbreviation (input) PQUEUE_INIT_ARRAYSIZE :: nat where "PQUEUE_INIT_ARRAYSIZE \<equiv> 32"

text \<open>The length of \<open>qarray\<close> is \<open>array_size\<close>; the first \<open>qsize\<close> slots are in use.\<close>

record 's pqueue =
  qarray :: "nat list"
  qsize :: nat
  qcmp :: "('s \<Rightarrow> nat \<Rightarrow> nat \<Rightarrow> int) option"
  qupdate :: "(nat \<Rightarrow> nat \<Rightarrow> 's \<Rightarrow> 's) option"

definition PARENT_OF :: "nat \<Rightarrow> nat" where "PARENT_OF x = (x - 1) div 2"
definition LEFT_OF :: "nat \<Rightarrow> nat" where "LEFT_OF x = 2 * x + 1"
definition RIGHT_OF :: "nat \<Rightarrow> nat" where "RIGHT_OF x = 2 * x + 2"
definition HAVE_CHILD :: "nat \<Rightarrow> 's pqueue \<Rightarrow> bool" where "HAVE_CHILD x q \<longleftrightarrow> x < qsize q div 2"

definition call_update :: "'s pqueue \<Rightarrow> nat \<Rightarrow> nat \<Rightarrow> 's \<Rightarrow> 's" where
  "call_update q x i s = (case qupdate q of None \<Rightarrow> s | Some f \<Rightarrow> f x i s)"

text \<open>The nodes in the queue, as they stand in the array.\<close>

definition nodes :: "'s pqueue \<Rightarrow> nat list" where
  "nodes q = take (qsize q) (qarray q)"

section \<open>Operations\<close>

function up_loop :: "'s pqueue \<Rightarrow> nat \<Rightarrow> nat \<Rightarrow> nat list \<Rightarrow> 's \<Rightarrow> nat \<times> nat list \<times> 's" where
  "up_loop q tmp index arr s =
     (if index > 0 \<and> the (qcmp q) s tmp (arr ! PARENT_OF index) < 0 then
        let arr = arr[index := arr ! PARENT_OF index]
        in up_loop q tmp (PARENT_OF index) arr (call_update q (arr ! index) index s)
      else (index, arr, s))"
  by pat_completeness auto
termination
  by (relation "measure (\<lambda>(q, tmp, index, arr, s). index)") (auto simp: PARENT_OF_def)

declare up_loop.simps [simp del]

definition trickle_up :: "nat \<Rightarrow> 's pqueue \<Rightarrow> 's \<Rightarrow> 's pqueue \<times> 's" where
  "trickle_up index q s =
     (let tmp = qarray q ! index in
      case up_loop q tmp index (qarray q) s of (index, arr, s) \<Rightarrow>
        (q\<lparr>qarray := arr[index := tmp]\<rparr>, call_update q tmp index s))"

function down_loop :: "'s pqueue \<Rightarrow> nat \<Rightarrow> nat \<Rightarrow> nat list \<Rightarrow> 's \<Rightarrow> nat \<times> nat list \<times> 's" where
  "down_loop q tmp index arr s =
     (if \<not> HAVE_CHILD index q then (index, arr, s)
      else
        let which = (if RIGHT_OF index < qsize q \<and> the (qcmp q) s (arr ! LEFT_OF index) (arr ! RIGHT_OF index) > 0
                     then RIGHT_OF index else LEFT_OF index) in
        if the (qcmp q) s (arr ! which) tmp > 0 then (index, arr, s)
        else
          let arr = arr[index := arr ! which]
          in down_loop q tmp which arr (call_update q (arr ! index) index s))"
  by pat_completeness auto
termination
  by (relation "measure (\<lambda>(q, tmp, index, arr, s). qsize q - index)")
    (auto simp: HAVE_CHILD_def LEFT_OF_def RIGHT_OF_def)

declare down_loop.simps [simp del]

definition trickle_down :: "nat \<Rightarrow> 's pqueue \<Rightarrow> 's \<Rightarrow> 's pqueue \<times> 's" where
  "trickle_down index q s =
     (let tmp = qarray q ! index in
      case down_loop q tmp index (qarray q) s of (index, arr, s) \<Rightarrow>
        (q\<lparr>qarray := arr[index := tmp]\<rparr>, call_update q tmp index s))"

definition pqueue_create :: "'s pqueue" where
  "pqueue_create = \<lparr>qarray = replicate PQUEUE_INIT_ARRAYSIZE 0, qsize = 0, qcmp = None, qupdate = None\<rparr>"

text \<open>\<open>XCALLOC\<close> returns memory or ends the process, so expanding always succeeds.\<close>

definition pqueue_expand :: "'s pqueue \<Rightarrow> 's pqueue" where
  "pqueue_expand q = q\<lparr>qarray := qarray q @ replicate (length (qarray q)) 0\<rparr>"

definition pqueue_enqueue :: "nat \<Rightarrow> 's pqueue \<Rightarrow> 's \<Rightarrow> 's pqueue \<times> 's" where
  "pqueue_enqueue x q s =
     (let q = (if qsize q + 2 \<ge> length (qarray q) then pqueue_expand q else q);
          q = q\<lparr>qarray := (qarray q)[qsize q := x]\<rparr>;
          s = call_update q x (qsize q) s
      in case trickle_up (qsize q) q s of (q, s) \<Rightarrow> (q\<lparr>qsize := qsize q + 1\<rparr>, s))"

text \<open>Taking from an empty queue reads \<open>array[-1]\<close>.\<close>

definition pqueue_dequeue :: "'s pqueue \<Rightarrow> 's \<Rightarrow> (nat \<times> 's pqueue \<times> 's) option" where
  "pqueue_dequeue q s =
     (if qsize q = 0 then None
      else
        let x = qarray q ! 0;
            q = q\<lparr>qsize := qsize q - 1\<rparr>;
            q = q\<lparr>qarray := (qarray q)[0 := qarray q ! qsize q]\<rparr>
        in Some (x, trickle_down 0 q s))"

definition pqueue_remove_at :: "nat \<Rightarrow> 's pqueue \<Rightarrow> 's \<Rightarrow> ('s pqueue \<times> 's) option" where
  "pqueue_remove_at index q s =
     (if qsize q = 0 then None
      else
        let q = q\<lparr>qsize := qsize q - 1\<rparr>;
            q = q\<lparr>qarray := (qarray q)[index := qarray q ! qsize q]\<rparr>
        in Some (if index > 0 \<and> the (qcmp q) s (qarray q ! index) (qarray q ! PARENT_OF index) < 0
                 then trickle_up index q s else trickle_down index q s))"

section \<open>Heaps in arrays\<close>

lemma parent_less [simp]: "0 < i \<Longrightarrow> PARENT_OF i < i"
  by (auto simp: PARENT_OF_def)

lemma child_iff: "0 < j \<Longrightarrow> PARENT_OF j = i \<longleftrightarrow> j = LEFT_OF i \<or> j = RIGHT_OF i"
  by (auto simp: PARENT_OF_def LEFT_OF_def RIGHT_OF_def)

lemma parent_child [simp]: "PARENT_OF (LEFT_OF i) = i" "PARENT_OF (RIGHT_OF i) = i"
  by (simp_all add: PARENT_OF_def LEFT_OF_def RIGHT_OF_def)

lemma child_greater [simp]: "i < LEFT_OF i" "i < RIGHT_OF i" "LEFT_OF i \<noteq> i" "RIGHT_OF i \<noteq> i" "LEFT_OF i \<noteq> RIGHT_OF i"
  by (simp_all add: LEFT_OF_def RIGHT_OF_def)

lemma have_child_iff: "HAVE_CHILD i q \<longleftrightarrow> LEFT_OF i < qsize q"
  by (auto simp: HAVE_CHILD_def LEFT_OF_def)

definition swapped :: "nat list \<Rightarrow> nat \<Rightarrow> nat \<Rightarrow> nat list" where
  "swapped xs i j = xs[i := xs ! j, j := xs ! i]"

lemma swapped_nth: "i < length xs \<Longrightarrow> j < length xs \<Longrightarrow> k < length xs \<Longrightarrow>
    swapped xs i j ! k = (if k = i then xs ! j else if k = j then xs ! i else xs ! k)"
  by (auto simp: swapped_def nth_list_update)

lemma swapped_take:
  "i < n \<Longrightarrow> j < n \<Longrightarrow> n \<le> length xs \<Longrightarrow> take n (swapped xs i j) = swapped (take n xs) i j"
  by (auto simp: swapped_def take_update_swap)

lemma mset_swapped: "i < length xs \<Longrightarrow> j < length xs \<Longrightarrow> mset (swapped xs i j) = mset xs"
  unfolding swapped_def by (metis mset_swap)

text \<open>The memory after some of the nodes in \<open>A\<close> have been told positions.\<close>

inductive told :: "(nat \<Rightarrow> nat \<Rightarrow> 's \<Rightarrow> 's) \<Rightarrow> nat set \<Rightarrow> 's \<Rightarrow> 's \<Rightarrow> bool" for update A where
  told_none: "told update A s s"
| told_one: "x \<in> A \<Longrightarrow> told update A (update x i s) s' \<Longrightarrow> told update A s s'"

lemma told_trans: "told update A s s' \<Longrightarrow> told update A s' s'' \<Longrightarrow> told update A s s''"
  by (induction rule: told.induct) (auto intro: told.intros)

lemma told_mono: "told update A s s' \<Longrightarrow> A \<subseteq> B \<Longrightarrow> told update B s s'"
  by (induction rule: told.induct) (auto intro: told.intros)

section \<open>The contract\<close>

locale queue_callbacks =
  fixes cmp :: "'s \<Rightarrow> nat \<Rightarrow> nat \<Rightarrow> int"
    and update :: "nat \<Rightarrow> nat \<Rightarrow> 's \<Rightarrow> 's"
    and position :: "'s \<Rightarrow> nat \<Rightarrow> int"
  assumes cmp_sym: "cmp s x y < 0 \<longleftrightarrow> cmp s y x > 0"
    and cmp_trans: "cmp s x y \<le> 0 \<Longrightarrow> cmp s y z \<le> 0 \<Longrightarrow> cmp s x z \<le> 0"
    and cmp_update: "cmp (update x i s) = cmp s"
    and position_update: "position (update x i s) y = (if y = x then int i else position s y)"
begin

definition heap :: "'s \<Rightarrow> nat list \<Rightarrow> bool" where
  "heap s xs \<longleftrightarrow> (\<forall>j < length xs. 0 < j \<longrightarrow> cmp s (xs ! PARENT_OF j) (xs ! j) \<le> 0)"

text \<open>Everything is in order, except that node \<open>i\<close> may precede its parent or follow a child.\<close>

definition heap_up :: "'s \<Rightarrow> nat list \<Rightarrow> nat \<Rightarrow> bool" where
  "heap_up s xs i \<longleftrightarrow> (\<forall>j < length xs. 0 < j \<and> j \<noteq> i \<longrightarrow> cmp s (xs ! PARENT_OF j) (xs ! j) \<le> 0) \<and>
     (\<forall>j < length xs. 0 < j \<and> PARENT_OF j = i \<and> 0 < i \<longrightarrow> cmp s (xs ! PARENT_OF i) (xs ! j) \<le> 0)"

definition heap_down :: "'s \<Rightarrow> nat list \<Rightarrow> nat \<Rightarrow> bool" where
  "heap_down s xs i \<longleftrightarrow> (\<forall>j < length xs. 0 < j \<and> PARENT_OF j \<noteq> i \<longrightarrow> cmp s (xs ! PARENT_OF j) (xs ! j) \<le> 0) \<and>
     (\<forall>j < length xs. 0 < j \<and> PARENT_OF j = i \<and> 0 < i \<longrightarrow> cmp s (xs ! PARENT_OF i) (xs ! j) \<le> 0)"

definition placed :: "'s \<Rightarrow> nat list \<Rightarrow> nat \<Rightarrow> bool" where
  "placed s xs i \<longleftrightarrow> distinct xs \<and> (\<forall>j < length xs. j \<noteq> i \<longrightarrow> position s (xs ! j) = int j)"

lemma le_total: "\<not> cmp s x y \<le> 0 \<Longrightarrow> cmp s y x \<le> 0"
  using cmp_sym [of s y x] by simp

lemma le_refl [simp]: "cmp s x x \<le> 0"
  using le_total by blast

lemma told_cmp: "told update A s s' \<Longrightarrow> cmp s' = cmp s"
  by (induction rule: told.induct) (auto simp: cmp_update)

lemma told_position: "told update A s s' \<Longrightarrow> y \<notin> A \<Longrightarrow> position s' y = position s y"
  by (induction rule: told.induct) (auto simp: position_update)

lemma heap_update [simp]: "heap (update x i s) = heap s" "heap_up (update x i s) = heap_up s" "heap_down (update x i s) = heap_down s"
  by (intro ext; simp add: heap_def heap_up_def heap_down_def cmp_update)+

lemma up_stop: "heap_up s xs i \<Longrightarrow> \<not> (0 < i \<and> cmp s (xs ! i) (xs ! PARENT_OF i) < 0) \<Longrightarrow> heap s xs"
  unfolding heap_up_def heap_def using cmp_sym by (metis linorder_not_less)

lemma up_step:
  assumes h: "heap_up s xs i" and i: "0 < i" "i < length xs" and c: "cmp s (xs ! i) (xs ! PARENT_OF i) < 0"
  shows "heap_up s (swapped xs i (PARENT_OF i)) (PARENT_OF i)"
proof -
  let ?p = "PARENT_OF i" and ?ys = "swapped xs i (PARENT_OF i)"
  have p: "?p < i" "?p < length xs" using i parent_less less_trans by blast+
  have nth: "?ys ! k = (if k = i then xs ! ?p else if k = ?p then xs ! i else xs ! k)" if "k < length xs" for k
    using swapped_nth i p that by simp
  have len: "length ?ys = length xs" by (simp add: swapped_def)
  have par: "PARENT_OF j < length xs" if "0 < j" "j < length xs" for j using parent_less that less_trans by blast
  have le: "cmp s (xs ! PARENT_OF j) (xs ! j) \<le> 0" if "0 < j" "j < length xs" "j \<noteq> i" for j
    using h that by (simp add: heap_up_def)
  have skip: "cmp s (xs ! ?p) (xs ! j) \<le> 0" if "0 < j" "j < length xs" "PARENT_OF j = i" for j
    using h that i by (simp add: heap_up_def)
  have ci: "cmp s (xs ! i) (xs ! ?p) \<le> 0" using c by simp
  have "cmp s (?ys ! PARENT_OF j) (?ys ! j) \<le> 0" if j: "0 < j" "j < length xs" "j \<noteq> ?p" for j
  proof (cases "j = i")
    case True
    then show ?thesis using ci nth p i by simp
  next
    case ji: False
    consider "PARENT_OF j = i" | "PARENT_OF j = ?p" | "PARENT_OF j \<noteq> i" "PARENT_OF j \<noteq> ?p" by blast
    then show ?thesis
    proof cases
      case 1
      then show ?thesis using skip [OF j(1,2)] nth ji j i by simp
    next
      case 2
      then show ?thesis using cmp_trans [OF ci] le [OF j(1,2) ji] nth ji j p by simp
    next
      case 3
      then show ?thesis using le [OF j(1,2) ji] nth ji j par [OF j(1,2)] by simp
    qed
  qed
  moreover have "cmp s (?ys ! PARENT_OF ?p) (?ys ! j) \<le> 0"
    if j: "0 < j" "j < length xs" "PARENT_OF j = ?p" "0 < ?p" for j
  proof -
    have g: "PARENT_OF ?p < ?p" using j by simp
    have gp: "cmp s (xs ! PARENT_OF ?p) (xs ! ?p) \<le> 0" using le [of ?p] j p by simp
    have "j \<noteq> ?p" using j by (metis less_irrefl parent_less)
    then have "cmp s (xs ! PARENT_OF ?p) (?ys ! j) \<le> 0"
      using nth [OF j(2)] gp cmp_trans [OF gp] le [OF j(1,2)] j(3) by (cases "j = i") auto
    then show ?thesis using nth [of "PARENT_OF ?p"] g p by simp
  qed
  ultimately show ?thesis unfolding heap_up_def len by blast
qed

definition child :: "'s \<Rightarrow> nat list \<Rightarrow> nat \<Rightarrow> nat" where
  "child s xs i = (if RIGHT_OF i < length xs \<and> cmp s (xs ! LEFT_OF i) (xs ! RIGHT_OF i) > 0 then RIGHT_OF i else LEFT_OF i)"

lemma child_first:
  assumes "LEFT_OF i < length xs"
  shows "child s xs i < length xs" "i < child s xs i" "PARENT_OF (child s xs i) = i"
    "j < length xs \<Longrightarrow> 0 < j \<Longrightarrow> PARENT_OF j = i \<Longrightarrow> cmp s (xs ! child s xs i) (xs ! j) \<le> 0"
proof -
  show "child s xs i < length xs" "i < child s xs i" "PARENT_OF (child s xs i) = i"
    using assms by (auto simp: child_def)
  assume j: "j < length xs" "0 < j" "PARENT_OF j = i"
  then have "j = LEFT_OF i \<or> j = RIGHT_OF i" using child_iff by blast
  then show "cmp s (xs ! child s xs i) (xs ! j) \<le> 0"
    using j(1) le_total [of s "xs ! LEFT_OF i" "xs ! RIGHT_OF i"] by (auto simp: child_def)
qed

lemma down_stop:
  assumes h: "heap_down s xs i"
    and c: "LEFT_OF i < length xs \<Longrightarrow> cmp s (xs ! child s xs i) (xs ! i) > 0"
  shows "heap s xs"
  unfolding heap_def
proof (intro allI impI)
  fix j assume j: "j < length xs" "0 < j"
  show "cmp s (xs ! PARENT_OF j) (xs ! j) \<le> 0"
  proof (cases "PARENT_OF j = i")
    case False
    then show ?thesis using h j by (simp add: heap_down_def)
  next
    case True
    then have "LEFT_OF i < length xs" using child_iff [OF j(2)] j(1) by (auto simp: LEFT_OF_def RIGHT_OF_def)
    note ch = child_first(4) [OF this j True] c [OF this]
    have "cmp s (xs ! i) (xs ! child s xs i) \<le> 0" using ch(2) cmp_sym [of s "xs ! i" "xs ! child s xs i"] by simp
    then show ?thesis using cmp_trans ch(1) True by blast
  qed
qed

lemma down_step:
  assumes h: "heap_down s xs i" and l: "LEFT_OF i < length xs"
    and c: "\<not> cmp s (xs ! child s xs i) (xs ! i) > 0"
  shows "heap_down s (swapped xs i (child s xs i)) (child s xs i)"
proof -
  let ?w = "child s xs i" and ?ys = "swapped xs i (child s xs i)"
  note w = child_first(1-3) [OF l, of s]
  have i: "i < length xs" using w by simp
  have nth: "?ys ! k = (if k = i then xs ! ?w else if k = ?w then xs ! i else xs ! k)" if "k < length xs" for k
    using swapped_nth i w that by simp
  have len: "length ?ys = length xs" by (simp add: swapped_def)
  have cw: "cmp s (xs ! ?w) (xs ! i) \<le> 0" using c by simp
  have le: "cmp s (xs ! PARENT_OF j) (xs ! j) \<le> 0" if "0 < j" "j < length xs" "PARENT_OF j \<noteq> i" for j
    using h that by (simp add: heap_down_def)
  have skip: "cmp s (xs ! PARENT_OF i) (xs ! j) \<le> 0" if "0 < j" "j < length xs" "PARENT_OF j = i" "0 < i" for j
    using h that by (simp add: heap_down_def)
  have first: "cmp s (xs ! ?w) (xs ! j) \<le> 0" if "0 < j" "j < length xs" "PARENT_OF j = i" for j
    using child_first(4) [OF l] that by simp
  have "cmp s (?ys ! PARENT_OF j) (?ys ! j) \<le> 0" if j: "0 < j" "j < length xs" "PARENT_OF j \<noteq> ?w" for j
  proof -
    have pj: "PARENT_OF j < length xs" using j parent_less less_trans by blast
    consider "j = i" | "j = ?w" | "j \<noteq> i" "j \<noteq> ?w" "PARENT_OF j = i" | "j \<noteq> i" "j \<noteq> ?w" "PARENT_OF j \<noteq> i" by blast
    then show ?thesis
    proof cases
      case 1
      then have "PARENT_OF j \<noteq> i" using j by (metis less_irrefl parent_less)
      then show ?thesis using skip [of ?w] w j nth [OF pj] nth [OF j(2)] 1 by simp
    next
      case 2
      then show ?thesis using cw w nth i by simp
    next
      case 3
      then show ?thesis using first [OF j(1,2)] nth i j by simp
    next
      case 4
      then show ?thesis using le [OF j(1,2)] nth [OF pj] nth [OF j(2)] j(3) by simp
    qed
  qed
  moreover have "cmp s (?ys ! PARENT_OF ?w) (?ys ! j) \<le> 0"
    if j: "0 < j" "j < length xs" "PARENT_OF j = ?w" for j
  proof -
    have "j \<noteq> i" "j \<noteq> ?w" using j w parent_less [OF j(1)] by auto
    then show ?thesis using le [OF j(1,2)] w j nth i by simp
  qed
  ultimately show ?thesis unfolding heap_down_def len by blast
qed

lemma heap_root:
  assumes h: "heap s xs"
  shows "j < length xs \<Longrightarrow> cmp s (xs ! 0) (xs ! j) \<le> 0"
proof (induction j rule: less_induct)
  case (less j)
  show ?case
  proof (cases "j = 0")
    case False
    then have "cmp s (xs ! PARENT_OF j) (xs ! j) \<le> 0" "PARENT_OF j < j" using h less.prems by (auto simp: heap_def)
    then show ?thesis using less.IH [of "PARENT_OF j"] less.prems cmp_trans by auto
  qed simp
qed

section \<open>Moving a node\<close>

lemma placed_step:
  assumes "placed s xs i" "i < length xs" "k < length xs" "i \<noteq> k"
  shows "placed (update (xs ! k) i s) (swapped xs i k) k"
  unfolding placed_def
proof (intro conjI allI impI)
  show "distinct (swapped xs i k)"
    using assms mset_swapped [of i xs k] by (metis placed_def mset_eq_imp_distinct_iff)
  fix j assume j: "j < length (swapped xs i k)" "j \<noteq> k"
  then have "j < length xs" by (simp add: swapped_def)
  then show "position (update (xs ! k) i s) (swapped xs i k ! j) = int j"
    using assms j by (auto simp: swapped_nth placed_def position_update nth_eq_iff_index_eq)
qed

lemma placed_stop: "placed s xs i \<Longrightarrow> i < length xs \<Longrightarrow> j < length xs \<Longrightarrow> position (update (xs ! i) i s) (xs ! j) = int j"
  by (auto simp: placed_def position_update nth_eq_iff_index_eq)

text \<open>The queue's callbacks are those of the locale.\<close>

definition wired :: "'s pqueue \<Rightarrow> bool" where
  "wired q \<longleftrightarrow> qcmp q = Some cmp \<and> qupdate q = Some update"

text \<open>What a loop and the final store do to the \<open>n\<close> nodes, with \<open>tmp\<close> in the hole at \<open>i\<close>.\<close>

definition settled :: "'s \<Rightarrow> nat list \<Rightarrow> nat \<Rightarrow> nat \<Rightarrow> nat \<Rightarrow> nat list \<Rightarrow> 's \<Rightarrow> bool" where
  "settled s xs n tmp i' arr' s' \<longleftrightarrow> i' < n \<and> length arr' = length xs \<and> heap s' (take n (arr'[i' := tmp])) \<and>
     mset (take n (arr'[i' := tmp])) = mset (take n xs) \<and> placed s' (take n (arr'[i' := tmp])) i' \<and>
     told update (set (take n xs)) s s'"

lemma settled_swapped:
  assumes "settled (update x i s) (swapped xs i k) n tmp i' arr' s'" "i < n" "k < n" "n \<le> length xs" "x \<in> set (take n xs)"
  shows "settled s xs n tmp i' arr' s'"
proof -
  have "mset (take n (swapped xs i k)) = mset (take n xs)" using assms(2-4) by (simp add: swapped_take mset_swapped)
  moreover from this have "set (take n (swapped xs i k)) = set (take n xs)" by (rule mset_eq_setD)
  ultimately show ?thesis
    using assms(1,5) by (auto simp: settled_def swapped_def intro: told_one)
qed

lemma settled_now:
  assumes "i < n" "n \<le> length arr" "heap s (take n (arr[i := tmp]))" "placed s (take n (arr[i := tmp])) i"
  shows "settled s (arr[i := tmp]) n tmp i arr s"
  using assms by (simp add: settled_def told_none)

lemma up_loop_settles:
  assumes "wired q" "i < n" "n \<le> length arr"
    and "heap_up s (take n (arr[i := tmp])) i" "placed s (take n (arr[i := tmp])) i"
  shows "case up_loop q tmp i arr s of (i', arr', s') \<Rightarrow> settled s (arr[i := tmp]) n tmp i' arr' s'"
  using assms
proof (induction q tmp i arr s rule: up_loop.induct)
  case (1 q tmp i arr s)
  let ?xs = "arr[i := tmp]" and ?p = "PARENT_OF i"
  have c: "the (qcmp q) = cmp" "call_update q = update" using 1(2) by (auto simp: wired_def call_update_def fun_eq_iff)
  show ?case
  proof (cases "0 < i \<and> cmp s tmp (arr ! ?p) < 0")
    case False
    have "\<not> (0 < i \<and> cmp s (take n ?xs ! i) (take n ?xs ! ?p) < 0)"
    proof
      assume a: "0 < i \<and> cmp s (take n ?xs ! i) (take n ?xs ! ?p) < 0"
      then have "?p < i" by simp
      then have "?p < n" "?p \<noteq> i" using 1(3) by auto
      then show False using a False 1(3,4) by simp
    qed
    then have "heap s (take n ?xs)" by (rule up_stop [OF 1(5)])
    then have "settled s ?xs n tmp i arr s" using 1(3,4,6) by (intro settled_now) auto
    moreover have "up_loop q tmp i arr s = (i, arr, s)"
      unfolding up_loop.simps [of q tmp i arr s] c using False by (rule if_not_P)
    ultimately show ?thesis by simp
  next
    case True
    then have "?p < i" by simp
    with 1(3) have p: "?p < i" "?p < n" by simp_all
    let ?arr = "arr[i := arr ! ?p]" and ?s = "update (arr ! ?p) i s"
    have sw: "?arr[?p := tmp] = swapped ?xs i ?p"
      using p 1(3,4) by (simp add: swapped_def)
    have cx: "cmp s (take n ?xs ! i) (take n ?xs ! ?p) < 0" using True p 1(3,4) by simp
    have "heap_up ?s (take n (?arr[?p := tmp])) ?p"
      using up_step [OF 1(5) _ _ cx] True p 1(3,4) unfolding sw by (simp add: swapped_take)
    moreover have "placed ?s (take n (?arr[?p := tmp])) ?p"
      using placed_step [OF 1(6), of ?p] p 1(3,4) unfolding sw by (simp add: swapped_take)
    ultimately have "case up_loop q tmp ?p ?arr ?s of (i', arr', s') \<Rightarrow> settled ?s (?arr[?p := tmp]) n tmp i' arr' s'"
      using 1(1) [OF _ refl] True p 1(2-4) c by simp
    moreover have "arr ! ?p \<in> set (take n ?xs)"
      using p 1(3,4) by (metis length_list_update length_take min.absorb2 nth_list_update_neq nth_mem nth_take less_irrefl)
    ultimately have "case up_loop q tmp ?p ?arr ?s of (i', arr', s') \<Rightarrow> settled s ?xs n tmp i' arr' s'"
      unfolding sw using settled_swapped p 1(3,4) by (auto split: prod.splits)
    then show ?thesis using True 1(3,4) by (subst up_loop.simps) (simp add: c)
  qed
qed

lemma down_loop_settles:
  assumes "wired q" "i < qsize q" "qsize q \<le> length arr"
    and "heap_down s (take (qsize q) (arr[i := tmp])) i" "placed s (take (qsize q) (arr[i := tmp])) i"
  shows "case down_loop q tmp i arr s of (i', arr', s') \<Rightarrow> settled s (arr[i := tmp]) (qsize q) tmp i' arr' s'"
  using assms
proof (induction q tmp i arr s rule: down_loop.induct)
  case (1 q tmp i arr s)
  let ?n = "qsize q" and ?xs = "arr[i := tmp]"
  let ?ys = "take ?n ?xs"
  let ?w = "child s ?ys i"
  have c: "the (qcmp q) = cmp" "call_update q = update" using 1(2) by (auto simp: wired_def call_update_def fun_eq_iff)
  have w: "(if RIGHT_OF i < ?n \<and> cmp s (arr ! LEFT_OF i) (arr ! RIGHT_OF i) > 0 then RIGHT_OF i else LEFT_OF i) = ?w"
    if "LEFT_OF i < ?n"
  proof -
    have "?xs ! LEFT_OF i = arr ! LEFT_OF i" "?xs ! RIGHT_OF i = arr ! RIGHT_OF i"
      using child_greater [of i] by (metis nth_list_update_neq)+
    then show ?thesis using that 1(4) by (simp add: child_def)
  qed
  note wl = child_first(1-3) [of i ?ys s]
  show ?case
  proof (cases "LEFT_OF i < ?n \<and> \<not> cmp s (arr ! ?w) tmp > 0")
    case False
    have "heap s ?ys"
    proof (rule down_stop [OF 1(5)])
      assume l: "LEFT_OF i < length ?ys"
      then have "?w < ?n" "i < ?w" using wl 1(4) by auto
      then show "cmp s (?ys ! ?w) (?ys ! i) > 0" using False l 1(3,4) by auto
    qed
    then have "settled s ?xs ?n tmp i arr s" using 1(3,4,6) by (intro settled_now) auto
    then show ?thesis using False w by (subst down_loop.simps) (auto simp: c have_child_iff Let_def)
  next
    case True
    then have l: "LEFT_OF i < length ?ys" using 1(4) by simp
    have wn: "?w < ?n" "i < ?w" using wl [OF l] 1(4) by auto
    let ?arr = "arr[i := arr ! ?w]" and ?s = "update (arr ! ?w) i s"
    have sw: "?arr[?w := tmp] = swapped ?xs i ?w" using wn 1(3,4) by (simp add: swapped_def)
    have cx: "\<not> cmp s (?ys ! ?w) (?ys ! i) > 0" using True wn 1(3,4) by simp
    have "heap_down ?s (take ?n (?arr[?w := tmp])) ?w"
      using down_step [OF 1(5) l cx] wn 1(3,4) unfolding sw by (simp add: swapped_take)
    moreover have "placed ?s (take ?n (?arr[?w := tmp])) ?w"
      using placed_step [OF 1(6), of ?w] wn 1(3,4) unfolding sw by (simp add: swapped_take)
    ultimately have "case down_loop q tmp ?w ?arr ?s of (i', arr', s') \<Rightarrow> settled ?s (?arr[?w := tmp]) ?n tmp i' arr' s'"
      using 1(1) [of ?w ?arr] True w wn 1(2-4) c by (simp add: have_child_iff)
    moreover have "arr ! ?w \<in> set ?ys"
      using wn 1(3,4) nth_mem [of ?w ?ys] by simp
    ultimately have "case down_loop q tmp ?w ?arr ?s of (i', arr', s') \<Rightarrow> settled s ?xs ?n tmp i' arr' s'"
      unfolding sw using settled_swapped wn 1(3,4) by (auto split: prod.splits)
    then show ?thesis using True w 1(3,4) by (subst down_loop.simps) (simp add: c have_child_iff Let_def)
  qed
qed

text \<open>The whole of a trickle: heap, positions and multiset of the nodes, and the memory.\<close>

definition ordered :: "nat list \<Rightarrow> 's \<Rightarrow> nat list \<Rightarrow> 's \<Rightarrow> bool" where
  "ordered xs s ys s' \<longleftrightarrow> heap s' ys \<and> mset ys = mset xs \<and> distinct ys \<and>
     (\<forall>j < length ys. position s' (ys ! j) = int j) \<and> told update (set xs) s s'"

lemma settled_ordered:
  assumes "settled s xs n tmp i' arr' s'" "n \<le> length xs"
  shows "ordered (take n xs) s (take n (arr'[i' := tmp])) (update tmp i' s')"
proof -
  let ?ys = "take n (arr'[i' := tmp])"
  have i: "i' < length ?ys" "?ys ! i' = tmp" using assms by (auto simp: settled_def)
  have p: "placed s' ?ys i'" "mset ?ys = mset (take n xs)" using assms(1) by (auto simp: settled_def)
  have "tmp \<in> set (take n xs)" using i p(2) nth_mem [OF i(1)] mset_eq_setD by metis
  then have "told update (set (take n xs)) s (update tmp i' s')"
    using assms(1) told_trans told_one [OF _ told_none] by (metis settled_def)
  moreover have "\<forall>j < length ?ys. position (update tmp i' s') (?ys ! j) = int j"
    using placed_stop [OF p(1) i(1)] unfolding i(2) by blast
  ultimately show ?thesis using assms(1) p unfolding ordered_def by (auto simp: settled_def placed_def)
qed

lemma trickle_up_ordered:
  assumes "wired q" "i < n" "n \<le> length (qarray q)" "heap_up s (take n (qarray q)) i" "placed s (take n (qarray q)) i"
  shows "\<exists>arr s'. trickle_up i q s = (q\<lparr>qarray := arr\<rparr>, s') \<and> length arr = length (qarray q) \<and>
    ordered (take n (qarray q)) s (take n arr) s'"
proof -
  obtain i' arr' s' where l: "up_loop q (qarray q ! i) i (qarray q) s = (i', arr', s')" by (metis prod_cases3)
  have u: "call_update q = update" using assms(1) by (auto simp: wired_def call_update_def fun_eq_iff)
  have "settled s (qarray q) n (qarray q ! i) i' arr' s'"
    using up_loop_settles [OF assms(1-3), of s "qarray q ! i"] assms(4,5) l by simp
  from settled_ordered [OF this assms(3)] this show ?thesis
    by (auto simp: trickle_up_def l u settled_def Let_def)
qed

lemma trickle_down_ordered:
  assumes "wired q" "i < qsize q" "qsize q \<le> length (qarray q)"
    and "heap_down s (take (qsize q) (qarray q)) i" "placed s (take (qsize q) (qarray q)) i"
  shows "\<exists>arr s'. trickle_down i q s = (q\<lparr>qarray := arr\<rparr>, s') \<and> length arr = length (qarray q) \<and>
    ordered (take (qsize q) (qarray q)) s (take (qsize q) arr) s'"
proof -
  obtain i' arr' s' where l: "down_loop q (qarray q ! i) i (qarray q) s = (i', arr', s')" by (metis prod_cases3)
  have u: "call_update q = update" using assms(1) by (auto simp: wired_def call_update_def fun_eq_iff)
  have "settled s (qarray q) (qsize q) (qarray q ! i) i' arr' s'"
    using down_loop_settles [OF assms(1-3), of s "qarray q ! i"] assms(4,5) l by simp
  from settled_ordered [OF this assms(3)] this show ?thesis
    by (auto simp: trickle_down_def l u settled_def Let_def)
qed

section \<open>The contract of the operations\<close>

definition queue_inv :: "'s pqueue \<Rightarrow> 's \<Rightarrow> bool" where
  "queue_inv q s \<longleftrightarrow> wired q \<and> qsize q < length (qarray q) \<and> heap s (nodes q) \<and> distinct (nodes q) \<and>
     (\<forall>j < qsize q. position s (nodes q ! j) = int j)"

lemma length_nodes: "queue_inv q s \<Longrightarrow> length (nodes q) = qsize q"
  by (simp add: nodes_def queue_inv_def)

lemma queue_inv_frame:
  assumes q: "queue_inv q s" and c: "\<And>x y. x \<in> set (nodes q) \<Longrightarrow> y \<in> set (nodes q) \<Longrightarrow> cmp s' x y = cmp s x y"
    and p: "\<And>x. x \<in> set (nodes q) \<Longrightarrow> position s' x = position s x"
  shows "queue_inv q s'"
proof -
  have l: "length (nodes q) = qsize q" by (rule length_nodes [OF q])
  have "heap s' (nodes q)"
    unfolding heap_def
  proof (intro allI impI)
    fix j assume j: "j < length (nodes q)" "0 < j"
    have "PARENT_OF j < length (nodes q)" using j parent_less less_trans by blast
    then show "cmp s' (nodes q ! PARENT_OF j) (nodes q ! j) \<le> 0"
      using j c q by (simp add: queue_inv_def heap_def)
  qed
  then show ?thesis using q p l by (simp add: queue_inv_def)
qed

lemma queue_inv_empty: "wired q \<Longrightarrow> qsize q = 0 \<Longrightarrow> qarray q \<noteq> [] \<Longrightarrow> queue_inv q s"
  by (simp add: queue_inv_def nodes_def heap_def)

lemma ordered_inv:
  assumes "ordered xs s (nodes q) s'" "wired q" "qsize q < length (qarray q)"
  shows "queue_inv q s'"
  using assms by (simp add: ordered_def queue_inv_def nodes_def)

lemma enqueue_ok:
  assumes q: "queue_inv q s" and x: "x \<notin> set (nodes q)"
  shows "\<exists>q' s'. pqueue_enqueue x q s = (q', s') \<and> queue_inv q' s' \<and>
    mset (nodes q') = add_mset x (mset (nodes q)) \<and> told update (insert x (set (nodes q))) s s'"
proof -
  let ?n = "qsize q"
  define q1 where "q1 = (if ?n + 2 \<ge> length (qarray q) then pqueue_expand q else q)"
  define q2 where "q2 = q1\<lparr>qarray := (qarray q1)[?n := x]\<rparr>"
  have n1: "?n + 1 < length (qarray q1)" "take ?n (qarray q1) = nodes q" "wired q1" "qsize q1 = ?n"
    using q by (auto simp: q1_def queue_inv_def pqueue_expand_def wired_def nodes_def)
  have t: "take (?n + 1) (qarray q2) = nodes q @ [x]"
    using n1 by (simp add: q2_def take_Suc_conv_app_nth)
  have w: "wired q2" "qsize q2 = ?n" using n1 by (simp_all add: q2_def wired_def)
  have u: "call_update q2 = update" using w(1) by (auto simp: wired_def call_update_def fun_eq_iff)
  let ?s = "update x ?n s" and ?xs = "nodes q @ [x]"
  have l: "length (nodes q) = ?n" by (rule length_nodes [OF q])
  have h: "cmp s (nodes q ! PARENT_OF j) (nodes q ! j) \<le> 0" if "0 < j" "j < ?n" for j
    using q that l by (simp add: queue_inv_def heap_def)
  have pl: "PARENT_OF j < ?n" if "0 < j" "j < ?n" for j using that parent_less less_trans by blast
  have no_child: "\<not> (j \<le> ?n \<and> 0 < j \<and> PARENT_OF j = ?n)" for j
    by (metis parent_less not_le)
  have "heap_up s ?xs ?n"
    unfolding heap_up_def
  proof (intro conjI allI impI)
    fix j assume j: "j < length ?xs" "0 < j \<and> j \<noteq> ?n"
    then have "j < ?n" using l by simp
    then show "cmp s (?xs ! PARENT_OF j) (?xs ! j) \<le> 0"
      using h [of j] j pl [of j] l by (simp add: nth_append)
  next
    fix j assume j: "j < length ?xs" "0 < j \<and> PARENT_OF j = ?n \<and> 0 < ?n"
    then have "j \<le> ?n" using l by simp
    with j no_child show "cmp s (?xs ! PARENT_OF ?n) (?xs ! j) \<le> 0" by blast
  qed
  then have up: "heap_up ?s (take (?n + 1) (qarray q2)) ?n" unfolding t by simp
  have pos: "placed ?s (take (?n + 1) (qarray q2)) ?n"
    unfolding t placed_def
  proof (intro conjI allI impI)
    show "distinct ?xs" using q x by (simp add: queue_inv_def)
    fix j assume "j < length ?xs" "j \<noteq> ?n"
    then have "j < ?n" "nodes q ! j \<noteq> x" using x l nth_mem [of j "nodes q"] by auto
    then show "position ?s (?xs ! j) = int j"
      using q l by (simp add: queue_inv_def nth_append position_update)
  qed
  obtain arr s' where r: "trickle_up ?n q2 ?s = (q2\<lparr>qarray := arr\<rparr>, s')" "length arr = length (qarray q2)"
      "ordered ?xs ?s (take (?n + 1) arr) s'"
    using trickle_up_ordered [OF w(1) _ _ up pos] n1(1) unfolding t by (auto simp: q2_def)
  let ?q' = "q2\<lparr>qarray := arr, qsize := ?n + 1\<rparr>"
  have nq: "nodes ?q' = take (?n + 1) arr" by (simp add: nodes_def)
  have "pqueue_enqueue x q s = (?q', s')"
    unfolding pqueue_enqueue_def q1_def [symmetric] Let_def using r(1) u w(2) n1(4) by (simp add: q2_def)
  moreover have "queue_inv ?q' s'"
    using r(2,3) w(1) n1(1) unfolding nq [symmetric] by (intro ordered_inv) (auto simp: wired_def q2_def)
  moreover have "mset (nodes ?q') = add_mset x (mset (nodes q))" using r(3) unfolding nq by (simp add: ordered_def)
  moreover have "told update (insert x (set (nodes q))) s s'"
    using r(3) by (auto simp: ordered_def intro: told_one)
  ultimately show ?thesis by blast
qed

lemma trickle_down_idle:
  "wired q \<Longrightarrow> \<not> HAVE_CHILD i q \<Longrightarrow> trickle_down i q s = (q, update (qarray q ! i) i s)"
  by (simp add: trickle_down_def down_loop.simps wired_def call_update_def)

text \<open>The last node takes the place of node \<open>i\<close>.\<close>

definition refilled :: "nat list \<Rightarrow> nat \<Rightarrow> nat list" where
  "refilled xs i = (butlast xs)[i := last xs]"

lemma refilled_nth: "i < length xs - 1 \<Longrightarrow> j < length xs - 1 \<Longrightarrow> refilled xs i ! j = (if j = i then last xs else xs ! j)"
  by (simp add: refilled_def nth_list_update nth_butlast)

lemma length_refilled [simp]: "length (refilled xs i) = length xs - 1"
  by (simp add: refilled_def)

lemma mset_refilled:
  assumes "i < length xs - 1"
  shows "mset xs = add_mset (xs ! i) (mset (refilled xs i))"
proof -
  have "xs \<noteq> []" using assms by auto
  then have "mset xs = add_mset (last xs) (mset (butlast xs))"
    by (metis append_butlast_last_id mset.simps(1,2) union_mset_add_mset_right add.right_neutral mset_append)
  moreover have "butlast xs ! i \<in># mset (butlast xs)" using assms by simp
  ultimately show ?thesis
    using assms by (simp add: refilled_def mset_update nth_butlast add_mset_commute)
qed

lemma refilled_placed:
  assumes "distinct xs" "\<forall>j < length xs. position s (xs ! j) = int j" "i < length xs - 1"
  shows "placed s (refilled xs i) i"
proof -
  have "distinct (refilled xs i)"
    using mset_refilled [OF assms(3)] assms(1) by (metis distinct.simps(2) mset.simps(2) mset_eq_imp_distinct_iff)
  then show ?thesis using assms(2,3) by (simp add: placed_def refilled_nth)
qed

lemma refilled_heap:
  assumes h: "heap s xs" and i: "i < length xs - 1"
  shows "0 < i \<and> cmp s (refilled xs i ! i) (refilled xs i ! PARENT_OF i) < 0 \<Longrightarrow> heap_up s (refilled xs i) i"
    "\<not> (0 < i \<and> cmp s (refilled xs i ! i) (refilled xs i ! PARENT_OF i) < 0) \<Longrightarrow> heap_down s (refilled xs i) i"
proof -
  let ?ys = "refilled xs i"
  note nth = refilled_nth [OF i]
  have le: "cmp s (xs ! PARENT_OF j) (xs ! j) \<le> 0" if "0 < j" "j < length xs - 1" for j
    using h that by (simp add: heap_def)
  have pl: "PARENT_OF j < length xs - 1" if "0 < j" "j < length xs - 1" for j using that parent_less less_trans by blast
  have skip: "cmp s (?ys ! PARENT_OF i) (?ys ! j) \<le> 0" if j: "j < length ?ys" "0 < j" "PARENT_OF j = i" "0 < i" for j
  proof -
    have "cmp s (xs ! PARENT_OF i) (xs ! j) \<le> 0"
      using cmp_trans [OF le [OF j(4) i]] le [OF j(2)] j by simp
    moreover have "j \<noteq> i" "PARENT_OF i \<noteq> i" using j parent_less by (metis less_irrefl)+
    ultimately show ?thesis using nth pl [OF j(4) i] j(1) by simp
  qed
  show "heap_up s ?ys i" if c: "0 < i \<and> cmp s (?ys ! i) (?ys ! PARENT_OF i) < 0"
    unfolding heap_up_def
  proof (intro conjI allI impI)
    fix j assume j: "j < length ?ys" "0 < j \<and> j \<noteq> i"
    show "cmp s (?ys ! PARENT_OF j) (?ys ! j) \<le> 0"
    proof (cases "PARENT_OF j = i")
      case True
      then have "cmp s (?ys ! PARENT_OF i) (?ys ! j) \<le> 0" using skip j c by blast
      then show ?thesis using cmp_trans [of s "?ys ! i" "?ys ! PARENT_OF i" "?ys ! j"] c True by simp
    next
      case False
      then show ?thesis using le [of j] pl [of j] nth j by simp
    qed
  qed (use skip in blast)
  show "heap_down s ?ys i" if c: "\<not> (0 < i \<and> cmp s (?ys ! i) (?ys ! PARENT_OF i) < 0)"
    unfolding heap_down_def
  proof (intro conjI allI impI)
    fix j assume j: "j < length ?ys" "0 < j \<and> PARENT_OF j \<noteq> i"
    show "cmp s (?ys ! PARENT_OF j) (?ys ! j) \<le> 0"
    proof (cases "j = i")
      case True
      then show ?thesis using c j cmp_sym [of s "?ys ! i" "?ys ! PARENT_OF i"] cmp_sym [of s "?ys ! PARENT_OF i" "?ys ! i"] by auto
    next
      case False
      then show ?thesis using le [of j] pl [of j] nth j by simp
    qed
  qed (use skip in blast)
qed

lemma remove_at_ok:
  assumes q: "queue_inv q s" and i: "i < qsize q"
  shows "\<exists>q' s'. pqueue_remove_at i q s = Some (q', s') \<and> queue_inv q' s' \<and>
    mset (nodes q) = add_mset (nodes q ! i) (mset (nodes q')) \<and> told update (set (nodes q)) s s'"
proof -
  let ?n = "qsize q - 1"
  define q1 where "q1 = q\<lparr>qsize := ?n, qarray := (qarray q)[i := qarray q ! ?n]\<rparr>"
  define up where "up \<longleftrightarrow> i > 0 \<and> cmp s (qarray q1 ! i) (qarray q1 ! PARENT_OF i) < 0"
  have w: "wired q1" "qsize q1 = ?n" "length (qarray q1) = length (qarray q)" "?n < length (qarray q)"
    using q by (auto simp: q1_def wired_def queue_inv_def)
  have eq: "pqueue_remove_at i q s = Some (if up then trickle_up i q1 s else trickle_down i q1 s)"
    using i w(1) unfolding pqueue_remove_at_def up_def q1_def Let_def by (simp add: wired_def)
  have l: "length (nodes q) = qsize q" by (rule length_nodes [OF q])
  have nn: "nodes q ! j = qarray q ! j" if "j < qsize q" for j using that by (simp add: nodes_def)
  have n: "nodes q = take ?n (qarray q) @ [qarray q ! ?n]"
  proof -
    have "Suc ?n = qsize q" using i by simp
    then show ?thesis unfolding nodes_def using take_Suc_conv_app_nth [OF w(4)] by simp
  qed
  have q0: "heap s (nodes q)" "distinct (nodes q)" "\<forall>j < length (nodes q). position s (nodes q ! j) = int j"
    using q l by (auto simp: queue_inv_def)
  show ?thesis
  proof (cases "i < ?n")
    case True
    then have il: "i < length (nodes q) - 1" using l by simp
    have n1: "nodes q1 = refilled (nodes q) i"
      unfolding nodes_def [of q1] refilled_def n using True w(4) by (simp add: q1_def take_update_swap)
    have nq: "qarray q1 ! j = nodes q1 ! j" if "j < ?n" for j using that w(2) by (simp add: nodes_def)
    have up': "up \<longleftrightarrow> 0 < i \<and> cmp s (refilled (nodes q) i ! i) (refilled (nodes q) i ! PARENT_OF i) < 0"
    proof (cases "0 < i")
      case pos: True
      then have "PARENT_OF i < i" by simp
      then have "PARENT_OF i < ?n" using True by (rule less_trans)
      then show ?thesis using nq [OF True] nq [of "PARENT_OF i"] unfolding up_def n1 by simp
    qed (simp add: up_def)
    have pl: "placed s (take ?n (qarray q1)) i"
      using refilled_placed [OF q0(2,3) il] w(2) n1 by (simp add: nodes_def)
    have "\<exists>arr s'. (if up then trickle_up i q1 s else trickle_down i q1 s) = (q1\<lparr>qarray := arr\<rparr>, s') \<and>
        length arr = length (qarray q1) \<and> ordered (nodes q1) s (take ?n arr) s'"
    proof (cases up)
      case True
      then have "heap_up s (take ?n (qarray q1)) i"
        using refilled_heap(1) [OF q0(1) il] up' n1 w(2) by (simp add: nodes_def)
      then show ?thesis
        using trickle_up_ordered [OF w(1) \<open>i < ?n\<close> _ _ pl] True w by (simp add: nodes_def)
    next
      case False
      then have "heap_down s (take ?n (qarray q1)) i"
        using refilled_heap(2) [OF q0(1) il] up' n1 w(2) by (simp add: nodes_def)
      then show ?thesis
        using trickle_down_ordered [OF w(1), of i s] \<open>i < ?n\<close> pl False w by (simp add: nodes_def)
    qed
    then obtain arr s' where r: "(if up then trickle_up i q1 s else trickle_down i q1 s) = (q1\<lparr>qarray := arr\<rparr>, s')"
        "length arr = length (qarray q1)" "ordered (nodes q1) s (take ?n arr) s'" by blast
    let ?q' = "q1\<lparr>qarray := arr\<rparr>"
    have nq': "nodes ?q' = take ?n arr" using w(2) by (simp add: nodes_def)
    have "queue_inv ?q' s'"
      using r(2,3) w unfolding nq' [symmetric] by (intro ordered_inv) (auto simp: wired_def)
    moreover have m: "mset (nodes q) = add_mset (nodes q ! i) (mset (nodes q1))"
      using mset_refilled [OF il] n1 by simp
    moreover have "told update (set (nodes q)) s s'"
    proof -
      have "set (nodes q1) \<subseteq> set (nodes q)"
        using m by (metis mset_subset_eqD mset_subset_eq_add_right add_mset_add_single set_mset_mset subsetI union_commute)
      then show ?thesis using r(3) told_mono by (auto simp: ordered_def)
    qed
    ultimately show ?thesis using eq r(1,3) unfolding nq' [symmetric] ordered_def by auto
  next
    case False
    then have i': "i = ?n" using i by simp
    then have qa: "q1 = q\<lparr>qsize := ?n\<rparr>" by (simp add: q1_def)
    have nq: "nodes q = nodes q1 @ [nodes q ! i]" using n i' nn [OF i] qa by (simp add: nodes_def)
    have "\<not> up"
    proof
      assume u: up
      then have "0 < i" by (simp add: up_def)
      then have p: "PARENT_OF i < qsize q" using i parent_less less_trans by blast
      have "cmp s (nodes q ! PARENT_OF i) (nodes q ! i) \<le> 0" using q0(1) i l \<open>0 < i\<close> by (simp add: heap_def)
      moreover have "cmp s (nodes q ! i) (nodes q ! PARENT_OF i) < 0" using u qa i p nn by (simp add: up_def)
      ultimately show False using cmp_sym by (metis not_le)
    qed
    moreover have "\<not> HAVE_CHILD i q1" using i' w(2) by (simp add: HAVE_CHILD_def)
    ultimately have "pqueue_remove_at i q s = Some (q1, update (nodes q ! i) i s)"
      using eq trickle_down_idle [OF w(1)] qa i nn by simp
    moreover have "mset (nodes q) = add_mset (nodes q ! i) (mset (nodes q1))" by (subst nq) simp
    moreover have "nodes q ! i \<in> set (nodes q)" using i l by simp
    moreover have "queue_inv q1 (update (nodes q ! i) i s)"
    proof (rule queue_inv_frame)
      have hp: "heap s (nodes q1)" using q0(1) unfolding heap_def
      proof (intro allI impI)
        fix j assume a: "\<forall>j < length (nodes q). 0 < j \<longrightarrow> cmp s (nodes q ! PARENT_OF j) (nodes q ! j) \<le> 0"
          and j: "j < length (nodes q1)" "0 < j"
        have "PARENT_OF j < length (nodes q1)" using j parent_less less_trans by blast
        then show "cmp s (nodes q1 ! PARENT_OF j) (nodes q1 ! j) \<le> 0"
          using a j nq by (metis length_append less_Suc_eq nth_append trans_less_add1)
      qed
      have "position s (nodes q1 ! j) = int j" if "j < qsize q1" for j
        using q0(3) that w(2,4) l by (simp add: nodes_def qa)
      moreover have "distinct (nodes q1)" using q0(2) by (subst (asm) nq) simp
      ultimately show "queue_inv q1 s" using w hp by (simp add: queue_inv_def)
      show "cmp (update (nodes q ! i) i s) x y = cmp s x y" for x y by (simp add: cmp_update)
      have "nodes q ! i \<notin> set (nodes q1)" using q0(2) by (subst (asm) nq) simp
      then show "position (update (nodes q ! i) i s) x = position s x" if "x \<in> set (nodes q1)" for x
        using that by (auto simp: position_update)
    qed
    ultimately show ?thesis using told_one told_none by metis
  qed
qed

lemma dequeue_remove:
  "pqueue_dequeue q s = map_option (\<lambda>(q', s'). (qarray q ! 0, q', s')) (pqueue_remove_at 0 q s)"
  by (simp add: pqueue_dequeue_def pqueue_remove_at_def Let_def split: prod.split)

lemma dequeue_ok:
  assumes q: "queue_inv q s" and ne: "qsize q \<noteq> 0"
  shows "\<exists>q' s'. pqueue_dequeue q s = Some (nodes q ! 0, q', s') \<and> queue_inv q' s' \<and>
    mset (nodes q) = add_mset (nodes q ! 0) (mset (nodes q')) \<and> told update (set (nodes q)) s s' \<and>
    (\<forall>y \<in> set (nodes q). cmp s (nodes q ! 0) y \<le> 0)"
proof -
  have "heap s (nodes q)" using q by (simp add: queue_inv_def)
  then have "\<forall>y \<in> set (nodes q). cmp s (nodes q ! 0) y \<le> 0" by (metis heap_root in_set_conv_nth)
  moreover have "qarray q ! 0 = nodes q ! 0" using ne by (simp add: nodes_def)
  ultimately show ?thesis using remove_at_ok [OF q, of 0] ne dequeue_remove [of q s] by auto
qed

end

end
