(* ===== verification/EventLoop.thy ===== *)
theory EventLoop
  imports PQueue
begin

text \<open>
  The event loop of every daemon, \<open>lib/thread.c\<close>, with the time arithmetic of \<open>lib/timer.c\<close>.
  A \<open>struct thread *\<close> is an address (\<open>0\<close> is NULL) into \<open>threads\<close>; the lists of the thread
  master are doubly linked through the threads themselves, the two timer queues are those of
  \<open>PQueue\<close>.  The six lists and two queues of \<open>struct thread_master\<close> are indexed by
  \<open>list_id\<close> and \<open>queue_id\<close>.  \<open>None\<close> is a failed assertion.  What comes from outside is given
  with the calls: \<open>mem\<close> the addresses \<open>XCALLOC\<close> returns, \<open>now\<close> the reading of the clock,
  and for every turn of the loop in \<open>thread_fetch\<close> what the signal handlers ask of the event
  loop and the answer of \<open>select\<close>.
\<close>

section \<open>Time\<close>

record timeval =
  tv_sec :: int
  tv_usec :: int

abbreviation (input) TIMER_SECOND_MICRO :: int where "TIMER_SECOND_MICRO \<equiv> 1000000"

definition timeval_cmp :: "timeval \<Rightarrow> timeval \<Rightarrow> int" where
  "timeval_cmp a b = (if tv_sec a = tv_sec b then tv_usec a - tv_usec b else tv_sec a - tv_sec b)"

text \<open>The two loops of \<open>timeval_adjust\<close>.\<close>

function carry_usec :: "timeval \<Rightarrow> timeval" where
  "carry_usec a =
     (if tv_usec a \<ge> TIMER_SECOND_MICRO
      then carry_usec (a\<lparr>tv_usec := tv_usec a - TIMER_SECOND_MICRO, tv_sec := tv_sec a + 1\<rparr>) else a)"
  by pat_completeness auto
termination by (relation "measure (\<lambda>a. nat (tv_usec a))") auto

function borrow_usec :: "timeval \<Rightarrow> timeval" where
  "borrow_usec a =
     (if tv_usec a < 0
      then borrow_usec (a\<lparr>tv_usec := tv_usec a + TIMER_SECOND_MICRO, tv_sec := tv_sec a - 1\<rparr>) else a)"
  by pat_completeness auto
termination by (relation "measure (\<lambda>a. nat (- tv_usec a))") auto

declare carry_usec.simps [simp del] borrow_usec.simps [simp del]

definition timeval_adjust :: "timeval \<Rightarrow> timeval" where
  "timeval_adjust a =
     (let a = borrow_usec (carry_usec a) in
      if tv_sec a < 0 then a\<lparr>tv_usec := 0, tv_sec := 0\<rparr> else a)"

definition timeval_subtract :: "timeval \<Rightarrow> timeval \<Rightarrow> timeval" where
  "timeval_subtract a b = timeval_adjust \<lparr>tv_sec = tv_sec a - tv_sec b, tv_usec = tv_usec a - tv_usec b\<rparr>"

definition timeval_elapsed :: "timeval \<Rightarrow> timeval \<Rightarrow> 64 word" where
  "timeval_elapsed a b = of_int ((tv_sec a - tv_sec b) * TIMER_SECOND_MICRO + (tv_usec a - tv_usec b))"

section \<open>Threads and the thread master\<close>

datatype thread_type =
    THREAD_READ | THREAD_WRITE | THREAD_TIMER | THREAD_EVENT | THREAD_EVENT_NORMAL
  | THREAD_READY | THREAD_BACKGROUND | THREAD_UNUSED | THREAD_EXECUTE

text \<open>The union \<open>u\<close> of \<open>struct thread\<close>.\<close>

datatype thread_u = U_val (u_val: int) | U_fd (u_fd: nat) | U_sands (u_sands: timeval)

record thread =
  ttype :: thread_type
  add_type :: thread_type
  tnext :: nat
  tprev :: nat
  func :: nat
  arg :: nat
  u :: thread_u
  index :: int
  cmd_excute :: nat
  config_finish :: nat

type_synonym thread_heap = "nat \<Rightarrow> thread option"

record thread_list =
  head :: nat
  tail :: nat
  tcount :: int

datatype list_id = L_read | L_write | L_event | L_event_normal | L_ready | L_unuse
datatype queue_id = Q_timer | Q_background

text \<open>\<open>struct quagga_signal_t\<close> of \<open>lib/sigevent.h\<close>.\<close>

record quagga_signal =
  signal_no :: nat
  handler :: nat
  caught :: nat

abbreviation (input) SIGALRM :: nat where "SIGALRM \<equiv> 14"

record event_loop =
  threads :: thread_heap
  lists :: "list_id \<Rightarrow> thread_list"
  queues :: "queue_id \<Rightarrow> thread_heap pqueue"
  readfd :: "nat set"
  writefd :: "nat set"
  alloc :: int
  m_func :: nat
  m_config :: nat
  relative_time :: timeval
  signals :: "quagga_signal list"
  sig_caught :: bool
  timer_msgs :: nat

definition zero_thread :: thread where
  "zero_thread = \<lparr>ttype = THREAD_READ, add_type = THREAD_READ, tnext = 0, tprev = 0, func = 0, arg = 0,
     u = U_val 0, index = 0, cmd_excute = 0, config_finish = 0\<rparr>"

definition thread_at :: "nat \<Rightarrow> event_loop \<Rightarrow> thread" where
  "thread_at t s = the (threads s t)"

definition upd_thread :: "nat \<Rightarrow> (thread \<Rightarrow> thread) \<Rightarrow> event_loop \<Rightarrow> event_loop" where
  "upd_thread t f s = s\<lparr>threads := (threads s)(t := Some (f (thread_at t s)))\<rparr>"

definition upd_list :: "list_id \<Rightarrow> (thread_list \<Rightarrow> thread_list) \<Rightarrow> event_loop \<Rightarrow> event_loop" where
  "upd_list l f s = s\<lparr>lists := (lists s)(l := f (lists s l))\<rparr>"

definition thread_timer_cmp :: "thread_heap \<Rightarrow> nat \<Rightarrow> nat \<Rightarrow> int" where
  "thread_timer_cmp h a b =
     (let c = timeval_cmp (u_sands (u (the (h a)))) (u_sands (u (the (h b)))) in
      if c < 0 then - 1 else if c > 0 then 1 else 0)"

definition thread_timer_update :: "nat \<Rightarrow> nat \<Rightarrow> thread_heap \<Rightarrow> thread_heap" where
  "thread_timer_update t actual_position h = h(t := Some ((the (h t))\<lparr>index := int actual_position\<rparr>))"

definition thread_master_create :: event_loop where
  "thread_master_create =
     (let q = pqueue_create\<lparr>qcmp := Some thread_timer_cmp, qupdate := Some thread_timer_update\<rparr> in
      \<lparr>threads = Map.empty, lists = (\<lambda>_. \<lparr>head = 0, tail = 0, tcount = 0\<rparr>), queues = (\<lambda>_. q),
       readfd = {}, writefd = {}, alloc = 0, m_func = 0, m_config = 0, relative_time = \<lparr>tv_sec = 0, tv_usec = 0\<rparr>,
       signals = [], sig_caught = False, timer_msgs = 0\<rparr>)"

section \<open>Lists of threads\<close>

definition thread_list_add :: "list_id \<Rightarrow> nat \<Rightarrow> event_loop \<Rightarrow> event_loop" where
  "thread_list_add l t s =
     (let s = upd_thread t (\<lambda>n. n\<lparr>tnext := 0, tprev := tail (lists s l)\<rparr>) s;
          s = (if tail (lists s l) \<noteq> 0 then upd_thread (tail (lists s l)) (\<lambda>n. n\<lparr>tnext := t\<rparr>) s
               else upd_list l (\<lambda>x. x\<lparr>head := t\<rparr>) s)
      in upd_list l (\<lambda>x. x\<lparr>tail := t, tcount := tcount x + 1\<rparr>) s)"

definition thread_list_delete :: "list_id \<Rightarrow> nat \<Rightarrow> event_loop \<Rightarrow> event_loop" where
  "thread_list_delete l t s =
     (let s = (if tnext (thread_at t s) \<noteq> 0
               then upd_thread (tnext (thread_at t s)) (\<lambda>n. n\<lparr>tprev := tprev (thread_at t s)\<rparr>) s
               else upd_list l (\<lambda>x. x\<lparr>tail := tprev (thread_at t s)\<rparr>) s);
          s = (if tprev (thread_at t s) \<noteq> 0
               then upd_thread (tprev (thread_at t s)) (\<lambda>n. n\<lparr>tnext := tnext (thread_at t s)\<rparr>) s
               else upd_list l (\<lambda>x. x\<lparr>head := tnext (thread_at t s)\<rparr>) s);
          s = upd_thread t (\<lambda>n. n\<lparr>tnext := 0, tprev := 0\<rparr>) s
      in upd_list l (\<lambda>x. x\<lparr>tcount := tcount x - 1\<rparr>) s)"

definition thread_add_unuse :: "nat \<Rightarrow> event_loop \<Rightarrow> event_loop option" where
  "thread_add_unuse t s =
     (let n = thread_at t s in
      if t = 0 \<or> tnext n \<noteq> 0 \<or> tprev n \<noteq> 0 \<or> ttype n \<noteq> THREAD_UNUSED then None
      else Some (thread_list_add L_unuse t s))"

definition thread_empty :: "list_id \<Rightarrow> event_loop \<Rightarrow> bool" where
  "thread_empty l s \<longleftrightarrow> head (lists s l) = 0"

definition thread_trim_head :: "list_id \<Rightarrow> event_loop \<Rightarrow> nat \<times> event_loop" where
  "thread_trim_head l s =
     (if \<not> thread_empty l s then let t = head (lists s l) in (t, thread_list_delete l t s) else (0, s))"

section \<open>Adding threads\<close>

definition thread_get :: "nat \<Rightarrow> thread_type \<Rightarrow> nat \<Rightarrow> nat \<Rightarrow> event_loop \<Rightarrow> nat \<times> event_loop" where
  "thread_get addr ty f a s =
     (case thread_trim_head L_unuse s of (t, s) \<Rightarrow>
        let (t, s) = (if t = 0 then (addr, s\<lparr>threads := (threads s)(addr := Some zero_thread), alloc := alloc s + 1\<rparr>)
                      else (t, s));
            s = upd_thread t (\<lambda>n. n\<lparr>ttype := ty, add_type := ty, func := f, arg := a, index := - 1,
                  cmd_excute := m_func s, config_finish := m_config s\<rparr>) s
        in (t, s))"

definition thread_add_read :: "nat \<Rightarrow> nat \<Rightarrow> nat \<Rightarrow> nat \<Rightarrow> event_loop \<Rightarrow> nat \<times> event_loop" where
  "thread_add_read addr f a fd s =
     (if fd \<in> readfd s then (0, s)
      else case thread_get addr THREAD_READ f a s of (t, s) \<Rightarrow>
        let s = s\<lparr>readfd := insert fd (readfd s)\<rparr>;
            s = upd_thread t (\<lambda>n. n\<lparr>u := U_fd fd\<rparr>) s
        in (t, thread_list_add L_read t s))"

definition thread_add_write :: "nat \<Rightarrow> nat \<Rightarrow> nat \<Rightarrow> nat \<Rightarrow> event_loop \<Rightarrow> nat \<times> event_loop" where
  "thread_add_write addr f a fd s =
     (if fd \<in> writefd s then (0, s)
      else case thread_get addr THREAD_WRITE f a s of (t, s) \<Rightarrow>
        let s = s\<lparr>writefd := insert fd (writefd s)\<rparr>;
            s = upd_thread t (\<lambda>n. n\<lparr>u := U_fd fd\<rparr>) s
        in (t, thread_list_add L_write t s))"

definition thread_add_timer_timeval ::
  "nat \<Rightarrow> nat \<Rightarrow> thread_type \<Rightarrow> nat \<Rightarrow> timeval \<Rightarrow> timeval \<Rightarrow> event_loop \<Rightarrow> (nat \<times> event_loop) option" where
  "thread_add_timer_timeval addr f ty a time_relative now s =
     (if ty \<noteq> THREAD_TIMER \<and> ty \<noteq> THREAD_BACKGROUND then None
      else
        let qi = (if ty = THREAD_TIMER then Q_timer else Q_background);
            (t, s) = thread_get addr ty f a s;
            s = s\<lparr>relative_time := now\<rparr>;
            alarm_time = \<lparr>tv_sec = tv_sec (relative_time s) + tv_sec time_relative,
                          tv_usec = tv_usec (relative_time s) + tv_usec time_relative\<rparr>;
            s = upd_thread t (\<lambda>n. n\<lparr>u := U_sands (timeval_adjust alarm_time)\<rparr>) s
        in case pqueue_enqueue t (queues s qi) (threads s) of (q, h) \<Rightarrow>
             Some (t, s\<lparr>queues := (queues s)(qi := q), threads := h\<rparr>))"

text \<open>C division rounds to zero.\<close>

definition msec_timeval :: "int \<Rightarrow> timeval" where
  "msec_timeval timer = \<lparr>tv_sec = sgn timer * (\<bar>timer\<bar> div 1000), tv_usec = 1000 * (sgn timer * (\<bar>timer\<bar> mod 1000))\<rparr>"

definition thread_add_timer :: "nat \<Rightarrow> nat \<Rightarrow> nat \<Rightarrow> int \<Rightarrow> timeval \<Rightarrow> event_loop \<Rightarrow> (nat \<times> event_loop) option" where
  "thread_add_timer addr f a timer = thread_add_timer_timeval addr f THREAD_TIMER a \<lparr>tv_sec = timer, tv_usec = 0\<rparr>"

definition thread_add_timer_msec :: "nat \<Rightarrow> nat \<Rightarrow> nat \<Rightarrow> int \<Rightarrow> timeval \<Rightarrow> event_loop \<Rightarrow> (nat \<times> event_loop) option" where
  "thread_add_timer_msec addr f a timer = thread_add_timer_timeval addr f THREAD_TIMER a (msec_timeval timer)"

definition thread_add_background :: "nat \<Rightarrow> nat \<Rightarrow> nat \<Rightarrow> int \<Rightarrow> timeval \<Rightarrow> event_loop \<Rightarrow> (nat \<times> event_loop) option" where
  "thread_add_background addr f a delay = thread_add_timer_timeval addr f THREAD_BACKGROUND a
     (if delay \<noteq> 0 then msec_timeval delay else \<lparr>tv_sec = 0, tv_usec = 0\<rparr>)"

definition thread_add_event :: "nat \<Rightarrow> nat \<Rightarrow> nat \<Rightarrow> int \<Rightarrow> event_loop \<Rightarrow> nat \<times> event_loop" where
  "thread_add_event addr f a val s =
     (case thread_get addr THREAD_EVENT f a s of (t, s) \<Rightarrow>
        (t, thread_list_add L_event t (upd_thread t (\<lambda>n. n\<lparr>u := U_val val\<rparr>) s)))"

definition thread_add_event_normal :: "nat \<Rightarrow> nat \<Rightarrow> nat \<Rightarrow> int \<Rightarrow> event_loop \<Rightarrow> nat \<times> event_loop" where
  "thread_add_event_normal addr f a val s =
     (case thread_get addr THREAD_EVENT_NORMAL f a s of (t, s) \<Rightarrow>
        (t, thread_list_add L_event_normal t (upd_thread t (\<lambda>n. n\<lparr>u := U_val val\<rparr>) s)))"

section \<open>Cancelling\<close>

definition make_unused :: "nat \<Rightarrow> event_loop \<Rightarrow> event_loop option" where
  "make_unused t s = thread_add_unuse t (upd_thread t (\<lambda>n. n\<lparr>ttype := THREAD_UNUSED\<rparr>) s)"

definition cancel_in_list :: "list_id \<Rightarrow> nat \<Rightarrow> event_loop \<Rightarrow> event_loop option" where
  "cancel_in_list l t s = make_unused t (thread_list_delete l t s)"

definition cancel_in_queue :: "queue_id \<Rightarrow> nat \<Rightarrow> event_loop \<Rightarrow> event_loop option" where
  "cancel_in_queue qi t s =
     (let q = queues s qi; i = index (thread_at t s) in
      if i < 0 \<or> qarray q ! nat i \<noteq> t then None
      else case pqueue_remove_at (nat i) q (threads s) of
        None \<Rightarrow> None
      | Some (q, h) \<Rightarrow> make_unused t (s\<lparr>queues := (queues s)(qi := q), threads := h\<rparr>))"

definition thread_cancel :: "nat \<Rightarrow> event_loop \<Rightarrow> event_loop option" where
  "thread_cancel t s =
     (let n = thread_at t s in
      case ttype n of
        THREAD_READ \<Rightarrow>
          if u_fd (u n) \<notin> readfd s then None
          else cancel_in_list L_read t (s\<lparr>readfd := readfd s - {u_fd (u n)}\<rparr>)
      | THREAD_WRITE \<Rightarrow>
          if u_fd (u n) \<notin> writefd s then None
          else cancel_in_list L_write t (s\<lparr>writefd := writefd s - {u_fd (u n)}\<rparr>)
      | THREAD_TIMER \<Rightarrow> cancel_in_queue Q_timer t s
      | THREAD_EVENT \<Rightarrow> cancel_in_list L_event t s
      | THREAD_EVENT_NORMAL \<Rightarrow> cancel_in_list L_event_normal t s
      | THREAD_READY \<Rightarrow> cancel_in_list L_ready t s
      | THREAD_BACKGROUND \<Rightarrow> cancel_in_queue Q_background t s
      | _ \<Rightarrow> Some s)"

text \<open>The loops of \<open>thread_cancel_event\<close>: \<open>t\<close> is the thread, its successor is read first.\<close>

partial_function (option) cancel_arg ::
  "list_id \<Rightarrow> nat \<Rightarrow> nat \<Rightarrow> nat \<Rightarrow> event_loop \<Rightarrow> (nat \<times> event_loop) option" where
  "cancel_arg l a t ret s =
     (if t = 0 then Some (ret, s)
      else
        let n = tnext (thread_at t s) in
        if arg (thread_at t s) = a then
          (case cancel_in_list l t s of None \<Rightarrow> None | Some s \<Rightarrow> cancel_arg l a n (ret + 1) s)
        else cancel_arg l a n ret s)"

declare cancel_arg.simps [code]

definition cancel_event_in :: "list_id \<Rightarrow> nat \<Rightarrow> event_loop \<Rightarrow> (nat \<times> event_loop) option" where
  "cancel_event_in l a s =
     (case cancel_arg l a (head (lists s l)) 0 s of
        None \<Rightarrow> None
      | Some (ret, s) \<Rightarrow> cancel_arg L_ready a (head (lists s L_ready)) ret s)"

definition thread_cancel_event :: "nat \<Rightarrow> event_loop \<Rightarrow> (nat \<times> event_loop) option" where
  "thread_cancel_event = cancel_event_in L_event"

definition thread_cancel_event_normal :: "nat \<Rightarrow> event_loop \<Rightarrow> (nat \<times> event_loop) option" where
  "thread_cancel_event_normal = cancel_event_in L_event_normal"

section \<open>Scheduling\<close>

definition thread_timer_remain_second :: "nat \<Rightarrow> timeval \<Rightarrow> event_loop \<Rightarrow> int \<times> event_loop" where
  "thread_timer_remain_second t now s =
     (let s = s\<lparr>relative_time := now\<rparr>; d = tv_sec (u_sands (u (thread_at t s))) - tv_sec (relative_time s)
      in (if d > 0 then d else 0, s))"

definition thread_timer_remain :: "nat \<Rightarrow> timeval \<Rightarrow> event_loop \<Rightarrow> timeval \<times> event_loop" where
  "thread_timer_remain t now s =
     (let s = s\<lparr>relative_time := now\<rparr> in (timeval_subtract (u_sands (u (thread_at t s))) (relative_time s), s))"

definition thread_timer_wait :: "queue_id \<Rightarrow> event_loop \<Rightarrow> timeval option" where
  "thread_timer_wait qi s =
     (let q = queues s qi in
      if qsize q \<noteq> 0 then Some (timeval_subtract (u_sands (u (thread_at (qarray q ! 0) s))) (relative_time s)) else None)"

text \<open>The copy of the thread that is handed out, and the thread on the list of unused ones.\<close>

definition thread_run :: "nat \<Rightarrow> event_loop \<Rightarrow> (thread \<times> event_loop) option" where
  "thread_run t s = map_option (Pair (thread_at t s)) (make_unused t s)"

text \<open>\<open>fds l\<close> is \<open>&m->readfd\<close> or \<open>&m->writefd\<close>.\<close>

definition fds :: "list_id \<Rightarrow> event_loop \<Rightarrow> nat set" where
  "fds l s = (if l = L_read then readfd s else writefd s)"

definition fd_clr :: "list_id \<Rightarrow> nat \<Rightarrow> event_loop \<Rightarrow> event_loop" where
  "fd_clr l fd s = (if l = L_read then s\<lparr>readfd := readfd s - {fd}\<rparr> else s\<lparr>writefd := writefd s - {fd}\<rparr>)"

partial_function (option) process_fd ::
  "list_id \<Rightarrow> nat set \<Rightarrow> nat \<Rightarrow> nat \<Rightarrow> event_loop \<Rightarrow> (nat \<times> event_loop) option" where
  "process_fd l fdset t ready s =
     (if t = 0 then Some (ready, s)
      else
        let n = tnext (thread_at t s); fd = u_fd (u (thread_at t s)) in
        if fd \<in> fdset then
          if fd \<notin> fds l s then None
          else
            let s = fd_clr l fd s;
                s = thread_list_delete l t s;
                s = thread_list_add L_ready t s;
                s = upd_thread t (\<lambda>n. n\<lparr>ttype := THREAD_READY\<rparr>) s
            in process_fd l fdset n (ready + 1) s
        else process_fd l fdset n ready s)"

declare process_fd.simps [code]

definition thread_process_fd :: "list_id \<Rightarrow> nat set \<Rightarrow> event_loop \<Rightarrow> (nat \<times> event_loop) option" where
  "thread_process_fd l fdset s = process_fd l fdset (head (lists s l)) 0 s"

text \<open>Here the type is set before the thread is put on the list of ready ones.\<close>

partial_function (option) timer_process :: "queue_id \<Rightarrow> timeval \<Rightarrow> nat \<Rightarrow> event_loop \<Rightarrow> (nat \<times> event_loop) option" where
  "timer_process qi timenow ready s =
     (let q = queues s qi in
      if qsize q = 0 then Some (ready, s)
      else
        let t = qarray q ! 0 in
        if timeval_cmp timenow (u_sands (u (thread_at t s))) < 0 then Some (ready, s)
        else case pqueue_dequeue q (threads s) of
          None \<Rightarrow> None
        | Some (x, q, h) \<Rightarrow>
            let s = s\<lparr>queues := (queues s)(qi := q), threads := h\<rparr>;
                s = upd_thread t (\<lambda>n. n\<lparr>ttype := THREAD_READY\<rparr>) s;
                s = thread_list_add L_ready t s
            in timer_process qi timenow (ready + 1) s)"

declare timer_process.simps [code]

definition thread_timer_process :: "queue_id \<Rightarrow> timeval \<Rightarrow> event_loop \<Rightarrow> (nat \<times> event_loop) option" where
  "thread_timer_process qi timenow = timer_process qi timenow 0"

partial_function (option) process_list :: "list_id \<Rightarrow> nat \<Rightarrow> nat \<Rightarrow> event_loop \<Rightarrow> (nat \<times> event_loop) option" where
  "process_list l t ready s =
     (if t = 0 then Some (ready, s)
      else
        let n = tnext (thread_at t s);
            s = thread_list_delete l t s;
            s = upd_thread t (\<lambda>n. n\<lparr>ttype := THREAD_READY\<rparr>) s;
            s = thread_list_add L_ready t s
        in process_list l n (ready + 1) s)"

declare process_list.simps [code]

definition thread_process :: "list_id \<Rightarrow> event_loop \<Rightarrow> (nat \<times> event_loop) option" where
  "thread_process l s = process_list l (head (lists s l)) 0 s"

section \<open>Signals\<close>

text \<open>The part of the handler that notes the signal; the alarm is counted.\<close>

definition note_signal :: "nat \<Rightarrow> quagga_signal \<Rightarrow> quagga_signal" where
  "note_signal signo sg =
     (if signal_no sg = signo then sg\<lparr>caught := if signo = SIGALRM then caught sg + 1 else 1\<rparr> else sg)"

text \<open>
  For the alarm, \<open>high_pre_timer_call\<close> of \<open>lib/hptimer.c\<close> sends a message to the thread that drives
  the timers of the process; the messages sent are counted.
\<close>

definition quagga_signal_handler :: "nat \<Rightarrow> event_loop \<Rightarrow> event_loop" where
  "quagga_signal_handler signo s =
     s\<lparr>signals := map (note_signal signo) (signals s), sig_caught := True,
       timer_msgs := timer_msgs s +
         (if signo = SIGALRM then length (filter (\<lambda>sg. signal_no sg = signo) (signals s)) else 0)\<rparr>"

text \<open>\<open>run\<close> is the effect of calling a handler on the event loop.\<close>

fun call_handler :: "(nat \<Rightarrow> event_loop \<Rightarrow> event_loop option) \<Rightarrow> nat \<Rightarrow> nat \<Rightarrow> event_loop \<Rightarrow> event_loop option" where
  "call_handler run h 0 s = Some s"
| "call_handler run h (Suc n) s = (case run h s of None \<Rightarrow> None | Some s \<Rightarrow> call_handler run h n s)"

fun process_signals :: "(nat \<Rightarrow> event_loop \<Rightarrow> event_loop option) \<Rightarrow> nat list \<Rightarrow> event_loop \<Rightarrow> event_loop option" where
  "process_signals run [] s = Some s"
| "process_signals run (i # is) s =
     (let sg = signals s ! i in
      if caught sg > 0 then
        (case call_handler run (handler sg) (caught sg) (s\<lparr>signals := (signals s)[i := sg\<lparr>caught := 0\<rparr>]\<rparr>) of
           None \<Rightarrow> None
         | Some s \<Rightarrow> process_signals run is s)
      else process_signals run is s)"

definition quagga_sigevent_process :: "(nat \<Rightarrow> event_loop \<Rightarrow> event_loop option) \<Rightarrow> event_loop \<Rightarrow> event_loop option" where
  "quagga_sigevent_process run s =
     (if sig_caught s then process_signals run [0..<length (signals s)] (s\<lparr>sig_caught := False\<rparr>) else Some s)"

section \<open>Fetching the next thread\<close>

text \<open>
  What \<open>select\<close> reports: an interruption by a signal, another error, or the descriptors that
  are ready among those asked for.
\<close>

datatype select_answer = Sel_intr | Sel_error | Sel_fds "nat set" "nat set"

text \<open>One turn of the loop: the signals caught before it, and the answer of \<open>select\<close>.\<close>

record turn =
  delivered :: "nat list"
  answer :: select_answer

datatype fetch_result = Fetched thread | Fetch_failed | Waiting

fun thread_fetch ::
  "(nat \<Rightarrow> event_loop \<Rightarrow> event_loop option) \<Rightarrow> turn list \<Rightarrow> event_loop \<Rightarrow> (fetch_result \<times> event_loop) option" where
  "thread_fetch run [] s = Some (Waiting, s)"
| "thread_fetch run (w # ws) s =
     (case quagga_sigevent_process run (fold quagga_signal_handler (delivered w) s) of
        None \<Rightarrow> None
      | Some s \<Rightarrow>
          (case thread_trim_head L_ready s of (t, s) \<Rightarrow>
             if t \<noteq> 0 then map_option (\<lambda>(f, s). (Fetched f, s)) (thread_run t s)
             else
               (case thread_process L_event s of
                  None \<Rightarrow> None
                | Some (_, s) \<Rightarrow>
                    (case thread_process L_event_normal s of
                       None \<Rightarrow> None
                     | Some (_, s) \<Rightarrow>
                         (case answer w of
                            Sel_intr \<Rightarrow> thread_fetch run ws s
                          | Sel_error \<Rightarrow> Some (Fetch_failed, s)
                          | Sel_fds r wr \<Rightarrow>
                              let rd = r \<inter> readfd s; wd = wr \<inter> writefd s in
                              (case (if rd \<union> wd \<noteq> {}
                                     then (case thread_process_fd L_read rd s of
                                             None \<Rightarrow> None | Some (_, s) \<Rightarrow> thread_process_fd L_write wd s)
                                     else Some (0, s)) of
                                 None \<Rightarrow> None
                               | Some (_, s) \<Rightarrow>
                                   (case thread_trim_head L_ready s of (t, s) \<Rightarrow>
                                      if t \<noteq> 0 then map_option (\<lambda>(f, s). (Fetched f, s)) (thread_run t s)
                                      else thread_fetch run ws s)))))))"

text \<open>\<open>thread_execute\<close> calls a function with a dummy thread; \<open>call\<close> is \<open>thread_call\<close> without the
  accounting of processor time.\<close>

definition dummy_thread :: "thread_type \<Rightarrow> nat \<Rightarrow> nat \<Rightarrow> int \<Rightarrow> thread" where
  "dummy_thread ty f a val = zero_thread\<lparr>ttype := ty, add_type := THREAD_EXECUTE, func := f, arg := a, u := U_val val\<rparr>"

definition thread_execute ::
  "(thread \<Rightarrow> event_loop \<Rightarrow> event_loop option) \<Rightarrow> nat \<Rightarrow> nat \<Rightarrow> int \<Rightarrow> event_loop \<Rightarrow> event_loop option" where
  "thread_execute call f a val = call (dummy_thread THREAD_EVENT f a val)"

definition thread_execute_normal ::
  "(thread \<Rightarrow> event_loop \<Rightarrow> event_loop option) \<Rightarrow> nat \<Rightarrow> nat \<Rightarrow> int \<Rightarrow> event_loop \<Rightarrow> event_loop option" where
  "thread_execute_normal call f a val = call (dummy_thread THREAD_EVENT_NORMAL f a val)"

section \<open>Ending\<close>

partial_function (option) list_free :: "nat \<Rightarrow> list_id \<Rightarrow> event_loop \<Rightarrow> event_loop option" where
  "list_free t l s =
     (if t = 0 then Some s
      else list_free (tnext (thread_at t s)) l
        (upd_list l (\<lambda>x. x\<lparr>tcount := tcount x - 1\<rparr>) (s\<lparr>threads := (threads s)(t := None), alloc := alloc s - 1\<rparr>)))"

declare list_free.simps [code]

definition thread_list_free :: "list_id \<Rightarrow> event_loop \<Rightarrow> event_loop option" where
  "thread_list_free l s = list_free (head (lists s l)) l s"

definition thread_queue_free :: "queue_id \<Rightarrow> event_loop \<Rightarrow> event_loop" where
  "thread_queue_free qi s =
     (let q = queues s qi in
      s\<lparr>threads := fold (\<lambda>i h. h(qarray q ! i := None)) [0..<qsize q] (threads s), alloc := alloc s - int (qsize q)\<rparr>)"

definition thread_master_free :: "event_loop \<Rightarrow> event_loop option" where
  "thread_master_free s =
     (case thread_list_free L_read s of None \<Rightarrow> None | Some s \<Rightarrow>
      case thread_list_free L_write s of None \<Rightarrow> None | Some s \<Rightarrow>
      let s = thread_queue_free Q_timer s in
      case thread_list_free L_event s of None \<Rightarrow> None | Some s \<Rightarrow>
      case thread_list_free L_event_normal s of None \<Rightarrow> None | Some s \<Rightarrow>
      case thread_list_free L_ready s of None \<Rightarrow> None | Some s \<Rightarrow>
      case thread_list_free L_unuse s of None \<Rightarrow> None | Some s \<Rightarrow>
      Some (thread_queue_free Q_background s))"

end
