(* ===== verification/ThreadLists.thy ===== *)
theory ThreadLists
  imports EventLoop
begin

text \<open>
  The doubly linked lists of the event loop as lists of addresses: \<open>dlist\<close> relates the fields of
  a list and the links of its threads to the sequence of its members, and the two operations
  of \<open>lib/thread.c\<close> append to the sequence and take a member out.
\<close>

section \<open>Chains\<close>

definition first :: "nat list \<Rightarrow> nat \<Rightarrow> nat" where
  "first xs q = (case xs of [] \<Rightarrow> q | x # _ \<Rightarrow> x)"

definition final :: "nat \<Rightarrow> nat list \<Rightarrow> nat" where
  "final p xs = (if xs = [] then p else last xs)"

lemma first_simps [simp]: "first [] q = q" "first (x # xs) q = x" "first (xs @ ys) q = first xs (first ys q)"
  by (simp_all add: first_def split: list.split)

lemma final_simps [simp]: "final p [] = p" "final p (xs @ [x]) = x" "final p (x # xs) = final x xs"
  "final p (xs @ ys) = final (final p xs) ys"
  by (auto simp: final_def)

lemma final_in: "xs \<noteq> [] \<Longrightarrow> final p xs \<in> set xs"
  by (simp add: final_def)

lemma first_in: "xs \<noteq> [] \<Longrightarrow> first xs q \<in> set xs"
  by (cases xs) auto

text \<open>The segment \<open>xs\<close> of a chain, entered from \<open>p\<close> and left to \<open>q\<close>.\<close>

fun dseg :: "thread_heap \<Rightarrow> nat \<Rightarrow> nat list \<Rightarrow> nat \<Rightarrow> bool" where
  "dseg h p [] q = True"
| "dseg h p (x # xs) q \<longleftrightarrow> (\<exists>n. h x = Some n \<and> tprev n = p \<and> tnext n = first xs q) \<and> dseg h x xs q"

definition linked :: "thread_heap \<Rightarrow> nat \<Rightarrow> (nat \<times> nat) option" where
  "linked h x = map_option (\<lambda>n. (tprev n, tnext n)) (h x)"

lemma dseg_linked: "dseg h p (x # xs) q \<longleftrightarrow> linked h x = Some (p, first xs q) \<and> dseg h x xs q"
  by (auto simp: linked_def)

declare dseg.simps(2) [simp del]

lemma dseg_append: "dseg h p (xs @ ys) q \<longleftrightarrow> dseg h p xs (first ys q) \<and> dseg h (final p xs) ys q"
  by (induction xs arbitrary: p) (auto simp: dseg_linked)

lemma dseg_frame: "(\<And>x. x \<in> set xs \<Longrightarrow> linked h' x = linked h x) \<Longrightarrow> dseg h' p xs q = dseg h p xs q"
  by (induction xs arbitrary: p) (auto simp: dseg_linked)

lemma dseg_dom: "dseg h p xs q \<Longrightarrow> set xs \<subseteq> dom h"
  by (induction xs arbitrary: p) (auto simp: dseg_linked linked_def)

lemma linked_upd [simp]: "linked (h(t := v)) x = (if x = t then map_option (\<lambda>n. (tprev n, tnext n)) v else linked h x)"
  by (simp add: linked_def)

lemma dseg_other [simp]: "x \<notin> set xs \<Longrightarrow> dseg (h(x := v)) p xs q = dseg h p xs q"
  by (rule dseg_frame) auto

text \<open>Changing where the last member leads to, and where the first one comes from.\<close>

lemma dseg_leave:
  assumes "dseg h p (xs @ [x]) q" "distinct (xs @ [x])"
  shows "dseg (h(x := Some ((the (h x))\<lparr>tnext := q'\<rparr>))) p (xs @ [x]) q'"
  using assms by (auto simp: dseg_append dseg_linked linked_def)

lemma dseg_enter:
  assumes "dseg h p (x # xs) q" "distinct (x # xs)"
  shows "dseg (h(x := Some ((the (h x))\<lparr>tprev := p'\<rparr>))) p' (x # xs) q"
  using assms by (auto simp: dseg_linked linked_def)

definition dlist :: "thread_heap \<Rightarrow> thread_list \<Rightarrow> nat list \<Rightarrow> bool" where
  "dlist h l xs \<longleftrightarrow> dseg h 0 xs 0 \<and> head l = first xs 0 \<and> tail l = final 0 xs \<and> tcount l = int (length xs) \<and>
     0 \<notin> set xs \<and> distinct xs"

lemma dlist_frame: "(\<And>x. x \<in> set xs \<Longrightarrow> linked h' x = linked h x) \<Longrightarrow> dlist h' l xs = dlist h l xs"
  using dseg_frame [of xs h' h] by (simp add: dlist_def)

lemma dlist_other [simp]: "x \<notin> set xs \<Longrightarrow> dlist (h(x := v)) l xs = dlist h l xs"
  by (simp add: dlist_def)

lemma dlist_tail: "dlist h l xs \<Longrightarrow> tail l = 0 \<longleftrightarrow> xs = []"
  by (metis dlist_def final_in final_simps(1))

lemma dlist_head: "dlist h l xs \<Longrightarrow> head l = 0 \<longleftrightarrow> xs = []"
  by (cases xs) (auto simp: dlist_def)

section \<open>What the operations do\<close>

text \<open>Everything of a thread but its links.\<close>

definition core :: "thread_heap \<Rightarrow> nat \<Rightarrow> thread option" where
  "core h x = map_option (\<lambda>n. n\<lparr>tnext := 0, tprev := 0\<rparr>) (h x)"

lemma core_upd_links: "h x \<noteq> None \<Longrightarrow> core (h(x := Some ((the (h x))\<lparr>tnext := a\<rparr>))) = core h"
  "h x \<noteq> None \<Longrightarrow> core (h(x := Some ((the (h x))\<lparr>tprev := a\<rparr>))) = core h"
  "h x \<noteq> None \<Longrightarrow> core (h(x := Some ((the (h x))\<lparr>tnext := a, tprev := b\<rparr>))) = core h"
  by (auto simp: core_def fun_eq_iff)

lemma list_add_appends:
  assumes d: "dlist (threads s) (lists s l) xs" and t: "threads s t \<noteq> None" "t \<noteq> 0" "t \<notin> set xs"
  shows "\<exists>h. thread_list_add l t s = s\<lparr>threads := h,
      lists := (lists s)(l := \<lparr>head = first (xs @ [t]) 0, tail = t, tcount = int (length xs) + 1\<rparr>)\<rparr> \<and>
    dlist h \<lparr>head = first (xs @ [t]) 0, tail = t, tcount = int (length xs) + 1\<rparr> (xs @ [t]) \<and>
    core h = core (threads s) \<and> (\<forall>x. x \<noteq> t \<and> x \<notin> set xs \<longrightarrow> h x = threads s x)"
proof (cases xs rule: rev_cases)
  case Nil
  let ?h = "(threads s)(t := Some ((the (threads s t))\<lparr>tnext := 0, tprev := 0\<rparr>))"
  have "lists s l = \<lparr>head = 0, tail = 0, tcount = 0\<rparr>" using d Nil by (simp add: dlist_def)
  then have "thread_list_add l t s = s\<lparr>threads := ?h, lists := (lists s)(l := \<lparr>head = t, tail = t, tcount = 1\<rparr>)\<rparr>"
    by (simp add: thread_list_add_def upd_thread_def upd_list_def thread_at_def)
  then show ?thesis
    using t Nil by (intro exI [of _ ?h]) (simp add: dlist_def dseg_linked core_upd_links)
next
  case (snoc ys y)
  let ?h1 = "(threads s)(t := Some ((the (threads s t))\<lparr>tnext := 0, tprev := y\<rparr>))"
  let ?h = "?h1(y := Some ((the (?h1 y))\<lparr>tnext := t\<rparr>))"
  have y: "y \<noteq> 0" "y \<noteq> t" "y \<notin> set ys" "t \<notin> set ys" using d t snoc by (auto simp: dlist_def)
  have yd: "threads s y \<noteq> None" using d snoc dseg_dom by (fastforce simp: dlist_def)
  have L: "lists s l = \<lparr>head = first xs 0, tail = y, tcount = int (length xs)\<rparr>" using d snoc by (simp add: dlist_def)
  have "thread_list_add l t s = s\<lparr>threads := ?h,
      lists := (lists s)(l := \<lparr>head = first (xs @ [t]) 0, tail = t, tcount = int (length xs) + 1\<rparr>)\<rparr>"
    using y L snoc by (cases ys) (simp_all add: thread_list_add_def upd_thread_def upd_list_def thread_at_def)
  moreover have "dseg (threads s) 0 (ys @ [y]) 0" using d snoc by (simp add: dlist_def)
  then have "dseg ?h1 0 (ys @ [y]) 0" using y by (subst dseg_frame [of _ _ "threads s"]) auto
  then have "dseg ?h 0 (ys @ [y]) t" using dseg_leave [of ?h1 0 ys y 0 t] y d snoc by (simp add: dlist_def)
  then have "dseg ?h 0 (xs @ [t]) 0" using y unfolding snoc by (simp add: dseg_append dseg_linked)
  then have "dlist ?h \<lparr>head = first (xs @ [t]) 0, tail = t, tcount = int (length xs) + 1\<rparr> (xs @ [t])"
    using d t by (simp add: dlist_def)
  moreover have "core ?h = core (threads s)"
    using core_upd_links(1) [of ?h1 y t] core_upd_links(3) [where h = "threads s" and x = t and a = 0 and b = y] t yd y by simp
  ultimately show ?thesis using snoc by (intro exI [of _ ?h]) simp
qed

lemma list_delete_cuts:
  assumes d: "dlist (threads s) (lists s l) (us @ t # vs)"
  shows "\<exists>h. thread_list_delete l t s = s\<lparr>threads := h,
      lists := (lists s)(l := \<lparr>head = first (us @ vs) 0, tail = final 0 (us @ vs), tcount = int (length (us @ vs))\<rparr>)\<rparr> \<and>
    dlist h \<lparr>head = first (us @ vs) 0, tail = final 0 (us @ vs), tcount = int (length (us @ vs))\<rparr> (us @ vs) \<and>
    linked h t = Some (0, 0) \<and> core h = core (threads s) \<and> (\<forall>x. x \<notin> set (us @ t # vs) \<longrightarrow> h x = threads s x)"
proof -
  let ?p = "final 0 us" and ?n = "first vs 0" and ?h = "threads s"
  have seg: "dseg ?h 0 us t" "linked ?h t = Some (?p, ?n)" "dseg ?h t vs 0" "distinct (us @ t # vs)" "0 \<notin> set (us @ t # vs)"
    and L: "head (lists s l) = first us t" "tail (lists s l) = final t vs" "tcount (lists s l) = int (length (us @ vs)) + 1"
    using d by (auto simp: dlist_def dseg_append dseg_linked)
  obtain n where n: "?h t = Some n" "tprev n = ?p" "tnext n = ?n" using seg(2) by (auto simp: linked_def)
  have dm: "set us \<subseteq> dom ?h" "set vs \<subseteq> dom ?h" using seg(1,3) dseg_dom by blast+
  have out: "vs \<noteq> [] \<Longrightarrow> ?n \<in> set vs" "us \<noteq> [] \<Longrightarrow> ?p \<in> set us"
    by (rule first_in, assumption, rule final_in, assumption)
  have nz: "?n \<noteq> 0 \<longleftrightarrow> vs \<noteq> []"
  proof (cases "vs = []")
    case False
    with out(1) seg(5) have "?n \<noteq> 0" by (metis UnI2 list.set_intros(2) set_append)
    with False show ?thesis by simp
  qed simp
  have pz: "?p \<noteq> 0 \<longleftrightarrow> us \<noteq> []"
  proof (cases "us = []")
    case False
    with out(2) seg(5) have "?p \<noteq> 0" by (metis UnI1 set_append)
    with False show ?thesis by simp
  qed simp
  have sep: "t \<notin> set us" "t \<notin> set vs" "set us \<inter> set vs = {}" "distinct us" "distinct vs" using seg(4) by auto
  have ne: "?n \<noteq> t" "?n \<notin> set us" "?h ?n \<noteq> None" if "vs \<noteq> []"
    using out(1) [OF that] sep dm(2) by blast+
  have pe: "?p \<noteq> t" "?p \<notin> set vs" "?h ?p \<noteq> None" if "us \<noteq> []"
    using out(2) [OF that] sep dm(1) by blast+
  define h1 where "h1 = (if vs = [] then ?h else ?h(?n := Some ((the (?h ?n))\<lparr>tprev := ?p\<rparr>)))"
  define h2 where "h2 = (if us = [] then h1 else h1(?p := Some ((the (h1 ?p))\<lparr>tnext := ?n\<rparr>)))"
  define h3 where "h3 = h2(t := Some ((the (h2 t))\<lparr>tnext := 0, tprev := 0\<rparr>))"
  have t1: "h1 t = Some n" "h2 t = Some n" using n ne(1) pe(1) by (auto simp: h1_def h2_def)
  have "dseg h1 0 us t" using seg(1) ne(2) by (simp add: h1_def)
  moreover have "dseg h1 ?p vs 0"
    using dseg_enter [of ?h t "hd vs" "tl vs" 0 ?p] seg(3) sep(5) by (cases vs) (simp_all add: h1_def)
  ultimately have "dseg h2 0 us ?n" "dseg h2 ?p vs 0"
    using dseg_leave [of h1 0 "butlast us" "last us" t ?n] sep(4) pe(2)
    by (cases us rule: rev_cases; simp add: h2_def)+
  then have s3: "dseg h3 0 (us @ vs) 0" using sep unfolding h3_def dseg_append by simp
  have c1: "core h1 = core ?h" using core_upd_links(2) [of ?h ?n] ne(3) by (simp add: h1_def)
  have "core h2 = core h1"
    using core_upd_links(1) [of h1 ?p ?n] pe(3) by (simp add: h2_def) (simp add: h1_def)
  moreover have "core h3 = core h2"
    using core_upd_links(3) [where h = h2 and x = t and a = 0 and b = 0] t1 unfolding h3_def by simp
  ultimately have c: "core h3 = core ?h" using c1 by simp
  have keep: "h3 x = ?h x" if "x \<notin> set (us @ t # vs)" for x
    using that out by (auto simp: h3_def h2_def h1_def)
  let ?L = "\<lparr>head = first (us @ vs) 0, tail = final 0 (us @ vs), tcount = int (length (us @ vs))\<rparr>"
  have f: "first us t = first us 0" if "us \<noteq> []" using that by (cases us) auto
  have g: "final t vs = final ?p vs" if "vs \<noteq> []" using that by (simp add: final_def)
  let ?x = "lists s l"
  have step1: "(if tnext (thread_at t s) \<noteq> 0
      then upd_thread (tnext (thread_at t s)) (\<lambda>n. n\<lparr>tprev := tprev (thread_at t s)\<rparr>) s
      else upd_list l (\<lambda>x. x\<lparr>tail := tprev (thread_at t s)\<rparr>) s) =
    s\<lparr>threads := h1, lists := (lists s)(l := ?x\<lparr>tail := final 0 (us @ vs)\<rparr>)\<rparr>"
  proof (cases "vs = []")
    case True
    then show ?thesis using n nz by (simp add: thread_at_def upd_list_def h1_def)
  next
    case False
    have "?x\<lparr>tail := final 0 (us @ vs)\<rparr> = ?x" using L(2) g [OF False] by simp
    then show ?thesis using n nz False by (simp add: thread_at_def upd_thread_def h1_def)
  qed
  let ?s1 = "s\<lparr>threads := h1, lists := (lists s)(l := ?x\<lparr>tail := final 0 (us @ vs)\<rparr>)\<rparr>"
  have step2: "(if tprev (thread_at t ?s1) \<noteq> 0
      then upd_thread (tprev (thread_at t ?s1)) (\<lambda>n. n\<lparr>tnext := tnext (thread_at t ?s1)\<rparr>) ?s1
      else upd_list l (\<lambda>x. x\<lparr>head := tnext (thread_at t ?s1)\<rparr>) ?s1) =
    s\<lparr>threads := h2, lists := (lists s)(l := ?x\<lparr>tail := final 0 (us @ vs), head := first (us @ vs) 0\<rparr>)\<rparr>"
  proof (cases "us = []")
    case True
    then show ?thesis using t1 n pz by (simp add: thread_at_def upd_list_def h2_def)
  next
    case False
    have "?x\<lparr>tail := final 0 (us @ vs), head := first (us @ vs) 0\<rparr> = ?x\<lparr>tail := final 0 (us @ vs)\<rparr>"
      using L(1) f [OF False] False by (cases us) simp_all
    then show ?thesis using t1 n pz False by (simp add: thread_at_def upd_thread_def h2_def)
  qed
  have "thread_list_delete l t s = s\<lparr>threads := h3, lists := (lists s)(l := ?L)\<rparr>"
    unfolding thread_list_delete_def Let_def step1 step2 using L(3)
    by (cases "lists s l") (simp add: upd_thread_def upd_list_def thread_at_def h3_def)
  moreover have "dlist h3 ?L (us @ vs)" using s3 seg(4,5) by (simp add: dlist_def)
  moreover have "linked h3 t = Some (0, 0)" by (simp add: h3_def linked_def)
  ultimately show ?thesis using c keep by blast
qed

end
