(* ===== verification/EventLoopInv.thy ===== *)
theory EventLoopInv
  imports ThreadLists
begin

text \<open>
  The invariant of the event loop: every thread is in the one list or queue that its type
  names, the descriptors watched are those of the threads that wait for them, and every
  position in a timer queue is the one its thread records.  The lemmas for the steps of
  the operations allow a set \<open>T\<close> of threads that are in no list for the moment.
\<close>

section \<open>The timer queues\<close>

definition thread_position :: "thread_heap \<Rightarrow> nat \<Rightarrow> int" where
  "thread_position h t = index (the (h t))"

lemma timeval_cmp_sym: "timeval_cmp a b < 0 \<longleftrightarrow> timeval_cmp b a > 0"
  by (auto simp: timeval_cmp_def)

lemma timeval_cmp_trans: "timeval_cmp a b \<le> 0 \<Longrightarrow> timeval_cmp b c \<le> 0 \<Longrightarrow> timeval_cmp a c \<le> 0"
  by (auto simp: timeval_cmp_def split: if_splits)

lemma thread_timer_cmp_le: "thread_timer_cmp h a b \<le> 0 \<longleftrightarrow> timeval_cmp (u_sands (u (the (h a)))) (u_sands (u (the (h b)))) \<le> 0"
  by (simp add: thread_timer_cmp_def Let_def)

interpretation tq: queue_callbacks thread_timer_cmp thread_timer_update thread_position
proof
  fix s x y z and i :: nat
  show "thread_timer_cmp s x y < 0 \<longleftrightarrow> thread_timer_cmp s y x > 0"
    using timeval_cmp_sym [of "u_sands (u (the (s x)))" "u_sands (u (the (s y)))"]
      timeval_cmp_sym [of "u_sands (u (the (s y)))" "u_sands (u (the (s x)))"]
    by (auto simp: thread_timer_cmp_def Let_def)
  show "thread_timer_cmp s x z \<le> 0" if "thread_timer_cmp s x y \<le> 0" "thread_timer_cmp s y z \<le> 0"
    using that timeval_cmp_trans unfolding thread_timer_cmp_le by blast
  show "thread_timer_cmp (thread_timer_update x i s) = thread_timer_cmp s"
    by (intro ext) (simp add: thread_timer_cmp_def thread_timer_update_def)
  show "thread_position (thread_timer_update x i s) y = (if y = x then int i else thread_position s y)"
    by (simp add: thread_position_def thread_timer_update_def)
qed

lemma told_heap:
  assumes "told thread_timer_update A h h'" "A \<subseteq> dom h"
  shows "dom h' = dom h \<and> (\<forall>x. x \<notin> A \<longrightarrow> h' x = h x) \<and> (\<forall>x n. h x = Some n \<longrightarrow> (\<exists>i. h' x = Some (n\<lparr>index := i\<rparr>)))"
  using assms
proof (induction rule: told.induct)
  case (told_none h)
  have "n = n\<lparr>index := index n\<rparr>" for n :: thread by simp
  then show ?case by (metis option.sel)
next
  case (told_one x i h h')
  let ?h = "thread_timer_update x i h"
  have dm: "dom ?h = dom h" using told_one by (auto simp: thread_timer_update_def)
  then have IH: "dom h' = dom ?h" "\<forall>y. y \<notin> A \<longrightarrow> h' y = ?h y" "\<forall>y n. ?h y = Some n \<longrightarrow> (\<exists>i. h' y = Some (n\<lparr>index := i\<rparr>))"
    using told_one.IH told_one.prems by auto
  have "\<exists>j. h' y = Some (n\<lparr>index := j\<rparr>)" if y: "h y = Some n" for y n
  proof (cases "y = x")
    case True
    then have "?h y = Some (n\<lparr>index := int i\<rparr>)" using y by (simp add: thread_timer_update_def)
    then show ?thesis using IH(3) by fastforce
  next
    case False
    then have "?h y = Some n" using y by (simp add: thread_timer_update_def)
    then show ?thesis using IH(3) by blast
  qed
  moreover have "\<forall>y. y \<notin> A \<longrightarrow> h' y = h y" using IH(2) told_one.hyps(1) by (auto simp: thread_timer_update_def)
  ultimately show ?case using IH(1) dm by simp
qed

section \<open>Where a thread is\<close>

datatype place = In list_id | Queued queue_id | Nowhere

fun home :: "thread_type \<Rightarrow> place" where
  "home THREAD_READ = In L_read"
| "home THREAD_WRITE = In L_write"
| "home THREAD_TIMER = Queued Q_timer"
| "home THREAD_EVENT = In L_event"
| "home THREAD_EVENT_NORMAL = In L_event_normal"
| "home THREAD_READY = In L_ready"
| "home THREAD_BACKGROUND = Queued Q_background"
| "home THREAD_UNUSED = In L_unuse"
| "home THREAD_EXECUTE = Nowhere"

abbreviation timer_type :: "thread_type \<Rightarrow> bool" where
  "timer_type ty \<equiv> ty = THREAD_TIMER \<or> ty = THREAD_BACKGROUND"

text \<open>The member of the union that the type calls for.\<close>

definition u_ok :: "thread_type \<Rightarrow> thread_u \<Rightarrow> bool" where
  "u_ok ty v \<longleftrightarrow>
     (if ty = THREAD_READ \<or> ty = THREAD_WRITE then v = U_fd (u_fd v)
      else if timer_type ty then v = U_sands (u_sands v) else v = U_val (u_val v))"

text \<open>A thread keeps the type it was added with until it is ready; timers are never ready.\<close>

definition thread_ok :: "thread \<Rightarrow> bool" where
  "thread_ok n \<longleftrightarrow> ttype n \<noteq> THREAD_EXECUTE \<and>
     (ttype n = THREAD_READY \<longrightarrow>
        add_type n \<in> {THREAD_READ, THREAD_WRITE, THREAD_EVENT, THREAD_EVENT_NORMAL}) \<and>
     (ttype n \<noteq> THREAD_READY \<and> ttype n \<noteq> THREAD_UNUSED \<longrightarrow> add_type n = ttype n) \<and>
     (ttype n \<noteq> THREAD_UNUSED \<longrightarrow> u_ok (add_type n) (u n)) \<and>
     (timer_type (ttype n) \<longrightarrow> tnext n = 0 \<and> tprev n = 0)"

text \<open>\<open>X l\<close> are the members of the list \<open>l\<close> in their order.\<close>

definition loop_ok :: "nat set \<Rightarrow> event_loop \<Rightarrow> (list_id \<Rightarrow> nat list) \<Rightarrow> bool" where
  "loop_ok T s X \<longleftrightarrow>
     (\<forall>l. dlist (threads s) (lists s l) (X l)) \<and> (\<forall>q. tq.queue_inv (queues s q) (threads s)) \<and>
     0 \<notin> dom (threads s) \<and> finite (dom (threads s)) \<and> alloc s = int (card (dom (threads s))) \<and> T \<subseteq> dom (threads s) \<and>
     (\<forall>l t. t \<in> set (X l) \<longleftrightarrow> t \<notin> T \<and> (\<exists>n. threads s t = Some n \<and> home (ttype n) = In l)) \<and>
     (\<forall>q t. t \<in> set (nodes (queues s q)) \<longleftrightarrow> t \<notin> T \<and> (\<exists>n. threads s t = Some n \<and> home (ttype n) = Queued q)) \<and>
     (\<forall>t n. threads s t = Some n \<and> t \<notin> T \<longrightarrow> thread_ok n)"

lemma loop_okD:
  assumes "loop_ok T s X"
  shows "dlist (threads s) (lists s l) (X l)" "tq.queue_inv (queues s q) (threads s)" "threads s 0 = None"
    "T \<subseteq> dom (threads s)" "finite (dom (threads s))" "alloc s = int (card (dom (threads s)))"
    "t \<in> set (X l) \<longleftrightarrow> t \<notin> T \<and> (\<exists>n. threads s t = Some n \<and> home (ttype n) = In l)"
    "t \<in> set (nodes (queues s q)) \<longleftrightarrow> t \<notin> T \<and> (\<exists>n. threads s t = Some n \<and> home (ttype n) = Queued q)"
    "threads s t = Some n \<Longrightarrow> t \<notin> T \<Longrightarrow> thread_ok n"
  using assms unfolding loop_ok_def by (blast, blast, blast, blast, blast, blast, blast, blast, blast)

lemma loop_ok_distinct: "loop_ok T s X \<Longrightarrow> distinct (X l)"
  using loop_okD(1) by (simp add: dlist_def)

section \<open>What a step leaves alone\<close>

text \<open>All of a thread but its links, its place in a queue and its type.\<close>

definition payload :: "thread_heap \<Rightarrow> nat \<Rightarrow> thread option" where
  "payload h x = map_option (\<lambda>n. n\<lparr>ttype := THREAD_UNUSED, tnext := 0, tprev := 0, index := 0\<rparr>) (h x)"

lemma payload_same [simp]:
  "h x = Some n \<Longrightarrow> payload (h(x := Some (n\<lparr>ttype := ty\<rparr>))) = payload h"
  by (auto simp: payload_def fun_eq_iff)

lemma payload_other [simp]: "x \<noteq> t \<Longrightarrow> payload (h(t := v)) x = payload h x"
  by (simp add: payload_def)

lemma payload_core: "core h x = core h' x \<Longrightarrow> payload h x = payload h' x"
proof -
  have p: "payload h x = map_option (\<lambda>n. n\<lparr>ttype := THREAD_UNUSED, index := 0\<rparr>) (core h x)" for h x
    by (cases "h x") (simp_all add: payload_def core_def)
  show "core h x = core h' x \<Longrightarrow> payload h x = payload h' x" by (simp add: p)
qed

lemma payload_dom: "payload h x = None \<longleftrightarrow> h x = None"
  by (simp add: payload_def)

lemma payload_get:
  assumes "payload h x = payload h' x" "h x = Some n" "h' x = Some n'"
  shows "func n' = func n" "arg n' = arg n" "u n' = u n" "add_type n' = add_type n"
  using assms by (auto simp: payload_def dest: arg_cong [of _ _ thread.func] arg_cong [of _ _ thread.arg]
      arg_cong [of _ _ thread.u] arg_cong [of _ _ thread.add_type])

lemma core_get:
  assumes "core h x = core h' x" "h x = Some n"
  shows "\<exists>n'. h' x = Some n' \<and> n' = n\<lparr>tnext := tnext n', tprev := tprev n'\<rparr>"
proof (cases "h' x")
  case (Some m)
  then show ?thesis using assms by (cases n; cases m) (simp add: core_def)
qed (use assms in \<open>simp add: core_def\<close>)

lemma core_none: "core h x = None \<longleftrightarrow> h x = None"
  by (simp add: core_def)

lemma core_home:
  assumes "core h x = core h' x"
  shows "(\<exists>n. h x = Some n \<and> home (ttype n) = p) \<longleftrightarrow> (\<exists>n. h' x = Some n \<and> home (ttype n) = p)"
  using assms by (cases "h x"; cases "h' x") (auto simp: core_def dest: arg_cong [of _ _ thread.ttype])

lemma core_dom: "core h = core h' \<Longrightarrow> dom h = dom h'"
  using core_none [of h] core_none [of h'] by (simp add: dom_def)

text \<open>\<open>s'\<close> differs from \<open>s\<close> in its lists and in the links of the threads.\<close>

definition relinked :: "event_loop \<Rightarrow> event_loop \<Rightarrow> bool" where
  "relinked s s' \<longleftrightarrow> (\<exists>h L. s' = s\<lparr>threads := h, lists := L\<rparr> \<and> core h = core (threads s))"

lemma relinked_trans: "relinked s s' \<Longrightarrow> relinked s' s'' \<Longrightarrow> relinked s s''"
  unfolding relinked_def by (elim exE conjE, simp, intro exI conjI, rule refl, assumption)

lemma relinkedD:
  assumes "relinked s s'"
  shows "core (threads s') = core (threads s)" "queues s' = queues s" "readfd s' = readfd s" "writefd s' = writefd s"
    "signals s' = signals s" "sig_caught s' = sig_caught s" "m_func s' = m_func s" "m_config s' = m_config s" "alloc s' = alloc s"
    "dom (threads s') = dom (threads s)" "fds l s' = fds l s" "relative_time s' = relative_time s"
proof -
  obtain h L where h: "s' = s\<lparr>threads := h, lists := L\<rparr>" "core h = core (threads s)"
    using assms by (auto simp: relinked_def)
  show "core (threads s') = core (threads s)" "queues s' = queues s" "readfd s' = readfd s" "writefd s' = writefd s"
    "signals s' = signals s" "sig_caught s' = sig_caught s" "m_func s' = m_func s" "m_config s' = m_config s" "alloc s' = alloc s"
    "dom (threads s') = dom (threads s)" "fds l s' = fds l s" "relative_time s' = relative_time s"
    using h core_dom [OF h(2)] by (simp_all add: fds_def)
qed

section \<open>Steps\<close>

lemma loop_ok_change:
  assumes s: "loop_ok T s X" and T: "T' \<subseteq> dom h" "dom h = dom (threads s)"
    and l: "\<And>l. dlist h (L l) (X' l)"
    and q: "\<And>q x. x \<in> set (nodes (queues s q)) \<Longrightarrow> core h x = core (threads s) x"
    and n: "\<And>x n. x \<notin> T' \<Longrightarrow> h x = Some n \<Longrightarrow> thread_ok n"
    and X': "\<And>l x. x \<in> set (X' l) \<longleftrightarrow> x \<notin> T' \<and> (\<exists>n. h x = Some n \<and> home (ttype n) = In l)"
    and Q: "\<And>q x. x \<in> set (nodes (queues s q)) \<longleftrightarrow> x \<notin> T' \<and> (\<exists>n. h x = Some n \<and> home (ttype n) = Queued q)"
  shows "loop_ok T' (s\<lparr>threads := h, lists := L\<rparr>) X'"
proof -
  have e: "threads (s\<lparr>threads := h, lists := L\<rparr>) = h" "lists (s\<lparr>threads := h, lists := L\<rparr>) = L"
    "queues (s\<lparr>threads := h, lists := L\<rparr>) = queues s" "alloc (s\<lparr>threads := h, lists := L\<rparr>) = alloc s" by simp_all
  have qi: "tq.queue_inv (queues s p) h" for p
  proof (rule tq.queue_inv_frame [OF loop_okD(2) [OF s]])
    have same: "u (the (h x)) = u (the (threads s x))" "index (the (h x)) = index (the (threads s x))"
      if "x \<in> set (nodes (queues s p))" for x
      using q [OF that] by (cases "h x"; cases "threads s x"; auto simp: core_def
          dest: arg_cong [of _ _ thread.u] arg_cong [of _ _ thread.index])+
    show "thread_timer_cmp h x y = thread_timer_cmp (threads s) x y"
      if "x \<in> set (nodes (queues s p))" "y \<in> set (nodes (queues s p))" for x y
      using that by (simp add: thread_timer_cmp_def same)
    show "thread_position h x = thread_position (threads s) x" if "x \<in> set (nodes (queues s p))" for x
      using that by (simp add: thread_position_def same)
  qed
  show ?thesis
    unfolding loop_ok_def e
    using s T l qi n X' Q by (auto simp: loop_ok_def)
qed

lemma thread_ok_links:
  assumes "thread_ok n" "n' = n\<lparr>tnext := a, tprev := b\<rparr>" "\<not> timer_type (ttype n)"
  shows "thread_ok n'"
  using assms by (simp add: thread_ok_def)

lemma unlink_ok:
  assumes s: "loop_ok T s X" and t: "t \<in> set (X l)"
  shows "loop_ok (insert t T) (thread_list_delete l t s) (X(l := remove1 t (X l))) \<and> relinked s (thread_list_delete l t s) \<and>
    linked (threads (thread_list_delete l t s)) t = Some (0, 0)"
proof -
  obtain us vs where x: "X l = us @ t # vs" using t by (meson split_list)
  have d: "distinct (us @ t # vs)" using loop_ok_distinct [OF s, of l] x by simp
  have r: "remove1 t (X l) = us @ vs" using d x by (simp add: remove1_append)
  obtain h where h: "thread_list_delete l t s = s\<lparr>threads := h,
      lists := (lists s)(l := \<lparr>head = first (us @ vs) 0, tail = final 0 (us @ vs), tcount = int (length (us @ vs))\<rparr>)\<rparr>"
    "dlist h \<lparr>head = first (us @ vs) 0, tail = final 0 (us @ vs), tcount = int (length (us @ vs))\<rparr> (us @ vs)"
    "linked h t = Some (0, 0)" "core h = core (threads s)" "\<And>x. x \<notin> set (us @ t # vs) \<Longrightarrow> h x = threads s x"
    using list_delete_cuts [of s l us t vs] loop_okD(1) [OF s, of l] x by metis
  have other: "x \<notin> set (us @ t # vs)" if "x \<in> set (X l')" "l' \<noteq> l" for x l'
    using that loop_okD(7) [OF s] x by (metis place.inject(1) option.inject)
  have queued: "x \<notin> set (us @ t # vs)" if "threads s x = Some n" "home (ttype n) = Queued q" for x n q
    using that loop_okD(7) [OF s, of x l] x by auto
  have dm: "dom h = dom (threads s)" by (rule core_dom [OF h(4)])
  have ok: "loop_ok (insert t T) (s\<lparr>threads := h,
      lists := (lists s)(l := \<lparr>head = first (us @ vs) 0, tail = final 0 (us @ vs), tcount = int (length (us @ vs))\<rparr>)\<rparr>)
      (X(l := us @ vs))"
  proof (rule loop_ok_change [OF s])
    show "insert t T \<subseteq> dom h" "dom h = dom (threads s)"
      using dm loop_okD(4) [OF s] loop_okD(7) [OF s, of t l] t by auto
    show "dlist h (((lists s)(l := \<lparr>head = first (us @ vs) 0, tail = final 0 (us @ vs), tcount = int (length (us @ vs))\<rparr>)) l')
        ((X(l := us @ vs)) l')" for l'
    proof (cases "l' = l")
      case False
      then have "dlist h (lists s l') (X l') = dlist (threads s) (lists s l') (X l')"
        using other by (intro dlist_frame) (simp add: linked_def h(5))
      with False show ?thesis using loop_okD(1) [OF s, of l'] by simp
    qed (use h(2) in simp)
    show "core h x = core (threads s) x" for x by (simp add: h(4))
    show "thread_ok n" if nT: "x \<notin> insert t T" and hx: "h x = Some n" for x n
    proof -
      obtain m where m: "threads s x = Some m" "m = n\<lparr>tnext := tnext m, tprev := tprev m\<rparr>"
        using core_get [of h x "threads s" n] hx h(4) by auto
      have mok: "thread_ok m" using loop_okD(9) [OF s m(1)] nT by blast
      have tyn: "ttype m = ttype n" by (subst m(2)) simp
      show ?thesis
      proof (cases "timer_type (ttype m)")
        case True
        then have "\<exists>q. home (ttype m) = Queued q" by auto
        then have "h x = threads s x" using queued [OF m(1)] h(5) by blast
        then show ?thesis using m(1) mok hx by simp
      next
        case False
        have "n = m\<lparr>tnext := tnext n, tprev := tprev n\<rparr>" by (subst m(2)) simp
        then show ?thesis using thread_ok_links mok False by blast
      qed
    qed
    show "x \<in> set ((X(l := us @ vs)) l') \<longleftrightarrow> x \<notin> insert t T \<and> (\<exists>n. h x = Some n \<and> home (ttype n) = In l')" for l' x
      using core_home [of h x "threads s" "In l'"] h(4) loop_okD(7) [OF s, of x l'] d x other [of x l'] by auto
    show "x \<in> set (nodes (queues s q)) \<longleftrightarrow> x \<notin> insert t T \<and> (\<exists>n. h x = Some n \<and> home (ttype n) = Queued q)" for q x
      using core_home [of h x "threads s" "Queued q"] h(4) loop_okD(8) [OF s, of x q] queued [of x] by auto
  qed
  show ?thesis using ok h r unfolding relinked_def by auto
qed

lemma link_ok:
  assumes s: "loop_ok T s X" and t: "t \<in> T" "threads s t = Some n" "thread_ok n" "home (ttype n) = In l"
  shows "loop_ok (T - {t}) (thread_list_add l t s) (X(l := X l @ [t])) \<and> relinked s (thread_list_add l t s)"
proof -
  have t0: "t \<noteq> 0" "t \<notin> set (X l)"
    using t loop_okD(3) [OF s] loop_okD(7) [OF s, of t l] by (cases "t = 0", simp_all)
  let ?L = "\<lparr>head = first (X l @ [t]) 0, tail = t, tcount = int (length (X l)) + 1\<rparr>"
  obtain h where h: "thread_list_add l t s = s\<lparr>threads := h, lists := (lists s)(l := ?L)\<rparr>" "dlist h ?L (X l @ [t])"
    "core h = core (threads s)" "\<And>x. x \<noteq> t \<Longrightarrow> x \<notin> set (X l) \<Longrightarrow> h x = threads s x"
    using list_add_appends [OF loop_okD(1) [OF s, of l], of t] t t0 by auto
  have other: "x \<noteq> t \<and> x \<notin> set (X l)" if "x \<in> set (X l')" "l' \<noteq> l" for x l'
    using that loop_okD(7) [OF s] t(1) by (metis place.inject(1) option.inject)
  have dm: "dom h = dom (threads s)" by (rule core_dom [OF h(3)])
  have ch: "(\<exists>n. h x = Some n \<and> home (ttype n) = p) \<longleftrightarrow> (\<exists>n. threads s x = Some n \<and> home (ttype n) = p)" for x p
    by (rule core_home) (simp add: h(3))
  have ok: "loop_ok (T - {t}) (s\<lparr>threads := h, lists := (lists s)(l := ?L)\<rparr>) (X(l := X l @ [t]))"
  proof (rule loop_ok_change [OF s])
    show "T - {t} \<subseteq> dom h" "dom h = dom (threads s)" using dm loop_okD(4) [OF s] by auto
    show "dlist h (((lists s)(l := ?L)) l') ((X(l := X l @ [t])) l')" for l'
    proof (cases "l' = l")
      case False
      then have "dlist h (lists s l') (X l') = dlist (threads s) (lists s l') (X l')"
        using other by (intro dlist_frame) (simp add: linked_def h(4))
      with False show ?thesis using loop_okD(1) [OF s, of l'] by simp
    qed (use h(2) in simp)
    show "core h x = core (threads s) x" for x by (simp add: h(3))
    show "thread_ok m'" if mT: "x \<notin> T - {t}" and hx: "h x = Some m'" for x m'
    proof -
      obtain m where m: "threads s x = Some m" "m = m'\<lparr>tnext := tnext m, tprev := tprev m\<rparr>"
        using core_get [of h x "threads s" m'] hx h(3) by auto
      have mok: "thread_ok m" using loop_okD(9) [OF s m(1)] mT t(2,3) m(1) by (cases "x = t") auto
      have m': "m' = m\<lparr>tnext := tnext m', tprev := tprev m'\<rparr>" by (subst m(2)) simp
      show ?thesis
      proof (cases "timer_type (ttype m)")
        case True
        then have "x \<noteq> t" using m(1) t(2,4) by auto
        moreover have "x \<notin> set (X l)" using True m(1) loop_okD(7) [OF s, of x l] by auto
        ultimately show ?thesis using h(4) m(1) hx mok by simp
      qed (use thread_ok_links [OF mok m'] in simp)
    qed
    show "x \<in> set ((X(l := X l @ [t])) l') \<longleftrightarrow> x \<notin> T - {t} \<and> (\<exists>n. h x = Some n \<and> home (ttype n) = In l')" for l' x
      unfolding ch using loop_okD(7) [OF s, of x l'] t by (cases "x = t"; cases "l' = l"; simp)
    show "x \<in> set (nodes (queues s q)) \<longleftrightarrow> x \<notin> T - {t} \<and> (\<exists>n. h x = Some n \<and> home (ttype n) = Queued q)" for q x
      unfolding ch using loop_okD(8) [OF s, of x q] t by (cases "x = t"; simp)
  qed
  show ?thesis using ok h(1,3) unfolding relinked_def by auto
qed

text \<open>A loose thread may be changed.\<close>

lemma loose_ok:
  assumes s: "loop_ok T s X" and t: "t \<in> T"
  shows "loop_ok T (upd_thread t f s) X"
proof -
  have nl: "t \<notin> set (X l)" for l using loop_okD(7) [OF s, of t l] t by blast
  have nq: "t \<notin> set (nodes (queues s q))" for q using loop_okD(8) [OF s, of t q] t by blast
  let ?h = "(threads s)(t := Some (f (thread_at t s)))"
  have e: "upd_thread t f s = s\<lparr>threads := ?h, lists := lists s\<rparr>" by (simp add: upd_thread_def)
  show ?thesis
    unfolding e
  proof (rule loop_ok_change [OF s])
    show "T \<subseteq> dom ?h" "dom ?h = dom (threads s)" using loop_okD(4) [OF s] t by auto
    show "dlist ?h (lists s l) (X l)" for l
      using loop_okD(1) [OF s, of l] nl by simp
    show "core ?h x = core (threads s) x" if "x \<in> set (nodes (queues s q))" for q x
      using that nq by (auto simp: core_def)
    show "thread_ok n" if "x \<notin> T" "?h x = Some n" for x n
      using that t loop_okD(9) [OF s, of x n] by (cases "x = t") auto
    show "x \<in> set (X l) \<longleftrightarrow> x \<notin> T \<and> (\<exists>n. ?h x = Some n \<and> home (ttype n) = In l)" for l x
      using loop_okD(7) [OF s, of x l] t by (cases "x = t") auto
    show "x \<in> set (nodes (queues s q)) \<longleftrightarrow> x \<notin> T \<and> (\<exists>n. ?h x = Some n \<and> home (ttype n) = Queued q)" for q x
      using loop_okD(8) [OF s, of x q] t by (cases "x = t") auto
  qed
qed

lemma fresh_ok:
  assumes s: "loop_ok T s X" and t: "t \<noteq> 0" "threads s t = None"
  shows "loop_ok (insert t T) (s\<lparr>threads := (threads s)(t := Some n), alloc := alloc s + 1\<rparr>) X"
proof -
  have nl: "t \<notin> set (X l)" for l using loop_okD(7) [OF s, of t l] t by simp
  have nq: "t \<notin> set (nodes (queues s q))" for q using loop_okD(8) [OF s, of t q] t by simp
  let ?h = "(threads s)(t := Some n)"
  have e: "threads (s\<lparr>threads := ?h, alloc := alloc s + 1\<rparr>) = ?h" "lists (s\<lparr>threads := ?h, alloc := alloc s + 1\<rparr>) = lists s"
    "queues (s\<lparr>threads := ?h, alloc := alloc s + 1\<rparr>) = queues s" "alloc (s\<lparr>threads := ?h, alloc := alloc s + 1\<rparr>) = alloc s + 1"
    by simp_all
  show ?thesis
    unfolding loop_ok_def e
  proof (intro conjI allI impI)
    show "dlist ?h (lists s l) (X l)" for l
      using loop_okD(1) [OF s, of l] nl by simp
    show "tq.queue_inv (queues s q) ?h" for q
      by (rule tq.queue_inv_frame [OF loop_okD(2) [OF s]])
        (use nq in \<open>auto simp: thread_timer_cmp_def thread_position_def\<close>)
    have "t \<notin> dom (threads s)" using t(2) by blast
    then show "alloc s + 1 = int (card (dom ?h))" using loop_okD(5,6) [OF s] by simp
    show "x \<in> set (X l) \<longleftrightarrow> x \<notin> insert t T \<and> (\<exists>n. ?h x = Some n \<and> home (ttype n) = In l)" for l x
      using loop_okD(7) [OF s, of x l] nl by (cases "x = t") auto
    show "x \<in> set (nodes (queues s q)) \<longleftrightarrow> x \<notin> insert t T \<and> (\<exists>n. ?h x = Some n \<and> home (ttype n) = Queued q)" for q x
      using loop_okD(8) [OF s, of x q] nq by (cases "x = t") auto
    show "thread_ok m" if "?h x = Some m \<and> x \<notin> insert t T" for x m
      using that loop_okD(9) [OF s, of x m] by auto
  qed (use loop_okD(3-5) [OF s] t(1) in auto)
qed

text \<open>A queue operation changes the positions that its threads record, and nothing else.\<close>

lemma told_thread:
  assumes "told thread_timer_update A h h'" "A \<subseteq> dom h"
  shows "payload h' = payload h" "linked h' = linked h" "dom h' = dom h"
    "(\<exists>n. h' x = Some n \<and> home (ttype n) = p) \<longleftrightarrow> (\<exists>n. h x = Some n \<and> home (ttype n) = p)"
    "h' x = Some n \<Longrightarrow> \<exists>m i. h x = Some m \<and> n = m\<lparr>index := i\<rparr>"
proof -
  have d: "dom h' = dom h" and n: "\<And>x n. h x = Some n \<Longrightarrow> \<exists>i. h' x = Some (n\<lparr>index := i\<rparr>)"
    using told_heap [OF assms] by auto
  have none: "h x = None \<Longrightarrow> h' x = None" for x using d by (metis domIff)
  have "payload h' x = payload h x" for x
  proof (cases "h x")
    case (Some m)
    then show ?thesis using n [OF Some] by (auto simp: payload_def)
  qed (simp add: none payload_def)
  then show "payload h' = payload h" by (rule ext)
  have "linked h' x = linked h x" for x
  proof (cases "h x")
    case (Some m)
    then show ?thesis using n [OF Some] by (auto simp: linked_def)
  qed (simp add: none linked_def)
  then show "linked h' = linked h" by (rule ext)
  show "dom h' = dom h" by (rule d)
  show "\<exists>m i. h x = Some m \<and> n = m\<lparr>index := i\<rparr>" if hx: "h' x = Some n"
  proof (cases "h x")
    case (Some m)
    then show ?thesis using n [OF Some] hx by auto
  qed (use none hx in auto)
  show "(\<exists>n. h' x = Some n \<and> home (ttype n) = p) \<longleftrightarrow> (\<exists>n. h x = Some n \<and> home (ttype n) = p)"
  proof (cases "h x")
    case (Some m)
    then show ?thesis using n [OF Some] by auto
  qed (simp add: none)
qed

lemma thread_ok_index: "thread_ok (n\<lparr>index := i\<rparr>) = thread_ok n"
  by (simp add: thread_ok_def)

lemma loop_ok_queue:
  assumes s: "loop_ok T s X" and a: "told thread_timer_update A (threads s) h" "A \<subseteq> dom (threads s)"
    and apart: "\<And>q x. q \<noteq> qi \<Longrightarrow> x \<in> A \<Longrightarrow> x \<notin> set (nodes (queues s q))"
    and q': "tq.queue_inv q' h" "set (nodes q') = {x. x \<notin> T' \<and> (\<exists>n. threads s x = Some n \<and> home (ttype n) = Queued qi)}"
    and T': "T' \<subseteq> dom (threads s)" "\<And>x n. x \<in> T \<Longrightarrow> x \<notin> T' \<Longrightarrow> threads s x = Some n \<Longrightarrow> home (ttype n) = Queued qi \<and> thread_ok n"
      "\<And>x n. x \<in> T' \<Longrightarrow> x \<notin> T \<Longrightarrow> threads s x = Some n \<Longrightarrow> home (ttype n) = Queued qi"
  shows "loop_ok T' (s\<lparr>queues := (queues s)(qi := q'), threads := h\<rparr>) X"
proof -
  let ?s = "s\<lparr>queues := (queues s)(qi := q'), threads := h\<rparr>"
  have e: "threads ?s = h" "lists ?s = lists s" "queues ?s = (queues s)(qi := q')" "alloc ?s = alloc s" by simp_all
  note h = told_thread [OF a]
  show ?thesis
    unfolding loop_ok_def e
  proof (intro conjI allI impI)
    show "dlist h (lists s l) (X l)" for l
      using loop_okD(1) [OF s, of l] dlist_frame [of "X l" h "threads s"] h(2) by simp
    show "tq.queue_inv (((queues s)(qi := q')) q) h" for q
    proof (cases "q = qi")
      case False
      have same: "h x = threads s x" if "x \<in> set (nodes (queues s q))" for x
        using apart [OF False, of x] that told_heap [OF a] by blast
      have "tq.queue_inv (queues s q) h"
        by (rule tq.queue_inv_frame [OF loop_okD(2) [OF s]]) (simp_all add: thread_timer_cmp_def thread_position_def same)
      then show ?thesis using False by simp
    qed (simp add: q')
    show "0 \<notin> dom h" "finite (dom h)" "alloc s = int (card (dom h))" "T' \<subseteq> dom h"
      using loop_okD(3,5,6) [OF s] T'(1) unfolding h(3) by (auto simp: domIff)
    show "x \<in> set (X l) \<longleftrightarrow> x \<notin> T' \<and> (\<exists>n. h x = Some n \<and> home (ttype n) = In l)" for l x
      unfolding h(4) using loop_okD(7) [OF s, of x l] T'(2,3) [of x] by force
    show "x \<in> set (nodes (((queues s)(qi := q')) q)) \<longleftrightarrow> x \<notin> T' \<and> (\<exists>n. h x = Some n \<and> home (ttype n) = Queued q)" for q x
      unfolding h(4) using loop_okD(8) [OF s, of x q] T'(2,3) [of x] q'(2) by (cases "q = qi") force+
    show "thread_ok n" if hx: "h x = Some n \<and> x \<notin> T'" for x n
    proof -
      obtain m i where m: "threads s x = Some m" "n = m\<lparr>index := i\<rparr>" using h(5) hx by blast
      have "thread_ok m" using m(1) hx T'(2) [of x m] loop_okD(9) [OF s, of x m] by blast
      then show ?thesis by (simp add: m(2) thread_ok_index)
    qed
  qed
qed

lemma queue_in_ok:
  assumes s: "loop_ok T s X" and t: "t \<in> T" "threads s t = Some n" "thread_ok n" "home (ttype n) = Queued qi"
  shows "\<exists>q h. pqueue_enqueue t (queues s qi) (threads s) = (q, h) \<and>
    loop_ok (T - {t}) (s\<lparr>queues := (queues s)(qi := q), threads := h\<rparr>) X \<and> payload h = payload (threads s) \<and>
    linked h = linked (threads s) \<and> set (nodes q) = insert t (set (nodes (queues s qi)))"
proof -
  have nq: "t \<notin> set (nodes (queues s qi))" using loop_okD(8) [OF s, of t qi] t by blast
  obtain q h where q: "pqueue_enqueue t (queues s qi) (threads s) = (q, h)" "tq.queue_inv q h"
    "mset (nodes q) = add_mset t (mset (nodes (queues s qi)))"
    "told thread_timer_update (insert t (set (nodes (queues s qi)))) (threads s) h"
    using tq.enqueue_ok [OF loop_okD(2) [OF s] nq] by blast
  have sq: "set (nodes q) = insert t (set (nodes (queues s qi)))" using arg_cong [OF q(3), of set_mset] by simp
  have dm: "insert t (set (nodes (queues s qi))) \<subseteq> dom (threads s)"
    using loop_okD(8) [OF s] t(2) by (auto simp: domIff)
  have "loop_ok (T - {t}) (s\<lparr>queues := (queues s)(qi := q), threads := h\<rparr>) X"
  proof (rule loop_ok_queue [OF s q(4) dm _ q(2)])
    show "x \<notin> set (nodes (queues s q'))" if "q' \<noteq> qi" "x \<in> insert t (set (nodes (queues s qi)))" for q' x
      using that loop_okD(8) [OF s, of x q'] loop_okD(8) [OF s, of x qi] t by auto
    show "set (nodes q) = {x. x \<notin> T - {t} \<and> (\<exists>n. threads s x = Some n \<and> home (ttype n) = Queued qi)}"
      unfolding sq using loop_okD(8) [OF s] t by auto
  qed (use loop_okD(4) [OF s] t in auto)
  then show ?thesis using q(1) told_thread(1,2) [OF q(4) dm] sq by blast
qed

lemma queue_out_ok:
  assumes s: "loop_ok T s X" and t: "t \<in> set (nodes (queues s qi))"
  shows "\<exists>q h. 0 \<le> index (thread_at t s) \<and> qarray (queues s qi) ! nat (index (thread_at t s)) = t \<and>
    pqueue_remove_at (nat (index (thread_at t s))) (queues s qi) (threads s) = Some (q, h) \<and>
    loop_ok (insert t T) (s\<lparr>queues := (queues s)(qi := q), threads := h\<rparr>) X \<and> payload h = payload (threads s) \<and>
    linked h = linked (threads s)"
proof -
  have inv: "tq.queue_inv (queues s qi) (threads s)" by (rule loop_okD(2) [OF s])
  obtain j where j: "j < qsize (queues s qi)" "nodes (queues s qi) ! j = t"
    using t tq.length_nodes [OF inv] by (metis in_set_conv_nth)
  have pos: "index (thread_at t s) = int j"
    using inv j by (auto simp: tq.queue_inv_def thread_position_def thread_at_def)
  have arr: "qarray (queues s qi) ! j = t" using j by (simp add: nodes_def)
  obtain q h where q: "pqueue_remove_at j (queues s qi) (threads s) = Some (q, h)" "tq.queue_inv q h"
    "mset (nodes (queues s qi)) = add_mset t (mset (nodes q))"
    "told thread_timer_update (set (nodes (queues s qi))) (threads s) h"
    using tq.remove_at_ok [OF inv j(1)] unfolding j(2) by blast
  have "t \<notin> set (nodes q)"
  proof -
    have "distinct (nodes (queues s qi))" using inv by (simp add: tq.queue_inv_def)
    then have "count (mset (nodes (queues s qi))) t \<le> 1" by (simp add: distinct_count_atmost_1)
    then show ?thesis unfolding q(3) by (simp add: count_eq_zero_iff)
  qed
  then have sq: "set (nodes q) = set (nodes (queues s qi)) - {t}" using arg_cong [OF q(3), of set_mset] by auto
  have dm: "set (nodes (queues s qi)) \<subseteq> dom (threads s)" using loop_okD(8) [OF s] by (auto simp: domIff)
  have "loop_ok (insert t T) (s\<lparr>queues := (queues s)(qi := q), threads := h\<rparr>) X"
  proof (rule loop_ok_queue [OF s q(4) dm _ q(2)])
    show "x \<notin> set (nodes (queues s q'))" if "q' \<noteq> qi" "x \<in> set (nodes (queues s qi))" for q' x
      using that loop_okD(8) [OF s, of x q'] loop_okD(8) [OF s, of x qi] by auto
    show "set (nodes q) = {x. x \<notin> insert t T \<and> (\<exists>n. threads s x = Some n \<and> home (ttype n) = Queued qi)}"
      unfolding sq using loop_okD(8) [OF s] by auto
    show "home (ttype n) = Queued qi" if "x \<in> insert t T" "x \<notin> T" "threads s x = Some n" for x n
      using that t loop_okD(8) [OF s, of t qi] by auto
  qed (use loop_okD(4) [OF s] dm t in auto)
  then show ?thesis using q(1) told_thread(1,2) [OF q(4) dm] pos arr by auto
qed

end
