(* ===== verification/EventLoopOps.thy ===== *)
theory EventLoopOps
  imports EventLoopInv
begin

text \<open>
  The operations of \<open>lib/thread.c\<close> on the members of the lists: each of them keeps the
  invariant, none of its assertions fails, and its effect is that of the sequence operation it
  stands for.
\<close>

section \<open>The descriptors watched\<close>

definition fd_of :: "event_loop \<Rightarrow> nat \<Rightarrow> nat" where
  "fd_of s t = u_fd (u (thread_at t s))"

definition fds_ok :: "event_loop \<Rightarrow> (list_id \<Rightarrow> nat list) \<Rightarrow> bool" where
  "fds_ok s X \<longleftrightarrow> (\<forall>l \<in> {L_read, L_write}. fds l s = fd_of s ` set (X l) \<and> inj_on (fd_of s) (set (X l)))"

definition loop_inv :: "event_loop \<Rightarrow> (list_id \<Rightarrow> nat list) \<Rightarrow> bool" where
  "loop_inv s X \<longleftrightarrow> loop_ok {} s X \<and> fds_ok s X"

text \<open>What is read of a thread that its payload determines.\<close>

lemma payload_at:
  assumes "payload (threads s') x = payload (threads s) x"
  shows "func (thread_at x s') = func (thread_at x s)" "arg (thread_at x s') = arg (thread_at x s)"
    "u (thread_at x s') = u (thread_at x s)" "fd_of s' x = fd_of s x"
proof -
  have "func (the (threads s' x)) = func (the (threads s x)) \<and> arg (the (threads s' x)) = arg (the (threads s x)) \<and>
    u (the (threads s' x)) = u (the (threads s x))"
  proof (cases "threads s x")
    case None
    moreover from None have "threads s' x = None" using assms payload_dom [of "threads s" x] payload_dom [of "threads s'" x] by simp
    ultimately show ?thesis by simp
  next
    case (Some n)
    then obtain n' where "threads s' x = Some n'" using assms payload_dom [of "threads s" x] payload_dom [of "threads s'" x] by auto
    with Some show ?thesis using payload_get [OF assms [symmetric] Some] by simp
  qed
  then show u: "func (thread_at x s') = func (thread_at x s)" "arg (thread_at x s') = arg (thread_at x s)"
    "u (thread_at x s') = u (thread_at x s)"
    by (simp_all add: thread_at_def)
  show "fd_of s' x = fd_of s x" using u(3) by (simp add: fd_of_def)
qed

lemma fds_ok_keep:
  assumes "fds_ok s X" "\<And>l x. l = L_read \<or> l = L_write \<Longrightarrow> x \<in> set (X l) \<Longrightarrow> payload (threads s') x = payload (threads s) x"
    "fds L_read s' = fds L_read s" "fds L_write s' = fds L_write s" "X' L_read = X L_read" "X' L_write = X L_write"
  shows "fds_ok s' X'"
proof -
  have "fd_of s' x = fd_of s x" if "x \<in> set (X L_read) \<union> set (X L_write)" for x
    using payload_at(4) assms(2) that by blast
  then show ?thesis using assms(1,3-6) by (simp add: fds_ok_def inj_on_def)
qed

text \<open>The rest of the state, which list operations leave alone.\<close>

definition framed :: "event_loop \<Rightarrow> event_loop \<Rightarrow> bool" where
  "framed s s' \<longleftrightarrow> readfd s' = readfd s \<and> writefd s' = writefd s \<and> signals s' = signals s \<and> sig_caught s' = sig_caught s"

lemma framed_refl [simp]: "framed s s"
  by (simp add: framed_def)

lemma framed_trans [trans]: "framed s s' \<Longrightarrow> framed s' s'' \<Longrightarrow> framed s s''"
  by (simp add: framed_def)

lemma framed_fds: "framed s s' \<Longrightarrow> fds l s' = fds l s"
  by (simp add: framed_def fds_def)

lemma relinked_framed: "relinked s s' \<Longrightarrow> framed s s' \<and> payload (threads s') = payload (threads s)"
  using relinkedD [of s s'] payload_core [of "threads s'" _ "threads s"] by (auto simp: framed_def fun_eq_iff)

lemma upd_thread_simps [simp]:
  "threads (upd_thread t f s) = (threads s)(t := Some (f (thread_at t s)))" "lists (upd_thread t f s) = lists s"
  "queues (upd_thread t f s) = queues s" "framed s (upd_thread t f s)" "readfd (upd_thread t f s) = readfd s"
  "writefd (upd_thread t f s) = writefd s"
  by (simp_all add: upd_thread_def framed_def)

lemma payload_type: "threads s t \<noteq> None \<Longrightarrow> payload (threads (upd_thread t (\<lambda>n. n\<lparr>ttype := ty\<rparr>) s)) = payload (threads s)"
  by (auto simp: thread_at_def)

section \<open>Leaving for the list of unused threads\<close>

lemma make_unused_ok:
  assumes s: "loop_ok T s X" and t: "t \<in> T" "linked (threads s) t = Some (0, 0)"
  shows "\<exists>s'. make_unused t s = Some s' \<and> loop_ok (T - {t}) s' (X(L_unuse := X L_unuse @ [t])) \<and> framed s s' \<and>
    payload (threads s') = payload (threads s)"
proof -
  obtain n where n: "threads s t = Some n" "tnext n = 0" "tprev n = 0" using t(2) by (auto simp: linked_def)
  let ?s = "upd_thread t (\<lambda>n. n\<lparr>ttype := THREAD_UNUSED\<rparr>) s"
  have th: "threads ?s t = Some (n\<lparr>ttype := THREAD_UNUSED\<rparr>)" using n by (simp add: thread_at_def)
  have t0: "t \<noteq> 0" using loop_okD(3) [OF s] n(1) by (cases "t = 0") simp_all
  have "make_unused t s = Some (thread_list_add L_unuse t ?s)"
    using n t0 by (simp add: make_unused_def thread_add_unuse_def thread_at_def)
  moreover have "loop_ok (T - {t}) (thread_list_add L_unuse t ?s) (X(L_unuse := X L_unuse @ [t])) \<and>
      relinked ?s (thread_list_add L_unuse t ?s)"
    by (rule link_ok [OF loose_ok [OF s t(1)] t(1) th]) (simp_all add: thread_ok_def)
  moreover have "payload (threads ?s) = payload (threads s)" using n(1) by (intro payload_type) simp
  ultimately show ?thesis using relinked_framed [of ?s] framed_trans [of s ?s] by auto
qed

lemma cancel_in_list_ok:
  assumes s: "loop_ok T s X" and t: "t \<in> set (X l)" "l \<noteq> L_unuse"
  shows "\<exists>s'. cancel_in_list l t s = Some s' \<and>
    loop_ok T s' (X(l := remove1 t (X l), L_unuse := X L_unuse @ [t])) \<and> framed s s' \<and> payload (threads s') = payload (threads s)"
proof -
  let ?s = "thread_list_delete l t s"
  have u: "loop_ok (insert t T) ?s (X(l := remove1 t (X l)))" "relinked s ?s" "linked (threads ?s) t = Some (0, 0)"
    using unlink_ok [OF s t(1)] by auto
  have tT: "insert t T - {t} = T" using loop_okD(7) [OF s, of t l] t by auto
  show ?thesis
    using make_unused_ok [OF u(1) _ u(3)] relinked_framed [OF u(2)] framed_trans t(2)
    by (auto simp: cancel_in_list_def tT)
qed

lemma cancel_in_queue_ok:
  assumes s: "loop_ok T s X" and t: "t \<in> set (nodes (queues s qi))"
  shows "\<exists>s'. cancel_in_queue qi t s = Some s' \<and> loop_ok T s' (X(L_unuse := X L_unuse @ [t])) \<and> framed s s' \<and>
    payload (threads s') = payload (threads s)"
proof -
  obtain q h where q: "0 \<le> index (thread_at t s)" "qarray (queues s qi) ! nat (index (thread_at t s)) = t"
    "pqueue_remove_at (nat (index (thread_at t s))) (queues s qi) (threads s) = Some (q, h)"
    "loop_ok (insert t T) (s\<lparr>queues := (queues s)(qi := q), threads := h\<rparr>) X" "payload h = payload (threads s)"
    "linked h = linked (threads s)"
    using queue_out_ok [OF s t] by blast
  let ?s = "s\<lparr>queues := (queues s)(qi := q), threads := h\<rparr>"
  obtain n where n: "threads s t = Some n" "home (ttype n) = Queued qi" "t \<notin> T"
    using loop_okD(8) [OF s, of t qi] t by blast
  have "timer_type (ttype n)" using n(2) by (cases "ttype n") auto
  then have "linked (threads ?s) t = Some (0, 0)"
    using loop_okD(9) [OF s n(1,3)] n(1) q(6) by (simp add: thread_ok_def linked_def)
  moreover have "insert t T - {t} = T" using n(3) by blast
  moreover have "cancel_in_queue qi t s = make_unused t ?s" using q(1-3) by (simp add: cancel_in_queue_def Let_def)
  moreover have "framed s ?s" by (simp add: framed_def)
  ultimately show ?thesis
    using make_unused_ok [OF q(4), of t] q(5) framed_trans [of s ?s] by auto
qed

section \<open>Becoming ready\<close>

definition to_ready :: "list_id \<Rightarrow> nat \<Rightarrow> event_loop \<Rightarrow> event_loop" where
  "to_ready l t s = thread_list_add L_ready t (upd_thread t (\<lambda>n. n\<lparr>ttype := THREAD_READY\<rparr>) (thread_list_delete l t s))"

lemma to_ready_ok:
  assumes s: "loop_ok {} s X" and t: "t \<in> set (X l)" "l \<noteq> L_unuse" "l \<noteq> L_ready"
  shows "loop_ok {} (to_ready l t s) (X(l := remove1 t (X l), L_ready := X L_ready @ [t])) \<and> framed s (to_ready l t s) \<and>
    payload (threads (to_ready l t s)) = payload (threads s)"
proof -
  let ?s = "thread_list_delete l t s" and ?r = "\<lambda>n. n\<lparr>ttype := THREAD_READY\<rparr>"
  have un: "loop_ok {t} ?s (X(l := remove1 t (X l)))" "relinked s ?s" using unlink_ok [OF s t(1)] by auto
  obtain n where n: "threads s t = Some n" "home (ttype n) = In l" using loop_okD(7) [OF s, of t l] t by blast
  obtain n' where n': "threads ?s t = Some n'" "n' = n\<lparr>tnext := tnext n', tprev := tprev n'\<rparr>"
    using core_get [of "threads s" t "threads ?s" n] n(1) relinkedD(1) [OF un(2)] by auto
  have "thread_ok n" using loop_okD(9) [OF s n(1)] by simp
  then have "thread_ok (?r n)" using n(2) t(2,3) by (cases "ttype n") (auto simp: thread_ok_def)
  moreover have "?r n' = (?r n)\<lparr>tnext := tnext n', tprev := tprev n'\<rparr>" by (subst n'(2)) simp
  ultimately have ok: "thread_ok (?r n')" using thread_ok_links [of "?r n"] by simp
  have th: "threads (upd_thread t ?r ?s) t = Some (?r n')" using n'(1) by (simp add: thread_at_def)
  have "loop_ok ({t} - {t}) (to_ready l t s)
      ((X(l := remove1 t (X l)))(L_ready := (X(l := remove1 t (X l))) L_ready @ [t])) \<and> relinked (upd_thread t ?r ?s) (to_ready l t s)"
    unfolding to_ready_def by (rule link_ok [OF loose_ok [OF un(1)] _ th ok]) simp_all
  moreover have "payload (threads (upd_thread t ?r ?s)) = payload (threads ?s)" using n'(1) by (intro payload_type) simp
  ultimately show ?thesis
    using relinked_framed [OF un(2)] relinked_framed [of "upd_thread t ?r ?s"] framed_trans [of s ?s] t(3)
      framed_trans [of ?s "upd_thread t ?r ?s"]
    by auto
qed

lemma list_add_then_type:
  assumes "tail (lists s l) \<noteq> t"
  shows "upd_thread t (\<lambda>n. n\<lparr>ttype := ty\<rparr>) (thread_list_add l t s) = thread_list_add l t (upd_thread t (\<lambda>n. n\<lparr>ttype := ty\<rparr>) s)"
proof -
  have r: "r\<lparr>tnext := a, tprev := b, ttype := ty\<rparr> = r\<lparr>ttype := ty, tnext := a, tprev := b\<rparr>" for r :: thread and a b
    by (cases r) simp
  have c: "s\<lparr>lists := L, threads := h\<rparr> = s\<lparr>threads := h, lists := L\<rparr>" for L h by (cases s) simp
  show ?thesis
    using assms by (simp add: thread_list_add_def Let_def upd_thread_def upd_list_def thread_at_def fun_upd_twist r c)
qed

text \<open>The successor that the loops read before they move a thread.\<close>

lemma next_member:
  assumes "loop_ok T s X" "X l = zs @ t # ys"
  shows "tnext (thread_at t s) = first ys 0" "t \<noteq> 0" "t \<notin> set zs" "t \<notin> set ys"
proof -
  have d: "dlist (threads s) (lists s l) (zs @ t # ys)" using loop_okD(1) [OF assms(1), of l] assms(2) by simp
  then have "linked (threads s) t = Some (final 0 zs, first ys 0)" by (simp add: dlist_def dseg_append dseg_linked)
  then show "tnext (thread_at t s) = first ys 0" by (auto simp: linked_def thread_at_def)
  show "t \<noteq> 0" "t \<notin> set zs" "t \<notin> set ys" using d by (auto simp: dlist_def)
qed

lemma first_member: "loop_ok T s X \<Longrightarrow> head (lists s l) = first (X l) 0"
  using loop_okD(1) [of T s X l] by (simp add: dlist_def)

lemma process_list_ok:
  assumes "loop_ok {} s X" "X l = ys" "l \<noteq> L_unuse" "l \<noteq> L_ready"
  shows "\<exists>s'. process_list l (first ys 0) k s = Some (k + length ys, s') \<and>
    loop_ok {} s' (X(l := [], L_ready := X L_ready @ ys)) \<and> framed s s' \<and> payload (threads s') = payload (threads s)"
  using assms
proof (induction ys arbitrary: k s X)
  case Nil
  then have e: "X(l := [], L_ready := X L_ready @ []) = X" by auto
  show ?case unfolding e using Nil by (simp add: process_list.simps)
next
  case (Cons t ys)
  let ?s = "to_ready l t s" and ?X = "X(l := ys, L_ready := X L_ready @ [t])"
  have r: "loop_ok {} ?s ?X" "framed s ?s" "payload (threads ?s) = payload (threads s)"
    using to_ready_ok [OF Cons.prems(1), of t l] Cons.prems(2-4) by simp_all
  have nx: "tnext (thread_at t s) = first ys 0" "t \<noteq> 0" using next_member [OF Cons.prems(1), of l "[]" t ys] Cons.prems(2) by simp_all
  have "process_list l (first (t # ys) 0) k s = process_list l (first ys 0) (k + 1) ?s"
    using nx by (subst process_list.simps) (simp add: to_ready_def Let_def)
  moreover have e: "?X(l := [], L_ready := ?X L_ready @ ys) = X(l := [], L_ready := X L_ready @ t # ys)" by auto
  have "?X l = ys" using Cons.prems(4) by simp
  then obtain s' where "process_list l (first ys 0) (k + 1) ?s = Some (k + 1 + length ys, s')"
      "loop_ok {} s' (X(l := [], L_ready := X L_ready @ t # ys))" "framed ?s s'" "payload (threads s') = payload (threads ?s)"
    using Cons.IH [OF r(1) _ Cons.prems(3,4), of "k + 1"] unfolding e by blast
  moreover from this have "framed s s'" "payload (threads s') = payload (threads s)" "k + 1 + length ys = k + length (t # ys)"
    using framed_trans [OF r(2)] r(3) by simp_all
  ultimately show ?case by metis
qed

lemma thread_process_ok:
  assumes "loop_inv s X" "l = L_event \<or> l = L_event_normal"
  shows "\<exists>s'. thread_process l s = Some (length (X l), s') \<and>
    loop_inv s' (X(l := [], L_ready := X L_ready @ X l)) \<and> framed s s' \<and> payload (threads s') = payload (threads s)"
proof -
  have s: "loop_ok {} s X" "fds_ok s X" using assms(1) by (simp_all add: loop_inv_def)
  obtain s' where r: "process_list l (first (X l) 0) 0 s = Some (length (X l), s')"
    "loop_ok {} s' (X(l := [], L_ready := X L_ready @ X l))" "framed s s'" "payload (threads s') = payload (threads s)"
    using process_list_ok [OF s(1) refl, of l 0] assms(2) by auto
  have "fds_ok s' (X(l := [], L_ready := X L_ready @ X l))"
    using assms(2) by (intro fds_ok_keep [OF s(2)]) (auto simp: r(4) framed_fds [OF r(3)])
  then show ?thesis using r first_member [OF s(1), of l] by (simp add: thread_process_def loop_inv_def)
qed

text \<open>The members of a list of descriptors that are ready move, in their order.\<close>

lemma fd_clr_simps [simp]: "threads (fd_clr l fd s) = threads s" "lists (fd_clr l fd s) = lists s"
  "queues (fd_clr l fd s) = queues s" "alloc (fd_clr l fd s) = alloc s" "signals (fd_clr l fd s) = signals s"
  "sig_caught (fd_clr l fd s) = sig_caught s"
  by (simp_all add: fd_clr_def)

lemma fd_clr_ok: "loop_ok T (fd_clr l fd s) X = loop_ok T s X"
  by (simp add: loop_ok_def)

definition sig_same :: "event_loop \<Rightarrow> event_loop \<Rightarrow> bool" where
  "sig_same s s' \<longleftrightarrow> signals s' = signals s \<and> sig_caught s' = sig_caught s"

lemma sig_same_refl [simp]: "sig_same s s"
  by (simp add: sig_same_def)

lemma sig_same_trans [trans]: "sig_same s s' \<Longrightarrow> sig_same s' s'' \<Longrightarrow> sig_same s s''"
  by (simp add: sig_same_def)

lemma framed_sig: "framed s s' \<Longrightarrow> sig_same s s'"
  by (simp add: framed_def sig_same_def)

text \<open>A member of the list leaves, and its descriptor with it.\<close>

lemma fds_ok_leave:
  assumes s: "fds_ok s X" and l: "l = L_read \<or> l = L_write" and t: "t \<in> set (X l)" "distinct (X l)"
    and s': "framed (fd_clr l (fd_of s t) s) s'" "payload (threads s') = payload (threads s)"
      "X' l = remove1 t (X l)" "\<And>k. k = L_read \<or> k = L_write \<Longrightarrow> k \<noteq> l \<Longrightarrow> X' k = X k"
  shows "fds_ok s' X'"
proof -
  have f: "fd_of s' = fd_of s" using payload_at(4) [of s' _ s] s'(2) by auto
  have inj: "inj_on (fd_of s) (set (X l))" and im: "fds l s = fd_of s ` set (X l)" using s l by (auto simp: fds_ok_def)
  have X': "set (X' l) = set (X l) - {t}" using s'(3) t(2) by simp
  have fl: "fds l s' = fds l s - {fd_of s t}" using s'(1) l by (auto simp: framed_def fds_def fd_clr_def)
  have "fds l s' = fd_of s' ` set (X' l) \<and> inj_on (fd_of s') (set (X' l))"
    unfolding f X' fl im using inj t(1) by (auto simp: inj_on_def)
  moreover have "fds k s' = fd_of s' ` set (X' k) \<and> inj_on (fd_of s') (set (X' k))" if k: "k = L_read \<or> k = L_write" "k \<noteq> l" for k
  proof -
    have "fds k s' = fds k s" using s'(1) k l by (auto simp: framed_def fds_def fd_clr_def)
    then show ?thesis using s k s'(4) [OF k] unfolding f fds_ok_def by auto
  qed
  ultimately show ?thesis using l unfolding fds_ok_def by blast
qed

lemma process_fd_ok:
  assumes "loop_inv s X" "X l = zs @ ys" "l = L_read \<or> l = L_write"
  shows "\<exists>s'. process_fd l F (first ys 0) k s = Some (k + length (filter (\<lambda>t. fd_of s t \<in> F) ys), s') \<and>
    loop_inv s' (X(l := zs @ filter (\<lambda>t. fd_of s t \<notin> F) ys, L_ready := X L_ready @ filter (\<lambda>t. fd_of s t \<in> F) ys)) \<and>
    sig_same s s' \<and> payload (threads s') = payload (threads s)"
  using assms
proof (induction ys arbitrary: zs k s X)
  case Nil
  then have e: "X(l := zs @ filter (\<lambda>t. fd_of s t \<notin> F) [], L_ready := X L_ready @ filter (\<lambda>t. fd_of s t \<in> F) []) = X" by auto
  show ?case unfolding e using Nil by (simp add: process_fd.simps)
next
  case (Cons t ys)
  have s: "loop_ok {} s X" "fds_ok s X" using Cons.prems(1) by (simp_all add: loop_inv_def)
  note nx = next_member [OF s(1) Cons.prems(2)]
  have fd: "u_fd (u (thread_at t s)) = fd_of s t" by (simp add: fd_of_def)
  show ?case
  proof (cases "fd_of s t \<in> F")
    case False
    have "process_fd l F (first (t # ys) 0) k s = process_fd l F (first ys 0) k s"
      using nx False by (subst process_fd.simps) (simp add: fd)
    moreover have "X l = (zs @ [t]) @ ys" using Cons.prems(2) by simp
    ultimately show ?thesis using Cons.IH [OF Cons.prems(1), of "zs @ [t]" k] Cons.prems(3) False by simp
  next
    case True
    let ?w = "fd_clr l (fd_of s t) s"
    let ?s = "to_ready l t ?w" and ?X = "X(l := zs @ ys, L_ready := X L_ready @ [t])"
    have lr: "l \<noteq> L_unuse" "l \<noteq> L_ready" using Cons.prems(3) by auto
    have tl: "t \<in> set (X l)" "remove1 t (X l) = zs @ ys" using nx Cons.prems(2) by (simp_all add: remove1_append)
    have "loop_ok {} ?w X" using s(1) by (simp add: fd_clr_ok)
    then have r: "loop_ok {} ?s ?X" "framed ?w ?s" "payload (threads ?s) = payload (threads s)"
      and del: "loop_ok {t} (thread_list_delete l t ?w) (X(l := zs @ ys))"
      using to_ready_ok [of ?w X t l] unlink_ok [of "{}" ?w X t l] tl lr by simp_all
    have fk: "fds_ok ?s ?X"
      by (rule fds_ok_leave [OF s(2) Cons.prems(3) tl(1) loop_ok_distinct [OF s(1)] r(2,3)]) (use tl lr in auto)
    have inv: "loop_inv ?s ?X" using r(1) fk by (simp add: loop_inv_def)
    have sig: "sig_same s ?s" using framed_sig [OF r(2)] by (simp add: sig_same_def)
    have "tail (lists (thread_list_delete l t ?w) L_ready) \<noteq> t"
    proof -
      have d: "dlist (threads (thread_list_delete l t ?w)) (lists (thread_list_delete l t ?w) L_ready) (X L_ready)"
        using loop_okD(1) [OF del, of L_ready] lr by simp
      have "t \<notin> set (X L_ready)" using loop_okD(7) [OF s(1), of t] tl(1) lr(2) by (metis option.inject place.inject(1))
      then show ?thesis using d nx(2) final_in [of "X L_ready" 0] unfolding dlist_def by (cases "X L_ready = []") auto
    qed
    then have eq: "upd_thread t (\<lambda>n. n\<lparr>ttype := THREAD_READY\<rparr>) (thread_list_add L_ready t (thread_list_delete l t ?w)) = ?s"
      unfolding to_ready_def by (rule list_add_then_type)
    have "fd_of s t \<in> fds l s" using s(2) Cons.prems(3) tl(1) by (auto simp: fds_ok_def)
    then have "process_fd l F (first (t # ys) 0) k s = process_fd l F (first ys 0) (k + 1) ?s"
      using nx True eq by (subst process_fd.simps) (simp add: fd Let_def)
    moreover have fdof: "fd_of ?s = fd_of s" using payload_at(4) [of ?s _ s] r(3) by auto
    have e: "?X(l := zs @ filter (\<lambda>t. fd_of s t \<notin> F) ys, L_ready := ?X L_ready @ filter (\<lambda>t. fd_of s t \<in> F) ys) =
        X(l := zs @ filter (\<lambda>t. fd_of s t \<notin> F) (t # ys), L_ready := X L_ready @ filter (\<lambda>t. fd_of s t \<in> F) (t # ys))"
      using True by auto
    have "?X l = zs @ ys" using lr by simp
    then obtain s' where "process_fd l F (first ys 0) (k + 1) ?s = Some (k + 1 + length (filter (\<lambda>t. fd_of s t \<in> F) ys), s')"
        "loop_inv s' (X(l := zs @ filter (\<lambda>t. fd_of s t \<notin> F) (t # ys), L_ready := X L_ready @ filter (\<lambda>t. fd_of s t \<in> F) (t # ys)))"
        "sig_same ?s s'" "payload (threads s') = payload (threads ?s)"
      using Cons.IH [OF inv _ Cons.prems(3), of zs "k + 1"] unfolding fdof e by blast
    moreover from this have "sig_same s s'" "payload (threads s') = payload (threads s)"
        "k + 1 + length (filter (\<lambda>t. fd_of s t \<in> F) ys) = k + length (filter (\<lambda>t. fd_of s t \<in> F) (t # ys))"
      using sig_same_trans [OF sig] r(3) True by simp_all
    ultimately show ?thesis by metis
  qed
qed

lemma thread_process_fd_ok:
  assumes "loop_inv s X" "l = L_read \<or> l = L_write"
  shows "\<exists>s'. thread_process_fd l F s = Some (length (filter (\<lambda>t. fd_of s t \<in> F) (X l)), s') \<and>
    loop_inv s' (X(l := filter (\<lambda>t. fd_of s t \<notin> F) (X l), L_ready := X L_ready @ filter (\<lambda>t. fd_of s t \<in> F) (X l))) \<and>
    sig_same s s' \<and> payload (threads s') = payload (threads s)"
proof -
  have "head (lists s l) = first (X l) 0" using assms(1) first_member [of "{}" s X l] by (simp add: loop_inv_def)
  then show ?thesis using process_fd_ok [OF assms(1) _ assms(2), of "[]" "X l" F 0] by (simp add: thread_process_fd_def)
qed

section \<open>Cancelling\<close>

lemma cancel_arg_ok:
  assumes "loop_ok {} s X" "X l = zs @ ys" "l \<noteq> L_unuse"
  shows "\<exists>s'. cancel_arg l a (first ys 0) k s = Some (k + length (filter (\<lambda>t. arg (thread_at t s) = a) ys), s') \<and>
    loop_ok {} s' (X(l := zs @ filter (\<lambda>t. arg (thread_at t s) \<noteq> a) ys,
      L_unuse := X L_unuse @ filter (\<lambda>t. arg (thread_at t s) = a) ys)) \<and>
    framed s s' \<and> payload (threads s') = payload (threads s)"
  using assms
proof (induction ys arbitrary: zs k s X)
  case Nil
  then have e: "X(l := zs @ filter (\<lambda>t. arg (thread_at t s) \<noteq> a) [],
      L_unuse := X L_unuse @ filter (\<lambda>t. arg (thread_at t s) = a) []) = X" by auto
  show ?case unfolding e using Nil by (simp add: cancel_arg.simps)
next
  case (Cons t ys)
  note nx = next_member [OF Cons.prems(1,2)]
  show ?case
  proof (cases "arg (thread_at t s) = a")
    case False
    have "cancel_arg l a (first (t # ys) 0) k s = cancel_arg l a (first ys 0) k s"
      using nx False by (subst cancel_arg.simps) simp
    moreover have "X l = (zs @ [t]) @ ys" using Cons.prems(2) by simp
    ultimately show ?thesis using Cons.IH [OF Cons.prems(1), of "zs @ [t]" k] Cons.prems(3) False by simp
  next
    case True
    let ?X = "X(l := zs @ ys, L_unuse := X L_unuse @ [t])"
    have tl: "t \<in> set (X l)" "remove1 t (X l) = zs @ ys" using nx Cons.prems(2) by (simp_all add: remove1_append)
    obtain s1 where s1: "cancel_in_list l t s = Some s1" "loop_ok {} s1 ?X" "framed s s1" "payload (threads s1) = payload (threads s)"
      using cancel_in_list_ok [OF Cons.prems(1) tl(1) Cons.prems(3)] tl(2) by auto
    have "cancel_arg l a (first (t # ys) 0) k s = cancel_arg l a (first ys 0) (k + 1) s1"
      using nx True s1(1) by (subst cancel_arg.simps) simp
    moreover have args: "arg (thread_at x s1) = arg (thread_at x s)" for x using payload_at(2) [of s1 x s] s1(4) by simp
    have e: "?X(l := zs @ filter (\<lambda>t. arg (thread_at t s) \<noteq> a) ys,
          L_unuse := ?X L_unuse @ filter (\<lambda>t. arg (thread_at t s) = a) ys) =
        X(l := zs @ filter (\<lambda>t. arg (thread_at t s) \<noteq> a) (t # ys),
          L_unuse := X L_unuse @ filter (\<lambda>t. arg (thread_at t s) = a) (t # ys))"
      using True Cons.prems(3) by auto
    have "?X l = zs @ ys" using Cons.prems(3) by simp
    then obtain s' where
        "cancel_arg l a (first ys 0) (k + 1) s1 = Some (k + 1 + length (filter (\<lambda>t. arg (thread_at t s) = a) ys), s')"
        "loop_ok {} s' (X(l := zs @ filter (\<lambda>t. arg (thread_at t s) \<noteq> a) (t # ys),
          L_unuse := X L_unuse @ filter (\<lambda>t. arg (thread_at t s) = a) (t # ys)))"
        "framed s1 s'" "payload (threads s') = payload (threads s1)"
      using Cons.IH [OF s1(2) _ Cons.prems(3), of zs "k + 1"] unfolding args e by blast
    moreover from this have "framed s s'" "payload (threads s') = payload (threads s)"
        "k + 1 + length (filter (\<lambda>t. arg (thread_at t s) = a) ys) = k + length (filter (\<lambda>t. arg (thread_at t s) = a) (t # ys))"
      using framed_trans [OF s1(3)] s1(4) True by simp_all
    ultimately show ?thesis by metis
  qed
qed

text \<open>The members that are left of the two lists, and those added to the unused ones.\<close>

lemma cancel_event_in_ok:
  assumes "loop_inv s X" "l = L_event \<or> l = L_event_normal"
  shows "\<exists>s'. cancel_event_in l a s =
      Some (length (filter (\<lambda>t. arg (thread_at t s) = a) (X l @ X L_ready)), s') \<and>
    loop_inv s' (X(l := filter (\<lambda>t. arg (thread_at t s) \<noteq> a) (X l),
      L_ready := filter (\<lambda>t. arg (thread_at t s) \<noteq> a) (X L_ready),
      L_unuse := X L_unuse @ filter (\<lambda>t. arg (thread_at t s) = a) (X l @ X L_ready))) \<and>
    framed s s' \<and> payload (threads s') = payload (threads s)"
proof -
  let ?P = "\<lambda>t. arg (thread_at t s) = a" and ?N = "\<lambda>t. arg (thread_at t s) \<noteq> a"
  let ?X = "X(l := filter ?N (X l), L_unuse := X L_unuse @ filter ?P (X l))"
  let ?Y = "X(l := filter ?N (X l), L_ready := filter ?N (X L_ready), L_unuse := X L_unuse @ filter ?P (X l @ X L_ready))"
  have s: "loop_ok {} s X" "fds_ok s X" using assms(1) by (simp_all add: loop_inv_def)
  have l: "l \<noteq> L_unuse" "l \<noteq> L_ready" using assms(2) by auto
  obtain s1 where s1: "cancel_arg l a (first (X l) 0) 0 s = Some (length (filter ?P (X l)), s1)" "loop_ok {} s1 ?X"
      "framed s s1" "payload (threads s1) = payload (threads s)"
    using cancel_arg_ok [OF s(1), of l "[]" "X l" a 0] l by auto
  have args: "arg (thread_at x s1) = arg (thread_at x s)" for x using payload_at(2) [of s1 x s] s1(4) by simp
  have "?X L_ready = [] @ X L_ready" "L_ready \<noteq> L_unuse" using l by auto
  note r = cancel_arg_ok [OF s1(2) this, of a "length (filter ?P (X l))"]
  have e: "?X(L_ready := [] @ filter ?N (X L_ready), L_unuse := ?X L_unuse @ filter ?P (X L_ready)) = ?Y" using l by auto
  obtain s2 where s2: "cancel_arg L_ready a (first (X L_ready) 0) (length (filter ?P (X l))) s1 =
      Some (length (filter ?P (X l)) + length (filter ?P (X L_ready)), s2)" "loop_ok {} s2 ?Y"
      "framed s1 s2" "payload (threads s2) = payload (threads s1)"
    using r unfolding args e by blast
  have fr: "framed s s2" "payload (threads s2) = payload (threads s)" using s1(3,4) s2(3,4) framed_trans by auto
  have "fds_ok s2 ?Y" using assms(2) by (intro fds_ok_keep [OF s(2)]) (auto simp: fr(2) framed_fds [OF fr(1)])
  moreover have "head (lists s1 L_ready) = first (X L_ready) 0" using first_member [OF s1(2), of L_ready] l by simp
  ultimately show ?thesis
    using s1(1) s2(1,2) fr first_member [OF s(1), of l] by (simp add: cancel_event_in_def loop_inv_def)
qed

text \<open>Where a thread is cancelled from.\<close>

lemma thread_cancel_ok:
  assumes inv: "loop_inv s X" and t: "threads s t = Some n"
  shows "\<exists>s' X'. thread_cancel t s = Some s' \<and> loop_inv s' X' \<and> sig_same s s' \<and> payload (threads s') = payload (threads s) \<and>
    set (X' L_unuse) = insert t (set (X L_unuse)) \<and> (\<forall>l. l \<noteq> L_unuse \<longrightarrow> X' l = remove1 t (X l))"
proof -
  have s: "loop_ok {} s X" "fds_ok s X" using inv by (simp_all add: loop_inv_def)
  have at: "thread_at t s = n" using t by (simp add: thread_at_def)
  have out: "t \<notin> set (X l)" if "home (ttype n) \<noteq> In l" for l using that t loop_okD(7) [OF s(1), of t l] by auto
  then have rm: "remove1 t (X l) = X l" if "home (ttype n) \<noteq> In l" for l using that remove1_idem by metis
  have plain: ?thesis if c: "thread_cancel t s = cancel_in_list l t s" "home (ttype n) = In l" "l \<in> {L_event, L_event_normal, L_ready}" for l
  proof -
    let ?X = "X(l := remove1 t (X l), L_unuse := X L_unuse @ [t])"
    have "t \<in> set (X l)" using loop_okD(7) [OF s(1), of t l] t c(2) by simp
    then obtain s' where s': "cancel_in_list l t s = Some s'" "loop_ok {} s' ?X" "framed s s'" "payload (threads s') = payload (threads s)"
      using cancel_in_list_ok [OF s(1), of t l] c(3) by auto
    have "fds_ok s' ?X" using c(3) by (intro fds_ok_keep [OF s(2)]) (auto simp: s'(4) framed_fds [OF s'(3)])
    moreover have "?X k = remove1 t (X k)" if "k \<noteq> L_unuse" for k using that rm [of k] c(2) by (cases "k = l") simp_all
    ultimately show ?thesis using s' c(1) framed_sig loop_inv_def by (intro exI [of _ s'] exI [of _ ?X]) auto
  qed
  have queued: ?thesis if c: "thread_cancel t s = cancel_in_queue q t s" "home (ttype n) = Queued q" for q
  proof -
    let ?X = "X(L_unuse := X L_unuse @ [t])"
    have "t \<in> set (nodes (queues s q))" using loop_okD(8) [OF s(1), of t q] t c(2) by simp
    then obtain s' where s': "cancel_in_queue q t s = Some s'" "loop_ok {} s' ?X" "framed s s'" "payload (threads s') = payload (threads s)"
      using cancel_in_queue_ok [OF s(1), of t q] by auto
    have "fds_ok s' ?X" by (intro fds_ok_keep [OF s(2)]) (auto simp: s'(4) framed_fds [OF s'(3)])
    moreover have "?X k = remove1 t (X k)" if "k \<noteq> L_unuse" for k using that rm [of k] c(2) by simp
    ultimately show ?thesis using s' c(1) framed_sig loop_inv_def by (intro exI [of _ s'] exI [of _ ?X]) auto
  qed
  have watched: ?thesis if c: "home (ttype n) = In l" "l = L_read \<or> l = L_write"
    "fd_of s t \<in> fds l s \<Longrightarrow> thread_cancel t s = cancel_in_list l t (fd_clr l (fd_of s t) s)" for l
  proof -
    let ?X = "X(l := remove1 t (X l), L_unuse := X L_unuse @ [t])" and ?s = "fd_clr l (fd_of s t) s"
    have tl: "t \<in> set (X l)" using loop_okD(7) [OF s(1), of t l] t c(1) by simp
    have "loop_ok {} ?s X" using s(1) by (simp add: fd_clr_ok)
    then obtain s' where s': "cancel_in_list l t ?s = Some s'" "loop_ok {} s' ?X" "framed ?s s'" "payload (threads s') = payload (threads s)"
      using cancel_in_list_ok [of "{}" ?s X t l] tl c(2) by auto
    have "fds_ok s' ?X"
      by (rule fds_ok_leave [OF s(2) c(2) tl loop_ok_distinct [OF s(1)] s'(3,4)]) (use c(2) in auto)
    moreover have "?X k = remove1 t (X k)" if "k \<noteq> L_unuse" for k using that rm [of k] c(1) by (cases "k = l") simp_all
    moreover have "fd_of s t \<in> fds l s" using s(2) c(2) tl by (auto simp: fds_ok_def)
    moreover have "sig_same s s'" using framed_sig [OF s'(3)] by (simp add: sig_same_def)
    ultimately show ?thesis using s' c(3) loop_inv_def by (intro exI [of _ s'] exI [of _ ?X]) auto
  qed
  have no_exec: "ttype n \<noteq> THREAD_EXECUTE" using loop_okD(9) [OF s(1) t] by (simp add: thread_ok_def)
  show ?thesis
  proof (cases "ttype n")
    case THREAD_UNUSED
    then have "t \<in> set (X L_unuse)" using loop_okD(7) [OF s(1), of t L_unuse] t by simp
    then show ?thesis
      using inv THREAD_UNUSED at rm insert_absorb [of t "set (X L_unuse)"]
      by (intro exI [of _ s] exI [of _ X]) (simp add: thread_cancel_def)
  next
    case THREAD_READ
    show ?thesis
      by (rule watched [of L_read]) (simp_all add: THREAD_READ thread_cancel_def at fd_of_def fds_def fd_clr_def)
  next
    case THREAD_WRITE
    show ?thesis
      by (rule watched [of L_write]) (simp_all add: THREAD_WRITE thread_cancel_def at fd_of_def fds_def fd_clr_def)
  next
    case THREAD_TIMER
    show ?thesis by (rule queued [of Q_timer]) (simp_all add: THREAD_TIMER thread_cancel_def at)
  next
    case THREAD_BACKGROUND
    show ?thesis by (rule queued [of Q_background]) (simp_all add: THREAD_BACKGROUND thread_cancel_def at)
  next
    case THREAD_EVENT
    show ?thesis by (rule plain [of L_event]) (simp_all add: THREAD_EVENT thread_cancel_def at)
  next
    case THREAD_EVENT_NORMAL
    show ?thesis by (rule plain [of L_event_normal]) (simp_all add: THREAD_EVENT_NORMAL thread_cancel_def at)
  next
    case THREAD_READY
    show ?thesis by (rule plain [of L_ready]) (simp_all add: THREAD_READY thread_cancel_def at)
  qed (use no_exec in simp)
qed

section \<open>Adding\<close>

lemma trim_head_empty: "loop_ok T s X \<Longrightarrow> X l = [] \<Longrightarrow> thread_trim_head l s = (0, s)"
  using first_member [of T s X l] by (simp add: thread_trim_head_def thread_empty_def)

lemma trim_head_member:
  assumes "loop_ok T s X" "X l = t # ys"
  shows "thread_trim_head l s = (t, thread_list_delete l t s)"
  using first_member [OF assms(1), of l] next_member(2) [OF assms(1), of l "[]" t ys] assms(2)
  by (simp add: thread_trim_head_def thread_empty_def)

definition fresh :: "nat \<Rightarrow> event_loop \<Rightarrow> bool" where
  "fresh t s \<longleftrightarrow> t \<noteq> 0 \<and> threads s t = None"

lemma thread_get_ok:
  assumes s: "loop_ok {} s X" and a: "fresh addr s"
  shows "\<exists>t s' n. thread_get addr ty f a s = (t, s') \<and> loop_ok {t} s' (X(L_unuse := tl (X L_unuse))) \<and> framed s s' \<and>
    threads s' t = Some n \<and> ttype n = ty \<and> add_type n = ty \<and> func n = f \<and> arg n = a \<and> tnext n = 0 \<and> tprev n = 0 \<and>
    (\<forall>x. x \<noteq> t \<longrightarrow> payload (threads s') x = payload (threads s) x)"
proof -
  let ?g = "\<lambda>s n. n\<lparr>ttype := ty, add_type := ty, func := f, arg := a, index := - 1, cmd_excute := m_func s, config_finish := m_config s\<rparr>"
  have "\<exists>t s1 n. thread_get addr ty f a s = (t, upd_thread t (?g s1) s1) \<and> loop_ok {t} s1 (X(L_unuse := tl (X L_unuse))) \<and>
    framed s s1 \<and> threads s1 t = Some n \<and> tnext n = 0 \<and> tprev n = 0 \<and> (\<forall>x. x \<noteq> t \<longrightarrow> payload (threads s1) x = payload (threads s) x)"
  proof (cases "X L_unuse")
    case Nil
    let ?s = "s\<lparr>threads := (threads s)(addr := Some zero_thread), alloc := alloc s + 1\<rparr>"
    have e: "X(L_unuse := tl (X L_unuse)) = X" using Nil by auto
    have "loop_ok {addr} ?s X" using fresh_ok [OF s] a by (simp add: fresh_def)
    moreover have "thread_get addr ty f a s = (addr, upd_thread addr (?g ?s) ?s)"
      using trim_head_empty [of "{}" s X L_unuse] s Nil by (simp add: thread_get_def Let_def)
    moreover have "framed s ?s" "tnext zero_thread = 0" "tprev zero_thread = 0" by (simp_all add: framed_def zero_thread_def)
    ultimately show ?thesis unfolding e
      by (intro exI [of _ addr] exI [of _ ?s] exI [of _ zero_thread]) (simp add: payload_def)
  next
    case (Cons t ys)
    let ?s = "thread_list_delete L_unuse t s"
    have r: "loop_ok {t} ?s (X(L_unuse := tl (X L_unuse)))" "relinked s ?s" "linked (threads ?s) t = Some (0, 0)"
      using unlink_ok [OF s, of t L_unuse] Cons by simp_all
    moreover obtain n where "threads ?s t = Some n" "tnext n = 0" "tprev n = 0" using r(3) by (auto simp: linked_def)
    moreover have "t \<noteq> 0" using next_member(2) [OF s, of L_unuse "[]" t ys] Cons by simp
    then have "thread_get addr ty f a s = (t, upd_thread t (?g ?s) ?s)"
      using trim_head_member [of "{}" s X L_unuse t ys] s Cons by (simp add: thread_get_def Let_def)
    ultimately show ?thesis using relinked_framed [OF r(2)] by metis
  qed
  then obtain t s1 n where r: "thread_get addr ty f a s = (t, upd_thread t (?g s1) s1)"
      "loop_ok {t} s1 (X(L_unuse := tl (X L_unuse)))" "framed s s1" "threads s1 t = Some n" "tnext n = 0" "tprev n = 0"
      "\<forall>x. x \<noteq> t \<longrightarrow> payload (threads s1) x = payload (threads s) x" by blast
  let ?s = "upd_thread t (?g s1) s1"
  have "threads ?s t = Some (?g s1 n)" using r(4) by (simp add: thread_at_def)
  moreover have "\<forall>x. x \<noteq> t \<longrightarrow> payload (threads ?s) x = payload (threads s) x" using r(7) by (simp add: payload_def)
  moreover have "framed s ?s" using framed_trans [OF r(3)] by simp
  ultimately show ?thesis
    using r(1,5,6) loose_ok [OF r(2), of t]
    by (intro exI [of _ t] exI [of _ ?s] exI [of _ "?g s1 n"]) simp
qed

text \<open>What a new thread carries, the others being as they were.\<close>

definition given :: "nat \<Rightarrow> nat \<Rightarrow> nat \<Rightarrow> thread_u \<Rightarrow> event_loop \<Rightarrow> event_loop \<Rightarrow> bool" where
  "given t f a v s s' \<longleftrightarrow> t \<noteq> 0 \<and> func (thread_at t s') = f \<and> arg (thread_at t s') = a \<and> u (thread_at t s') = v \<and> sig_same s s' \<and>
     (\<forall>x. x \<noteq> t \<longrightarrow> payload (threads s') x = payload (threads s) x)"

lemma add_listed_ok:
  assumes s: "loop_ok {t} s X" and t: "threads s t = Some n" "home (ttype n) = In l" "add_type n = ttype n" "u_ok (ttype n) v"
      "l \<noteq> L_ready" "l \<noteq> L_unuse"
  shows "\<exists>s'. thread_list_add l t (upd_thread t (\<lambda>n. n\<lparr>u := v\<rparr>) s) = s' \<and> loop_ok {} s' (X(l := X l @ [t])) \<and>
    framed s s' \<and> given t (func n) (arg n) v s s'"
proof -
  let ?s = "upd_thread t (\<lambda>n. n\<lparr>u := v\<rparr>) s"
  have th: "threads ?s t = Some (n\<lparr>u := v\<rparr>)" using t(1) by (simp add: thread_at_def)
  have "thread_ok (n\<lparr>u := v\<rparr>)" using t(2-6) by (cases "ttype n") (simp_all add: thread_ok_def)
  then have r: "loop_ok {} (thread_list_add l t ?s) (X(l := X l @ [t]))" "relinked ?s (thread_list_add l t ?s)"
    using link_ok [OF loose_ok [OF s] _ th, of l] t(2) by simp_all
  note fr = relinked_framed [OF r(2)]
  have "t \<noteq> 0" using loop_okD(3) [OF s] t(1) by (cases "t = 0") simp_all
  moreover have "func (thread_at t ?s) = func n" "arg (thread_at t ?s) = arg n" "u (thread_at t ?s) = v"
    using th by (simp_all add: thread_at_def)
  moreover have "framed s (thread_list_add l t ?s)" using fr framed_trans [of s ?s] by simp
  moreover have "payload (threads (thread_list_add l t ?s)) x = payload (threads s) x" if "x \<noteq> t" for x
    using that fr by simp
  ultimately show ?thesis
    using r(1) fr payload_at [of "thread_list_add l t ?s" t ?s] framed_sig [of s "thread_list_add l t ?s"]
    by (simp add: given_def)
qed

lemma get_disjoint:
  assumes "loop_ok {t} s (X(L_unuse := xs))" "l \<noteq> L_unuse"
  shows "t \<notin> set (X l)"
  using loop_okD(7) [OF assms(1), of t l] assms(2) by simp

text \<open>The new thread is the last of its list, and was in no list that is waited for.\<close>

lemma add_event_list_ok:
  assumes s: "loop_inv s X" and a: "fresh addr s"
    and l: "(ty = THREAD_EVENT \<and> l = L_event) \<or> (ty = THREAD_EVENT_NORMAL \<and> l = L_event_normal)"
    and op: "op = (case thread_get addr ty f a s of (t, s) \<Rightarrow> (t, thread_list_add l t (upd_thread t (\<lambda>n. n\<lparr>u := U_val val\<rparr>) s)))"
  shows "\<exists>t s'. op = (t, s') \<and> loop_inv s' (X(L_unuse := tl (X L_unuse), l := X l @ [t])) \<and> given t f a (U_val val) s s' \<and>
    (\<forall>k. k \<noteq> L_unuse \<longrightarrow> t \<notin> set (X k))"
proof -
  have inv: "loop_ok {} s X" "fds_ok s X" using s by (simp_all add: loop_inv_def)
  obtain t s1 n where g: "thread_get addr ty f a s = (t, s1)" "loop_ok {t} s1 (X(L_unuse := tl (X L_unuse)))" "framed s s1"
    "threads s1 t = Some n" "ttype n = ty" "add_type n = ty" "func n = f" "arg n = a"
    "\<forall>x. x \<noteq> t \<longrightarrow> payload (threads s1) x = payload (threads s) x"
    using thread_get_ok [OF inv(1) a, of ty f a] by blast
  note dis = get_disjoint [OF g(2)]
  have "home (ttype n) = In l" "add_type n = ttype n" "u_ok (ttype n) (U_val val)" "l \<noteq> L_ready" "l \<noteq> L_unuse"
    using g(5,6) l by (auto simp: u_ok_def)
  from add_listed_ok [OF g(2,4) this] obtain s' where
    s': "thread_list_add l t (upd_thread t (\<lambda>n. n\<lparr>u := U_val val\<rparr>) s1) = s'"
      "loop_ok {} s' ((X(L_unuse := tl (X L_unuse)))(l := (X(L_unuse := tl (X L_unuse))) l @ [t]))" "framed s1 s'"
      "given t f a (U_val val) s1 s'" using g(7,8) by auto
  have e: "(X(L_unuse := tl (X L_unuse)))(l := (X(L_unuse := tl (X L_unuse))) l @ [t]) = X(L_unuse := tl (X L_unuse), l := X l @ [t])"
    using l by auto
  have fr: "framed s s'" using framed_trans [OF g(3) s'(3)] .
  have gv: "given t f a (U_val val) s s'" using s'(4) g(9) framed_sig [OF fr] by (simp add: given_def)
  have "fds_ok s' (X(L_unuse := tl (X L_unuse), l := X l @ [t]))"
  proof (rule fds_ok_keep [OF inv(2)])
    show "payload (threads s') x = payload (threads s) x" if "k = L_read \<or> k = L_write" "x \<in> set (X k)" for k x
      using gv dis [of k] that by (auto simp: given_def)
  qed (use l in \<open>auto simp: framed_fds [OF fr]\<close>)
  then show ?thesis using s'(1,2) gv g(1) dis op unfolding e loop_inv_def by auto
qed

lemmas thread_add_event_ok = add_event_list_ok [OF _ _ disjI1 [OF conjI [OF refl refl]] thread_add_event_def]
lemmas thread_add_event_normal_ok = add_event_list_ok [OF _ _ disjI2 [OF conjI [OF refl refl]] thread_add_event_normal_def]

text \<open>A descriptor is watched for one thread at a time.\<close>

lemma add_fd_ok:
  assumes s: "loop_inv s X" and a: "fresh addr s" and fd: "fd \<notin> fds l s"
    and l: "(ty = THREAD_READ \<and> l = L_read) \<or> (ty = THREAD_WRITE \<and> l = L_write)"
    and op: "op = (case thread_get addr ty f a s of (t, s) \<Rightarrow>
        (t, thread_list_add l t (upd_thread t (\<lambda>n. n\<lparr>u := U_fd fd\<rparr>)
          (if l = L_read then s\<lparr>readfd := insert fd (readfd s)\<rparr> else s\<lparr>writefd := insert fd (writefd s)\<rparr>))))"
  shows "\<exists>t s'. op = (t, s') \<and> loop_inv s' (X(L_unuse := tl (X L_unuse), l := X l @ [t])) \<and> given t f a (U_fd fd) s s' \<and>
    (\<forall>k. k \<noteq> L_unuse \<longrightarrow> t \<notin> set (X k))"
proof -
  let ?X = "X(L_unuse := tl (X L_unuse))" let ?Y = "\<lambda>t. X(L_unuse := tl (X L_unuse), l := X l @ [t])"
  have inv: "loop_ok {} s X" "fds_ok s X" using s by (simp_all add: loop_inv_def)
  obtain t s1 n where g: "thread_get addr ty f a s = (t, s1)" "loop_ok {t} s1 ?X" "framed s s1"
    "threads s1 t = Some n" "ttype n = ty" "add_type n = ty" "func n = f" "arg n = a"
    "\<forall>x. x \<noteq> t \<longrightarrow> payload (threads s1) x = payload (threads s) x"
    using thread_get_ok [OF inv(1) a, of ty f a] by blast
  note dis = get_disjoint [OF g(2)]
  define s2 where "s2 = (if l = L_read then s1\<lparr>readfd := insert fd (readfd s1)\<rparr> else s1\<lparr>writefd := insert fd (writefd s1)\<rparr>)"
  have s2: "threads s2 = threads s1" "sig_same s s2" "fds k s2 = (if k = l then insert fd (fds k s) else fds k s)"
    if "k = L_read \<or> k = L_write" for k
    using g(3) l that by (auto simp: s2_def framed_def sig_same_def fds_def)
  have th2: "threads s2 = threads s1" "sig_same s s2" using s2 [of L_read] by simp_all
  have ok2: "loop_ok {t} s2 ?X" using g(2) by (simp add: s2_def loop_ok_def)
  have n2: "threads s2 t = Some n" using g(4) th2(1) by simp
  have "home (ttype n) = In l" "add_type n = ttype n" "u_ok (ttype n) (U_fd fd)" "l \<noteq> L_ready" "l \<noteq> L_unuse"
    using g(5,6) l by (auto simp: u_ok_def)
  from add_listed_ok [OF ok2 n2 this] obtain s' where
    s': "thread_list_add l t (upd_thread t (\<lambda>n. n\<lparr>u := U_fd fd\<rparr>) s2) = s'"
      "loop_ok {} s' (?X(l := ?X l @ [t]))" "framed s2 s'" "given t f a (U_fd fd) s2 s'" using g(7,8) by auto
  have e: "?X(l := ?X l @ [t]) = ?Y t" using l by auto
  have gv: "given t f a (U_fd fd) s s'"
    using s'(4) g(9) sig_same_trans [OF th2(2) framed_sig [OF s'(3)]] by (simp add: given_def th2)
  have fdt: "fd_of s' t = fd" using gv by (simp add: given_def fd_of_def)
  have old: "fd_of s' x = fd_of s x" if "k \<noteq> L_unuse" "x \<in> set (X k)" for x k
    using gv dis [OF that(1)] that(2) payload_at(4) unfolding given_def by metis
  have "fds k s' = fd_of s' ` set (?Y t k) \<and> inj_on (fd_of s') (set (?Y t k))" if k: "k = L_read \<or> k = L_write" for k
  proof -
    have ku: "k \<noteq> L_unuse" using k by auto
    have im: "fd_of s' ` set (X k) = fd_of s ` set (X k)" using old [OF ku] by (intro image_cong) auto
    have ij: "inj_on (fd_of s') (set (X k))" using inv(2) k inj_on_cong [of "set (X k)" "fd_of s'" "fd_of s"] old [OF ku]
      by (auto simp: fds_ok_def)
    have f: "fds k s = fd_of s ` set (X k)" "fds k s' = (if k = l then insert fd (fds k s) else fds k s)"
      using inv(2) k framed_fds [OF s'(3)] s2(3) [OF k] by (auto simp: fds_ok_def)
    show ?thesis
    proof (cases "k = l")
      case True
      have "fd \<notin> fd_of s' ` set (X l)" using fd f(1) im True by simp
      then show ?thesis using True f im ij fdt k by (auto simp: inj_on_insert)
    next
      case False
      then have "?Y t k = X k" using ku by simp
      then show ?thesis using False f im ij by simp
    qed
  qed
  then have "loop_inv s' (?Y t)" using s'(2) unfolding e loop_inv_def fds_ok_def by blast
  then show ?thesis using s'(1) gv g(1) dis op by (auto simp: s2_def)
qed

lemma thread_add_read_ok:
  assumes "loop_inv s X" "fresh addr s" "fd \<notin> readfd s"
  shows "\<exists>t s'. thread_add_read addr f a fd s = (t, s') \<and> loop_inv s' (X(L_unuse := tl (X L_unuse), L_read := X L_read @ [t])) \<and>
    given t f a (U_fd fd) s s' \<and> (\<forall>k. k \<noteq> L_unuse \<longrightarrow> t \<notin> set (X k))"
  by (rule add_fd_ok [OF assms(1,2), where ty = THREAD_READ])
    (use assms(3) in \<open>simp_all add: thread_add_read_def fds_def Let_def split: prod.split\<close>)

lemma thread_add_write_ok:
  assumes "loop_inv s X" "fresh addr s" "fd \<notin> writefd s"
  shows "\<exists>t s'. thread_add_write addr f a fd s = (t, s') \<and> loop_inv s' (X(L_unuse := tl (X L_unuse), L_write := X L_write @ [t])) \<and>
    given t f a (U_fd fd) s s' \<and> (\<forall>k. k \<noteq> L_unuse \<longrightarrow> t \<notin> set (X k))"
  by (rule add_fd_ok [OF assms(1,2), where ty = THREAD_WRITE])
    (use assms(3) in \<open>simp_all add: thread_add_write_def fds_def Let_def split: prod.split\<close>)

lemma thread_add_timer_timeval_ok:
  assumes s: "loop_inv s X" and a: "fresh addr s"
    and ty: "(ty = THREAD_TIMER \<and> qi = Q_timer) \<or> (ty = THREAD_BACKGROUND \<and> qi = Q_background)"
  shows "\<exists>t s'. thread_add_timer_timeval addr f ty a dt now s = Some (t, s') \<and> loop_inv s' (X(L_unuse := tl (X L_unuse))) \<and>
    given t f a (U_sands (timeval_adjust \<lparr>tv_sec = tv_sec now + tv_sec dt, tv_usec = tv_usec now + tv_usec dt\<rparr>)) s s' \<and>
    (\<forall>k. k \<noteq> L_unuse \<longrightarrow> t \<notin> set (X k)) \<and> t \<in> set (nodes (queues s' qi))"
proof -
  let ?X = "X(L_unuse := tl (X L_unuse))"
  let ?v = "U_sands (timeval_adjust \<lparr>tv_sec = tv_sec now + tv_sec dt, tv_usec = tv_usec now + tv_usec dt\<rparr>)"
  have inv: "loop_ok {} s X" "fds_ok s X" using s by (simp_all add: loop_inv_def)
  obtain t s1 n where g: "thread_get addr ty f a s = (t, s1)" "loop_ok {t} s1 ?X" "framed s s1" "threads s1 t = Some n"
    "ttype n = ty" "add_type n = ty" "func n = f" "arg n = a" "tnext n = 0" "tprev n = 0"
    "\<forall>x. x \<noteq> t \<longrightarrow> payload (threads s1) x = payload (threads s) x"
    using thread_get_ok [OF inv(1) a, of ty f a] by blast
  define s2 where "s2 = upd_thread t (\<lambda>n. n\<lparr>u := ?v\<rparr>) (s1\<lparr>relative_time := now\<rparr>)"
  have "loop_ok {t} (s1\<lparr>relative_time := now\<rparr>) ?X" using g(2) by (simp add: loop_ok_def)
  then have ok2: "loop_ok {t} s2 ?X" unfolding s2_def by (rule loose_ok) simp
  have n2: "threads s2 t = Some (n\<lparr>u := ?v\<rparr>)" using g(4) by (simp add: s2_def thread_at_def)
  have "thread_ok (n\<lparr>u := ?v\<rparr>)" "home (ttype (n\<lparr>u := ?v\<rparr>)) = Queued qi"
    using g(5,6,9,10) ty by (auto simp: thread_ok_def u_ok_def)
  then obtain q h where q: "pqueue_enqueue t (queues s2 qi) (threads s2) = (q, h)"
    "loop_ok {} (s2\<lparr>queues := (queues s2)(qi := q), threads := h\<rparr>) ?X" "payload h = payload (threads s2)"
    "set (nodes q) = insert t (set (nodes (queues s2 qi)))"
    using queue_in_ok [OF ok2 _ n2] by auto
  let ?s = "s2\<lparr>queues := (queues s2)(qi := q), threads := h\<rparr>"
  have eq: "thread_add_timer_timeval addr f ty a dt now s = Some (t, ?s)"
    using q(1) ty g(1) by (auto simp: thread_add_timer_timeval_def Let_def s2_def)
  have fr: "framed s ?s" using g(3) by (simp add: s2_def framed_def upd_thread_def)
  have o: "payload h x = payload (threads s) x" if "x \<noteq> t" for x
    using that g(11) q(3) by (simp add: s2_def)
  have "t \<noteq> 0" using loop_okD(3) [OF g(2)] g(4) by (cases "t = 0") simp_all
  moreover have "func (thread_at t ?s) = f \<and> arg (thread_at t ?s) = a \<and> u (thread_at t ?s) = ?v"
    using payload_at [of ?s t s2] q(3) n2 g(7,8) by (simp add: thread_at_def)
  ultimately have gv: "given t f a ?v s ?s" using o framed_sig [OF fr] by (simp add: given_def)
  note dis = get_disjoint [OF g(2)]
  have "fds_ok ?s ?X"
  proof (rule fds_ok_keep [OF inv(2)])
    show "payload (threads ?s) x = payload (threads s) x" if "k = L_read \<or> k = L_write" "x \<in> set (X k)" for k x
      using gv dis [of k] that by (auto simp: given_def)
  qed (auto simp: framed_fds [OF fr])
  moreover have "t \<in> set (nodes (queues ?s qi))" by (simp add: q(4))
  ultimately show ?thesis using q(2) gv eq dis loop_inv_def by blast
qed

section \<open>The next thread\<close>

text \<open>\<open>n\<close> is the copy of the first ready thread \<open>t\<close> that is handed out.\<close>

definition taken :: "nat \<Rightarrow> thread \<Rightarrow> event_loop \<Rightarrow> (list_id \<Rightarrow> nat list) \<Rightarrow> event_loop \<Rightarrow> (list_id \<Rightarrow> nat list) \<Rightarrow> bool" where
  "taken t n s X s' X' \<longleftrightarrow> loop_inv s' X' \<and> X L_ready = t # X' L_ready \<and> (\<forall>l. l \<noteq> L_ready \<and> l \<noteq> L_unuse \<longrightarrow> X' l = X l) \<and>
     framed s s' \<and> payload (threads s') = payload (threads s) \<and> ttype n = THREAD_READY \<and>
     func n = func (thread_at t s) \<and> arg n = arg (thread_at t s) \<and> u n = u (thread_at t s) \<and>
     add_type n \<in> {THREAD_READ, THREAD_WRITE, THREAD_EVENT, THREAD_EVENT_NORMAL} \<and> u_ok (add_type n) (u n)"

lemma take_ready_ok:
  assumes s: "loop_inv s X" and x: "X L_ready = t # ys"
  shows "\<exists>s1 s' n X'. thread_trim_head L_ready s = (t, s1) \<and> t \<noteq> 0 \<and> thread_run t s1 = Some (n, s') \<and> taken t n s X s' X'"
proof -
  let ?s = "thread_list_delete L_ready t s" and ?X = "X(L_ready := ys, L_unuse := X L_unuse @ [t])"
  have inv: "loop_ok {} s X" "fds_ok s X" using s by (simp_all add: loop_inv_def)
  have t: "t \<in> set (X L_ready)" "t \<noteq> 0" using x next_member(2) [OF inv(1), of L_ready "[]" t ys] by simp_all
  have tr: "thread_trim_head L_ready s = (t, ?s)" by (rule trim_head_member [OF inv(1) x])
  have un: "relinked s ?s" using unlink_ok [OF inv(1) t(1)] by blast
  obtain s' where s': "make_unused t ?s = Some s'" "loop_ok {} s' ?X" "framed s s'" "payload (threads s') = payload (threads s)"
    using cancel_in_list_ok [OF inv(1) t(1)] x by (auto simp: cancel_in_list_def)
  obtain n where n: "threads s t = Some n" "home (ttype n) = In L_ready" using loop_okD(7) [OF inv(1), of t L_ready] t(1) by blast
  obtain n' where n': "threads ?s t = Some n'" "n' = n\<lparr>tnext := tnext n', tprev := tprev n'\<rparr>"
    using core_get [of "threads s" t "threads ?s" n] n(1) relinkedD(1) [OF un] by auto
  have ty: "ttype n = THREAD_READY" using n(2) by (cases "ttype n") auto
  have nok: "thread_ok n" using loop_okD(9) [OF inv(1) n(1)] by simp
  have r: "thread_run t ?s = Some (n', s')" using s'(1) n'(1) by (simp add: thread_run_def thread_at_def)
  have f: "ttype n' = ttype n" "func n' = func n" "arg n' = arg n" "u n' = u n" "add_type n' = add_type n"
    by (subst n'(2), simp)+
  have "fds_ok s' ?X" by (intro fds_ok_keep [OF inv(2)]) (auto simp: s'(4) framed_fds [OF s'(3)])
  then have "taken t n' s X s' ?X"
    using s' x nok ty by (simp add: taken_def loop_inv_def f thread_at_def n(1) thread_ok_def)
  then show ?thesis using tr t(2) r by blast
qed

text \<open>A turn of the loop after the signals, by the ready threads and the answer of \<open>select\<close>.\<close>

definition moved :: "nat set \<Rightarrow> nat set \<Rightarrow> event_loop \<Rightarrow> (list_id \<Rightarrow> nat list) \<Rightarrow> list_id \<Rightarrow> nat list" where
  "moved r w s X = X(L_event := [], L_event_normal := [],
     L_read := filter (\<lambda>t. fd_of s t \<notin> r) (X L_read), L_write := filter (\<lambda>t. fd_of s t \<notin> w) (X L_write),
     L_ready := X L_ready @ X L_event @ X L_event_normal @
       filter (\<lambda>t. fd_of s t \<in> r) (X L_read) @ filter (\<lambda>t. fd_of s t \<in> w) (X L_write))"

definition after_signals :: "(nat \<Rightarrow> event_loop \<Rightarrow> event_loop option) \<Rightarrow> turn \<Rightarrow> event_loop \<Rightarrow> event_loop option" where
  "after_signals run w s = quagga_sigevent_process run (fold quagga_signal_handler (delivered w) s)"

lemma fetch_ready:
  assumes "after_signals run w s = Some s1" "loop_inv s1 X" "X L_ready = t # ys"
  shows "\<exists>n s' X'. thread_fetch run (w # ws) s = Some (Fetched n, s') \<and> taken t n s1 X s' X'"
  using assms(1) take_ready_ok [OF assms(2,3)] by (auto simp: after_signals_def)

lemma move_events_ok:
  assumes s: "loop_inv s X"
  shows "\<exists>k s' k' s''. thread_process L_event s = Some (k, s') \<and> thread_process L_event_normal s' = Some (k', s'') \<and>
    loop_inv s'' (moved {} {} s X) \<and> framed s s'' \<and> payload (threads s'') = payload (threads s)"
proof -
  let ?X = "X(L_event := [], L_ready := X L_ready @ X L_event)"
  obtain s1 where s1: "thread_process L_event s = Some (length (X L_event), s1)" "loop_inv s1 ?X" "framed s s1"
      "payload (threads s1) = payload (threads s)"
    using thread_process_ok [OF s, of L_event] by auto
  have e: "?X(L_event_normal := [], L_ready := ?X L_ready @ ?X L_event_normal) = moved {} {} s X" by (auto simp: moved_def)
  obtain s2 where "thread_process L_event_normal s1 = Some (length (?X L_event_normal), s2)" "loop_inv s2 (moved {} {} s X)" "framed s1 s2"
      "payload (threads s2) = payload (threads s1)"
    using thread_process_ok [OF s1(2), of L_event_normal] unfolding e by blast
  moreover from this have "framed s s2" "payload (threads s2) = payload (threads s)" using s1(3,4) framed_trans by auto
  ultimately show ?thesis using s1(1) by blast
qed

lemma move_fds_ok:
  assumes s: "loop_inv s X"
  shows "\<exists>k s'. (if r \<union> w \<noteq> {} then (case thread_process_fd L_read r s of None \<Rightarrow> None | Some (_, s) \<Rightarrow> thread_process_fd L_write w s)
      else Some (0, s)) = Some (k, s') \<and>
    loop_inv s' (X(L_read := filter (\<lambda>t. fd_of s t \<notin> r) (X L_read), L_write := filter (\<lambda>t. fd_of s t \<notin> w) (X L_write),
      L_ready := X L_ready @ filter (\<lambda>t. fd_of s t \<in> r) (X L_read) @ filter (\<lambda>t. fd_of s t \<in> w) (X L_write))) \<and>
    sig_same s s' \<and> payload (threads s') = payload (threads s)"
proof (cases "r \<union> w = {}")
  case True
  have e: "X(L_read := filter (\<lambda>t. fd_of s t \<notin> {}) (X L_read), L_write := filter (\<lambda>t. fd_of s t \<notin> {}) (X L_write),
      L_ready := X L_ready @ filter (\<lambda>t. fd_of s t \<in> {}) (X L_read) @ filter (\<lambda>t. fd_of s t \<in> {}) (X L_write)) = X" by auto
  from True have rw: "r = {}" "w = {}" by auto
  show ?thesis unfolding rw e using s by simp
next
  case False
  let ?X = "X(L_read := filter (\<lambda>t. fd_of s t \<notin> r) (X L_read), L_ready := X L_ready @ filter (\<lambda>t. fd_of s t \<in> r) (X L_read))"
  obtain s1 where s1: "thread_process_fd L_read r s = Some (length (filter (\<lambda>t. fd_of s t \<in> r) (X L_read)), s1)" "loop_inv s1 ?X"
      "sig_same s s1" "payload (threads s1) = payload (threads s)"
    using thread_process_fd_ok [OF s, of L_read r] by auto
  have f: "fd_of s1 = fd_of s" using payload_at(4) [of s1 _ s] s1(4) by auto
  have e: "?X(L_write := filter (\<lambda>t. fd_of s t \<notin> w) (?X L_write), L_ready := ?X L_ready @ filter (\<lambda>t. fd_of s t \<in> w) (?X L_write)) =
      X(L_read := filter (\<lambda>t. fd_of s t \<notin> r) (X L_read), L_write := filter (\<lambda>t. fd_of s t \<notin> w) (X L_write),
      L_ready := X L_ready @ filter (\<lambda>t. fd_of s t \<in> r) (X L_read) @ filter (\<lambda>t. fd_of s t \<in> w) (X L_write))" by auto
  obtain s2 where s2: "thread_process_fd L_write w s1 = Some (length (filter (\<lambda>t. fd_of s t \<in> w) (?X L_write)), s2)"
      "loop_inv s2 (X(L_read := filter (\<lambda>t. fd_of s t \<notin> r) (X L_read), L_write := filter (\<lambda>t. fd_of s t \<notin> w) (X L_write),
      L_ready := X L_ready @ filter (\<lambda>t. fd_of s t \<in> r) (X L_read) @ filter (\<lambda>t. fd_of s t \<in> w) (X L_write)))"
      "sig_same s1 s2" "payload (threads s2) = payload (threads s1)"
    using thread_process_fd_ok [OF s1(2), of L_write w] unfolding f e by auto
  from False have ne: "(r \<union> w \<noteq> {}) = True" by simp
  have "sig_same s s2" "payload (threads s2) = payload (threads s)" using s1(3,4) s2(3,4) sig_same_trans by auto
  then show ?thesis unfolding ne if_True s1(1) option.case prod.case s2(1) using s2(2) by blast
qed

end
