(* ===== verification/EventLoopRun.thy ===== *)
theory EventLoopRun
  imports EventLoopOps
begin

text \<open>
  The event loop as a whole: the calls that the daemon makes, in any order, from the creation
  of the thread master on.  The functions of the threads and the handlers of the signals are
  the daemon's; a handler may itself call the event loop, and what is asked of it is that
  it keeps the invariant, as those calls do.
\<close>

section \<open>One call of \<open>thread_fetch\<close>\<close>

text \<open>The invariant, without the members of the lists.\<close>

definition event_loop_ok :: "event_loop \<Rightarrow> bool" where
  "event_loop_ok s \<longleftrightarrow> (\<exists>X. loop_inv s X)"

definition handlers_ok :: "(nat \<Rightarrow> event_loop \<Rightarrow> event_loop option) \<Rightarrow> bool" where
  "handlers_ok run \<longleftrightarrow> (\<forall>h s. event_loop_ok s \<longrightarrow> (\<exists>s'. run h s = Some s' \<and> event_loop_ok s'))"

lemma loop_inv_signals [simp]: "loop_inv (s\<lparr>signals := g\<rparr>) X = loop_inv s X" "loop_inv (s\<lparr>sig_caught := b\<rparr>) X = loop_inv s X"
  "loop_inv (s\<lparr>timer_msgs := n\<rparr>) X = loop_inv s X"
  by (simp_all add: loop_inv_def loop_ok_def fds_ok_def fds_def fd_of_def [abs_def] thread_at_def)

lemma ok_signals [simp]: "event_loop_ok (s\<lparr>signals := g\<rparr>) = event_loop_ok s" "event_loop_ok (s\<lparr>sig_caught := b\<rparr>) = event_loop_ok s"
  "event_loop_ok (s\<lparr>timer_msgs := n\<rparr>) = event_loop_ok s"
  by (simp_all add: event_loop_ok_def)

lemma handler_call:
  assumes "handlers_ok run" "event_loop_ok s"
  shows "\<exists>s'. call_handler run h n s = Some s' \<and> event_loop_ok s'"
  using assms(2)
proof (induction n arbitrary: s)
  case (Suc n)
  obtain s1 where "run h s = Some s1" "event_loop_ok s1" using assms(1) Suc.prems by (auto simp: handlers_ok_def)
  then show ?case using Suc.IH by simp
qed simp

lemma process_signals_ok:
  assumes "handlers_ok run" "event_loop_ok s"
  shows "\<exists>s'. process_signals run is s = Some s' \<and> event_loop_ok s'"
  using assms(2)
proof (induction "is" arbitrary: s)
  case (Cons i js)
  let ?sg = "signals s ! i"
  show ?case
  proof (cases "caught ?sg > 0")
    case True
    have "event_loop_ok (s\<lparr>signals := (signals s)[i := ?sg\<lparr>caught := 0\<rparr>]\<rparr>)" using Cons.prems by simp
    from handler_call [OF assms(1) this, of "handler ?sg" "caught ?sg"]
    obtain s1 where "call_handler run (handler ?sg) (caught ?sg) (s\<lparr>signals := (signals s)[i := ?sg\<lparr>caught := 0\<rparr>]\<rparr>) = Some s1"
      "event_loop_ok s1" by blast
    then show ?thesis using Cons.IH [of s1] True by (simp add: Let_def)
  qed (use Cons in simp)
qed simp

lemma delivered_ok: "event_loop_ok (fold quagga_signal_handler ds s) = event_loop_ok s"
  by (induction ds arbitrary: s) (simp_all add: quagga_signal_handler_def event_loop_ok_def)

lemma after_signals_ok:
  assumes "handlers_ok run" "event_loop_ok s"
  shows "\<exists>s'. after_signals run w s = Some s' \<and> event_loop_ok s'"
  using assms process_signals_ok [of run "fold quagga_signal_handler (delivered w) s\<lparr>sig_caught := False\<rparr>"]
  by (auto simp: after_signals_def quagga_sigevent_process_def delivered_ok)

text \<open>A turn with no thread ready: the events move, then the descriptors are asked for.\<close>

lemma fetch_idle:
  assumes a: "after_signals run w s = Some s1" and inv: "loop_inv s1 X" and e: "X L_ready = []"
  shows "(\<exists>s2. loop_inv s2 (moved {} {} s1 X) \<and> sig_same s1 s2 \<and> payload (threads s2) = payload (threads s1) \<and>
      (case answer w of Sel_intr \<Rightarrow> thread_fetch run (w # ws) s = thread_fetch run ws s2
       | Sel_error \<Rightarrow> thread_fetch run (w # ws) s = Some (Fetch_failed, s2)
       | Sel_fds _ _ \<Rightarrow> True)) \<and>
    (\<forall>r wr. answer w = Sel_fds r wr \<longrightarrow>
      (\<exists>s3. loop_inv s3 (moved (r \<inter> readfd s1) (wr \<inter> writefd s1) s1 X) \<and> sig_same s1 s3 \<and> payload (threads s3) = payload (threads s1) \<and>
        (if moved (r \<inter> readfd s1) (wr \<inter> writefd s1) s1 X L_ready = [] then thread_fetch run (w # ws) s = thread_fetch run ws s3
         else \<exists>t n s' X'. thread_fetch run (w # ws) s = Some (Fetched n, s') \<and>
           taken t n s3 (moved (r \<inter> readfd s1) (wr \<inter> writefd s1) s1 X) s' X')))"
proof -
  obtain k s' k' s2 where m: "thread_process L_event s1 = Some (k, s')" "thread_process L_event_normal s' = Some (k', s2)"
    "loop_inv s2 (moved {} {} s1 X)" "framed s1 s2" "payload (threads s2) = payload (threads s1)"
    using move_events_ok [OF inv] by blast
  have trim: "thread_trim_head L_ready s1 = (0, s1)"
    using trim_head_empty [of "{}" s1 X L_ready] inv e by (simp add: loop_inv_def)
  have f: "thread_fetch run (w # ws) s =
      (case answer w of
         Sel_intr \<Rightarrow> thread_fetch run ws s2
       | Sel_error \<Rightarrow> Some (Fetch_failed, s2)
       | Sel_fds r wr \<Rightarrow>
           (case (if (r \<inter> readfd s2) \<union> (wr \<inter> writefd s2) \<noteq> {}
                  then (case thread_process_fd L_read (r \<inter> readfd s2) s2 of
                          None \<Rightarrow> None | Some (_, s) \<Rightarrow> thread_process_fd L_write (wr \<inter> writefd s2) s)
                  else Some (0, s2)) of
              None \<Rightarrow> None
            | Some (_, s) \<Rightarrow>
                (case thread_trim_head L_ready s of (t, s) \<Rightarrow>
                   if t \<noteq> 0 then map_option (\<lambda>(f, s). (Fetched f, s)) (thread_run t s)
                   else thread_fetch run ws s)))"
    using a trim m(1,2) by (cases "answer w") (simp_all add: after_signals_def Let_def)
  have intr: "case answer w of Sel_intr \<Rightarrow> thread_fetch run (w # ws) s = thread_fetch run ws s2
       | Sel_error \<Rightarrow> thread_fetch run (w # ws) s = Some (Fetch_failed, s2) | Sel_fds _ _ \<Rightarrow> True"
    unfolding f by (simp split: select_answer.split)
  moreover have "\<exists>s3. loop_inv s3 (moved (r \<inter> readfd s1) (wr \<inter> writefd s1) s1 X) \<and> sig_same s1 s3 \<and>
        payload (threads s3) = payload (threads s1) \<and>
        (if moved (r \<inter> readfd s1) (wr \<inter> writefd s1) s1 X L_ready = [] then thread_fetch run (w # ws) s = thread_fetch run ws s3
         else \<exists>t n s' X'. thread_fetch run (w # ws) s = Some (Fetched n, s') \<and>
           taken t n s3 (moved (r \<inter> readfd s1) (wr \<inter> writefd s1) s1 X) s' X')"
    if an: "answer w = Sel_fds r wr" for r wr
  proof -
    let ?r = "r \<inter> readfd s1" and ?w = "wr \<inter> writefd s1" and ?M = "moved {} {} s1 X"
    let ?Y = "moved ?r ?w s1 X"
    have fd: "fd_of s2 = fd_of s1" using payload_at(4) [of s2 _ s1] m(5) by auto
    have rw: "readfd s2 = readfd s1" "writefd s2 = writefd s1" using m(4) by (simp_all add: framed_def)
    have e: "?M(L_read := filter (\<lambda>t. fd_of s1 t \<notin> ?r) (?M L_read), L_write := filter (\<lambda>t. fd_of s1 t \<notin> ?w) (?M L_write),
        L_ready := ?M L_ready @ filter (\<lambda>t. fd_of s1 t \<in> ?r) (?M L_read) @ filter (\<lambda>t. fd_of s1 t \<in> ?w) (?M L_write)) = ?Y"
      by (auto simp: moved_def)
    obtain j s3 where s3: "(if ?r \<union> ?w \<noteq> {}
        then (case thread_process_fd L_read ?r s2 of None \<Rightarrow> None | Some (_, s) \<Rightarrow> thread_process_fd L_write ?w s)
        else Some (0, s2)) = Some (j, s3)" "loop_inv s3 ?Y" "sig_same s2 s3" "payload (threads s3) = payload (threads s2)"
      using move_fds_ok [OF m(3), of ?r ?w] unfolding fd e by blast
    have f3: "thread_fetch run (w # ws) s =
        (case thread_trim_head L_ready s3 of (t, s) \<Rightarrow>
           if t \<noteq> 0 then map_option (\<lambda>(f, s). (Fetched f, s)) (thread_run t s) else thread_fetch run ws s)"
      unfolding f an rw select_answer.case s3(1) by simp
    have "if ?Y L_ready = [] then thread_fetch run (w # ws) s = thread_fetch run ws s3
        else \<exists>t n s' X'. thread_fetch run (w # ws) s = Some (Fetched n, s') \<and> taken t n s3 ?Y s' X'"
    proof (cases "?Y L_ready")
      case Nil
      then show ?thesis using trim_head_empty [of "{}" s3 ?Y L_ready] s3(2) unfolding f3 loop_inv_def by simp
    next
      case (Cons t ys)
      obtain z s' n X' where tk: "thread_trim_head L_ready s3 = (t, z)" "t \<noteq> 0" "thread_run t z = Some (n, s')" "taken t n s3 ?Y s' X'"
        using take_ready_ok [OF s3(2) Cons] by blast
      have "thread_fetch run (w # ws) s = Some (Fetched n, s')" unfolding f3 tk(1) using tk(2,3) by simp
      then show ?thesis using tk(4) Cons by auto
    qed
    then show ?thesis using s3 m(5) sig_same_trans [OF framed_sig [OF m(4)] s3(3)] by auto
  qed
  ultimately show ?thesis using m(3,5) framed_sig [OF m(4)] by blast
qed

text \<open>The type of a thread that is handed out, and the member of its union.\<close>

definition deliverable :: "thread \<Rightarrow> bool" where
  "deliverable n \<longleftrightarrow> ttype n = THREAD_READY \<and>
     add_type n \<in> {THREAD_READ, THREAD_WRITE, THREAD_EVENT, THREAD_EVENT_NORMAL} \<and> u_ok (add_type n) (u n)"

lemma taken_deliverable: "taken t n s X s' X' \<Longrightarrow> deliverable n \<and> event_loop_ok s'"
  by (auto simp: taken_def deliverable_def event_loop_ok_def)

lemma fetch_ok:
  assumes run: "handlers_ok run" and s: "event_loop_ok s"
  shows "\<exists>r s'. thread_fetch run ws s = Some (r, s') \<and> event_loop_ok s' \<and> (\<forall>n. r = Fetched n \<longrightarrow> deliverable n)"
  using s
proof (induction ws arbitrary: s)
  case (Cons w ws)
  obtain s1 where a: "after_signals run w s = Some s1" and ok1: "event_loop_ok s1"
    using after_signals_ok [OF run Cons.prems] by blast
  obtain X where inv: "loop_inv s1 X" using ok1 by (auto simp: event_loop_ok_def)
  show ?case
  proof (cases "X L_ready")
    case (Cons t ys)
    then show ?thesis using fetch_ready [OF a inv Cons, of ws] taken_deliverable by blast
  next
    case Nil
    note f = fetch_idle [OF a inv Nil, of ws]
    have ok: "loop_inv z Y \<Longrightarrow> event_loop_ok z" for z Y by (auto simp: event_loop_ok_def)
    show ?thesis
    proof (cases "answer w")
      case Sel_intr
      with f obtain s2 where "loop_inv s2 (moved {} {} s1 X)" "thread_fetch run (w # ws) s = thread_fetch run ws s2" by auto
      then show ?thesis using Cons.IH ok by metis
    next
      case Sel_error
      with f obtain s2 where "loop_inv s2 (moved {} {} s1 X)" "thread_fetch run (w # ws) s = Some (Fetch_failed, s2)" by auto
      then show ?thesis using ok by blast
    next
      case (Sel_fds r wr)
      let ?Y = "moved (r \<inter> readfd s1) (wr \<inter> writefd s1) s1 X"
      from f Sel_fds obtain s3 where s3: "loop_inv s3 ?Y"
        "if ?Y L_ready = [] then thread_fetch run (w # ws) s = thread_fetch run ws s3
         else \<exists>t n s' X'. thread_fetch run (w # ws) s = Some (Fetched n, s') \<and> taken t n s3 ?Y s' X'" by blast
      show ?thesis
      proof (cases "?Y L_ready = []")
        case True
        then show ?thesis using s3 Cons.IH [of s3] ok by metis
      next
        case False
        then show ?thesis using s3(2) taken_deliverable by (metis (no_types, lifting) fetch_result.inject)
      qed
    qed
  qed
qed (simp)

section \<open>Members\<close>

text \<open>The threads of a list, read along their links.\<close>

fun walk :: "nat \<Rightarrow> nat \<Rightarrow> event_loop \<Rightarrow> nat list" where
  "walk 0 t s = []"
| "walk (Suc k) t s = (if t = 0 then [] else t # walk k (tnext (thread_at t s)) s)"

definition members :: "list_id \<Rightarrow> event_loop \<Rightarrow> nat list" where
  "members l s = walk (nat (tcount (lists s l))) (head (lists s l)) s"

lemma walk_seg: "dseg (threads s) p xs 0 \<Longrightarrow> 0 \<notin> set xs \<Longrightarrow> walk (length xs) (first xs 0) s = xs"
proof (induction xs arbitrary: p)
  case (Cons x xs)
  have "tnext (thread_at x s) = first xs 0" using Cons.prems(1) by (auto simp: dseg_linked linked_def thread_at_def)
  moreover have "dseg (threads s) x xs 0" using Cons.prems(1) by (simp add: dseg_linked)
  ultimately show ?case using Cons.IH Cons.prems(2) by simp
qed simp

lemma members_eq: "loop_inv s X \<Longrightarrow> members l s = X l"
  using loop_okD(1) [of "{}" s X l] walk_seg [of s 0 "X l"] by (simp add: loop_inv_def dlist_def members_def)

lemma loop_inv_members: "event_loop_ok s \<longleftrightarrow> loop_inv s (\<lambda>l. members l s)"
  using members_eq unfolding event_loop_ok_def by (metis (no_types, lifting) ext)

text \<open>The threads of a queue are those in no list, by the type they were added with.\<close>

lemma nodes_by_payload:
  assumes "loop_ok {} s X"
  shows "x \<in> set (nodes (queues s q)) \<longleftrightarrow> (\<exists>n. payload (threads s) x = Some n \<and> home (add_type n) = Queued q) \<and> (\<forall>l. x \<notin> set (X l))"
proof (cases "threads s x")
  case None
  then show ?thesis using loop_okD(8) [OF assms, of x q] by (simp add: payload_def)
next
  case (Some n)
  have ok: "thread_ok n" using loop_okD(9) [OF assms Some] by simp
  have l: "x \<in> set (X l) \<longleftrightarrow> home (ttype n) = In l" for l using loop_okD(7) [OF assms, of x l] Some by simp
  have q: "x \<in> set (nodes (queues s q)) \<longleftrightarrow> home (ttype n) = Queued q" using loop_okD(8) [OF assms, of x q] Some by simp
  have a: "(\<exists>m. payload (threads s) x = Some m \<and> home (add_type m) = Queued q) \<longleftrightarrow> home (add_type n) = Queued q"
    using Some by (simp add: payload_def)
  show ?thesis unfolding l q a using ok by (cases "ttype n") (auto simp: thread_ok_def)
qed

section \<open>The calls\<close>

datatype loop_op =
    Add_read nat nat nat nat
  | Add_write nat nat nat nat
  | Add_timer nat nat nat int timeval
  | Add_timer_msec nat nat nat int timeval
  | Add_background nat nat nat int timeval
  | Add_event nat nat nat int
  | Add_event_normal nat nat nat int
  | Cancel nat
  | Cancel_event nat
  | Cancel_event_normal nat
  | Signal nat
  | Fetch "turn list"

datatype outcome = Added nat | Cancelled nat | Next fetch_result | Done

fun exec_op :: "(nat \<Rightarrow> event_loop \<Rightarrow> event_loop option) \<Rightarrow> loop_op \<Rightarrow> event_loop \<Rightarrow> (outcome \<times> event_loop) option" where
  "exec_op run (Add_read m f a fd) s = Some (map_prod Added id (thread_add_read m f a fd s))"
| "exec_op run (Add_write m f a fd) s = Some (map_prod Added id (thread_add_write m f a fd s))"
| "exec_op run (Add_timer m f a d now) s = map_option (map_prod Added id) (thread_add_timer m f a d now s)"
| "exec_op run (Add_timer_msec m f a d now) s = map_option (map_prod Added id) (thread_add_timer_msec m f a d now s)"
| "exec_op run (Add_background m f a d now) s = map_option (map_prod Added id) (thread_add_background m f a d now s)"
| "exec_op run (Add_event m f a v) s = Some (map_prod Added id (thread_add_event m f a v s))"
| "exec_op run (Add_event_normal m f a v) s = Some (map_prod Added id (thread_add_event_normal m f a v s))"
| "exec_op run (Cancel t) s = map_option (Pair Done) (thread_cancel t s)"
| "exec_op run (Cancel_event a) s = map_option (map_prod Cancelled id) (thread_cancel_event a s)"
| "exec_op run (Cancel_event_normal a) s = map_option (map_prod Cancelled id) (thread_cancel_event_normal a s)"
| "exec_op run (Signal n) s = Some (Done, quagga_signal_handler n s)"
| "exec_op run (Fetch ws) s = map_option (map_prod Next id) (thread_fetch run ws s)"

text \<open>Memory is new when it is allocated, and a thread that is cancelled is one of this event loop.\<close>

fun legal :: "loop_op \<Rightarrow> event_loop \<Rightarrow> bool" where
  "legal (Add_read m f a fd) s = fresh m s"
| "legal (Add_write m f a fd) s = fresh m s"
| "legal (Add_timer m f a d now) s = fresh m s"
| "legal (Add_timer_msec m f a d now) s = fresh m s"
| "legal (Add_background m f a d now) s = fresh m s"
| "legal (Add_event m f a v) s = fresh m s"
| "legal (Add_event_normal m f a v) s = fresh m s"
| "legal (Cancel t) s = (threads s t \<noteq> None)"
| "legal _ s = True"

text \<open>The effect of every call but a signal and a fetch, on the lists.\<close>

definition effect :: "loop_op \<Rightarrow> event_loop \<Rightarrow> (list_id \<Rightarrow> nat list) \<Rightarrow> event_loop \<Rightarrow> (list_id \<Rightarrow> nat list) \<Rightarrow> bool" where
  "effect op s X s' X' \<longleftrightarrow> loop_inv s' X' \<and> sig_same s s' \<and>
     (\<forall>l x. l \<noteq> L_unuse \<longrightarrow> x \<in> set (X l) \<longrightarrow> payload (threads s') x = payload (threads s) x) \<and>
     (case op of
        Cancel t \<Rightarrow> \<forall>l. l \<noteq> L_unuse \<longrightarrow> X' l = remove1 t (X l)
      | Cancel_event a \<Rightarrow> \<forall>l \<in> {L_event, L_ready}. X' l = filter (\<lambda>t. arg (thread_at t s) \<noteq> a) (X l)
      | Cancel_event_normal a \<Rightarrow> X' L_ready = filter (\<lambda>t. arg (thread_at t s) \<noteq> a) (X L_ready) \<and> X' L_event = X L_event
      | _ \<Rightarrow> X' L_ready = X L_ready \<and> (\<exists>ts. X' L_event = X L_event @ ts))"

lemma given_effect:
  assumes "given t f a v s s'" "\<forall>k. k \<noteq> L_unuse \<longrightarrow> t \<notin> set (X k)"
  shows "sig_same s s'" "l \<noteq> L_unuse \<Longrightarrow> x \<in> set (X l) \<Longrightarrow> payload (threads s') x = payload (threads s) x"
  using assms by (auto simp: given_def)

lemma timer_effect:
  assumes s: "loop_inv s X" and a: "fresh m s"
    and ty: "(ty = THREAD_TIMER \<and> qi = Q_timer) \<or> (ty = THREAD_BACKGROUND \<and> qi = Q_background)"
    and op: "op \<in> {Add_timer m f a d now, Add_timer_msec m f a d now, Add_background m f a d now}"
      "exec_op run op s = map_option (map_prod Added id) (thread_add_timer_timeval m f ty a dt now s)"
  shows "\<exists>r s' X'. exec_op run op s = Some (r, s') \<and> (\<forall>f. r \<noteq> Next f) \<and> effect op s X s' X'"
proof -
  obtain t s' where r: "thread_add_timer_timeval m f ty a dt now s = Some (t, s')" "loop_inv s' (X(L_unuse := tl (X L_unuse)))"
    "given t f a (U_sands (timeval_adjust \<lparr>tv_sec = tv_sec now + tv_sec dt, tv_usec = tv_usec now + tv_usec dt\<rparr>)) s s'"
    "\<forall>k. k \<noteq> L_unuse \<longrightarrow> t \<notin> set (X k)"
    using thread_add_timer_timeval_ok [OF s a ty] by blast
  then have "effect op s X s' (X(L_unuse := tl (X L_unuse)))"
    using given_effect [OF r(3,4)] op(1) by (auto simp: effect_def)
  then show ?thesis using op(2) r(1) by auto
qed

lemma exec_effect:
  assumes s: "loop_inv s X" and l: "legal op s" and op: "\<not> (\<exists>n. op = Signal n)" "\<not> (\<exists>ws. op = Fetch ws)"
  shows "\<exists>r s' X'. exec_op run op s = Some (r, s') \<and> (\<forall>f. r \<noteq> Next f) \<and> effect op s X s' X'"
proof (cases op)
  case [simp]: (Add_read m f a fd)
  show ?thesis
  proof (cases "fd \<in> readfd s")
    case True
    then show ?thesis using s by (auto simp: thread_add_read_def effect_def intro!: exI [of _ X])
  next
    case False
    then obtain t s' where r: "thread_add_read m f a fd s = (t, s')" "loop_inv s' (X(L_unuse := tl (X L_unuse), L_read := X L_read @ [t]))"
      "given t f a (U_fd fd) s s'" "\<forall>k. k \<noteq> L_unuse \<longrightarrow> t \<notin> set (X k)"
      using thread_add_read_ok [OF s, of m fd f a] l by auto
    then show ?thesis using given_effect [OF r(3,4)] by (intro exI conjI) (auto simp: effect_def)
  qed
next
  case [simp]: (Add_write m f a fd)
  show ?thesis
  proof (cases "fd \<in> writefd s")
    case True
    then show ?thesis using s by (auto simp: thread_add_write_def effect_def intro!: exI [of _ X])
  next
    case False
    then obtain t s' where r: "thread_add_write m f a fd s = (t, s')" "loop_inv s' (X(L_unuse := tl (X L_unuse), L_write := X L_write @ [t]))"
      "given t f a (U_fd fd) s s'" "\<forall>k. k \<noteq> L_unuse \<longrightarrow> t \<notin> set (X k)"
      using thread_add_write_ok [OF s, of m fd f a] l by auto
    then show ?thesis using given_effect [OF r(3,4)] by (intro exI conjI) (auto simp: effect_def)
  qed
next
  case [simp]: (Add_event m f a v)
  obtain t s' where r: "thread_add_event m f a v s = (t, s')" "loop_inv s' (X(L_unuse := tl (X L_unuse), L_event := X L_event @ [t]))"
    "given t f a (U_val v) s s'" "\<forall>k. k \<noteq> L_unuse \<longrightarrow> t \<notin> set (X k)"
    using thread_add_event_ok [OF s, of m f a v] l by auto
  then show ?thesis using given_effect [OF r(3,4)] by (intro exI conjI) (auto simp: effect_def)
next
  case [simp]: (Add_event_normal m f a v)
  obtain t s' where r: "thread_add_event_normal m f a v s = (t, s')"
    "loop_inv s' (X(L_unuse := tl (X L_unuse), L_event_normal := X L_event_normal @ [t]))"
    "given t f a (U_val v) s s'" "\<forall>k. k \<noteq> L_unuse \<longrightarrow> t \<notin> set (X k)"
    using thread_add_event_normal_ok [OF s, of m f a v] l by auto
  then show ?thesis using given_effect [OF r(3,4)] by (intro exI conjI) (auto simp: effect_def)
next
  case [simp]: (Cancel t)
  obtain n where "threads s t = Some n" using l by auto
  from thread_cancel_ok [OF s this] show ?thesis by (auto simp: effect_def)
next
  case [simp]: (Cancel_event a)
  obtain s' X' where r: "cancel_event_in L_event a s = Some (length (filter (\<lambda>t. arg (thread_at t s) = a) (X L_event @ X L_ready)), s')"
    "loop_inv s' X'" "framed s s'" "payload (threads s') = payload (threads s)"
    "X' = X(L_event := filter (\<lambda>t. arg (thread_at t s) \<noteq> a) (X L_event), L_ready := filter (\<lambda>t. arg (thread_at t s) \<noteq> a) (X L_ready),
      L_unuse := X L_unuse @ filter (\<lambda>t. arg (thread_at t s) = a) (X L_event @ X L_ready))"
    using cancel_event_in_ok [OF s, of L_event a] by auto
  then have "effect op s X s' X'" using framed_sig [OF r(3)] by (simp add: effect_def)
  then show ?thesis using r(1) by (simp add: thread_cancel_event_def) blast
next
  case [simp]: (Cancel_event_normal a)
  obtain s' X' where r: "cancel_event_in L_event_normal a s =
      Some (length (filter (\<lambda>t. arg (thread_at t s) = a) (X L_event_normal @ X L_ready)), s')"
    "loop_inv s' X'" "framed s s'" "payload (threads s') = payload (threads s)"
    "X' = X(L_event_normal := filter (\<lambda>t. arg (thread_at t s) \<noteq> a) (X L_event_normal),
      L_ready := filter (\<lambda>t. arg (thread_at t s) \<noteq> a) (X L_ready),
      L_unuse := X L_unuse @ filter (\<lambda>t. arg (thread_at t s) = a) (X L_event_normal @ X L_ready))"
    using cancel_event_in_ok [OF s, of L_event_normal a] by auto
  then have "effect op s X s' X'" using framed_sig [OF r(3)] by (simp add: effect_def)
  then show ?thesis using r(1) by (simp add: thread_cancel_event_normal_def) blast
next
  case (Add_timer m f a d now)
  then show ?thesis
    using l by (intro timer_effect [OF s, of m THREAD_TIMER Q_timer]) (auto simp: thread_add_timer_def)
next
  case (Add_timer_msec m f a d now)
  then show ?thesis
    using l by (intro timer_effect [OF s, of m THREAD_TIMER Q_timer]) (auto simp: thread_add_timer_msec_def)
next
  case (Add_background m f a d now)
  then show ?thesis
    using l by (intro timer_effect [OF s, of m THREAD_BACKGROUND Q_background]) (auto simp: thread_add_background_def)
qed (use op in auto)

lemma exec_ok:
  assumes run: "handlers_ok run" and s: "event_loop_ok s" and l: "legal op s"
  shows "\<exists>r s'. exec_op run op s = Some (r, s') \<and> event_loop_ok s' \<and> (\<forall>n. r = Next (Fetched n) \<longrightarrow> deliverable n)"
proof (cases "(\<exists>n. op = Signal n) \<or> (\<exists>ws. op = Fetch ws)")
  case False
  obtain X where "loop_inv s X" using s by (auto simp: event_loop_ok_def)
  from exec_effect [OF this l, of run] False show ?thesis by (fastforce simp: effect_def event_loop_ok_def)
next
  case True
  then show ?thesis
  proof
    assume "\<exists>n. op = Signal n"
    then obtain n where "op = Signal n" by blast
    then show ?thesis using delivered_ok [of "[n]" s] s by simp
  next
    assume "\<exists>ws. op = Fetch ws"
    then obtain ws where op: "op = Fetch ws" by blast
    obtain r s' where "thread_fetch run ws s = Some (r, s')" "event_loop_ok s'" "\<forall>n. r = Fetched n \<longrightarrow> deliverable n"
      using fetch_ok [OF run s] by blast
    then show ?thesis using op by (intro exI [of _ "Next r"] exI [of _ s']) simp
  qed
qed

lemma create_ok: "event_loop_ok thread_master_create"
proof -
  have w: "tq.wired (pqueue_create\<lparr>qcmp := Some thread_timer_cmp, qupdate := Some thread_timer_update\<rparr>)"
    by (simp add: tq.wired_def)
  have "loop_inv thread_master_create (\<lambda>_. [])"
    unfolding loop_inv_def loop_ok_def
    using tq.queue_inv_empty [OF w]
    by (auto simp: thread_master_create_def Let_def dlist_def fds_ok_def fds_def pqueue_create_def nodes_def)
  then show ?thesis by (auto simp: event_loop_ok_def)
qed

text \<open>The states that a daemon can bring its event loop into.\<close>

inductive reachable :: "(nat \<Rightarrow> event_loop \<Rightarrow> event_loop option) \<Rightarrow> event_loop \<Rightarrow> bool" for run where
  created: "reachable run thread_master_create"
| called: "reachable run s \<Longrightarrow> legal op s \<Longrightarrow> exec_op run op s = Some (r, s') \<Longrightarrow> reachable run s'"

lemma reachable_ok:
  assumes run: "handlers_ok run" and s: "reachable run s"
  shows "event_loop_ok s"
  using s
proof induction
  case (called s op r s')
  then show ?case using exec_ok [OF run called.IH called.hyps(2)] by simp
qed (rule create_ok)

section \<open>Progress\<close>

text \<open>The threads that wait for nothing but their turn, and those before \<open>t\<close>.\<close>

definition waiting :: "(list_id \<Rightarrow> nat list) \<Rightarrow> nat list" where
  "waiting X = X L_ready @ X L_event"

definition before :: "nat \<Rightarrow> nat list \<Rightarrow> nat list" where
  "before t = takeWhile (\<lambda>x. x \<noteq> t)"

lemma before_append [simp]: "t \<in> set xs \<Longrightarrow> before t (xs @ ys) = before t xs"
  unfolding before_def by (rule takeWhile_append1) auto

lemma before_filter: "P t \<Longrightarrow> length (before t (filter P xs)) \<le> length (before t xs)"
  unfolding before_def by (induction xs) auto

lemma filter_ne: "distinct xs \<Longrightarrow> remove1 c xs = filter (\<lambda>x. x \<noteq> c) xs"
proof -
  have "(\<lambda>x. c \<noteq> x) = (\<lambda>x. x \<noteq> c)" by auto
  then show "distinct xs \<Longrightarrow> remove1 c xs = filter (\<lambda>x. x \<noteq> c) xs"
    by (simp add: distinct_remove1_removeAll removeAll_filter_not_eq)
qed

text \<open>Calls that leave \<open>t\<close> alone: no cancellation of it, and no signal.\<close>

fun spares :: "nat \<Rightarrow> loop_op \<Rightarrow> event_loop \<Rightarrow> bool" where
  "spares t (Cancel c) s \<longleftrightarrow> c \<noteq> t"
| "spares t (Cancel_event a) s \<longleftrightarrow> arg (thread_at t s) \<noteq> a"
| "spares t (Cancel_event_normal a) s \<longleftrightarrow> arg (thread_at t s) \<noteq> a"
| "spares t (Signal n) s \<longleftrightarrow> False"
| "spares t (Fetch ws) s \<longleftrightarrow> (\<forall>w \<in> set ws. delivered w = [])"
| "spares t _ s \<longleftrightarrow> True"

text \<open>A fetch whose first \<open>select\<close> is neither interrupted nor failing.\<close>

fun prompt :: "loop_op \<Rightarrow> bool" where
  "prompt (Fetch (w # ws)) = (case answer w of Sel_fds _ _ \<Rightarrow> True | _ \<Rightarrow> False)"
| "prompt _ = False"

text \<open>\<open>t\<close> still waits, no later in the line than before, and by one earlier if \<open>closer\<close>.\<close>

definition nearer :: "bool \<Rightarrow> nat \<Rightarrow> event_loop \<Rightarrow> (list_id \<Rightarrow> nat list) \<Rightarrow> event_loop \<Rightarrow> (list_id \<Rightarrow> nat list) \<Rightarrow> bool" where
  "nearer closer t s X s' X' \<longleftrightarrow> loop_inv s' X' \<and> sig_same s s' \<and> payload (threads s') t = payload (threads s) t \<and> t \<in> set (waiting X') \<and>
     length (before t (waiting X')) + (if closer then 1 else 0) \<le> length (before t (waiting X))"

lemma effect_nearer:
  assumes s: "loop_inv s X" and e: "effect op s X s' X'" and t: "t \<in> set (waiting X)" "spares t op s" "\<not> (\<exists>ws. op = Fetch ws)"
  shows "nearer False t s X s' X'"
proof -
  have pay: "payload (threads s') t = payload (threads s) t" using e t(1) by (auto simp: effect_def waiting_def)
  have inv: "loop_ok {} s X" using s by (simp add: loop_inv_def)
  note d = loop_ok_distinct [OF inv]
  have filt: ?thesis if "P t" "waiting X' = filter P (waiting X)" for P
    using that before_filter [of P t "waiting X"] t(1) e pay by (simp add: nearer_def effect_def)
  have same: ?thesis if "X' L_ready = X L_ready \<and> (\<exists>ts. X' L_event = X L_event @ ts)"
  proof -
    from that obtain ts where "waiting X' = waiting X @ ts" by (auto simp: waiting_def)
    then show ?thesis using t(1) e pay by (simp add: nearer_def effect_def)
  qed
  show ?thesis
  proof (cases op)
    case (Cancel c)
    show ?thesis
      using e t(2) Cancel d by (intro filt [of "\<lambda>x. x \<noteq> c"]) (simp_all add: effect_def waiting_def filter_ne)
  next
    case (Cancel_event a)
    show ?thesis
      using e t(2) Cancel_event by (intro filt [of "\<lambda>x. arg (thread_at x s) \<noteq> a"]) (simp_all add: effect_def waiting_def)
  next
    case (Cancel_event_normal a)
    have x: "X' L_ready = filter (\<lambda>t. arg (thread_at t s) \<noteq> a) (X L_ready)" "X' L_event = X L_event"
      using e Cancel_event_normal by (simp_all add: effect_def)
    define P where "P x \<longleftrightarrow> arg (thread_at x s) \<noteq> a \<or> x \<in> set (X L_event)" for x
    have "x \<notin> set (X L_event)" if "x \<in> set (X L_ready)" for x
      using that loop_okD(7) [OF inv, of x L_ready] loop_okD(7) [OF inv, of x L_event] by auto
    then have "filter P (X L_ready) = X' L_ready" unfolding x by (intro filter_cong) (auto simp: P_def)
    moreover have "filter P (X L_event) = X L_event" by (simp add: P_def)
    ultimately have "waiting X' = filter P (waiting X)" by (simp add: waiting_def x(2))
    moreover have "P t" using t(2) Cancel_event_normal by (simp add: P_def)
    ultimately show ?thesis by (rule filt [rotated])
  qed (use e t(2,3) in \<open>simp_all add: effect_def same\<close>)
qed

text \<open>The thread that is handed out carries what \<open>t\<close> carried.\<close>

definition carries :: "nat \<Rightarrow> event_loop \<Rightarrow> thread \<Rightarrow> bool" where
  "carries t s n \<longleftrightarrow> func n = func (thread_at t s) \<and> arg n = arg (thread_at t s) \<and> u n = u (thread_at t s)"

lemma quiet_turn: "\<not> sig_caught s \<Longrightarrow> delivered w = [] \<Longrightarrow> after_signals run w s = Some s"
  by (simp add: after_signals_def quagga_sigevent_process_def)

lemma taken_nearer:
  assumes k: "taken x n s1 Y s' X'" and y: "loop_inv s1 Y" "sig_same s s1" "payload (threads s1) t = payload (threads s) t"
    and t: "t \<in> set (waiting Y)" "length (before t (waiting Y)) \<le> length (before t (waiting X))"
  shows "carries t s n \<or> nearer True t s X s' X'"
proof (cases "x = t")
  case True
  then show ?thesis using k payload_at [OF y(3)] by (simp add: carries_def taken_def)
next
  case False
  have "waiting Y = x # waiting X'" using k by (simp add: taken_def waiting_def)
  then have "t \<in> set (waiting X')" "length (before t (waiting X')) + 1 \<le> length (before t (waiting X))"
    using t False by (auto simp: before_def)
  moreover have "loop_inv s' X'" "sig_same s s'" "payload (threads s') t = payload (threads s) t"
    using k y sig_same_trans [OF y(2)] framed_sig by (auto simp: taken_def)
  ultimately show ?thesis by (simp add: nearer_def)
qed

lemma fetch_nearer:
  assumes "loop_inv s X" "\<not> sig_caught s" "t \<in> set (waiting X)" "\<forall>w \<in> set ws. delivered w = []"
  shows "\<exists>r s' X'. thread_fetch run ws s = Some (r, s') \<and> loop_inv s' X' \<and> sig_same s s' \<and>
    ((\<exists>n. r = Fetched n \<and> carries t s n) \<or> nearer (prompt (Fetch ws)) t s X s' X')"
  using assms
proof (induction ws arbitrary: s X)
  case Nil
  then show ?case by (auto simp: nearer_def)
next
  case (Cons w ws)
  have a: "after_signals run w s = Some s" using Cons.prems by (intro quiet_turn) auto
  show ?case
  proof (cases "X L_ready")
    case (Cons x ys)
    from fetch_ready [OF a Cons.prems(1) Cons, of ws] obtain n s' X' where
      r: "thread_fetch run (w # ws) s = Some (Fetched n, s')" "taken x n s X s' X'" by blast
    have "carries t s n \<or> nearer True t s X s' X'"
      by (rule taken_nearer [OF r(2) Cons.prems(1) _ _ Cons.prems(3)]) simp_all
    moreover have "nearer b t s X s' X'" if "nearer True t s X s' X'" for b using that by (auto simp: nearer_def)
    moreover have "loop_inv s' X'" "sig_same s s'" using r(2) framed_sig by (auto simp: taken_def)
    ultimately show ?thesis using r(1) by blast
  next
    case Nil
    have te: "t \<in> set (X L_event)" using Cons.prems(3) Nil by (simp add: waiting_def)
    have mv: "t \<in> set (waiting (moved r wr s X))" "before t (waiting (moved r wr s X)) = before t (waiting X)" for r wr
      using te Nil by (simp_all add: waiting_def moved_def)
    note f = fetch_idle [OF a Cons.prems(1) Nil, of ws]
    show ?thesis
    proof (cases "answer w")
      case Sel_intr
      with f obtain s2 where s2: "loop_inv s2 (moved {} {} s X)" "sig_same s s2" "payload (threads s2) = payload (threads s)"
        "thread_fetch run (w # ws) s = thread_fetch run ws s2" by auto
      have c: "carries t s2 = carries t s" using payload_at [of s2 t s] s2(3) by (simp add: carries_def fun_eq_iff)
      have np: "prompt (Fetch (w # ws)) = False" using Sel_intr by simp
      have "\<not> sig_caught s2" using s2(2) Cons.prems(2) by (simp add: sig_same_def)
      then obtain r s' X' where r: "thread_fetch run ws s2 = Some (r, s')" "loop_inv s' X'" "sig_same s2 s'"
        "(\<exists>n. r = Fetched n \<and> carries t s n) \<or> nearer (prompt (Fetch ws)) t s2 (moved {} {} s X) s' X'"
        using Cons.IH [OF s2(1) _ mv(1)] Cons.prems(4) unfolding c by auto
      have "nearer False t s X s' X'" if "nearer b t s2 (moved {} {} s X) s' X'" for b
        using that s2(2,3) mv(2) [of "{}" "{}"] sig_same_trans [OF s2(2)] by (auto simp: nearer_def split: if_splits)
      then show ?thesis unfolding np s2(4) using r sig_same_trans [OF s2(2)] by blast
    next
      case Sel_error
      with f obtain s2 where s2: "loop_inv s2 (moved {} {} s X)" "sig_same s s2" "payload (threads s2) = payload (threads s)"
        "thread_fetch run (w # ws) s = Some (Fetch_failed, s2)" by auto
      moreover have "nearer False t s X s2 (moved {} {} s X)" using s2(1-3) mv [of "{}" "{}"] by (simp add: nearer_def)
      moreover have "prompt (Fetch (w # ws)) = False" using Sel_error by simp
      ultimately show ?thesis by auto
    next
      case (Sel_fds r wr)
      let ?Y = "moved (r \<inter> readfd s) (wr \<inter> writefd s) s X"
      from f Sel_fds obtain s3 where s3: "loop_inv s3 ?Y" "sig_same s s3" "payload (threads s3) = payload (threads s)"
        "if ?Y L_ready = [] then thread_fetch run (w # ws) s = thread_fetch run ws s3
         else \<exists>t n s' X'. thread_fetch run (w # ws) s = Some (Fetched n, s') \<and> taken t n s3 ?Y s' X'" by blast
      have "?Y L_ready \<noteq> []" using te by (auto simp: moved_def)
      with s3(4) obtain x n s' X' where k: "thread_fetch run (w # ws) s = Some (Fetched n, s')" "taken x n s3 ?Y s' X'" by auto
      have "carries t s n \<or> nearer True t s X s' X'"
        by (rule taken_nearer [OF k(2) s3(1,2) _ mv(1)]) (simp_all add: s3(3) mv(2))
      moreover have "prompt (Fetch (w # ws)) = True" using Sel_fds by simp
      moreover have "loop_inv s' X'" "sig_same s s'" using k(2) sig_same_trans [OF s3(2)] framed_sig by (auto simp: taken_def)
      ultimately show ?thesis using k(1) by metis
    qed
  qed
qed

end
