(* ===== verification/EventLoopSafety.thy ===== *)
theory EventLoopSafety
  imports EventLoopRun
begin

text \<open>
  What the event loop promises to a daemon, without mention of the lists behind it: its
  assertions never fail, what it hands out is well typed, threads that are cancelled are gone,
  those that wait are served in their order, and the timer queues are sorted.  One property shows
  that timers are not served at all in this version of the code.
\<close>

section \<open>Reachable states\<close>

text \<open>
  C1: whatever calls a daemon has made since \<open>thread_master_create\<close>, in whatever order, with
  signals caught at any time and with handlers that call the event loop themselves, every
  further call returns and none of the assertions of \<open>lib/thread.c\<close> fails; every thread is
  in exactly the list or queue its type names, the descriptors watched are those of the threads
  that wait for them, and \<open>alloc\<close> is the number of threads there are.
\<close>

theorem event_loop_never_stuck:
  assumes "handlers_ok run" "reachable run s" "legal op s"
  shows "\<exists>r s'. exec_op run op s = Some (r, s') \<and> event_loop_ok s'"
  using exec_ok [OF assms(1) reachable_ok [OF assms(1,2)] assms(3)] by blast

text \<open>A handler that does nothing, and the state after two calls.\<close>

definition no_handler :: "nat \<Rightarrow> event_loop \<Rightarrow> event_loop option" where
  "no_handler h s = Some s"

lemma no_handler_ok: "handlers_ok no_handler"
  by (simp add: handlers_ok_def no_handler_def)

definition one_event :: event_loop where
  "one_event = snd (thread_add_event 1 7 8 9 thread_master_create)"

lemma one_event_reachable: "reachable no_handler one_event"
proof (rule called [OF created])
  show "legal (Add_event 1 7 8 9) thread_master_create"
    by (simp add: fresh_def thread_master_create_def Let_def)
  show "exec_op no_handler (Add_event 1 7 8 9) thread_master_create =
      Some (Added (fst (thread_add_event 1 7 8 9 thread_master_create)), one_event)"
    by (simp add: one_event_def map_prod_def split: prod.split)
qed

lemma one_event_ok: "event_loop_ok one_event"
  by (rule reachable_ok [OF no_handler_ok one_event_reachable])

theorem event_loop_never_stuck_witness:
  "\<exists>r s'. exec_op no_handler (Cancel_event 8) one_event = Some (r, s') \<and> event_loop_ok s'"
  by (rule event_loop_never_stuck [OF no_handler_ok one_event_reachable]) simp

text \<open>
  C3: a thread that \<open>thread_fetch\<close> hands out is of type \<open>THREAD_READY\<close>, and its union holds the
  member that the type it was added with calls for: a descriptor, a time or a value.
\<close>

theorem fetched_thread_typed:
  assumes "handlers_ok run" "reachable run s" "thread_fetch run ws s = Some (Fetched n, s')"
  shows "ttype n = THREAD_READY \<and> u_ok (add_type n) (u n)"
  using fetch_ok [OF assms(1) reachable_ok [OF assms(1,2)], of ws] assms(3) by (simp add: deliverable_def)

definition quiet_select :: turn where
  "quiet_select = \<lparr>delivered = [], answer = Sel_fds {} {}\<rparr>"

lemmas loop_compute = thread_master_create_def one_event_def Let_def thread_add_event_def thread_get_def thread_trim_head_def
  thread_empty_def upd_thread_def upd_list_def thread_list_add_def thread_list_delete_def thread_at_def zero_thread_def
  quagga_sigevent_process_def thread_process_def process_list.simps thread_run_def make_unused_def thread_add_unuse_def

definition the_event :: thread where
  "the_event = \<lparr>ttype = THREAD_READY, add_type = THREAD_EVENT, tnext = 0, tprev = 0, func = 7, arg = 8, u = U_val 9,
     index = - 1, cmd_excute = 0, config_finish = 0\<rparr>"

lemma one_event_fetched: "\<exists>s'. thread_fetch no_handler [quiet_select] one_event = Some (Fetched the_event, s')"
  by (simp add: loop_compute quiet_select_def the_event_def)

theorem fetched_thread_typed_witness: "ttype the_event = THREAD_READY \<and> u_ok (add_type the_event) (u the_event)"
proof -
  obtain s' where "thread_fetch no_handler [quiet_select] one_event = Some (Fetched the_event, s')"
    using one_event_fetched by blast
  from fetched_thread_typed [OF no_handler_ok one_event_reachable this] show ?thesis .
qed

text \<open>
  C4: no timer and no background thread is ever handed out, however long it has been due: in
  this version of \<open>thread_fetch\<close> the two calls of \<open>thread_timer_process\<close> are compiled out, while
  the routing daemons go on adding timers.
\<close>

theorem timers_never_fetched:
  assumes "handlers_ok run" "reachable run s" "thread_fetch run ws s = Some (r, s')"
  shows "\<not> (\<exists>n. r = Fetched n \<and> (add_type n = THREAD_TIMER \<or> add_type n = THREAD_BACKGROUND))"
  using fetch_ok [OF assms(1) reachable_ok [OF assms(1,2)], of ws] assms(3) by (auto simp: deliverable_def)

text \<open>A timer that is due when it is added, a hundred turns later.\<close>

definition due_timer :: event_loop where
  "due_timer = (case thread_add_timer 1 7 8 0 \<lparr>tv_sec = 5, tv_usec = 0\<rparr> thread_master_create of
     Some (t, s) \<Rightarrow> s | None \<Rightarrow> thread_master_create)"

lemma due_timer_added: "thread_add_timer 1 7 8 0 \<lparr>tv_sec = 5, tv_usec = 0\<rparr> thread_master_create = Some (1, due_timer)"
proof -
  obtain X where X: "loop_inv thread_master_create X" using create_ok by (auto simp: event_loop_ok_def)
  have "fresh 1 thread_master_create" by (simp add: fresh_def thread_master_create_def Let_def)
  from thread_add_timer_timeval_ok [OF X this disjI1 [OF conjI [OF refl refl]]]
  obtain t s where r: "thread_add_timer 1 7 8 0 \<lparr>tv_sec = 5, tv_usec = 0\<rparr> thread_master_create = Some (t, s)"
    unfolding thread_add_timer_def by blast
  moreover have "t = 1"
    using r by (auto simp: thread_add_timer_def thread_add_timer_timeval_def loop_compute split: prod.splits)
  ultimately show ?thesis by (simp add: due_timer_def)
qed

lemma due_timer_reachable: "reachable no_handler due_timer"
proof (rule called [OF created])
  show "legal (Add_timer 1 7 8 0 \<lparr>tv_sec = 5, tv_usec = 0\<rparr>) thread_master_create"
    by (simp add: fresh_def thread_master_create_def Let_def)
  show "exec_op no_handler (Add_timer 1 7 8 0 \<lparr>tv_sec = 5, tv_usec = 0\<rparr>) thread_master_create = Some (Added 1, due_timer)"
    using due_timer_added by simp
qed

theorem timers_never_fetched_witness:
  "\<exists>r s'. thread_fetch no_handler (replicate 100 quiet_select) due_timer = Some (r, s') \<and>
    \<not> (\<exists>n. r = Fetched n \<and> (add_type n = THREAD_TIMER \<or> add_type n = THREAD_BACKGROUND))"
  using fetch_ok [OF no_handler_ok reachable_ok [OF no_handler_ok due_timer_reachable], of "replicate 100 quiet_select"]
    timers_never_fetched [OF no_handler_ok due_timer_reachable, of "replicate 100 quiet_select"]
  by blast

section \<open>Cancelling\<close>

text \<open>
  cancelling a thread takes exactly it out of the list or queue it is in, wherever that
  is, and leaves every other thread, its arguments and its place as they were.
\<close>

theorem cancel_takes_out:
  assumes "event_loop_ok s" "threads s t \<noteq> None"
  shows "\<exists>s'. thread_cancel t s = Some s' \<and> event_loop_ok s' \<and> (\<forall>l. l \<noteq> L_unuse \<longrightarrow> members l s' = remove1 t (members l s)) \<and>
    (\<forall>q. set (nodes (queues s' q)) = set (nodes (queues s q)) - {t}) \<and> payload (threads s') = payload (threads s)"
proof -
  let ?X = "\<lambda>l. members l s"
  have inv: "loop_inv s ?X" using assms(1) loop_inv_members by blast
  obtain n where n: "threads s t = Some n" using assms(2) by blast
  obtain s' X' where r: "thread_cancel t s = Some s'" "loop_inv s' X'" "payload (threads s') = payload (threads s)"
    "set (X' L_unuse) = insert t (set (?X L_unuse))" "\<And>l. l \<noteq> L_unuse \<Longrightarrow> X' l = remove1 t (?X l)"
    using thread_cancel_ok [OF inv n] by blast
  have ok: "loop_ok {} s ?X" "loop_ok {} s' X'" using inv r(2) by (simp_all add: loop_inv_def)
  have rm: "set (remove1 t (?X l)) = set (?X l) - {t}" for l using loop_ok_distinct [OF ok(1), of l] by simp
  have l': "(\<forall>l. x \<notin> set (X' l)) \<longleftrightarrow> x \<noteq> t \<and> (\<forall>l. x \<notin> set (?X l))" for x
  proof -
    have "(\<forall>l. x \<notin> set (X' l)) \<longleftrightarrow> x \<notin> set (X' L_unuse) \<and> (\<forall>l. l \<noteq> L_unuse \<longrightarrow> x \<notin> set (X' l))" by metis
    also have "\<dots> \<longleftrightarrow> x \<noteq> t \<and> x \<notin> set (?X L_unuse) \<and> (\<forall>l. l \<noteq> L_unuse \<longrightarrow> x \<notin> set (?X l))"
      using r(4,5) rm by auto
    also have "\<dots> \<longleftrightarrow> x \<noteq> t \<and> (\<forall>l. x \<notin> set (?X l))" by metis
    finally show ?thesis .
  qed
  have "set (nodes (queues s' q)) = set (nodes (queues s q)) - {t}" for q
  proof (rule set_eqI)
    show "x \<in> set (nodes (queues s' q)) \<longleftrightarrow> x \<in> set (nodes (queues s q)) - {t}" for x
      using nodes_by_payload [OF ok(1), of x q] nodes_by_payload [OF ok(2), of x q] l' [of x]
      unfolding r(3) by (simp add: conj_ac)
  qed
  moreover have "members l s' = remove1 t (members l s)" if "l \<noteq> L_unuse" for l
    using members_eq [OF r(2), of l] r(5) [OF that] by simp
  ultimately show ?thesis using r(1-3) by (auto simp: event_loop_ok_def)
qed

lemma due_timer_thread: "threads due_timer 1 \<noteq> None"
proof -
  obtain X where X: "loop_inv thread_master_create X" using create_ok by (auto simp: event_loop_ok_def)
  have f: "fresh 1 thread_master_create" by (simp add: fresh_def thread_master_create_def Let_def)
  from thread_add_timer_timeval_ok [OF X f disjI1 [OF conjI [OF refl refl]], of 7 8 "\<lparr>tv_sec = 0, tv_usec = 0\<rparr>" "\<lparr>tv_sec = 5, tv_usec = 0\<rparr>"]
  obtain Y where Y: "loop_inv due_timer Y" "1 \<in> set (nodes (queues due_timer Q_timer))"
    using due_timer_added by (auto simp: thread_add_timer_def)
  then show ?thesis using loop_okD(8) [of "{}" due_timer Y 1 Q_timer] by (auto simp: loop_inv_def)
qed

theorem cancel_takes_out_witness:
  "\<exists>s'. thread_cancel 1 due_timer = Some s' \<and> event_loop_ok s' \<and> (\<forall>l. l \<noteq> L_unuse \<longrightarrow> members l s' = remove1 1 (members l due_timer)) \<and>
    (\<forall>q. set (nodes (queues s' q)) = set (nodes (queues due_timer q)) - {1}) \<and> payload (threads s') = payload (threads due_timer)"
  by (rule cancel_takes_out [OF reachable_ok [OF no_handler_ok due_timer_reachable] due_timer_thread])

text \<open>
  \<open>thread_cancel_event\<close> takes exactly the events with the given argument out of the list
  of events and of the list of ready threads, keeps the order of the others, and returns their
  number.
\<close>

theorem cancel_event_takes_all:
  assumes "event_loop_ok s"
  shows "\<exists>s'. thread_cancel_event a s =
      Some (length (filter (\<lambda>t. arg (thread_at t s) = a) (members L_event s @ members L_ready s)), s') \<and> event_loop_ok s' \<and>
    members L_event s' = filter (\<lambda>t. arg (thread_at t s) \<noteq> a) (members L_event s) \<and>
    members L_ready s' = filter (\<lambda>t. arg (thread_at t s) \<noteq> a) (members L_ready s)"
proof -
  have "loop_inv s (\<lambda>l. members l s)" using assms loop_inv_members by blast
  from cancel_event_in_ok [OF this, of L_event a] obtain s' X' where r:
    "cancel_event_in L_event a s = Some (length (filter (\<lambda>t. arg (thread_at t s) = a) (members L_event s @ members L_ready s)), s')"
    "loop_inv s' X'" "X' L_event = filter (\<lambda>t. arg (thread_at t s) \<noteq> a) (members L_event s)"
    "X' L_ready = filter (\<lambda>t. arg (thread_at t s) \<noteq> a) (members L_ready s)" by auto
  then show ?thesis using members_eq [OF r(2)] by (auto simp: thread_cancel_event_def event_loop_ok_def)
qed

theorem cancel_event_takes_all_witness:
  "\<exists>s'. thread_cancel_event 8 one_event = Some (1, s') \<and> event_loop_ok s' \<and> members L_event s' = []"
proof -
  have m: "members L_event one_event = [1]" "members L_ready one_event = []" "arg (thread_at 1 one_event) = 8"
    by (simp_all add: members_def loop_compute)
  show ?thesis using cancel_event_takes_all [OF one_event_ok, of 8] m by auto
qed

section \<open>Order\<close>

text \<open>The candidates of a turn that starts with no ready thread.\<close>

definition candidates :: "nat set \<Rightarrow> nat set \<Rightarrow> event_loop \<Rightarrow> nat list" where
  "candidates r w s = members L_event s @ members L_event_normal s @
     filter (\<lambda>t. fd_of s t \<in> r \<inter> readfd s) (members L_read s) @ filter (\<lambda>t. fd_of s t \<in> w \<inter> writefd s) (members L_write s)"

text \<open>
  C26: when nothing is ready, a turn serves the events, then the normal events, then the threads
  whose descriptor \<open>select\<close> reports, readers first, each group in the order in which it
  was added: the first of them is handed out and the others wait in this order.
\<close>

theorem idle_turn_order:
  assumes "event_loop_ok s" "\<not> sig_caught s" "members L_ready s = []" "candidates r w s = t # ts"
  shows "\<exists>n s'. thread_fetch run (\<lparr>delivered = [], answer = Sel_fds r w\<rparr> # ws) s = Some (Fetched n, s') \<and> carries t s n \<and>
    event_loop_ok s' \<and> members L_ready s' = ts \<and> members L_event s' = [] \<and> members L_event_normal s' = []"
proof -
  let ?X = "\<lambda>l. members l s" and ?w = "\<lparr>delivered = [], answer = Sel_fds r w\<rparr>"
  let ?Y = "moved (r \<inter> readfd s) (w \<inter> writefd s) s ?X"
  have inv: "loop_inv s ?X" using assms(1) loop_inv_members by blast
  have y: "?Y L_ready = t # ts" using assms(3,4) by (simp add: moved_def candidates_def)
  have a: "after_signals run ?w s = Some s" by (rule quiet_turn [OF assms(2)]) simp
  from fetch_idle [OF a inv assms(3), of ws] y obtain s3 x n s' X' where s3: "payload (threads s3) = payload (threads s)"
    and k: "thread_fetch run (?w # ws) s = Some (Fetched n, s')" "taken x n s3 ?Y s' X'" by auto
  have "x = t" "X' L_ready = ts" "X' L_event = []" "X' L_event_normal = []" "loop_inv s' X'"
    using k(2) y by (auto simp: taken_def moved_def)
  moreover have "carries x s n" using k(2) payload_at [of s3 x s] s3 by (simp add: taken_def carries_def)
  ultimately show ?thesis using k(1) members_eq by (metis event_loop_ok_def)
qed

definition reader_and_event :: event_loop where
  "reader_and_event = snd (thread_add_event 2 7 8 9 (snd (thread_add_read 1 5 6 3 thread_master_create)))"

lemma reader_and_event_ok: "event_loop_ok reader_and_event"
proof -
  let ?s = "snd (thread_add_read 1 5 6 3 thread_master_create)"
  have f: "fresh 1 thread_master_create" by (simp add: fresh_def thread_master_create_def Let_def)
  have "exec_op no_handler (Add_read 1 5 6 3) thread_master_create = Some (Added (fst (thread_add_read 1 5 6 3 thread_master_create)), ?s)"
    by (simp add: map_prod_def split: prod.split)
  then have s: "event_loop_ok ?s" using exec_ok [OF no_handler_ok create_ok, of "Add_read 1 5 6 3"] f by auto
  have g: "fresh 2 ?s" by (simp add: fresh_def thread_add_read_def loop_compute)
  have "exec_op no_handler (Add_event 2 7 8 9) ?s = Some (Added (fst (thread_add_event 2 7 8 9 ?s)), reader_and_event)"
    by (simp add: reader_and_event_def map_prod_def split: prod.split)
  then show ?thesis using exec_ok [OF no_handler_ok s, of "Add_event 2 7 8 9"] g by auto
qed

theorem idle_turn_order_witness:
  "\<exists>n s'. thread_fetch no_handler [\<lparr>delivered = [], answer = Sel_fds {3, 4} {}\<rparr>] reader_and_event = Some (Fetched n, s') \<and>
    carries 2 reader_and_event n \<and> event_loop_ok s' \<and> members L_ready s' = [1] \<and> members L_event s' = [] \<and> members L_event_normal s' = []"
proof -
  have "\<not> sig_caught reader_and_event" "members L_ready reader_and_event = []" "candidates {3, 4} {} reader_and_event = [2, 1]"
    by (simp_all add: reader_and_event_def candidates_def members_def fd_of_def thread_add_read_def loop_compute)
  from idle_turn_order [OF reader_and_event_ok this] show ?thesis .
qed

section \<open>Progress\<close>

text \<open>The threads handed out by a sequence of calls, and sequences that never cancel \<open>t\<close>.\<close>

fun play :: "(nat \<Rightarrow> event_loop \<Rightarrow> event_loop option) \<Rightarrow> loop_op list \<Rightarrow> event_loop \<Rightarrow> (thread list \<times> event_loop) option" where
  "play run [] s = Some ([], s)"
| "play run (op # ops) s =
     (case exec_op run op s of
        None \<Rightarrow> None
      | Some (r, s) \<Rightarrow>
          (case play run ops s of
             None \<Rightarrow> None
           | Some (ns, s) \<Rightarrow> Some (case r of Next (Fetched n) \<Rightarrow> n # ns | _ \<Rightarrow> ns, s)))"

fun allowed :: "(nat \<Rightarrow> event_loop \<Rightarrow> event_loop option) \<Rightarrow> nat \<Rightarrow> loop_op list \<Rightarrow> event_loop \<Rightarrow> bool" where
  "allowed run t [] s = True"
| "allowed run t (op # ops) s \<longleftrightarrow> legal op s \<and> spares t op s \<and>
     (case exec_op run op s of None \<Rightarrow> False | Some (r, s) \<Rightarrow> allowed run t ops s)"

lemma play_total: "allowed run t ops s \<Longrightarrow> \<exists>ns s'. play run ops s = Some (ns, s')"
proof (induction ops arbitrary: s)
  case (Cons op ops)
  then obtain r z where "exec_op run op s = Some (r, z)" "allowed run t ops z" by (auto split: option.splits)
  then show ?case using Cons.IH [of z] by auto
qed simp

lemma step_nearer:
  assumes s: "loop_inv s X" "\<not> sig_caught s" "t \<in> set (waiting X)" and op: "legal op s" "spares t op s"
  shows "\<exists>r s' X'. exec_op run op s = Some (r, s') \<and>
    ((\<exists>n. r = Next (Fetched n) \<and> carries t s n) \<or> nearer (prompt op) t s X s' X')"
proof (cases "\<exists>ws. op = Fetch ws")
  case True
  then obtain ws where ws: "op = Fetch ws" by blast
  then have "\<forall>w \<in> set ws. delivered w = []" using op(2) by simp
  from fetch_nearer [OF s this, of run] obtain f s' X' where f: "thread_fetch run ws s = Some (f, s')"
    "(\<exists>n. f = Fetched n \<and> carries t s n) \<or> nearer (prompt (Fetch ws)) t s X s' X'" by blast
  have "exec_op run op s = Some (Next f, s')" using f(1) ws by simp
  then show ?thesis using f(2) unfolding ws by blast
next
  case False
  moreover have "\<not> (\<exists>n. op = Signal n)" using op(2) by auto
  ultimately obtain r s' X' where r: "exec_op run op s = Some (r, s')" "effect op s X s' X'"
    using exec_effect [OF s(1) op(1), of run] by blast
  have "prompt op = False" using False by (cases op) auto
  then show ?thesis using effect_nearer [OF s(1) r(2) s(3) op(2) False] r(1) by auto
qed

lemma served_in_time:
  assumes "loop_inv s X" "\<not> sig_caught s" "t \<in> set (waiting X)" "allowed run t ops s"
    "length (before t (waiting X)) < length (filter prompt ops)"
  shows "\<exists>ns s'. play run ops s = Some (ns, s') \<and> (\<exists>n \<in> set ns. carries t s n)"
  using assms
proof (induction ops arbitrary: s X)
  case (Cons op ops)
  from step_nearer [OF Cons.prems(1-3), of op run] Cons.prems(4) obtain r s' X' where r: "exec_op run op s = Some (r, s')"
    "(\<exists>n. r = Next (Fetched n) \<and> carries t s n) \<or> nearer (prompt op) t s X s' X'" by auto
  have al: "allowed run t ops s'" using Cons.prems(4) r(1) by simp
  from r(2) show ?case
  proof
    assume "\<exists>n. r = Next (Fetched n) \<and> carries t s n"
    then show ?thesis using play_total [OF al] r(1) by auto
  next
    assume n: "nearer (prompt op) t s X s' X'"
    then have x: "loop_inv s' X'" "\<not> sig_caught s'" "t \<in> set (waiting X')" "carries t s' = carries t s"
      using Cons.prems(2) payload_at [of s' t s] by (auto simp: nearer_def sig_same_def carries_def fun_eq_iff)
    have "length (before t (waiting X')) < length (filter prompt ops)"
      using n Cons.prems(5) by (auto simp: nearer_def split: if_splits)
    from Cons.IH [OF x(1-3) al this] obtain ns z where "play run ops s' = Some (ns, z)" "\<exists>n \<in> set ns. carries t s n"
      unfolding x(4) by blast
    then show ?thesis using r(1) by (auto split: outcome.split fetch_result.split)
  qed
qed simp

text \<open>
  C2: a thread that is ready or an event is served: as long as nobody cancels it and no signal
  comes in between, it is handed out by one of the next fetches, at the latest when as many
  fetches as there are threads before it have been made, whatever else the daemon adds or
  cancels meanwhile, and however many fetches are interrupted or fail.
\<close>

theorem waiting_thread_served:
  assumes "event_loop_ok s" "\<not> sig_caught s" "t \<in> set (members L_ready s @ members L_event s)" "allowed run t ops s"
    "length (takeWhile (\<lambda>x. x \<noteq> t) (members L_ready s @ members L_event s)) < length (filter prompt ops)"
  shows "\<exists>ns s'. play run ops s = Some (ns, s') \<and> (\<exists>n \<in> set ns. carries t s n)"
  using served_in_time [of s "\<lambda>l. members l s" t run ops] assms by (simp add: loop_inv_members waiting_def before_def)

theorem waiting_thread_served_witness:
  "\<exists>ns s'. play no_handler [Add_event 2 5 6 7, Fetch [quiet_select]] one_event = Some (ns, s') \<and> (\<exists>n \<in> set ns. carries 1 one_event n)"
proof -
  have a: "\<not> sig_caught one_event" "members L_ready one_event = []" "members L_event one_event = [1]"
    by (simp_all add: members_def loop_compute)
  have "allowed no_handler 1 [Add_event 2 5 6 7, Fetch [quiet_select]] one_event"
    by (simp add: loop_compute quiet_select_def fresh_def)
  then show ?thesis
    using a by (intro waiting_thread_served [OF one_event_ok]) (simp_all add: quiet_select_def)
qed

section \<open>The timer queue\<close>

fun enqueue_all :: "nat list \<Rightarrow> thread_heap pqueue \<Rightarrow> thread_heap \<Rightarrow> thread_heap pqueue \<times> thread_heap" where
  "enqueue_all [] q h = (q, h)"
| "enqueue_all (t # ts) q h = (case pqueue_enqueue t q h of (q, h) \<Rightarrow> enqueue_all ts q h)"

fun drain :: "nat \<Rightarrow> thread_heap pqueue \<Rightarrow> thread_heap \<Rightarrow> nat list option" where
  "drain 0 q h = Some []"
| "drain (Suc n) q h =
     (case pqueue_dequeue q h of None \<Rightarrow> None | Some (t, q, h) \<Rightarrow> map_option ((#) t) (drain n q h))"

lemma enqueue_all_ok:
  assumes "tq.queue_inv q h" "distinct ts" "set ts \<inter> set (nodes q) = {}"
  shows "case enqueue_all ts q h of (q', h') \<Rightarrow>
    tq.queue_inv q' h' \<and> mset (nodes q') = mset ts + mset (nodes q) \<and> thread_timer_cmp h' = thread_timer_cmp h"
  using assms
proof (induction ts arbitrary: q h)
  case (Cons t ts)
  have "t \<notin> set (nodes q)" using Cons.prems(3) by simp
  then obtain q1 h1 where r: "pqueue_enqueue t q h = (q1, h1)" "tq.queue_inv q1 h1" "mset (nodes q1) = add_mset t (mset (nodes q))"
    "told thread_timer_update (insert t (set (nodes q))) h h1"
    using tq.enqueue_ok [OF Cons.prems(1)] by blast
  have "set (nodes q1) = insert t (set (nodes q))" using arg_cong [OF r(3), of set_mset] by simp
  then have "set ts \<inter> set (nodes q1) = {}" "distinct ts" using Cons.prems(2,3) by auto
  from Cons.IH [OF r(2) this(2,1)] show ?case using r(1,3) tq.told_cmp [OF r(4)] by (auto split: prod.splits)
qed simp

lemma drain_ok:
  assumes "tq.queue_inv q h" "n = qsize q"
  shows "\<exists>xs. drain n q h = Some xs \<and> mset xs = mset (nodes q) \<and> sorted_wrt (\<lambda>x y. thread_timer_cmp h x y \<le> 0) xs"
  using assms
proof (induction n arbitrary: q h)
  case 0
  then show ?case using tq.length_nodes [OF 0(1)] by simp
next
  case (Suc n)
  then have "qsize q \<noteq> 0" by simp
  from tq.dequeue_ok [OF Suc.prems(1) this] obtain q1 h1 where r: "pqueue_dequeue q h = Some (nodes q ! 0, q1, h1)"
    "tq.queue_inv q1 h1" "mset (nodes q) = add_mset (nodes q ! 0) (mset (nodes q1))" "told thread_timer_update (set (nodes q)) h h1"
    "\<forall>y \<in> set (nodes q). thread_timer_cmp h (nodes q ! 0) y \<le> 0" by blast
  have c: "thread_timer_cmp h1 = thread_timer_cmp h" by (rule tq.told_cmp [OF r(4)])
  have "length (nodes q) = Suc (length (nodes q1))" using arg_cong [OF r(3), of size] by simp
  then have "n = qsize q1" using tq.length_nodes [OF Suc.prems(1)] tq.length_nodes [OF r(2)] Suc.prems(2) by simp
  from Suc.IH [OF r(2) this] obtain xs where xs: "drain n q1 h1 = Some xs" "mset xs = mset (nodes q1)"
    "sorted_wrt (\<lambda>x y. thread_timer_cmp h x y \<le> 0) xs" unfolding c by blast
  have "set xs \<subseteq> set (nodes q)" using arg_cong [OF xs(2), of set_mset] arg_cong [OF r(3), of set_mset] by auto
  then show ?case using r(1,3,5) xs by auto
qed

text \<open>
  C27: the priority queue of a thread master sorts: any threads, put in in any order, come out
  again, each once, by their times; the positions the queue tells the threads are right
  throughout, or taking them out would fail.
\<close>

theorem timers_leave_in_order:
  assumes "distinct ts"
  shows "case enqueue_all ts (queues thread_master_create Q_timer) h of (q, h') \<Rightarrow>
    (\<exists>xs. drain (length ts) q h' = Some xs \<and> mset xs = mset ts \<and>
      sorted_wrt (\<lambda>x y. timeval_cmp (u_sands (u (the (h x)))) (u_sands (u (the (h y)))) \<le> 0) xs)"
proof -
  let ?q = "queues thread_master_create Q_timer"
  have w: "tq.wired ?q" by (simp add: tq.wired_def thread_master_create_def Let_def)
  have e: "nodes ?q = []" and "qsize ?q = 0" "qarray ?q \<noteq> []"
    by (simp_all add: thread_master_create_def Let_def pqueue_create_def nodes_def)
  with w have inv: "tq.queue_inv ?q h" by (intro tq.queue_inv_empty)
  obtain q h' where r: "enqueue_all ts ?q h = (q, h')" by (cases "enqueue_all ts ?q h")
  have q: "tq.queue_inv q h'" "mset (nodes q) = mset ts" "thread_timer_cmp h' = thread_timer_cmp h"
    using enqueue_all_ok [OF inv assms] e r by simp_all
  have "length ts = qsize q" using tq.length_nodes [OF q(1)] arg_cong [OF q(2), of size] by simp
  from drain_ok [OF q(1) this] q(2,3) show ?thesis unfolding r by (simp add: thread_timer_cmp_le)
qed

definition three_timers :: thread_heap where
  "three_timers = (\<lambda>t. if t \<in> {1, 2, 3} then Some (zero_thread\<lparr>u := U_sands \<lparr>tv_sec = 10 - int t, tv_usec = 0\<rparr>\<rparr>) else None)"

theorem timers_leave_in_order_witness:
  "case enqueue_all [1, 2, 3] (queues thread_master_create Q_timer) three_timers of (q, h') \<Rightarrow>
    (\<exists>xs. drain (length [1 :: nat, 2, 3]) q h' = Some xs \<and> mset xs = mset [1, 2, 3] \<and>
      sorted_wrt (\<lambda>x y. timeval_cmp (u_sands (u (the (three_timers x)))) (u_sands (u (the (three_timers y)))) \<le> 0) xs)"
  by (rule timers_leave_in_order) simp

section \<open>The end\<close>

lemma list_free_seg:
  assumes "dseg (threads s) p ys 0" "distinct ys" "0 \<notin> set ys"
  shows "\<exists>L. list_free (first ys 0) l s = Some (s\<lparr>threads := (threads s) |` (- set ys), alloc := alloc s - int (length ys), lists := L\<rparr>) \<and>
    (\<forall>k. head (L k) = head (lists s k))"
  using assms
proof (induction ys arbitrary: p s)
  case Nil
  have "threads s |` UNIV = threads s" by (simp add: restrict_map_def fun_eq_iff)
  then have "s = s\<lparr>threads := threads s |` (- set []), alloc := alloc s - int (length ([] :: nat list)), lists := lists s\<rparr>" by simp
  then show ?case by (intro exI [of _ "lists s"]) (simp add: list_free.simps)
next
  case (Cons t ys)
  let ?s = "upd_list l (\<lambda>x. x\<lparr>tcount := tcount x - 1\<rparr>) (s\<lparr>threads := (threads s)(t := None), alloc := alloc s - 1\<rparr>)"
  have t: "tnext (thread_at t s) = first ys 0" "t \<noteq> 0" using Cons.prems(1,3) by (auto simp: dseg_linked linked_def thread_at_def)
  have "dseg (threads ?s) t ys 0" using Cons.prems(1,2) by (simp add: dseg_linked upd_list_def)
  with Cons.prems(2,3) obtain L where L: "list_free (first ys 0) l ?s =
      Some (?s\<lparr>threads := (threads ?s) |` (- set ys), alloc := alloc ?s - int (length ys), lists := L\<rparr>)"
      "\<forall>k. head (L k) = head (lists ?s k)"
    using Cons.IH [of ?s t] by auto
  have "list_free (first (t # ys) 0) l s = list_free (first ys 0) l ?s" using t by (subst list_free.simps) simp
  moreover have "(threads ?s) |` (- set ys) = (threads s) |` (- set (t # ys))"
    by (auto simp: upd_list_def restrict_map_def fun_eq_iff)
  moreover have "head (lists ?s k) = head (lists s k)" for k by (simp add: upd_list_def)
  moreover have "?s\<lparr>threads := h, alloc := a, lists := L\<rparr> = s\<lparr>threads := h, alloc := a, lists := L\<rparr>" for h a by (simp add: upd_list_def)
  moreover have "alloc ?s - int (length ys) = alloc s - int (length (t # ys))" by (simp add: upd_list_def)
  ultimately show ?case using L by auto
qed

text \<open>The state after the members of some lists and queues, \<open>R\<close>, have been freed.\<close>

definition freed :: "event_loop \<Rightarrow> nat set \<Rightarrow> event_loop \<Rightarrow> bool" where
  "freed s R z \<longleftrightarrow> threads z = threads s |` (- R) \<and> alloc z = alloc s - int (card R) \<and> queues z = queues s \<and>
     (\<forall>k. head (lists z k) = head (lists s k))"

lemma free_list_ok:
  assumes s: "loop_inv s X" and f: "freed s R z" "finite R" and d: "set (X l) \<inter> R = {}"
  shows "\<exists>z'. thread_list_free l z = Some z' \<and> freed s (R \<union> set (X l)) z'"
proof -
  have dl: "dlist (threads s) (lists s l) (X l)" using s loop_okD(1) [of "{}" s X l] by (simp add: loop_inv_def)
  then have seg: "dseg (threads s) 0 (X l) 0" "distinct (X l)" "0 \<notin> set (X l)" "head (lists s l) = first (X l) 0"
    by (auto simp: dlist_def)
  have "dseg (threads z) 0 (X l) 0"
    by (subst dseg_frame [where h = "threads s"]) (use f d seg(1) in \<open>auto simp: freed_def linked_def restrict_map_def\<close>)
  from list_free_seg [OF this seg(2,3), of l] obtain L where
    L: "list_free (first (X l) 0) l z = Some (z\<lparr>threads := (threads z) |` (- set (X l)), alloc := alloc z - int (length (X l)), lists := L\<rparr>)"
      "\<forall>k. head (L k) = head (lists z k)" by blast
  let ?z = "z\<lparr>threads := (threads z) |` (- set (X l)), alloc := alloc z - int (length (X l)), lists := L\<rparr>"
  have "head (lists z l) = first (X l) 0" using f(1) seg(4) by (simp add: freed_def)
  moreover have "card (R \<union> set (X l)) = card R + length (X l)"
    using card_Un_disjoint [of R "set (X l)"] f(2) d distinct_card [OF seg(2)] by (simp add: Int_commute)
  moreover have "threads ?z = threads s |` (- (R \<union> set (X l)))" using f(1) by (auto simp: freed_def restrict_map_def fun_eq_iff)
  ultimately show ?thesis using L f(1) by (simp add: thread_list_free_def freed_def)
qed

lemma fold_free: "fold (\<lambda>i h. h(xs i := None)) is h = h |` (- (xs ` set is))"
  by (induction "is" arbitrary: h) (auto simp: restrict_map_def fun_eq_iff)

lemma free_queue_ok:
  assumes s: "loop_inv s X" and f: "freed s R z" "finite R" and d: "set (nodes (queues s q)) \<inter> R = {}"
  shows "freed s (R \<union> set (nodes (queues s q))) (thread_queue_free q z)"
proof -
  let ?N = "nodes (queues s q)"
  have inv: "tq.queue_inv (queues s q) (threads s)" using s loop_okD(2) [of "{}" s X q] by (simp add: loop_inv_def)
  have l: "length ?N = qsize (queues s q)" by (rule tq.length_nodes [OF inv])
  have N: "(!) (qarray (queues s q)) ` set [0..<qsize (queues s q)] = set ?N"
    using inv nth_image [of "qsize (queues s q)" "qarray (queues s q)"] by (simp add: nodes_def tq.queue_inv_def)
  have "card (R \<union> set ?N) = card R + qsize (queues s q)"
    using card_Un_disjoint [of R "set ?N"] f(2) d distinct_card [of ?N] inv l by (simp add: Int_commute tq.queue_inv_def)
  moreover have "threads (thread_queue_free q z) = threads z |` (- set ?N)"
    using f(1) N by (simp add: thread_queue_free_def Let_def fold_free freed_def)
  moreover have "threads z |` (- set ?N) = threads s |` (- (R \<union> set ?N))" using f(1) by (auto simp: freed_def restrict_map_def fun_eq_iff)
  ultimately show ?thesis using f(1) by (simp add: freed_def thread_queue_free_def Let_def)
qed

text \<open>
  C28: \<open>thread_master_free\<close> returns every thread of the event loop to the allocator, each once,
  and its counter is then zero.
\<close>

theorem master_free_leaves_nothing:
  assumes "event_loop_ok s"
  shows "\<exists>s'. thread_master_free s = Some s' \<and> threads s' = Map.empty \<and> alloc s' = 0"
proof -
  obtain X where inv: "loop_inv s X" using assms by (auto simp: event_loop_ok_def)
  have ok: "loop_ok {} s X" using inv by (simp add: loop_inv_def)
  have at: "x \<in> set (X l) \<Longrightarrow> \<exists>n. threads s x = Some n \<and> home (ttype n) = In l"
    "x \<in> set (nodes (queues s q)) \<Longrightarrow> \<exists>n. threads s x = Some n \<and> home (ttype n) = Queued q" for x l q
    using loop_okD(7,8) [OF ok] by auto
  have ll: "set (X l) \<inter> set (X k) = {}" if "l \<noteq> k" for l k
    using that loop_okD(7) [OF ok, of _ l] loop_okD(7) [OF ok, of _ k] by auto
  have lq: "set (X l) \<inter> set (nodes (queues s q)) = {}" for l q
    using at(1) [of _ l] at(2) [of _ q] by fastforce
  then have ql: "set (nodes (queues s q)) \<inter> set (X l) = {}" for l q by blast
  have qq: "set (nodes (queues s q)) \<inter> set (nodes (queues s p)) = {}" if "q \<noteq> p" for q p
    using that at(2) [of _ q] at(2) [of _ p] by fastforce
  let ?X = "\<lambda>l. set (X l)" and ?N = "\<lambda>q. set (nodes (queues s q))"
  note sep = Int_Un_distrib ll lq ql qq
  have "freed s {} s" by (simp add: freed_def restrict_map_def fun_eq_iff)
  from free_list_ok [OF inv this, of L_read] obtain a where a: "thread_list_free L_read s = Some a" "freed s (?X L_read) a" by auto
  from free_list_ok [OF inv a(2), of L_write] obtain b where
    b: "thread_list_free L_write a = Some b" "freed s (?X L_read \<union> ?X L_write) b" by (auto simp: sep)
  from free_queue_ok [OF inv b(2), of Q_timer] have c: "freed s (?X L_read \<union> ?X L_write \<union> ?N Q_timer) (thread_queue_free Q_timer b)"
    by (simp add: sep)
  from free_list_ok [OF inv c, of L_event] obtain d where d: "thread_list_free L_event (thread_queue_free Q_timer b) = Some d"
    "freed s (?X L_read \<union> ?X L_write \<union> ?N Q_timer \<union> ?X L_event) d" by (auto simp: sep)
  from free_list_ok [OF inv d(2), of L_event_normal] obtain e where e: "thread_list_free L_event_normal d = Some e"
    "freed s (?X L_read \<union> ?X L_write \<union> ?N Q_timer \<union> ?X L_event \<union> ?X L_event_normal) e" by (auto simp: sep)
  from free_list_ok [OF inv e(2), of L_ready] obtain f where f: "thread_list_free L_ready e = Some f"
    "freed s (?X L_read \<union> ?X L_write \<union> ?N Q_timer \<union> ?X L_event \<union> ?X L_event_normal \<union> ?X L_ready) f" by (auto simp: sep)
  let ?R = "?X L_read \<union> ?X L_write \<union> ?N Q_timer \<union> ?X L_event \<union> ?X L_event_normal \<union> ?X L_ready \<union> ?X L_unuse"
  from free_list_ok [OF inv f(2), of L_unuse] obtain g where g: "thread_list_free L_unuse f = Some g" "freed s ?R g"
    by (auto simp: sep)
  let ?g = "thread_queue_free Q_background g"
  from free_queue_ok [OF inv g(2), of Q_background] have h: "freed s (?R \<union> ?N Q_background) ?g" by (simp add: sep)
  have dm: "dom (threads s) = ?R \<union> ?N Q_background"
  proof (rule set_eqI)
    fix x
    show "x \<in> dom (threads s) \<longleftrightarrow> x \<in> ?R \<union> ?N Q_background"
    proof (cases "threads s x")
      case None
      then have "x \<notin> set (X l)" "x \<notin> set (nodes (queues s q))" for l q
        using loop_okD(7) [OF ok, of x l] loop_okD(8) [OF ok, of x q] by auto
      then show ?thesis using None by auto
    next
      case (Some n)
      have "ttype n \<noteq> THREAD_EXECUTE" using loop_okD(9) [OF ok Some] by (simp add: thread_ok_def)
      then show ?thesis using Some loop_okD(7,8) [OF ok] by (cases "ttype n") auto
    qed
  qed
  have "threads ?g = Map.empty" using h dm by (auto simp: freed_def restrict_map_def fun_eq_iff)
  moreover have "alloc ?g = 0" using h dm loop_okD(6) [OF ok] by (simp add: freed_def)
  ultimately show ?thesis using a(1) b(1) d(1) e(1) f(1) g(1) by (simp add: thread_master_free_def Let_def)
qed

theorem master_free_leaves_nothing_witness:
  "\<exists>s'. thread_master_free reader_and_event = Some s' \<and> threads s' = Map.empty \<and> alloc s' = 0"
  by (rule master_free_leaves_nothing [OF reader_and_event_ok])

end
