(* ===== verification/HashTable.thy ===== *)
theory HashTable
  imports Prelude
begin

text \<open>
  The chained hash table of \<open>lib/hash1.c\<close> that every daemon keeps its sessions in.  A
  doubly linked bucket chain is a list of nodes; a node carries its address, by which
  \<open>hios_hash_delete\<close> unlinks it.  The hash and compare callbacks are fields of the table,
  as in the source.  The locale \<open>keyed_store\<close> states what the clients rely on; its
  interpretations are in the theories of the tables' owners.
\<close>

section \<open>Data\<close>

abbreviation (input) HASHTAB_SIZE :: nat where "HASHTAB_SIZE \<equiv> 1024"

record ('k, 'd) hash_bucket =
  addr :: nat
  hashval :: u32
  hash_key :: 'k
  data :: 'd

record ('k, 'd) hash_table =
  buckets :: "('k, 'd) hash_bucket list list"
  hash_size :: u32
  num_entries :: u32
  compute_hash :: "'k \<Rightarrow> u32"
  compare :: "('k, 'd) hash_bucket \<Rightarrow> 'k \<Rightarrow> int"

section \<open>Operations\<close>

definition hios_hash_init ::
  "u32 \<Rightarrow> ('k \<Rightarrow> u32) \<Rightarrow> (('k, 'd) hash_bucket \<Rightarrow> 'k \<Rightarrow> int) \<Rightarrow> ('k, 'd) hash_table" where
  "hios_hash_init sz computef cmp =
     \<lparr>buckets = replicate HASHTAB_SIZE [], hash_size = sz, num_entries = 0,
      compute_hash = computef, compare = cmp\<rparr>"

definition hios_hash_num_entries :: "('k, 'd) hash_table \<Rightarrow> u32" where
  "hios_hash_num_entries tab = num_entries tab"

definition bucket_index :: "u32 \<Rightarrow> nat" where
  "bucket_index val = unat val mod HASHTAB_SIZE"

definition hios_hash_add ::
  "('k, 'd) hash_table \<Rightarrow> ('k, 'd) hash_bucket \<Rightarrow> int \<times> ('k, 'd) hash_table" where
  "hios_hash_add tab item =
     (if hash_size tab = num_entries tab then (-1, tab)
      else let v = compute_hash tab (hash_key item);
               item = item\<lparr>hashval := v\<rparr>;
               i = bucket_index v
           in (0, tab\<lparr>buckets := (buckets tab)[i := item # buckets tab ! i],
                      num_entries := num_entries tab + 1\<rparr>))"

text \<open>Unlinking the node at an address from a chain.\<close>

fun unlink :: "nat \<Rightarrow> ('k, 'd) hash_bucket list \<Rightarrow> ('k, 'd) hash_bucket list" where
  "unlink a [] = []"
| "unlink a (b # bs) = (if addr b = a then bs else b # unlink a bs)"

definition hios_hash_delete ::
  "('k, 'd) hash_table \<Rightarrow> ('k, 'd) hash_bucket \<Rightarrow> ('k, 'd) hash_table" where
  "hios_hash_delete tab item =
     (let i = bucket_index (hashval item)
      in tab\<lparr>buckets := (buckets tab)[i := unlink (addr item) (buckets tab ! i)],
             num_entries := num_entries tab - 1\<rparr>)"

definition hios_hash_find :: "('k, 'd) hash_table \<Rightarrow> 'k \<Rightarrow> ('k, 'd) hash_bucket option" where
  "hios_hash_find tab k =
     List.find (\<lambda>b. compare tab b k = 0) (buckets tab ! bucket_index (compute_hash tab k))"

text \<open>The nodes after a given node in its chain: \<open>b->next, b->next->next, ...\<close>.\<close>

fun chain_after :: "nat \<Rightarrow> ('k, 'd) hash_bucket list \<Rightarrow> ('k, 'd) hash_bucket list" where
  "chain_after a [] = []"
| "chain_after a (b # bs) = (if addr b = a then bs else chain_after a bs)"

definition hios_hash_find_next ::
  "('k, 'd) hash_table \<Rightarrow> ('k, 'd) hash_bucket \<Rightarrow> ('k, 'd) hash_bucket option" where
  "hios_hash_find_next tab item =
     List.find (\<lambda>b. compare tab item (hash_key b) = 0)
       (chain_after (addr item) (buckets tab ! bucket_index (hashval item)))"

text \<open>The head of the first non-empty chain of a list of chains.\<close>

fun first_head :: "('k, 'd) hash_bucket list list \<Rightarrow> ('k, 'd) hash_bucket option" where
  "first_head [] = None"
| "first_head ([] # bss) = first_head bss"
| "first_head ((b # bs) # bss) = Some b"

definition hios_hash_next_cursor ::
  "('k, 'd) hash_table \<Rightarrow> ('k, 'd) hash_bucket option \<Rightarrow> ('k, 'd) hash_bucket option" where
  "hios_hash_next_cursor tab ob =
     (case ob of
        None \<Rightarrow> None
      | Some b \<Rightarrow>
          let i = bucket_index (hashval b) in
          (case chain_after (addr b) (buckets tab ! i) of
             c # _ \<Rightarrow> Some c
           | [] \<Rightarrow> first_head (drop (Suc i) (buckets tab))))"

definition hios_hash_start ::
  "('k, 'd) hash_table \<Rightarrow> ('k, 'd) hash_bucket option \<times> ('k, 'd) hash_bucket option" where
  "hios_hash_start tab =
     (case first_head (buckets tab) of
        Some b \<Rightarrow> (Some b, hios_hash_next_cursor tab (Some b))
      | None \<Rightarrow> (None, None))"

definition hios_hash_next ::
  "('k, 'd) hash_table \<Rightarrow> ('k, 'd) hash_bucket option
     \<Rightarrow> ('k, 'd) hash_bucket option \<times> ('k, 'd) hash_bucket option" where
  "hios_hash_next tab cursor =
     (case cursor of
        None \<Rightarrow> (None, None)
      | Some b \<Rightarrow> (Some b, hios_hash_next_cursor tab (Some b)))"

text \<open>The nodes in the order of the macro \<open>HASH_BUCKET_LOOP\<close>.\<close>

definition hash_bucket_loop :: "('k, 'd) hash_table \<Rightarrow> ('k, 'd) hash_bucket list" where
  "hash_bucket_loop tab = concat (buckets tab)"

text \<open>
  \<open>hios_hash_string\<close>: the masks are those of a 32-bit \<open>int\<close>.  Whether a plain
  \<open>char\<close> is signed is up to the platform, so it is a parameter.
\<close>

definition HIGH_BITS :: u32 where
  "HIGH_BITS = NOT (drop_bit 4 (NOT 0))"

definition char_to_unsigned :: "bool \<Rightarrow> u8 \<Rightarrow> u32" where
  "char_to_unsigned char_signed c = (if char_signed then scast c else ucast c)"

fun hash_string_loop :: "bool \<Rightarrow> u32 \<Rightarrow> u8 list \<Rightarrow> u32" where
  "hash_string_loop sg h [] = h"
| "hash_string_loop sg h (c # cs) =
     (let h1 = push_bit 4 h + char_to_unsigned sg c;
          i = h1 AND HIGH_BITS;
          h2 = (if i \<noteq> 0 then (h1 XOR drop_bit 24 i) AND NOT HIGH_BITS else h1)
      in hash_string_loop sg h2 cs)"

definition hios_hash_string :: "bool \<Rightarrow> u8 list \<Rightarrow> u32" where
  "hios_hash_string sg str = hash_string_loop sg 0 (takeWhile (\<lambda>c. c \<noteq> 0) str)"

section \<open>Well-formed tables\<close>

text \<open>
  \<open>hash_wf valid tab\<close>: the chains are where the hash function sends them, the entry
  counter counts them and is within the limit, no two nodes share an address or a key, and
  the compare callback decides equality on valid keys.
\<close>

definition hash_wf :: "('k \<Rightarrow> bool) \<Rightarrow> ('k, 'd) hash_table \<Rightarrow> bool" where
  "hash_wf valid tab \<longleftrightarrow>
     length (buckets tab) = HASHTAB_SIZE \<and>
     (\<forall>i < HASHTAB_SIZE. \<forall>b \<in> set (buckets tab ! i).
        hashval b = compute_hash tab (hash_key b) \<and> bucket_index (hashval b) = i) \<and>
     distinct (map addr (hash_bucket_loop tab)) \<and>
     distinct (map hash_key (hash_bucket_loop tab)) \<and>
     unat (num_entries tab) = length (hash_bucket_loop tab) \<and>
     num_entries tab \<le> hash_size tab \<and>
     (\<forall>b k. compare tab b k = 0 \<longleftrightarrow> valid k \<and> hash_key b = k)"

subsection \<open>Unfolding well-formedness\<close>

lemma bucket_index_less [simp]: "bucket_index v < HASHTAB_SIZE"
  by (simp add: bucket_index_def)

lemma hash_wfI:
  assumes "length (buckets tab) = HASHTAB_SIZE"
    and "\<And>i b. i < HASHTAB_SIZE \<Longrightarrow> b \<in> set (buckets tab ! i)
      \<Longrightarrow> hashval b = compute_hash tab (hash_key b) \<and> bucket_index (hashval b) = i"
    and "distinct (map addr (hash_bucket_loop tab))"
    and "distinct (map hash_key (hash_bucket_loop tab))"
    and "unat (num_entries tab) = length (hash_bucket_loop tab)"
    and "num_entries tab \<le> hash_size tab"
    and "\<And>b k. compare tab b k = 0 \<longleftrightarrow> valid k \<and> hash_key b = k"
  shows "hash_wf valid tab"
  using assms unfolding hash_wf_def by blast

lemma hash_wf_length: "hash_wf valid tab \<Longrightarrow> length (buckets tab) = HASHTAB_SIZE"
  by (simp add: hash_wf_def)

lemma hash_wf_home:
  "hash_wf valid tab \<Longrightarrow> i < HASHTAB_SIZE \<Longrightarrow> b \<in> set (buckets tab ! i)
    \<Longrightarrow> hashval b = compute_hash tab (hash_key b) \<and> bucket_index (hashval b) = i"
  unfolding hash_wf_def by blast

lemma hash_wf_distinct:
  assumes "hash_wf valid tab"
  shows "distinct (map addr (concat (buckets tab)))" "distinct (map hash_key (concat (buckets tab)))"
  using assms by (simp_all add: hash_wf_def hash_bucket_loop_def)

lemma hash_wf_compare: "hash_wf valid tab \<Longrightarrow> compare tab b k = 0 \<longleftrightarrow> valid k \<and> hash_key b = k"
  by (simp add: hash_wf_def)

lemma hash_wf_loop_iff:
  assumes "hash_wf valid tab"
  shows "b \<in> set (hash_bucket_loop tab) \<longleftrightarrow>
    b \<in> set (buckets tab ! bucket_index (compute_hash tab (hash_key b)))"
proof
  assume "b \<in> set (hash_bucket_loop tab)"
  then obtain i where i: "i < HASHTAB_SIZE" "b \<in> set (buckets tab ! i)"
    using hash_wf_length [OF assms] unfolding hash_bucket_loop_def set_concat in_set_conv_nth [of _ "buckets tab"]
    by (metis UN_E in_set_conv_nth)
  with hash_wf_home [OF assms this] show "b \<in> set (buckets tab ! bucket_index (compute_hash tab (hash_key b)))"
    by metis
next
  assume "b \<in> set (buckets tab ! bucket_index (compute_hash tab (hash_key b)))"
  then show "b \<in> set (hash_bucket_loop tab)"
    using hash_wf_length [OF assms] bucket_index_less
    by (auto simp: hash_bucket_loop_def intro!: bexI nth_mem)
qed

text \<open>The client's view: the table as a map from keys to nodes.\<close>

lemma hios_hash_find_Some_iff:
  assumes "hash_wf valid tab"
  shows "hios_hash_find tab k = Some b \<longleftrightarrow>
    valid k \<and> b \<in> set (hash_bucket_loop tab) \<and> hash_key b = k"
proof
  assume "hios_hash_find tab k = Some b"
  then have "b \<in> set (buckets tab ! bucket_index (compute_hash tab k))" "compare tab b k = 0"
    by (auto simp: hios_hash_find_def find_Some_iff)
  then show "valid k \<and> b \<in> set (hash_bucket_loop tab) \<and> hash_key b = k"
    using hash_wf_compare [OF assms] hash_wf_loop_iff [OF assms, of b] by auto
next
  assume b: "valid k \<and> b \<in> set (hash_bucket_loop tab) \<and> hash_key b = k"
  then have inb: "b \<in> set (buckets tab ! bucket_index (compute_hash tab k))"
    using hash_wf_loop_iff [OF assms, of b] by auto
  then obtain b' where b': "hios_hash_find tab k = Some b'"
    using b hash_wf_compare [OF assms]
    by (cases "hios_hash_find tab k") (auto simp: hios_hash_find_def find_None_iff)
  then have "b' \<in> set (buckets tab ! bucket_index (compute_hash tab k))" "compare tab b' k = 0"
    by (auto simp: hios_hash_find_def find_Some_iff)
  then have "b' \<in> set (hash_bucket_loop tab)" "hash_key b' = k"
    using hash_wf_compare [OF assms] hash_wf_loop_iff [OF assms, of b'] by auto
  with b hash_wf_distinct(2) [OF assms] have "b' = b"
    by (auto simp: hash_bucket_loop_def distinct_map dest: inj_onD)
  with b' show "hios_hash_find tab k = Some b" by simp
qed

lemma hios_hash_find_None_iff:
  assumes "hash_wf valid tab"
  shows "hios_hash_find tab k = None \<longleftrightarrow>
    \<not> (valid k \<and> k \<in> hash_key ` set (hash_bucket_loop tab))"
  using hios_hash_find_Some_iff [OF assms, of k]
  by (cases "hios_hash_find tab k") (auto, metis imageI)

lemma hios_hash_init_wf:
  "(\<And>b k. cmp b k = 0 \<longleftrightarrow> valid k \<and> hash_key b = k) \<Longrightarrow> hash_wf valid (hios_hash_init sz computef cmp)"
  by (auto simp: hash_wf_def hios_hash_init_def hash_bucket_loop_def)

subsection \<open>Adding a node\<close>

definition hash_fresh :: "('k, 'd) hash_table \<Rightarrow> ('k, 'd) hash_bucket \<Rightarrow> bool" where
  "hash_fresh tab item \<longleftrightarrow>
     addr item \<notin> addr ` set (hash_bucket_loop tab) \<and>
     hash_key item \<notin> hash_key ` set (hash_bucket_loop tab)"

lemma hios_hash_add_loop:
  assumes "hash_wf valid tab" "hios_hash_add tab item = (0, tab')"
  defines "item' \<equiv> item\<lparr>hashval := compute_hash tab (hash_key item)\<rparr>"
  shows "\<exists>xs ys. hash_bucket_loop tab = xs @ ys \<and> hash_bucket_loop tab' = xs @ item' # ys"
proof -
  let ?i = "bucket_index (compute_hash tab (hash_key item))"
  have i: "?i < length (buckets tab)" using hash_wf_length [OF assms(1)] by simp
  from assms(2) have "buckets tab' = (buckets tab)[?i := item' # buckets tab ! ?i]"
    by (auto simp: hios_hash_add_def item'_def Let_def split: if_splits)
  then have "hash_bucket_loop tab' =
      concat (take ?i (buckets tab)) @ item' # buckets tab ! ?i @ concat (drop (Suc ?i) (buckets tab))"
    by (simp add: hash_bucket_loop_def concat_update_split [OF i])
  moreover have "hash_bucket_loop tab =
      concat (take ?i (buckets tab)) @ buckets tab ! ?i @ concat (drop (Suc ?i) (buckets tab))"
    by (simp add: hash_bucket_loop_def concat_split [OF i, symmetric])
  ultimately show ?thesis by blast
qed

lemma hios_hash_add_wf:
  assumes wf: "hash_wf valid tab" and add: "hios_hash_add tab item = (0, tab')" and fr: "hash_fresh tab item"
  shows "hash_wf valid tab'"
proof -
  let ?i = "bucket_index (compute_hash tab (hash_key item))"
  let ?item = "item\<lparr>hashval := compute_hash tab (hash_key item)\<rparr>"
  from add have t: "tab' = tab\<lparr>buckets := (buckets tab)[?i := ?item # buckets tab ! ?i],
      num_entries := num_entries tab + 1\<rparr>" and ne: "hash_size tab \<noteq> num_entries tab"
    by (auto simp: hios_hash_add_def Let_def split: if_splits)
  obtain xs ys where xy: "hash_bucket_loop tab = xs @ ys" "hash_bucket_loop tab' = xs @ ?item # ys"
    using hios_hash_add_loop [OF wf add] by blast
  have le: "num_entries tab < hash_size tab" using ne wf by (simp add: hash_wf_def order_less_le)
  show ?thesis
  proof (rule hash_wfI)
    show "length (buckets tab') = HASHTAB_SIZE" using hash_wf_length [OF wf] by (simp add: t)
    show "hashval b = compute_hash tab' (hash_key b) \<and> bucket_index (hashval b) = i"
      if "i < HASHTAB_SIZE" "b \<in> set (buckets tab' ! i)" for i b
      using that hash_wf_home [OF wf, of i b] hash_wf_length [OF wf]
      by (cases "i = ?i") (auto simp: t)
    show "distinct (map addr (hash_bucket_loop tab'))" "distinct (map hash_key (hash_bucket_loop tab'))"
      using wf fr unfolding hash_wf_def hash_fresh_def xy by auto
    show "unat (num_entries tab') = length (hash_bucket_loop tab')"
      using wf unat_plus1_less [OF le] xy by (simp add: hash_wf_def t)
    show "num_entries tab' \<le> hash_size tab'" using le by (simp add: inc_le t)
    show "compare tab' b k = 0 \<longleftrightarrow> valid k \<and> hash_key b = k" for b k
      using hash_wf_compare [OF wf] by (simp add: t)
  qed
qed

lemma hios_hash_add_find:
  assumes wf: "hash_wf valid tab" and add: "hios_hash_add tab item = (0, tab')" and fr: "hash_fresh tab item"
  shows "hios_hash_find tab' k =
    (if k = hash_key item \<and> valid k then Some (item\<lparr>hashval := compute_hash tab k\<rparr>)
     else hios_hash_find tab k)"
proof -
  let ?item = "item\<lparr>hashval := compute_hash tab (hash_key item)\<rparr>"
  obtain xs ys where xy: "hash_bucket_loop tab = xs @ ys" "hash_bucket_loop tab' = xs @ ?item # ys"
    using hios_hash_add_loop [OF wf add] by blast
  have wf': "hash_wf valid tab'" by (rule hios_hash_add_wf [OF wf add fr])
  have no: "hash_key b = hash_key item \<Longrightarrow> b \<notin> set xs \<union> set ys" for b
    using fr unfolding hash_fresh_def xy by (metis image_eqI set_append)
  have key: "hios_hash_find tab' k = Some b \<longleftrightarrow>
      (if k = hash_key item \<and> valid k then b = ?item else hios_hash_find tab k = Some b)" for b
    using no [of b] unfolding hios_hash_find_Some_iff [OF wf'] hios_hash_find_Some_iff [OF wf] xy
    by auto
  show ?thesis by (rule option_eqI) (use key in auto)
qed

lemma hios_hash_add_full:
  "hash_size tab = num_entries tab \<Longrightarrow> hios_hash_add tab item = (-1, tab)"
  by (simp add: hios_hash_add_def)

subsection \<open>Deleting a node\<close>

lemma unlink_split:
  "distinct (map addr bs) \<Longrightarrow> b \<in> set bs \<Longrightarrow> \<exists>xs ys. bs = xs @ b # ys \<and> unlink (addr b) bs = xs @ ys"
proof (induction bs)
  case Nil
  then show ?case by simp
next
  case (Cons c bs)
  show ?case
  proof (cases "addr c = addr b")
    case True
    with Cons.prems have "c = b" by (auto simp: image_iff)
    then show ?thesis by (intro exI [of _ "[]"] exI [of _ bs]) simp
  next
    case False
    with Cons.prems have "b \<in> set bs" by auto
    with Cons obtain xs ys where "bs = xs @ b # ys" "unlink (addr b) bs = xs @ ys" by auto
    with False show ?thesis by (intro exI [of _ "c # xs"] exI [of _ ys]) simp
  qed
qed

lemma hios_hash_delete_loop:
  assumes wf: "hash_wf valid tab" and b: "b \<in> set (hash_bucket_loop tab)"
  shows "\<exists>xs ys. hash_bucket_loop tab = xs @ b # ys \<and>
    hash_bucket_loop (hios_hash_delete tab b) = xs @ ys"
proof -
  let ?i = "bucket_index (hashval b)"
  have i: "?i < length (buckets tab)" using hash_wf_length [OF wf] by simp
  have eq: "hash_bucket_loop tab =
      concat (take ?i (buckets tab)) @ buckets tab ! ?i @ concat (drop (Suc ?i) (buckets tab))"
    by (simp add: hash_bucket_loop_def concat_split [OF i, symmetric])
  have "b \<in> set (buckets tab ! bucket_index (compute_hash tab (hash_key b)))"
    using b hash_wf_loop_iff [OF wf] by simp
  then have bi: "b \<in> set (buckets tab ! ?i)"
    using hash_wf_home [OF wf] by (metis bucket_index_less)
  have "distinct (map addr (buckets tab ! ?i))"
    using hash_wf_distinct(1) [OF wf] unfolding eq [unfolded hash_bucket_loop_def] by simp
  from unlink_split [OF this bi] obtain xs ys
    where "buckets tab ! ?i = xs @ b # ys" "unlink (addr b) (buckets tab ! ?i) = xs @ ys" by blast
  with eq show ?thesis
    by (intro exI [of _ "concat (take ?i (buckets tab)) @ xs"]
        exI [of _ "ys @ concat (drop (Suc ?i) (buckets tab))"])
      (simp add: hios_hash_delete_def Let_def hash_bucket_loop_def concat_update_split [OF i])
qed

lemma set_unlink: "set (unlink a bs) \<subseteq> set bs"
  by (induction bs) auto

lemma hios_hash_delete_wf:
  assumes wf: "hash_wf valid tab" and b: "b \<in> set (hash_bucket_loop tab)"
  shows "hash_wf valid (hios_hash_delete tab b)"
proof -
  let ?i = "bucket_index (hashval b)" and ?t = "hios_hash_delete tab b"
  obtain xs ys where xy: "hash_bucket_loop tab = xs @ b # ys" "hash_bucket_loop ?t = xs @ ys"
    using hios_hash_delete_loop [OF assms] by blast
  have n: "unat (num_entries tab) = Suc (length xs + length ys)"
    using wf xy by (simp add: hash_wf_def)
  have t: "?t = tab\<lparr>buckets := (buckets tab)[?i := unlink (addr b) (buckets tab ! ?i)],
      num_entries := num_entries tab - 1\<rparr>"
    by (simp add: hios_hash_delete_def Let_def)
  have n': "unat (num_entries tab - 1) = length xs + length ys"
    using n by (simp add: unat_minus1)
  show ?thesis
  proof (rule hash_wfI)
    show "length (buckets ?t) = HASHTAB_SIZE" using hash_wf_length [OF wf] by (simp add: t)
    show "hashval c = compute_hash ?t (hash_key c) \<and> bucket_index (hashval c) = i"
      if "i < HASHTAB_SIZE" "c \<in> set (buckets ?t ! i)" for i c
      using that hash_wf_home [OF wf, of i c] hash_wf_length [OF wf] set_unlink
      by (cases "i = ?i") (auto simp: t)
    show "distinct (map addr (hash_bucket_loop ?t))" "distinct (map hash_key (hash_bucket_loop ?t))"
      using hash_wf_distinct [OF wf] unfolding xy(1) [unfolded hash_bucket_loop_def] xy(2) by auto
    show "unat (num_entries ?t) = length (hash_bucket_loop ?t)"
      unfolding xy using n' by (simp add: t)
    have "unat (num_entries tab) \<le> unat (hash_size tab)"
      using wf by (simp add: hash_wf_def word_le_nat_alt)
    then show "num_entries ?t \<le> hash_size ?t"
      using n n' by (simp add: t word_le_nat_alt)
    show "compare ?t c k = 0 \<longleftrightarrow> valid k \<and> hash_key c = k" for c k
      using hash_wf_compare [OF wf] by (simp add: t)
  qed
qed

lemma hios_hash_delete_find:
  assumes wf: "hash_wf valid tab" and b: "b \<in> set (hash_bucket_loop tab)"
  shows "hios_hash_find (hios_hash_delete tab b) k =
    (if k = hash_key b then None else hios_hash_find tab k)"
proof -
  obtain xs ys where xy: "hash_bucket_loop tab = xs @ b # ys"
      "hash_bucket_loop (hios_hash_delete tab b) = xs @ ys"
    using hios_hash_delete_loop [OF assms] by blast
  have wf': "hash_wf valid (hios_hash_delete tab b)" by (rule hios_hash_delete_wf [OF assms])
  have "hash_key b \<notin> hash_key ` (set xs \<union> set ys)"
    using hash_wf_distinct(2) [OF wf] unfolding xy(1) [unfolded hash_bucket_loop_def] by auto
  then have nb: "hash_key c = hash_key b \<Longrightarrow> c \<notin> set xs \<union> set ys" for c
    by (metis imageI)
  show ?thesis
  proof (rule option_eqI)
    show "hios_hash_find (hios_hash_delete tab b) k = Some c \<longleftrightarrow>
      (if k = hash_key b then None else hios_hash_find tab k) = Some c" for c
      using nb [of c] unfolding hios_hash_find_Some_iff [OF wf']
      by (auto simp: hios_hash_find_Some_iff [OF wf] xy)
  qed
qed

section \<open>Iteration\<close>

text \<open>
  The cursor functions visit the nodes in the order of \<open>HASH_BUCKET_LOOP\<close>, each once.
  \<open>hash_walk\<close> is the client's loop \<open>for (b = start(&c); b; b = next(&c))\<close>; its
  fuel bounds the number of nodes it may visit.
\<close>

fun hash_walk :: "nat \<Rightarrow> ('k, 'd) hash_table \<Rightarrow> ('k, 'd) hash_bucket option
    \<Rightarrow> ('k, 'd) hash_bucket option \<Rightarrow> ('k, 'd) hash_bucket list option" where
  "hash_walk n tab None cur = Some []"
| "hash_walk 0 tab (Some b) cur = None"
| "hash_walk (Suc n) tab (Some b) cur =
     (case hios_hash_next tab cur of (ob, cur') \<Rightarrow> map_option ((#) b) (hash_walk n tab ob cur'))"

definition hash_iterate :: "nat \<Rightarrow> ('k, 'd) hash_table \<Rightarrow> ('k, 'd) hash_bucket list option" where
  "hash_iterate n tab = (case hios_hash_start tab of (ob, cur) \<Rightarrow> hash_walk n tab ob cur)"

definition head_of :: "'a list \<Rightarrow> 'a option" where
  "head_of xs = (case xs of [] \<Rightarrow> None | x # _ \<Rightarrow> Some x)"

lemma head_of_simps [simp]: "head_of [] = None" "head_of (x # xs) = Some x"
  by (simp_all add: head_of_def)

lemma first_head_concat: "first_head bss = head_of (concat bss)"
  by (induction bss rule: first_head.induct) auto

lemma chain_after_split:
  "distinct (map addr (xs @ b # ys)) \<Longrightarrow> chain_after (addr b) (xs @ b # ys) = ys"
  by (induction xs) auto

lemma hios_hash_next_cursor_step:
  assumes wf: "hash_wf valid tab" and split: "hash_bucket_loop tab = xs @ b # ys"
  shows "hios_hash_next_cursor tab (Some b) = head_of ys"
proof -
  let ?i = "bucket_index (hashval b)"
  have i: "?i < length (buckets tab)" using hash_wf_length [OF wf] by simp
  have "b \<in> set (hash_bucket_loop tab)" using split by simp
  then have "b \<in> set (buckets tab ! bucket_index (compute_hash tab (hash_key b)))"
    using hash_wf_loop_iff [OF wf] by simp
  then have "b \<in> set (buckets tab ! ?i)"
    using hash_wf_home [OF wf] by (metis bucket_index_less)
  then obtain us vs where uv: "buckets tab ! ?i = us @ b # vs" by (meson split_list)
  let ?pre = "concat (take ?i (buckets tab))" and ?post = "concat (drop (Suc ?i) (buckets tab))"
  have eq: "hash_bucket_loop tab = (?pre @ us) @ b # (vs @ ?post)"
    using concat_split [OF i] by (simp add: hash_bucket_loop_def uv)
  have d: "distinct (map addr (xs @ b # ys))"
    using hash_wf_distinct(1) [OF wf] split by (simp add: hash_bucket_loop_def)
  have ys: "ys = vs @ ?post"
    using distinct_append_cancel [OF d] eq split by simp
  have "distinct (map addr (us @ b # vs))"
    using d split eq by (metis append_assoc append_Cons distinct_append map_append)
  then have "chain_after (addr b) (buckets tab ! ?i) = vs"
    by (simp only: uv chain_after_split)
  then show ?thesis
    by (simp add: hios_hash_next_cursor_def Let_def first_head_concat ys split: list.split)
qed

lemma hash_walk_suffix:
  assumes wf: "hash_wf valid tab"
  shows "hash_bucket_loop tab = xs @ ys \<Longrightarrow> length ys \<le> n
    \<Longrightarrow> hash_walk n tab (head_of ys) (Option.bind (head_of ys) (\<lambda>b. hios_hash_next_cursor tab (Some b))) = Some ys"
proof (induction n arbitrary: xs ys)
  case 0
  then show ?case by simp
next
  case (Suc n)
  show ?case
  proof (cases ys)
    case Nil
    then show ?thesis by simp
  next
    case (Cons b zs)
    with Suc.prems have "hash_bucket_loop tab = (xs @ [b]) @ zs" "length zs \<le> n" by auto
    from Suc.IH [OF this] have
      "hash_walk n tab (head_of zs) (Option.bind (head_of zs) (\<lambda>b. hios_hash_next_cursor tab (Some b))) = Some zs" .
    moreover have "hios_hash_next_cursor tab (Some b) = head_of zs"
      using hios_hash_next_cursor_step [OF wf] Suc.prems(1) Cons by simp
    ultimately show ?thesis
      by (simp add: Cons hios_hash_next_def split: option.split) (cases "head_of zs"; simp)
  qed
qed

section \<open>The interface the owners of tables rely on\<close>

locale keyed_store =
  fixes inv :: "'t \<Rightarrow> bool"
    and find :: "'t \<Rightarrow> 'k \<Rightarrow> 'i option"
    and add :: "'t \<Rightarrow> 'i \<Rightarrow> int \<times> 't"
    and del :: "'t \<Rightarrow> 'i \<Rightarrow> 't"
    and items :: "'t \<Rightarrow> 'i list"
    and key :: "'i \<Rightarrow> 'k"
    and fresh :: "'t \<Rightarrow> 'i \<Rightarrow> bool"
    and stored :: "'t \<Rightarrow> 'i \<Rightarrow> 'i"
    and valid :: "'k \<Rightarrow> bool"
  assumes find_iff: "inv t \<Longrightarrow> find t k = Some i \<longleftrightarrow> valid k \<and> i \<in> set (items t) \<and> key i = k"
    and add_inv: "inv t \<Longrightarrow> fresh t i \<Longrightarrow> add t i = (0, t') \<Longrightarrow> inv t'"
    and add_find: "inv t \<Longrightarrow> fresh t i \<Longrightarrow> add t i = (0, t') \<Longrightarrow>
      find t' k = (if k = key i \<and> valid k then Some (stored t i) else find t k)"
    and del_inv: "inv t \<Longrightarrow> i \<in> set (items t) \<Longrightarrow> inv (del t i)"
    and del_find: "inv t \<Longrightarrow> i \<in> set (items t) \<Longrightarrow>
      find (del t i) k = (if k = key i then None else find t k)"
    and stored_key: "key (stored t i) = key i"
begin

lemma found_in: "inv t \<Longrightarrow> find t k = Some i \<Longrightarrow> i \<in> set (items t) \<and> key i = k \<and> valid k"
  by (simp add: find_iff)

lemma del_found:
  assumes "inv t" "find t k = Some i"
  shows "inv (del t i)" "find (del t i) k = None" "k' \<noteq> k \<Longrightarrow> find (del t i) k' = find t k'"
  using found_in [OF assms] assms(1) by (simp_all add: del_inv del_find)

lemma add_then_del:
  assumes "inv t" "fresh t i" "add t i = (0, t')" "valid (key i)" "find t (key i) = None"
  shows "find (del t' (stored t i)) k = find t k"
proof -
  have inv': "inv t'" by (rule add_inv [OF assms(1-3)])
  have "find t' (key i) = Some (stored t i)" using add_find [OF assms(1-3)] assms(4) by simp
  from found_in [OF inv' this] del_find [OF inv'] show ?thesis
    using add_find [OF assms(1-3), of k] assms(5) by (auto simp: stored_key)
qed

end

interpretation hash: keyed_store "hash_wf valid" hios_hash_find hios_hash_add hios_hash_delete
    hash_bucket_loop hash_key hash_fresh
    "\<lambda>t i. i\<lparr>hashval := compute_hash t (hash_key i)\<rparr>" valid
  for valid :: "'k \<Rightarrow> bool"
proof
  show "hash_wf valid t \<Longrightarrow> hios_hash_find t k = Some i \<longleftrightarrow>
      valid k \<and> i \<in> set (hash_bucket_loop t) \<and> hash_key i = k" for t k i
    by (rule hios_hash_find_Some_iff)
  show "hash_wf valid t \<Longrightarrow> hash_fresh t i \<Longrightarrow> hios_hash_add t i = (0, t') \<Longrightarrow>
      hios_hash_find t' k = (if k = hash_key i \<and> valid k
        then Some (i\<lparr>hashval := compute_hash t (hash_key i)\<rparr>) else hios_hash_find t k)" for t i t' k
    using hios_hash_add_find [of valid t i t' k] by (cases "k = hash_key i") auto
qed (simp_all add: hios_hash_add_wf hios_hash_delete_wf hios_hash_delete_find)

section \<open>The string hash\<close>

lemma high_bits_clear:
  assumes "x AND HIGH_BITS = 0" shows "x < 0x10000000"
proof -
  have "x = take_bit 28 x"
  proof (rule bit_word_eqI)
    fix n :: nat
    assume "n < LENGTH(32)"
    have "\<not> bit x n" if "28 \<le> n" "n < 32"
    proof -
      have "bit (HIGH_BITS) n"
        using that by (auto simp: HIGH_BITS_def bit_not_iff bit_drop_bit_eq bit_mask_iff not_less dest: bit_imp_le_length)
      moreover have "\<not> bit (x AND HIGH_BITS) n" by (simp add: assms)
      ultimately show ?thesis by (simp add: bit_and_iff)
    qed
    with \<open>n < LENGTH(32)\<close> show "bit x n = bit (take_bit 28 x) n"
      by (cases "28 \<le> n") (auto simp: bit_take_bit_iff)
  qed
  then have "unat x = take_bit 28 (unat x)" by (metis unsigned_take_bit_eq)
  also have "\<dots> < 2 ^ 28" by (rule take_bit_nat_less_exp)
  finally show ?thesis by (simp add: word_less_nat_alt)
qed

lemma hash_string_loop_bound: "h < 0x10000000 \<Longrightarrow> hash_string_loop sg h cs < 0x10000000"
proof (induction sg h cs rule: hash_string_loop.induct)
  case (2 sg h c cs)
  let ?h1 = "push_bit 4 h + char_to_unsigned sg c"
  let ?h2 = "if ?h1 AND HIGH_BITS \<noteq> 0
    then (?h1 XOR drop_bit 24 (?h1 AND HIGH_BITS)) AND NOT HIGH_BITS else ?h1"
  have "?h2 AND HIGH_BITS = 0" by (simp add: and.assoc)
  then have "?h2 < 0x10000000" by (rule high_bits_clear)
  with 2 show ?case by (simp add: Let_def)
qed simp


section \<open>Properties\<close>

text \<open>A table of two numbers with one entry, for the witnesses.\<close>

definition number_compare :: "(u32, unit) hash_bucket \<Rightarrow> u32 \<Rightarrow> int" where
  "number_compare b k = (if hash_key b = k then 0 else 1)"

definition number_node :: "nat \<Rightarrow> u32 \<Rightarrow> (u32, unit) hash_bucket" where
  "number_node a k = \<lparr>addr = a, hashval = 0, hash_key = k, data = ()\<rparr>"

definition number_table :: "(u32, unit) hash_table" where
  "number_table = hios_hash_init 2 (\<lambda>k. k) number_compare"

lemma number_table_wf: "hash_wf (\<lambda>_. True) number_table"
  unfolding number_table_def by (rule hios_hash_init_wf) (simp add: number_compare_def)

lemma number_table_loop [simp]: "hash_bucket_loop number_table = []"
  by (simp add: number_table_def hios_hash_init_def hash_bucket_loop_def)

lemma number_table_add: "\<exists>t. hios_hash_add number_table (number_node 1 7) = (0, t)"
  by (simp add: hios_hash_add_def Let_def number_table_def hios_hash_init_def)

lemma number_node_fresh: "hash_fresh number_table (number_node a k)"
  by (simp add: hash_fresh_def)

text \<open>
  on a well-formed table the cursor iteration (\<open>hios_hash_start\<close> followed by
  \<open>hios_hash_next\<close> until NULL) ends after visiting exactly the nodes that the macro
  \<open>HASH_BUCKET_LOOP\<close> visits, in the same order, each once.
\<close>

theorem hash_iterate_loop:
  "hash_wf valid tab \<Longrightarrow> length (hash_bucket_loop tab) \<le> n
    \<Longrightarrow> hash_iterate n tab = Some (hash_bucket_loop tab)"
  using hash_walk_suffix [of valid tab "[]" "hash_bucket_loop tab" n]
  by (cases "head_of (hash_bucket_loop tab)")
    (simp_all add: hash_iterate_def hios_hash_start_def first_head_concat hash_bucket_loop_def)

theorem hash_iterate_loop_witness:
  "\<exists>t. hios_hash_add number_table (number_node 1 7) = (0, t) \<and> hash_iterate 1 t = Some (hash_bucket_loop t)"
proof -
  obtain t where t: "hios_hash_add number_table (number_node 1 7) = (0, t)" using number_table_add by blast
  have wf: "hash_wf (\<lambda>_. True) t" by (rule hios_hash_add_wf [OF number_table_wf t number_node_fresh])
  have "length (hash_bucket_loop t) \<le> 1"
    using hios_hash_add_loop [OF number_table_wf t] by auto
  from hash_iterate_loop [OF wf this] t show ?thesis by blast
qed

text \<open>
  C37: the table is a map.  Adding a fresh node to a table with room succeeds and makes
  exactly its key findable; deleting a found node makes exactly its key unfindable; adding
  a node and deleting it again restores every lookup; a full table refuses and is unchanged.
\<close>

theorem hash_table_is_map:
  assumes wf: "hash_wf valid tab" and fr: "hash_fresh tab item" and v: "valid (hash_key item)"
  shows "if num_entries tab = hash_size tab then hios_hash_add tab item = (-1, tab)
    else \<exists>tab' node. hios_hash_add tab item = (0, tab') \<and> hash_wf valid tab' \<and>
      hash_key node = hash_key item \<and> data node = data item \<and>
      hios_hash_find tab' = (hios_hash_find tab)(hash_key item \<mapsto> node) \<and>
      hash_wf valid (hios_hash_delete tab' node) \<and>
      hios_hash_find (hios_hash_delete tab' node) = hios_hash_find tab \<and>
      unat (hios_hash_num_entries tab') = Suc (unat (hios_hash_num_entries tab))"
proof (cases "num_entries tab = hash_size tab")
  case True
  then show ?thesis by (simp add: hios_hash_add_full)
next
  case False
  then obtain tab' where add: "hios_hash_add tab item = (0, tab')"
    by (auto simp: hios_hash_add_def Let_def)
  let ?node = "item\<lparr>hashval := compute_hash tab (hash_key item)\<rparr>"
  have none: "hios_hash_find tab (hash_key item) = None"
    using fr by (simp add: hios_hash_find_None_iff [OF wf] hash_fresh_def)
  have find: "hios_hash_find tab' = (hios_hash_find tab)(hash_key item \<mapsto> ?node)"
    using hash.add_find [OF wf fr add] v by auto
  have wf': "hash_wf valid tab'" by (rule hash.add_inv [OF wf fr add])
  have "?node \<in> set (hash_bucket_loop tab')"
    using find hash.found_in [OF wf', of "hash_key item" ?node] by simp
  note del = hash.del_inv [OF wf' this]
  have "hios_hash_find (hios_hash_delete tab' ?node) = hios_hash_find tab"
    using hash.add_then_del [OF wf fr add v none] by (intro ext) simp
  moreover have "unat (num_entries tab') = Suc (unat (num_entries tab))"
    using hios_hash_add_loop [OF wf add] wf wf' by (auto simp: hash_wf_def)
  ultimately show ?thesis
    using False add wf' find del
    by (simp add: hios_hash_num_entries_def) (intro exI [of _ ?node], simp)
qed

theorem hash_table_is_map_witness:
  "if num_entries number_table = hash_size number_table
   then hios_hash_add number_table (number_node 1 7) = (-1, number_table)
   else \<exists>tab' node. hios_hash_add number_table (number_node 1 7) = (0, tab') \<and>
      hios_hash_find tab' = (hios_hash_find number_table)(7 \<mapsto> node)"
  using hash_table_is_map [OF number_table_wf number_node_fresh, of 1 7]
  by (auto simp: number_node_def split: if_splits)

text \<open>
  Whatever the signedness of a plain \<open>char\<close>, the hash of a string has its top four bits
  clear, for every string and also before the reduction to a bucket number.
\<close>

theorem hash_string_top_bits_clear: "hios_hash_string sg str < 0x10000000"
  unfolding hios_hash_string_def by (rule hash_string_loop_bound) simp

end
