(* ===== verification/IndexPool.thy ===== *)
theory IndexPool
  imports Prelude
begin

text \<open>
  The index pools of \<open>lib/index.c\<close>: a bitmap per index type, where bit \<open>1\<close> means free,
  searched from the top bit of each word.  TCP ports are handed out round robin through a
  cursor, every other type lowest first.  A result of \<open>None\<close> is a call without a defined
  result: an access outside \<open>index_pool\<close> or outside a bitmap, or a search that never
  returns.  The locale \<open>id_allocator\<close> states the contract of an identifier pool.
\<close>

section \<open>Bitmaps\<close>

text \<open>Position \<open>n\<close> is bit \<open>0x80000000 >> (n % 32)\<close> of word \<open>n / 32\<close>.\<close>

definition bm_test :: "u32 list \<Rightarrow> nat \<Rightarrow> bool" where
  "bm_test bm n \<longleftrightarrow> bm ! (n div 32) AND top_bit (n mod 32) \<noteq> 0"

definition bm_clear :: "u32 list \<Rightarrow> nat \<Rightarrow> u32 list" where
  "bm_clear bm n = bm[n div 32 := bm ! (n div 32) AND NOT (top_bit (n mod 32))]"

definition bm_set :: "u32 list \<Rightarrow> nat \<Rightarrow> u32 list" where
  "bm_set bm n = bm[n div 32 := bm ! (n div 32) OR top_bit (n mod 32)]"

definition bm_used :: "u32 list \<Rightarrow> nat set" where
  "bm_used bm = {n. n < 32 * length bm \<and> \<not> bm_test bm n}"

lemma bm_test_bit: "bm_test bm n \<longleftrightarrow> bit (bm ! (n div 32)) (31 - n mod 32)"
  by (simp add: bm_test_def and_top_bit_iff)

lemma length_bm [simp]: "length (bm_clear bm n) = length bm" "length (bm_set bm n) = length bm"
  by (simp_all add: bm_clear_def bm_set_def)

lemma same_bit_pos:
  fixes m n :: nat
  assumes "m div 32 = n div 32" "31 - m mod 32 = 31 - n mod 32" shows "m = n"
proof -
  have "m mod 32 = n mod 32"
    using assms(2) mod_less_divisor [of 32 m] mod_less_divisor [of 32 n] by linarith
  with assms(1) show ?thesis by (metis div_mult_mod_eq)
qed

lemma top_bit_at: "bit (top_bit (n mod 32)) (31 - m mod 32) \<longleftrightarrow> m mod 32 = n mod 32"
proof -
  have "m mod 32 < 32" "n mod 32 < 32" by simp_all
  then show ?thesis unfolding bit_top_bit by linarith
qed

lemma bm_test_clear:
  assumes "n < 32 * length bm"
  shows "bm_test (bm_clear bm n) m \<longleftrightarrow> bm_test bm m \<and> m \<noteq> n"
proof (cases "m div 32 = n div 32")
  case True
  have "n div 32 < length bm" using assms by linarith
  moreover have "31 - m mod 32 < 32" by simp
  ultimately show ?thesis
    using True top_bit_at [of n m] same_bit_pos [of m n]
    by (auto simp: bm_test_bit bm_clear_def bit_and_iff bit_not_iff)
qed (auto simp: bm_test_def bm_clear_def)

lemma bm_test_set:
  assumes "n < 32 * length bm"
  shows "bm_test (bm_set bm n) m \<longleftrightarrow> bm_test bm m \<or> m = n"
proof (cases "m div 32 = n div 32")
  case True
  have "n div 32 < length bm" using assms by linarith
  then show ?thesis
    using True top_bit_at [of n m] same_bit_pos [of m n]
    by (auto simp: bm_test_bit bm_set_def bit_or_iff)
qed (auto simp: bm_test_def bm_set_def)

lemma bm_used_clear: "n < 32 * length bm \<Longrightarrow> bm_used (bm_clear bm n) = insert n (bm_used bm)"
  by (auto simp: bm_used_def bm_test_clear)

lemma bm_used_set: "n < 32 * length bm \<Longrightarrow> bm_used (bm_set bm n) = bm_used bm - {n}"
  by (auto simp: bm_used_def bm_test_set)

lemma finite_bm_used [simp]: "finite (bm_used bm)"
  by (simp add: bm_used_def)

lemma bm_test_full: "n < 32 * m \<Longrightarrow> bm_test (replicate m (- 1)) n"
  by (simp add: bm_test_bit bit_minus_1_iff less_mult_imp_div_less mult.commute)

lemma bm_used_full [simp]: "bm_used (replicate m (- 1)) = {}"
  by (auto simp: bm_used_def bm_test_full)

text \<open>A word is non-zero exactly when one of its positions is free.\<close>

lemma word_zero_iff:
  assumes "i < length bm"
  shows "bm ! i = 0 \<longleftrightarrow> (\<forall>j < 32. \<not> bm_test bm (i * 32 + j))"
proof
  assume z: "\<forall>j < 32. \<not> bm_test bm (i * 32 + j)"
  show "bm ! i = 0"
  proof (rule bit_word_eqI)
    fix n :: nat
    assume "n < LENGTH(32)"
    then obtain j where j: "j < 32" "31 - j = n" by (intro that [of "31 - n"]) auto
    with z have "\<not> bm_test bm (i * 32 + j)" by simp
    then show "bit (bm ! i) n = bit 0 n" using j by (simp add: bm_test_bit)
  qed
qed (simp add: bm_test_def)

section \<open>Data\<close>

record index_bitmap =
  pbitmap :: "u32 list"
  index_size :: u32
  index_num :: u32
  bitmap_size :: u32
  cur_index_i :: u32
  cur_index_j :: u32

abbreviation (input) INDEX_TYPE_NUM :: nat where "INDEX_TYPE_NUM \<equiv> 19"
abbreviation (input) INDEX_TYPE_TCP_PORT :: u8 where "INDEX_TYPE_TCP_PORT \<equiv> 1"
abbreviation (input) INDEX_TYPE_DXC :: u8 where "INDEX_TYPE_DXC \<equiv> 19"

definition empty_pool :: index_bitmap where
  "empty_pool = \<lparr>pbitmap = [], index_size = 0, index_num = 0, bitmap_size = 0,
     cur_index_i = 0, cur_index_j = 0\<rparr>"

definition index_pool_static :: "index_bitmap list" where
  "index_pool_static = replicate INDEX_TYPE_NUM empty_pool"

section \<open>Operations on one pool\<close>

text \<open>\<open>index_get\<close>: take a given index.\<close>

definition pool_get :: "index_bitmap \<Rightarrow> u32 \<Rightarrow> (int \<times> index_bitmap) option" where
  "pool_get p index =
     (if index \<ge> index_size p then Some (1, p)
      else let n = unat index in
        if n div 32 \<ge> length (pbitmap p) then None
        else if bm_test (pbitmap p) n
        then Some (0, p\<lparr>pbitmap := bm_clear (pbitmap p) n, index_num := index_num p + 1\<rparr>)
        else Some (1, p))"

definition pool_register :: "bool \<Rightarrow> u32 \<Rightarrow> index_bitmap option" where
  "pool_register tcp sz =
     (let sz = (if \<not> tcp then sz + 1 else sz);
          num = sz div 32;
          num = (if sz mod 32 \<noteq> 0 then num + 1 else num);
          num = num * 4;
          p = \<lparr>pbitmap = replicate (unat num div 4) (- 1), index_size = sz, index_num = 0,
               bitmap_size = num div 4, cur_index_i = 0, cur_index_j = 0\<rparr>
      in map_option snd (pool_get p 0))"

text \<open>\<open>index_free\<close>.\<close>

definition pool_free :: "index_bitmap \<Rightarrow> u32 \<Rightarrow> (int \<times> index_bitmap) option" where
  "pool_free p index =
     (if index > index_size p \<or> index = 0 then Some (1, p)
      else let n = unat index in
        if n div 32 \<ge> length (pbitmap p) then None
        else if \<not> bm_test (pbitmap p) n
        then Some (0, p\<lparr>pbitmap := bm_set (pbitmap p) n, index_num := index_num p - 1\<rparr>)
        else Some (1, p))"

text \<open>
  The two nested loops of \<open>index_alloc\<close>.  The inner loop runs \<open>j\<close> up to the first set bit
  of \<open>*pbitmap\<close> whose number is not \<open>0\<close>; \<open>j\<close> is not reset for the next word, and
  \<open>pbitmap\<close> (here the position \<open>q\<close>) only moves over words that are \<open>0\<close>.
\<close>

datatype scan_result = Found nat nat nat | Oversize | Exhausted

definition scan_num :: "nat \<Rightarrow> nat \<Rightarrow> u32" where
  "scan_num i j = of_nat i * 32 + of_nat j"

definition scan_word :: "u32 \<Rightarrow> nat \<Rightarrow> nat \<Rightarrow> nat option" where
  "scan_word w i j = List.find (\<lambda>j. w AND top_bit j \<noteq> 0 \<and> scan_num i j \<noteq> 0) [j..<32]"

function scan :: "index_bitmap \<Rightarrow> nat \<Rightarrow> nat \<Rightarrow> nat \<Rightarrow> scan_result" where
  "scan p q i j =
     (if i \<ge> unat (bitmap_size p) then Exhausted
      else if pbitmap p ! q = 0 then scan p (Suc q) (Suc i) j
      else case scan_word (pbitmap p ! q) i j of
          None \<Rightarrow> scan p q (Suc i) 32
        | Some j' \<Rightarrow> if scan_num i j' > index_size p then Oversize else Found q i j')"
  by pat_completeness auto
termination by (relation "measure (\<lambda>(p, q, i, j). unat (bitmap_size p) - i)") auto

declare scan.simps [simp del]

text \<open>Taking the position found and, for TCP ports, moving the cursor behind it.\<close>

definition take_found :: "bool \<Rightarrow> index_bitmap \<Rightarrow> nat \<Rightarrow> nat \<Rightarrow> nat \<Rightarrow> u32 \<times> index_bitmap" where
  "take_found tcp p q i j =
     (let p = p\<lparr>index_num := index_num p + 1, pbitmap := bm_clear (pbitmap p) (q * 32 + j)\<rparr>;
          p = (if tcp then
                 if j + 1 \<ge> 32 then
                   let i' = of_nat i + 1; i' = (if i' > bitmap_size p then 0 else i')
                   in p\<lparr>cur_index_i := i', cur_index_j := 0\<rparr>
                 else p\<lparr>cur_index_i := of_nat i, cur_index_j := of_nat j + 1\<rparr>
               else p)
      in (scan_num i j, p))"

partial_function (option) re_alloc ::
  "bool \<Rightarrow> bool \<Rightarrow> index_bitmap \<Rightarrow> (u32 \<times> index_bitmap) option" where
  "re_alloc tcp flag p =
     (let i = (if tcp then unat (cur_index_i p) else 0);
          j = (if tcp then unat (cur_index_j p) else 0);
          r = scan p i i j
      in case r of Found q i j \<Rightarrow> Some (take_found tcp p q i j)
         | _ \<Rightarrow>
            if r = Oversize \<and> flag then Some (0, p)
            else if tcp then re_alloc tcp True (p\<lparr>cur_index_i := 0, cur_index_j := 0\<rparr>)
            else Some (0, p))"

declare re_alloc.simps [code]

definition pool_alloc :: "bool \<Rightarrow> index_bitmap \<Rightarrow> (u32 \<times> index_bitmap) option" where
  "pool_alloc tcp p =
     (if index_num p = index_size p + 1 then Some (0, p) else re_alloc tcp False p)"

section \<open>The operations of the module\<close>

definition index_register :: "u8 \<Rightarrow> u32 \<Rightarrow> index_bitmap list \<Rightarrow> (int \<times> index_bitmap list) option" where
  "index_register type sz pools =
     (if unat type > INDEX_TYPE_NUM then Some (1, pools)
      else if unat type \<ge> length pools then None
      else case pool_register (type = INDEX_TYPE_TCP_PORT) sz of
          None \<Rightarrow> None
        | Some p \<Rightarrow> Some (0, pools[unat type := p]))"

definition on_pool ::
  "(index_bitmap \<Rightarrow> ('a \<times> index_bitmap) option) \<Rightarrow> u8 \<Rightarrow> index_bitmap list \<Rightarrow> ('a \<times> index_bitmap list) option" where
  "on_pool f type pools =
     (if unat type \<ge> length pools then None
      else map_option (\<lambda>(r, p). (r, pools[unat type := p])) (f (pools ! unat type)))"

definition index_alloc :: "u8 \<Rightarrow> index_bitmap list \<Rightarrow> (u32 \<times> index_bitmap list) option" where
  "index_alloc type = on_pool (pool_alloc (type = INDEX_TYPE_TCP_PORT)) type"

definition index_free :: "u8 \<Rightarrow> u32 \<Rightarrow> index_bitmap list \<Rightarrow> (int \<times> index_bitmap list) option" where
  "index_free type index = on_pool (\<lambda>p. pool_free p index) type"

definition index_get :: "u8 \<Rightarrow> u32 \<Rightarrow> index_bitmap list \<Rightarrow> (int \<times> index_bitmap list) option" where
  "index_get type index = on_pool (\<lambda>p. pool_get p index) type"


section \<open>Well-formed pools\<close>

text \<open>
  The bitmap has the words the size asks for, number \<open>0\<close> is taken, nothing beyond the size
  is taken and the counter counts what is taken.  The bound on the size keeps \<open>i * 32 + j\<close>
  and \<open>index_size + 1\<close> within 32 bits; the largest pool of the program has 16384 numbers.
\<close>

definition pool_used :: "index_bitmap \<Rightarrow> nat set" where
  "pool_used p = bm_used (pbitmap p)"

definition pool_wf :: "index_bitmap \<Rightarrow> bool" where
  "pool_wf p \<longleftrightarrow>
     length (pbitmap p) = unat (bitmap_size p) \<and>
     unat (bitmap_size p) = (unat (index_size p) + 31) div 32 \<and>
     0 < unat (index_size p) \<and> unat (index_size p) < 2 ^ 31 \<and>
     0 \<in> pool_used p \<and> pool_used p \<subseteq> {..unat (index_size p)} \<and>
     unat (index_num p) = card (pool_used p)"

lemma pool_wf_used:
  assumes "pool_wf p" "n \<in> pool_used p" shows "n < 32 * length (pbitmap p)" "n \<le> unat (index_size p)"
  using assms by (auto simp: pool_wf_def pool_used_def bm_used_def)

lemma pool_wf_words: "pool_wf p \<Longrightarrow> unat (bitmap_size p) \<le> 2 ^ 26"
  unfolding pool_wf_def by simp linarith

lemma unat_scan_num:
  assumes "i < 2 ^ 26" "j < 32" shows "unat (scan_num i j) = i * 32 + j"
proof -
  have "scan_num i j = of_nat (i * 32 + j)" by (simp add: scan_num_def)
  moreover have "i * 32 + j < 2 ^ 32" using assms by simp
  ultimately show ?thesis by (simp only: unat_of_nat take_bit_nat_eq_self mod_less len_bit0 len_num1) simp
qed

lemma pool_scan_num:
  assumes "pool_wf p" "i < unat (bitmap_size p)" "j < 32"
  shows "unat (scan_num i j) = i * 32 + j"
  by (rule unat_scan_num) (use assms pool_wf_words [OF assms(1)] in linarith)+

text \<open>Taking a free number and giving one back keep a pool well-formed.\<close>

lemma pool_wf_take:
  assumes wf: "pool_wf p" and n: "n < 32 * length (pbitmap p)" "n \<le> unat (index_size p)" "n \<notin> pool_used p"
    and bm: "pbitmap p' = bm_clear (pbitmap p) n" "index_num p' = index_num p + 1"
      "index_size p' = index_size p" "bitmap_size p' = bitmap_size p"
  shows "pool_wf p'" "pool_used p' = insert n (pool_used p)"
proof -
  show used: "pool_used p' = insert n (pool_used p)"
    using n by (simp add: pool_used_def bm bm_used_clear)
  have fin: "finite (pool_used p)" by (simp add: pool_used_def)
  have "card (pool_used p) \<le> card {..unat (index_size p)}"
    using wf by (intro card_mono) (simp_all add: pool_wf_def)
  then have "unat (index_num p) < 2 ^ 32 - 1" using wf by (simp add: pool_wf_def)
  then have "unat (index_num p + 1) = Suc (unat (index_num p))"
    by (simp add: unat_word_ariths)
  with wf n fin used show "pool_wf p'" by (auto simp: pool_wf_def bm)
qed

lemma pool_wf_give:
  assumes wf: "pool_wf p" and n: "n \<in> pool_used p" "n \<noteq> 0"
    and bm: "pbitmap p' = bm_set (pbitmap p) n" "index_num p' = index_num p - 1"
      "index_size p' = index_size p" "bitmap_size p' = bitmap_size p"
  shows "pool_wf p'" "pool_used p' = pool_used p - {n}"
proof -
  show used: "pool_used p' = pool_used p - {n}"
    using pool_wf_used [OF wf n(1)] by (simp add: pool_used_def bm bm_used_set)
  have fin: "finite (pool_used p)" by (simp add: pool_used_def)
  have "0 < card (pool_used p)" using n fin by (auto simp: card_gt_0_iff)
  with wf have "unat (index_num p - 1) = card (pool_used p) - 1"
    by (simp add: pool_wf_def unat_minus1)
  with wf n fin used show "pool_wf p'" by (auto simp: pool_wf_def bm)
qed

section \<open>The search\<close>

lemma scan_word_Some:
  assumes "scan_word w i j = Some j'"
  shows "j \<le> j'" "j' < 32" "w AND top_bit j' \<noteq> 0" "scan_num i j' \<noteq> 0"
  using assms by (auto simp: scan_word_def find_Some_iff)

lemma scan_word_32 [simp]: "32 \<le> j \<Longrightarrow> scan_word w i j = None"
  by (simp add: scan_word_def find_None_iff)

lemma scan_Found:
  assumes "pool_wf p" "scan p q i j = Found q' i' j'" "q = i \<or> 32 \<le> j"
  shows "q' = i' \<and> j' < 32 \<and> i' < unat (bitmap_size p) \<and> bm_test (pbitmap p) (i' * 32 + j') \<and>
    i' * 32 + j' \<noteq> 0 \<and> i' * 32 + j' \<le> unat (index_size p)"
  using assms
proof (induction p q i j rule: scan.induct)
  case (1 p q i j)
  note res = "1.prems"(2)
  have i: "i < unat (bitmap_size p)" using res by (cases "i < unat (bitmap_size p)") (auto simp: scan.simps [of p q i])
  show ?case
  proof (cases "pbitmap p ! q = 0")
    case True
    with res i have "scan p (Suc q) (Suc i) j = Found q' i' j'" by (simp add: scan.simps [of p q i])
    with "1.IH"(1) i True "1.prems" show ?thesis by simp
  next
    case nz: False
    show ?thesis
    proof (cases "scan_word (pbitmap p ! q) i j")
      case None
      with res i nz have "scan p q (Suc i) 32 = Found q' i' j'" by (simp add: scan.simps [of p q i])
      with "1.IH"(2) i nz None "1.prems" show ?thesis by simp
    next
      case (Some k)
      note k = scan_word_Some [OF Some]
      have num: "unat (scan_num i k) = i * 32 + k" by (rule pool_scan_num [OF "1.prems"(1) i k(2)])
      have "j < 32" using Some by (cases "j < 32") auto
      with "1.prems"(3) have q: "q = i" by simp
      from res i nz Some have f: "q' = q" "i' = i" "j' = k" "\<not> index_size p < scan_num i k"
        by (simp_all add: scan.simps [of p q i] split: if_splits)
      have "unat (scan_num i k) \<noteq> 0" using k(4) by (simp add: unat_eq_0)
      moreover have "bm_test (pbitmap p) (i * 32 + k)" using k(2,3) by (simp add: bm_test_def q)
      ultimately show ?thesis using f i k num q by (simp add: word_less_nat_alt)
    qed
  qed
qed

lemma find_append: "List.find P (xs @ ys) = (case List.find P xs of None \<Rightarrow> List.find P ys | Some x \<Rightarrow> Some x)"
  by (induction xs) auto

lemma find_map_fun: "List.find P (map f xs) = map_option f (List.find (\<lambda>x. P (f x)) xs)"
  by (induction xs) auto

text \<open>A search that starts at position \<open>0\<close> of a word is the search for the first free number.\<close>

lemma scan_first:
  assumes "pool_wf p"
  shows "scan p i i 0 =
    (case List.find (bm_test (pbitmap p)) [i * 32..<32 * unat (bitmap_size p)] of
       None \<Rightarrow> Exhausted
     | Some n \<Rightarrow> if unat (index_size p) < n then Oversize else Found (n div 32) (n div 32) (n mod 32))"
proof (induction "unat (bitmap_size p) - i" arbitrary: i)
  case 0
  then show ?case by (simp add: scan.simps)
next
  case (Suc d)
  let ?bm = "pbitmap p" and ?N = "unat (bitmap_size p)"
  have i: "i < ?N" using Suc.hyps(2) by linarith
  then have il: "i < length ?bm" using assms by (simp add: pool_wf_def)
  have ups: "[i * 32..<32 * ?N] = map (\<lambda>j. i * 32 + j) [0..<32] @ [Suc i * 32..<32 * ?N]"
  proof -
    have "[i * 32..<32 * ?N] = [i * 32..<Suc i * 32] @ [Suc i * 32..<32 * ?N]"
      using i upt_add_eq_append [of "i * 32" "Suc i * 32" "32 * ?N - Suc i * 32"] by simp
    moreover have "[i * 32..<Suc i * 32] = map (\<lambda>j. i * 32 + j) [0..<32]"
      using map_add_upt [of "i * 32" 32] by (simp only: add.commute [of _ "i * 32"] mult_Suc)
    ultimately show ?thesis by simp
  qed
  have z: "\<not> bm_test ?bm 0" using assms by (simp add: pool_wf_def pool_used_def bm_used_def)
  have word: "scan_word (?bm ! i) i 0 = List.find (\<lambda>j. bm_test ?bm (i * 32 + j)) [0..<32]"
    unfolding scan_word_def
  proof (rule find_cong [OF refl])
    fix j assume "j \<in> set [0..<32::nat]"
    then have "unat (scan_num i j) = i * 32 + j" using pool_scan_num [OF assms i] by simp
    moreover have "scan_num i j \<noteq> 0 \<longleftrightarrow> unat (scan_num i j) \<noteq> 0" by (simp add: unat_eq_0)
    moreover have "bm_test ?bm (i * 32 + j) \<longleftrightarrow> ?bm ! i AND top_bit j \<noteq> 0"
      using \<open>j \<in> set [0..<32]\<close> by (simp add: bm_test_def)
    ultimately show "(?bm ! i AND top_bit j \<noteq> 0 \<and> scan_num i j \<noteq> 0) = bm_test ?bm (i * 32 + j)"
      using z by (metis gr0I)
  qed
  have fnd: "List.find (bm_test ?bm) [i * 32..<32 * ?N] =
      (case scan_word (?bm ! i) i 0 of Some j \<Rightarrow> Some (i * 32 + j)
       | None \<Rightarrow> List.find (bm_test ?bm) [Suc i * 32..<32 * ?N])"
    unfolding ups find_append find_map_fun word by (simp split: option.split)
  show ?case
  proof (cases "scan_word (?bm ! i) i 0")
    case None
    then have "?bm ! i = 0"
      unfolding word_zero_iff [OF il] word find_None_iff by simp
    with None i fnd Suc.hyps show ?thesis by (simp add: scan.simps [of p i i])
  next
    case (Some j)
    note j = scan_word_Some [OF Some]
    then have "?bm ! i \<noteq> 0" by auto
    moreover have "unat (scan_num i j) = i * 32 + j" using pool_scan_num [OF assms i j(2)] .
    ultimately show ?thesis
      using Some i j fnd by (simp add: scan.simps [of p i i] word_less_nat_alt)
  qed
qed


section \<open>Allocation\<close>

lemma take_found_frame [simp]:
  "pbitmap (snd (take_found tcp p q i j)) = bm_clear (pbitmap p) (q * 32 + j)"
  "index_num (snd (take_found tcp p q i j)) = index_num p + 1"
  "index_size (snd (take_found tcp p q i j)) = index_size p"
  "bitmap_size (snd (take_found tcp p q i j)) = bitmap_size p"
  by (simp_all add: take_found_def Let_def)

lemma fst_take_found [simp]: "fst (take_found tcp p q i j) = scan_num i j"
  by (simp add: take_found_def Let_def)

lemma take_found_ok:
  assumes wf: "pool_wf p" and f: "scan p i0 i0 j0 = Found q i j"
    and r: "take_found tcp p q i j = (n, p')"
  shows "pool_wf p' \<and> unat n = i * 32 + j \<and> n \<noteq> 0 \<and> unat n \<notin> pool_used p \<and> n \<le> index_size p \<and>
    pool_used p' = insert (unat n) (pool_used p) \<and> index_size p' = index_size p"
proof -
  have F: "q = i" "j < 32" "i < unat (bitmap_size p)" "bm_test (pbitmap p) (i * 32 + j)"
    "i * 32 + j \<noteq> 0" "i * 32 + j \<le> unat (index_size p)"
    using scan_Found [OF wf f] by auto
  have n: "n = scan_num i j" and p': "p' = snd (take_found tcp p q i j)"
    using r fst_take_found [of tcp p q i j] by simp_all
  have un: "unat n = i * 32 + j" using pool_scan_num [OF wf F(3,2)] n by simp
  have lt: "i * 32 + j < 32 * length (pbitmap p)" using F(2,3) wf unfolding pool_wf_def by linarith
  have nu: "i * 32 + j \<notin> pool_used p" using F(4) by (simp add: pool_used_def bm_used_def)
  have t: "pool_wf p'" "pool_used p' = insert (i * 32 + j) (pool_used p)"
    using pool_wf_take [OF wf lt F(6) nu, of p'] by (simp_all add: p' F(1))
  show ?thesis using t un nu F(5,6) p' by (auto simp: word_le_nat_alt)
qed

lemma pool_wf_cursor [simp]: "pool_wf (p\<lparr>cur_index_i := i, cur_index_j := j\<rparr>) = pool_wf p"
  "pool_used (p\<lparr>cur_index_i := i, cur_index_j := j\<rparr>) = pool_used p"
  by (simp_all add: pool_wf_def pool_used_def)

text \<open>What a search from the start says when it finds nothing.\<close>

lemma scan_start_none:
  assumes wf: "pool_wf p" and "scan p 0 0 0 = r" "r = Oversize \<or> r = Exhausted"
  shows "{n. n < 32 * length (pbitmap p) \<and> n \<le> unat (index_size p)} \<subseteq> pool_used p"
proof
  fix n assume "n \<in> {n. n < 32 * length (pbitmap p) \<and> n \<le> unat (index_size p)}"
  then have n: "n < 32 * unat (bitmap_size p)" "n \<le> unat (index_size p)" "n < 32 * length (pbitmap p)"
    using wf by (auto simp: pool_wf_def)
  have "\<not> bm_test (pbitmap p) n"
  proof (cases "List.find (bm_test (pbitmap p)) [0..<32 * unat (bitmap_size p)]")
    case None
    then show ?thesis using n by (simp add: find_None_iff)
  next
    case (Some m)
    then have "unat (index_size p) < m" using assms scan_first [OF wf, of 0] by (auto split: if_splits)
    moreover have "\<forall>k < m. \<not> bm_test (pbitmap p) k"
      using Some unfolding find_Some_iff by auto
    ultimately show ?thesis using n by simp
  qed
  with n(3) show "n \<in> pool_used p" by (simp add: pool_used_def bm_used_def)
qed

lemma scan_start_Exhausted:
  assumes wf: "pool_wf p" and "scan p 0 0 0 = Exhausted"
  shows "pool_used p = {..<32 * length (pbitmap p)}"
proof -
  have "List.find (bm_test (pbitmap p)) [0..<32 * unat (bitmap_size p)] = None"
    using assms(2) scan_first [OF wf, of 0] by (auto split: option.splits if_splits)
  then show ?thesis using wf by (auto simp: find_None_iff pool_used_def bm_used_def pool_wf_def)
qed

text \<open>
  With a size that is not a multiple of 32 the bitmap covers number \<open>index_size\<close>, so a full
  bitmap is caught by the counter and the TCP search is never exhausted.
\<close>

lemma covered_size:
  assumes "pool_wf p" "unat (index_size p) mod 32 \<noteq> 0"
  shows "unat (index_size p) < 32 * length (pbitmap p)"
proof -
  let ?s = "unat (index_size p)"
  have "n mod 32 \<noteq> 0 \<Longrightarrow> n < 32 * ((n + 31) div 32)" for n :: nat by presburger
  then have "32 * ((?s + 31) div 32) > ?s" using assms(2) by blast
  then show ?thesis using assms(1) by (simp add: pool_wf_def)
qed

lemma not_full_not_exhausted:
  assumes wf: "pool_wf p" and m: "unat (index_size p) mod 32 \<noteq> 0" and g: "index_num p \<noteq> index_size p + 1"
  shows "scan p 0 0 0 \<noteq> Exhausted"
proof
  assume "scan p 0 0 0 = Exhausted"
  then have full: "pool_used p = {..<32 * length (pbitmap p)}" by (rule scan_start_Exhausted [OF wf])
  have "pool_used p \<subseteq> {..unat (index_size p)}" using wf by (simp add: pool_wf_def)
  with full covered_size [OF wf m] have "pool_used p = {..unat (index_size p)}" by auto
  then have "unat (index_num p) = Suc (unat (index_size p))" using wf by (simp add: pool_wf_def)
  moreover have "unat (index_size p + 1) = Suc (unat (index_size p))"
    using wf by (simp add: pool_wf_def unat_word_ariths)
  ultimately have "index_num p = index_size p + 1" by (simp add: word_unat_eq_iff)
  with g show False by simp
qed

definition alloc_ok :: "index_bitmap \<Rightarrow> u32 \<Rightarrow> index_bitmap \<Rightarrow> bool" where
  "alloc_ok p n p' \<longleftrightarrow> pool_wf p' \<and> index_size p' = index_size p \<and>
     (if n = 0
      then pool_used p' = pool_used p \<and>
        {m. m < 32 * length (pbitmap p) \<and> m \<le> unat (index_size p)} \<subseteq> pool_used p
      else unat n \<notin> pool_used p \<and> n \<le> index_size p \<and> pool_used p' = insert (unat n) (pool_used p))"

lemma pool_alloc_ok:
  assumes wf: "pool_wf p" and m: "tcp \<Longrightarrow> unat (index_size p) mod 32 \<noteq> 0"
  shows "\<exists>n p'. pool_alloc tcp p = Some (n, p') \<and> alloc_ok p n p'"
proof (cases "index_num p = index_size p + 1")
  case True
  have "unat (index_size p + 1) = Suc (unat (index_size p))"
    using wf by (simp add: pool_wf_def unat_word_ariths)
  then have c: "card (pool_used p) = card {..unat (index_size p)}" using wf True by (simp add: pool_wf_def)
  have "pool_used p = {..unat (index_size p)}"
    by (rule card_subset_eq) (use wf c in \<open>simp_all add: pool_wf_def\<close>)
  then have "alloc_ok p 0 p" using wf by (auto simp: alloc_ok_def)
  with True show ?thesis by (simp add: pool_alloc_def)
next
  case False
  define i0 where "i0 = (if tcp then unat (cur_index_i p) else 0)"
  define j0 where "j0 = (if tcp then unat (cur_index_j p) else 0)"
  let ?p0 = "p\<lparr>cur_index_i := 0, cur_index_j := 0\<rparr>"
  have wf0: "pool_wf ?p0" using wf by simp
  have found: "alloc_ok p n p'"
    if "pool_wf q" "scan q a a b = Found x y z" "take_found tcp q x y z = (n, p')"
      "pool_used q = pool_used p" "index_size q = index_size p" for q a b x y z n p'
    using take_found_ok [OF that(1-3)] that(4,5) by (auto simp: alloc_ok_def)
  have first: "pool_alloc tcp p = (case scan p i0 i0 j0 of Found q i j \<Rightarrow> Some (take_found tcp p q i j)
      | _ \<Rightarrow> if tcp then re_alloc tcp True ?p0 else Some (0, p))"
    using False by (simp add: pool_alloc_def re_alloc.simps [of tcp False] i0_def j0_def Let_def split: scan_result.split)
  have second: "\<exists>n p'. re_alloc tcp True ?p0 = Some (n, p') \<and> alloc_ok p n p'" if tcp
  proof (cases "scan ?p0 0 0 0")
    case (Found q i j)
    then have "re_alloc tcp True ?p0 = Some (take_found tcp ?p0 q i j)"
      using that by (simp add: re_alloc.simps [of True True])
    then show ?thesis
      using found [OF wf0 Found] by (cases "take_found tcp ?p0 q i j") simp
  next
    case Oversize
    then have "re_alloc tcp True ?p0 = Some (0, ?p0)"
      using that by (simp add: re_alloc.simps [of True True])
    moreover have "alloc_ok p 0 ?p0"
      using scan_start_none [OF wf0 Oversize] wf by (simp add: alloc_ok_def)
    ultimately show ?thesis by blast
  next
    case Exhausted
    then show ?thesis using not_full_not_exhausted [OF wf0] m [OF that] False by simp
  qed
  have none: "alloc_ok p 0 p" if "\<not> tcp" "scan p i0 i0 j0 = Oversize \<or> scan p i0 i0 j0 = Exhausted"
    using scan_start_none [OF wf refl] that wf by (auto simp: alloc_ok_def i0_def j0_def)
  show ?thesis
  proof (cases "scan p i0 i0 j0")
    case (Found q i j)
    then show ?thesis
      using first found [OF wf Found] by (cases "take_found tcp p q i j") simp
  next
    case Oversize
    then show ?thesis using first second none by (cases tcp) auto
  next
    case Exhausted
    then show ?thesis using first second none by (cases tcp) auto
  qed
qed


section \<open>Registration, release and the given index\<close>

lemma pool_get_ok:
  assumes wf: "pool_wf p"
  shows "\<exists>r p'. pool_get p n = Some (r, p') \<and> pool_wf p' \<and>
    (if n < index_size p \<and> unat n \<notin> pool_used p
     then r = 0 \<and> pool_used p' = insert (unat n) (pool_used p) else r = 1 \<and> p' = p)"
proof (cases "n < index_size p")
  case True
  then have lt: "unat n < unat (index_size p)" by (simp add: word_less_nat_alt)
  have "k < s \<Longrightarrow> k div 32 < (s + 31) div 32" for k s :: nat by linarith
  from this [OF lt] have d: "unat n div 32 < length (pbitmap p)" using wf by (simp only: pool_wf_def)
  then have b: "unat n < 32 * length (pbitmap p)" by linarith
  show ?thesis
  proof (cases "bm_test (pbitmap p) (unat n)")
    case t: True
    then have nu: "unat n \<notin> pool_used p" by (simp add: pool_used_def bm_used_def)
    let ?p = "p\<lparr>pbitmap := bm_clear (pbitmap p) (unat n), index_num := index_num p + 1\<rparr>"
    have g: "pool_get p n = Some (0, ?p)" using True t d by (simp add: pool_get_def)
    have "pool_wf ?p" "pool_used ?p = insert (unat n) (pool_used p)"
      using pool_wf_take [OF wf b less_imp_le [OF lt] nu, of ?p] by simp_all
    with g True nu show ?thesis by (intro exI [of _ 0] exI [of _ ?p]) simp
  next
    case False
    then have "unat n \<in> pool_used p" using b by (simp add: pool_used_def bm_used_def)
    with True False d wf show ?thesis by (simp add: pool_get_def)
  qed
qed (simp add: pool_get_def wf linorder_not_less)

lemma pool_free_ok:
  assumes wf: "pool_wf p" and n: "unat n < 32 * length (pbitmap p)"
  shows "\<exists>r p'. pool_free p n = Some (r, p') \<and> pool_wf p' \<and>
    (if n \<noteq> 0 \<and> unat n \<in> pool_used p
     then r = 0 \<and> pool_used p' = pool_used p - {unat n} else r = 1 \<and> p' = p)"
proof -
  have d: "unat n div 32 < length (pbitmap p)" using n by linarith
  have u: "unat n \<in> pool_used p \<longleftrightarrow> \<not> bm_test (pbitmap p) (unat n)"
    using n by (simp add: pool_used_def bm_used_def)
  have le: "unat n \<in> pool_used p \<Longrightarrow> \<not> index_size p < n"
    using pool_wf_used(2) [OF wf, of "unat n"] by (simp add: word_less_nat_alt)
  show ?thesis
  proof (cases "n \<noteq> 0 \<and> unat n \<in> pool_used p")
    case True
    then have "unat n \<noteq> 0" by (simp add: unat_eq_0)
    let ?p = "p\<lparr>pbitmap := bm_set (pbitmap p) (unat n), index_num := index_num p - 1\<rparr>"
    have g: "pool_free p n = Some (0, ?p)" using True d u le by (simp add: pool_free_def)
    have "pool_wf ?p" "pool_used ?p = pool_used p - {unat n}"
      using pool_wf_give [OF wf, of "unat n" ?p] True \<open>unat n \<noteq> 0\<close> by simp_all
    with g True show ?thesis by (intro exI [of _ 0] exI [of _ ?p]) simp
  next
    case False
    with d u wf show ?thesis by (auto simp: pool_free_def)
  qed
qed

lemma words_needed: "(n + 31) div 32 = n div 32 + (if n mod 32 \<noteq> 0 then 1 else 0)" for n :: nat
proof -
  have split: "(r + q * 32 + 31) div 32 = q + (r + 31) div 32" for q r :: nat
    using div_mult_self1 [of 32 "r + 31" q] by (simp add: algebra_simps)
  have "(r + 31) div 32 = (if r \<noteq> 0 then 1 else 0)" if "r < 32" for r :: nat
    using that by (intro div_nat_eqI) auto
  then have "(n mod 32 + 31) div 32 = (if n mod 32 \<noteq> 0 then 1 else 0)" by (metis mod_less_divisor zero_less_numeral)
  with split [of "n mod 32" "n div 32"] show ?thesis by (simp only: mod_div_mult_eq)
qed

lemma pool_register_ok:
  assumes "unat sz + 1 < 2 ^ 31" "tcp \<Longrightarrow> 0 < unat sz"
  shows "\<exists>p. pool_register tcp sz = Some p \<and> pool_wf p \<and> pool_used p = {0} \<and>
    unat (index_size p) = (if tcp then unat sz else unat sz + 1)"
proof -
  define s where "s = (if \<not> tcp then sz + 1 else sz)"
  have us: "unat s = (if tcp then unat sz else unat sz + 1)"
    using assms(1) by (simp add: s_def unat_word_ariths)
  then have s: "0 < unat s" "unat s < 2 ^ 31" using assms by auto
  define w where "w = (if s mod 32 \<noteq> 0 then s div 32 + 1 else s div 32)"
  have um: "unat (s mod 32) = unat s mod 32" "unat (s div 32) = unat s div 32"
    by (simp_all add: unat_mod_distrib unat_div_distrib)
  have m0: "s mod 32 = 0 \<longleftrightarrow> unat s mod 32 = 0"
    unfolding um(1) [symmetric] by (rule unat_eq_0 [symmetric])
  have "unat (s div 32 + 1) = unat s div 32 + 1"
    using um(2) s(2) by (simp add: unat_word_ariths)
  then have uw: "unat w = (unat s + 31) div 32" by (simp add: w_def m0 um(2) words_needed)
  have b: "unat w < 2 ^ 27" using s unfolding uw by simp
  then have w4: "unat (w * 4) = unat w * 4" by (simp add: unat_word_ariths)
  have w4d: "w * 4 div 4 = w" by (simp add: word_unat_eq_iff unat_div w4)
  define p where "p = \<lparr>pbitmap = replicate (unat w) (- 1), index_size = s, index_num = 0,
    bitmap_size = w, cur_index_i = 0, cur_index_j = 0\<rparr>"
  have reg: "pool_register tcp sz = map_option snd (pool_get p 0)"
    by (simp only: pool_register_def Let_def s_def [symmetric] w_def [symmetric] w4 w4d p_def) simp
  have t: "bm_test (replicate (unat w) (- 1)) 0" by (rule bm_test_full) (use s uw in simp)
  have len: "0 < unat w" using s uw by simp
  then have "pool_get p 0 = Some (0, p\<lparr>pbitmap := bm_clear (pbitmap p) 0, index_num := 1\<rparr>)"
    using t s by (auto simp: pool_get_def p_def word_less_nat_alt)
  then have r: "pool_register tcp sz = Some (p\<lparr>pbitmap := bm_clear (pbitmap p) 0, index_num := 1\<rparr>)"
    (is "_ = Some ?p") using reg by simp
  have "pool_used ?p = {0}" using len by (simp add: pool_used_def p_def bm_used_clear)
  then have "pool_wf ?p" using s uw by (simp add: pool_wf_def p_def)
  with r us \<open>pool_used ?p = {0}\<close> show ?thesis by (simp add: p_def)
qed

section \<open>A full TCP pool whose size is a multiple of 32\<close>

text \<open>The search restarts forever: neither the counter nor \<open>flag\<close> stops it.\<close>

definition all_taken :: "index_bitmap \<Rightarrow> bool" where
  "all_taken p \<longleftrightarrow> length (pbitmap p) = unat (bitmap_size p) \<and> (\<forall>w \<in> set (pbitmap p). w = 0)"

lemma scan_all_taken: "all_taken p \<Longrightarrow> scan p i i j = Exhausted"
proof (induction "unat (bitmap_size p) - i" arbitrary: i)
  case 0
  then show ?case by (simp add: scan.simps)
next
  case (Suc d)
  then have "i < length (pbitmap p)" by (simp add: all_taken_def)
  then have "pbitmap p ! i = 0" using Suc.prems by (simp add: all_taken_def)
  with Suc show ?case by (simp add: scan.simps [of p i i])
qed

lemma re_alloc_diverges: "re_alloc tcp flag p = Some r \<Longrightarrow> \<not> (tcp \<and> all_taken p)"
proof (erule re_alloc.raw_induct [rotated], rule notI)
  fix f tcp flag p r
  assume IH: "\<And>tcp flag p y. f tcp flag p = Some y \<Longrightarrow> \<not> (tcp \<and> all_taken p)"
    and r: "(let i = if tcp then unat (cur_index_i p) else 0;
            j = if tcp then unat (cur_index_j p) else 0; r = scan p i i j
        in case r of Found q i j \<Rightarrow> Some (take_found tcp p q i j)
           | _ \<Rightarrow> if r = Oversize \<and> flag then Some (0, p)
                  else if tcp then f tcp True (p\<lparr>cur_index_i := 0, cur_index_j := 0\<rparr>)
                       else Some (0, p)) = Some r"
    and t: "tcp \<and> all_taken p"
  then have "f True True (p\<lparr>cur_index_i := 0, cur_index_j := 0\<rparr>) = Some r"
    using scan_all_taken by (simp add: Let_def)
  moreover have "all_taken (p\<lparr>cur_index_i := 0, cur_index_j := 0\<rparr>)" using t by (simp add: all_taken_def)
  ultimately show False using IH by blast
qed


section \<open>The contract of an identifier pool\<close>

text \<open>
  A client's run over a pool: \<open>None\<close> asks for an identifier, \<open>Some n\<close> gives back \<open>n\<close> when
  the client holds it.  The list holds what was handed out and not given back.
\<close>

fun id_run :: "('p \<Rightarrow> (nat \<times> 'p) option) \<Rightarrow> ('p \<Rightarrow> nat \<Rightarrow> 'p option)
    \<Rightarrow> nat option list \<Rightarrow> 'p \<times> nat list \<Rightarrow> ('p \<times> nat list) option" where
  "id_run alloc free [] (p, held) = Some (p, held)"
| "id_run alloc free (None # ops) (p, held) =
     (case alloc p of
        None \<Rightarrow> None
      | Some (n, p') \<Rightarrow> id_run alloc free ops (p', if n = 0 then held else n # held))"
| "id_run alloc free (Some n # ops) (p, held) =
     (if n \<in> set held
      then case free p n of None \<Rightarrow> None | Some p' \<Rightarrow> id_run alloc free ops (p', remove1 n held)
      else id_run alloc free ops (p, held))"

locale id_allocator =
  fixes inv :: "'p \<Rightarrow> bool"
    and used :: "'p \<Rightarrow> nat set"
    and alloc :: "'p \<Rightarrow> (nat \<times> 'p) option"
    and free :: "'p \<Rightarrow> nat \<Rightarrow> 'p option"
  assumes alloc_returns: "inv p \<Longrightarrow> \<exists>n p'. alloc p = Some (n, p')"
    and alloc_fresh: "inv p \<Longrightarrow> alloc p = Some (n, p') \<Longrightarrow>
      inv p' \<and> (if n = 0 then used p' = used p else n \<notin> used p \<and> used p' = insert n (used p))"
    and free_used: "inv p \<Longrightarrow> n \<in> used p \<Longrightarrow> n \<noteq> 0 \<Longrightarrow>
      \<exists>p'. free p n = Some p' \<and> inv p' \<and> used p' = used p - {n}"
begin

lemma run_distinct:
  "inv p \<Longrightarrow> distinct held \<Longrightarrow> set held \<subseteq> used p - {0} \<Longrightarrow>
   \<exists>p' held'. id_run alloc free ops (p, held) = Some (p', held') \<and> inv p' \<and> distinct held' \<and>
     set held' \<subseteq> used p' - {0} \<and> used p' - set held' = used p - set held"
proof (induction ops arbitrary: p held)
  case Nil
  then show ?case by simp
next
  case (Cons op ops)
  show ?case
  proof (cases op)
    case None
    obtain n q where a: "alloc p = Some (n, q)" using alloc_returns [OF Cons.prems(1)] by blast
    note f = alloc_fresh [OF Cons.prems(1) a]
    let ?h = "if n = 0 then held else n # held"
    have "distinct ?h" "set ?h \<subseteq> used q - {0}" "used q - set ?h = used p - set held"
      using f Cons.prems(2,3) by (auto split: if_splits)
    with Cons.IH [of q ?h] f a None show ?thesis by simp
  next
    case (Some n)
    show ?thesis
    proof (cases "n \<in> set held")
      case True
      with Cons.prems(3) have "n \<in> used p" "n \<noteq> 0" by auto
      then obtain q where q: "free p n = Some q" "inv q" "used q = used p - {n}"
        using free_used [OF Cons.prems(1)] by blast
      have "distinct (remove1 n held)" "set (remove1 n held) \<subseteq> used q - {0}"
        "used q - set (remove1 n held) = used p - set held"
        using q True Cons.prems(2,3) by (auto simp: set_remove1_eq)
      with Cons.IH [of q "remove1 n held"] q True Some show ?thesis by simp
    next
      case False
      with Cons Some show ?thesis by simp
    qed
  qed
qed

lemma run_from_scratch:
  "inv p \<Longrightarrow> \<exists>p' held. id_run alloc free ops (p, []) = Some (p', held) \<and> inv p' \<and> distinct held \<and>
     used p' = used p \<union> set held \<and> used p \<inter> set held = {}"
  using run_distinct [of p "[]" ops] by fastforce

end

text \<open>Every pool of the module is such an allocator.\<close>

definition pool_inv :: "bool \<Rightarrow> index_bitmap \<Rightarrow> bool" where
  "pool_inv tcp p \<longleftrightarrow> pool_wf p \<and> (tcp \<longrightarrow> unat (index_size p) mod 32 \<noteq> 0)"

definition alloc_nat :: "bool \<Rightarrow> index_bitmap \<Rightarrow> (nat \<times> index_bitmap) option" where
  "alloc_nat tcp p = map_option (\<lambda>(n, q). (unat n, q)) (pool_alloc tcp p)"

definition free_nat :: "index_bitmap \<Rightarrow> nat \<Rightarrow> index_bitmap option" where
  "free_nat p n = map_option snd (pool_free p (of_nat n))"

lemma pool_free_size: "pool_free p n = Some (r, p') \<Longrightarrow> index_size p' = index_size p"
  by (auto simp: pool_free_def Let_def split: if_splits)

interpretation pool: id_allocator "pool_inv tcp" pool_used "alloc_nat tcp" free_nat
  for tcp :: bool
proof
  fix p n p'
  assume inv: "pool_inv tcp p"
  then obtain m q where q: "pool_alloc tcp p = Some (m, q)" "alloc_ok p m q"
    using pool_alloc_ok [of p tcp] by (auto simp: pool_inv_def)
  show "\<exists>n p'. alloc_nat tcp p = Some (n, p')" using q by (simp add: alloc_nat_def)
  show "pool_inv tcp p' \<and> (if n = 0 then pool_used p' = pool_used p
      else n \<notin> pool_used p \<and> pool_used p' = insert n (pool_used p))" if "alloc_nat tcp p = Some (n, p')"
  proof -
    have "p' = q" "n = unat m" using that q by (simp_all add: alloc_nat_def)
    then show ?thesis using q(2) inv by (auto simp: alloc_ok_def pool_inv_def unat_eq_0 split: if_splits)
  qed
  show "\<exists>p'. free_nat p n = Some p' \<and> pool_inv tcp p' \<and> pool_used p' = pool_used p - {n}"
    if n: "n \<in> pool_used p" "n \<noteq> 0"
  proof -
    have wf: "pool_wf p" using inv by (simp add: pool_inv_def)
    have "unat (index_size p) < 2 ^ LENGTH(32)" by (rule unsigned_less)
    with pool_wf_used(2) [OF wf n(1)] have "n < 2 ^ 32" by simp
    then have u: "unat (of_nat n :: u32) = n" by (simp add: unat_of_nat take_bit_nat_eq_self)
    then have "unat (of_nat n :: u32) < 32 * length (pbitmap p)" "(of_nat n :: u32) \<noteq> 0"
      using pool_wf_used(1) [OF wf n(1)] n(2) by auto
    with pool_free_ok [OF wf this(1)] u n obtain q where
      "pool_free p (of_nat n) = Some (0, q)" "pool_wf q" "pool_used q = pool_used p - {n}" by auto
    with inv pool_free_size [OF this(1)] show ?thesis by (simp add: free_nat_def pool_inv_def)
  qed
qed


section \<open>Properties\<close>

text \<open>
  C38: \<open>index_alloc\<close> on a registered pool always returns.  A non-zero result is a number
  within \<open>1..index_size\<close> that was not in use, and exactly it becomes used; \<open>0\<close> comes back
  only when every number of the pool is in use, and then nothing changes in the sets of
  used numbers.  The pools of other types are untouched.  For TCP ports this needs a
  size that is not a multiple of 32.
\<close>

theorem index_alloc_fresh:
  assumes "unat type < length pools" "pool_wf (pools ! unat type)"
    and "type = INDEX_TYPE_TCP_PORT \<Longrightarrow> unat (index_size (pools ! unat type)) mod 32 \<noteq> 0"
  shows "\<exists>n p'. index_alloc type pools = Some (n, pools[unat type := p']) \<and> pool_wf p' \<and>
    (if n = 0
     then pool_used p' = pool_used (pools ! unat type) \<and>
       {m. m < 32 * length (pbitmap (pools ! unat type)) \<and> m \<le> unat (index_size (pools ! unat type))}
         \<subseteq> pool_used (pools ! unat type)
     else unat n \<notin> pool_used (pools ! unat type) \<and> n \<le> index_size (pools ! unat type) \<and>
       pool_used p' = insert (unat n) (pool_used (pools ! unat type)))"
proof -
  obtain n p' where a: "pool_alloc (type = INDEX_TYPE_TCP_PORT) (pools ! unat type) = Some (n, p')"
      "alloc_ok (pools ! unat type) n p'"
    using pool_alloc_ok [OF assms(2) assms(3)] by blast
  have r: "index_alloc type pools = Some (n, pools[unat type := p'])"
    using assms(1) a(1) by (simp add: index_alloc_def on_pool_def)
  show ?thesis
    by (rule exI [of _ n], rule exI [of _ p']) (use r a(2) [unfolded alloc_ok_def] in \<open>elim conjE, intro conjI\<close>)
qed

definition port_pool :: index_bitmap where
  "port_pool = the (pool_register True 16383)"

lemma port_pool_ok: "pool_wf port_pool" "unat (index_size port_pool) = 16383"
proof -
  have b: "unat (16383 :: u32) + 1 < 2 ^ 31" "True \<Longrightarrow> 0 < unat (16383 :: u32)" by simp_all
  obtain p where p: "pool_register True 16383 = Some p" "pool_wf p"
      "unat (index_size p) = (if True then unat (16383 :: u32) else unat (16383 :: u32) + 1)"
    using pool_register_ok [OF b] by blast
  have "port_pool = p" unfolding port_pool_def p(1) by (rule option.sel)
  then show "pool_wf port_pool" "unat (index_size port_pool) = 16383" using p(2,3) by simp_all
qed

theorem index_alloc_fresh_witness:
  "\<exists>n p'. index_alloc 1 [empty_pool, port_pool] = Some (n, [empty_pool, p']) \<and> pool_wf p'"
  using index_alloc_fresh [of 1 "[empty_pool, port_pool]"] port_pool_ok by auto

text \<open>
  C39: however a client interleaves \<open>index_alloc\<close> and \<open>index_free\<close> on a freshly registered
  pool, every call returns and no number is ever held twice: the numbers held are distinct
  and are, with the reserved \<open>0\<close>, exactly the numbers marked in the bitmap.
\<close>

theorem index_numbers_held_once:
  assumes "unat sz + 1 < 2 ^ 31" "tcp \<Longrightarrow> unat sz mod 32 \<noteq> 0"
  shows "\<exists>p p' held. pool_register tcp sz = Some p \<and>
    id_run (alloc_nat tcp) free_nat ops (p, []) = Some (p', held) \<and>
    distinct held \<and> 0 \<notin> set held \<and> pool_used p' = insert 0 (set held)"
proof -
  have "tcp \<Longrightarrow> 0 < unat sz" using assms(2) by (metis gr0I mod_0)
  then obtain p where p: "pool_register tcp sz = Some p" "pool_wf p" "pool_used p = {0}"
      "unat (index_size p) = (if tcp then unat sz else unat sz + 1)"
    using pool_register_ok [OF assms(1)] by blast
  then have "pool_inv tcp p" using assms(2) by (simp add: pool_inv_def)
  from pool.run_from_scratch [OF this, of ops] p show ?thesis by auto
qed

theorem index_numbers_held_once_witness:
  "\<exists>p p' held. pool_register True 16383 = Some p \<and>
    id_run (alloc_nat True) free_nat [None, None, Some 1, None] (p, []) = Some (p', held) \<and>
    distinct held \<and> 0 \<notin> set held \<and> pool_used p' = insert 0 (set held)"
  by (rule index_numbers_held_once) simp_all

text \<open>
  A TCP port pool whose size is a multiple of 32 makes \<open>index_alloc\<close> loop forever once
  every number is taken: the counter guard \<open>index_num == index_size + 1\<close> cannot be reached
  and the \<open>goto re_alloc\<close> is taken without end.
\<close>

theorem full_port_pool_never_returns:
  assumes "length (pbitmap p) = unat (bitmap_size p)" "unat (index_size p) = 32 * length (pbitmap p)"
    and "\<forall>w \<in> set (pbitmap p). w = 0" "index_num p = index_size p"
  shows "pool_alloc True p = None"
proof -
  have "index_num p \<noteq> index_size p + 1" using assms(4) by simp
  moreover have "re_alloc True False p = None"
    using re_alloc_diverges [of True False p] assms by (cases "re_alloc True False p") (auto simp: all_taken_def)
  ultimately show ?thesis by (simp add: pool_alloc_def)
qed

theorem full_port_pool_never_returns_witness:
  "pool_alloc True \<lparr>pbitmap = [0], index_size = 32, index_num = 32, bitmap_size = 1,
     cur_index_i = 1, cur_index_j = 0\<rparr> = None"
  by (rule full_port_pool_never_returns) simp_all

text \<open>
  \<open>INDEX_TYPE_DXC\<close> is 19 and the array has 19 entries: the guard of \<open>index_register\<close> lets
  it through, and every operation with it reaches outside \<open>index_pool\<close>.
\<close>

lemma dxc_outside_array:
  assumes "length pools = INDEX_TYPE_NUM"
  shows "\<not> unat INDEX_TYPE_DXC > INDEX_TYPE_NUM" "index_register INDEX_TYPE_DXC sz pools = None"
    "index_alloc INDEX_TYPE_DXC pools = None" "index_free INDEX_TYPE_DXC n pools = None"
  using assms by (simp_all add: index_register_def index_alloc_def index_free_def on_pool_def)

text \<open>A pool registered for 32 numbers hands out number 33.\<close>

lemma number_beyond_registered_size:
  "map_option snd (id_run (alloc_nat False) free_nat (replicate 33 None) (the (pool_register False 32), []))
   = Some (rev [1..<34])"
  by code_simp

text \<open>\<open>index_free\<close> of the number \<open>index_size\<close> reads behind the bitmap when 32 divides it.\<close>

lemma free_behind_bitmap:
  assumes "pool_wf p" "unat (index_size p) mod 32 = 0"
  shows "pool_free p (index_size p) = None"
proof -
  have "length (pbitmap p) = unat (index_size p) div 32"
    using assms words_needed [of "unat (index_size p)"] by (simp add: pool_wf_def)
  moreover have "index_size p \<noteq> 0" using assms(1) by (auto simp: pool_wf_def)
  ultimately show ?thesis by (simp add: pool_free_def)
qed

end
