(* ===== verification/LabelM.thy ===== *)
theory LabelM
  imports HashTable IndexPool "HOL-Library.Signed_Division"
begin

text \<open>
  The MPLS label manager \<open>mpls/labelm.c\<close>: 32 bitmap pools of 32768 numbers each and a hash
  table that records which module uses a label.  A number \<open>n\<close> of a pool is bit
  \<open>0x80000000 >> (n % 32)\<close> of word \<open>n / 32\<close>, as in \<open>IndexPool\<close>, whose bitmaps are reused.
  \<open>None\<close> is an access outside \<open>label_pool\<close>.
\<close>

section \<open>Data\<close>

datatype label_state = LABEL_ALLOC | LABEL_PENDING | LABEL_INUSED

record label_info =
  lbl :: u32
  module_id :: u32
  lstate :: label_state

text \<open>\<open>mem\<close> gives the addresses of the records and nodes allocated, \<open>0\<close> for NULL.\<close>

record label_manager =
  label_pool :: "index_bitmap list"
  label_table :: "(u32, label_info) hash_table"
  callocs :: nat

abbreviation (input) LABEL_POOL_MAX :: nat where "LABEL_POOL_MAX \<equiv> 32"

section \<open>The table of labels in use\<close>

definition label_table_compute_hash :: "u32 \<Rightarrow> u32" where
  "label_table_compute_hash k = k"

definition label_table_compare :: "(u32, label_info) hash_bucket \<Rightarrow> u32 \<Rightarrow> int" where
  "label_table_compare item k = (if hash_key item = k then ERRNO_SUCCESS else ERRNO_FAIL)"

definition label_table_init :: "u32 \<Rightarrow> (u32, label_info) hash_table" where
  "label_table_init n = hios_hash_init n label_table_compute_hash label_table_compare"

definition label_table_node_add :: "(nat \<Rightarrow> nat) \<Rightarrow> label_info \<Rightarrow> label_manager \<Rightarrow> int \<times> label_manager" where
  "label_table_node_add mem pinfo s =
     (if hash_size (label_table s) = num_entries (label_table s) then (ERRNO_OVERSIZE, s)
      else let pitem = mem (callocs s); s = s\<lparr>callocs := callocs s + 1\<rparr> in
        if pitem = 0 then (ERRNO_MALLOC, s)
        else (ERRNO_SUCCESS, s\<lparr>label_table := snd (hios_hash_add (label_table s)
               \<lparr>addr = pitem, hashval = 0, hash_key = lbl pinfo, data = pinfo\<rparr>)\<rparr>))"

text \<open>The result tells whether the label was recorded.\<close>

definition label_table_node_create :: "(nat \<Rightarrow> nat) \<Rightarrow> u32 \<Rightarrow> u32 \<Rightarrow> label_manager \<Rightarrow> bool \<times> label_manager" where
  "label_table_node_create mem label m s =
     (let pinfo = mem (callocs s); s = s\<lparr>callocs := callocs s + 1\<rparr> in
      if pinfo = 0 then (False, s)
      else case label_table_node_add mem \<lparr>lbl = label, module_id = m, lstate = LABEL_INUSED\<rparr> s of
        (r, s) \<Rightarrow> (r = ERRNO_SUCCESS, s))"

definition label_tabel_node_delete :: "u32 \<Rightarrow> label_manager \<Rightarrow> int \<times> label_manager" where
  "label_tabel_node_delete label s =
     (case hios_hash_find (label_table s) label of
        None \<Rightarrow> (ERRNO_FAIL, s)
      | Some pitem \<Rightarrow> (ERRNO_SUCCESS, s\<lparr>label_table := hios_hash_delete (label_table s) pitem\<rparr>))"

text \<open>
  The bulk query: the first \<open>msg_num\<close> records in table order, or those after a given label,
  found by following the cursor; \<open>msg_num\<close> is positive.
\<close>

fun label_follow :: "(u32, label_info) hash_table \<Rightarrow> nat \<Rightarrow> (u32, label_info) hash_bucket \<Rightarrow> label_info list" where
  "label_follow tab 0 b = []"
| "label_follow tab (Suc n) b =
     (case hios_hash_next_cursor tab (Some b) of
        None \<Rightarrow> []
      | Some b' \<Rightarrow> data b' # label_follow tab n b')"

definition label_table_get_bulk :: "nat \<Rightarrow> u32 \<Rightarrow> bool \<Rightarrow> label_manager \<Rightarrow> label_info list" where
  "label_table_get_bulk msg_num label index_flag s =
     (if \<not> index_flag then take msg_num (map data (hash_bucket_loop (label_table s)))
      else case hios_hash_find (label_table s) label of
          None \<Rightarrow> []
        | Some b \<Rightarrow> label_follow (label_table s) msg_num b)"

section \<open>One pool\<close>

definition fresh_label_pool :: index_bitmap where
  "fresh_label_pool = \<lparr>pbitmap = replicate 1024 (- 1), index_size = 32 * 1024, index_num = 0,
     bitmap_size = 1024, cur_index_i = 0, cur_index_j = 0\<rparr>"

definition label_pool_init :: "label_manager \<Rightarrow> label_manager" where
  "label_pool_init s = s\<lparr>label_pool := replicate LABEL_POOL_MAX fresh_label_pool,
     label_table := label_table_init (32 * 4096)\<rparr>"

text \<open>
  The inner loop of \<open>label_pool_alloc\<close> over the bits of a word: a set bit is cleared first;
  number 0 is then skipped.
\<close>

fun label_word :: "nat \<Rightarrow> nat list \<Rightarrow> u32 \<Rightarrow> u32 \<times> u32 option" where
  "label_word i [] w = (w, None)"
| "label_word i (j # js) w =
     (if w AND top_bit j = 0 then label_word i js w
      else let w = w AND NOT (top_bit j); num = scan_num i j in
        if num = 0 then label_word i js w else (w, Some num))"

text \<open>
  The outer loop: \<open>q\<close> is where \<open>pbitmap\<close> points, which moves over words that are 0 only,
  while \<open>i\<close> counts every round.
\<close>

function label_scan :: "index_bitmap \<Rightarrow> nat \<Rightarrow> nat \<Rightarrow> u32 \<times> index_bitmap" where
  "label_scan p q i =
     (if i \<ge> unat (bitmap_size p) then (0, p)
      else if pbitmap p ! q = 0 then label_scan p (Suc q) (Suc i)
      else case label_word i [0..<32] (pbitmap p ! q) of
          (w, None) \<Rightarrow> label_scan (p\<lparr>pbitmap := (pbitmap p)[q := w]\<rparr>) q (Suc i)
        | (w, Some num) \<Rightarrow>
            let p = p\<lparr>pbitmap := (pbitmap p)[q := w]\<rparr>
            in if num > index_size p then (0, p) else (num, p\<lparr>index_num := index_num p + 1\<rparr>))"
  by pat_completeness auto
termination by (relation "measure (\<lambda>(p, q, i). unat (bitmap_size p) - i)") auto

declare label_scan.simps [simp del]

definition label_pool_alloc :: "index_bitmap \<Rightarrow> u32 \<times> index_bitmap" where
  "label_pool_alloc p = (if index_num p = index_size p then (0, p) else label_scan p 0 0)"

definition label_pool_free :: "index_bitmap \<Rightarrow> u32 \<Rightarrow> int \<times> index_bitmap" where
  "label_pool_free p index =
     (if index \<ge> index_size p * 32 then (0, p)
      else let index = index mod index_size p in
        (1, p\<lparr>pbitmap := bm_set (pbitmap p) (unat index), index_num := index_num p - 1\<rparr>))"

definition label_pool_get :: "index_bitmap \<Rightarrow> u32 \<Rightarrow> int \<times> index_bitmap" where
  "label_pool_get p index =
     (if index \<ge> index_size p * 32 then (0, p)
      else let index = index mod index_size p in
        if bm_test (pbitmap p) (unat index)
        then (1, p\<lparr>pbitmap := bm_clear (pbitmap p) (unat index), index_num := index_num p + 1\<rparr>)
        else (0, p))"

section \<open>The operations of the module\<close>

text \<open>
  The pool of a label: \<open>label - 15\<close> as a signed number, divided with truncation, converted
  to an \<open>unsigned char\<close>.
\<close>

definition pool_of :: "u32 \<Rightarrow> int" where
  "pool_of label = sint (label - 15) sdiv (32 * 1024)"

definition on_label_pool ::
  "(index_bitmap \<Rightarrow> u32 \<Rightarrow> int \<times> index_bitmap) \<Rightarrow> u32 \<Rightarrow> label_manager \<Rightarrow> (int \<times> label_manager) option" where
  "on_label_pool f label s =
     (let type = nat (pool_of label mod 256) in
      if type \<ge> length (label_pool s) then None
      else let (r, p) = f (label_pool s ! type) (label - 15)
           in Some (r, s\<lparr>label_pool := (label_pool s)[type := p]\<rparr>))"

text \<open>The first pool from \<open>j\<close> on whose counter is below its size.\<close>

definition open_pool :: "nat \<Rightarrow> label_manager \<Rightarrow> nat option" where
  "open_pool j s = List.find (\<lambda>j. index_num (label_pool s ! j) < index_size (label_pool s ! j)) [j..<LABEL_POOL_MAX]"

definition take_label :: "nat \<Rightarrow> label_manager \<Rightarrow> u32 \<times> label_manager" where
  "take_label j s = (let (n, p) = label_pool_alloc (label_pool s ! j) in (n, s\<lparr>label_pool := (label_pool s)[j := p]\<rparr>))"

definition label_min_alloc :: "u32 \<Rightarrow> label_manager \<Rightarrow> (u32 \<times> label_manager) option" where
  "label_min_alloc label_min s =
     (if pool_of label_min \<ge> int LABEL_POOL_MAX then Some (0, s)
      else if pool_of label_min < 0 then None
      else case open_pool (nat (pool_of label_min)) s of
          None \<Rightarrow> Some (0, s)
        | Some j \<Rightarrow> let (n, s) = take_label j s in Some (n + 16, s))"

definition label_free :: "u32 \<Rightarrow> label_manager \<Rightarrow> (int \<times> label_manager) option" where
  "label_free label s =
     (if pool_of label \<ge> int LABEL_POOL_MAX then Some (0, s)
      else on_label_pool label_pool_free label (snd (label_tabel_node_delete label s)))"

definition label_alloc :: "(nat \<Rightarrow> nat) \<Rightarrow> u32 \<Rightarrow> label_manager \<Rightarrow> u32 \<times> label_manager" where
  "label_alloc mem m s =
     (case open_pool 0 s of
        None \<Rightarrow> (0, s)
      | Some i \<Rightarrow>
          let (n, s) = take_label i s; label = n + 15
          in (label, snd (label_table_node_create mem label m s)))"

definition label_get :: "(nat \<Rightarrow> nat) \<Rightarrow> u32 \<Rightarrow> u32 \<Rightarrow> label_manager \<Rightarrow> (int \<times> label_manager) option" where
  "label_get mem label m s =
     (if pool_of label \<ge> int LABEL_POOL_MAX then Some (0, s)
      else case on_label_pool label_pool_get label s of
          None \<Rightarrow> None
        | Some (ret, s) \<Rightarrow>
            Some (ret, if ret \<noteq> 0 then snd (label_table_node_create mem label m s) else s))"


section \<open>The search\<close>

lemma bm_eqI:
  assumes "length a = length b" "\<And>n. n < 32 * length a \<Longrightarrow> bm_test a n \<longleftrightarrow> bm_test b n"
  shows "a = b"
proof (rule nth_equalityI [OF assms(1)])
  fix i assume i: "i < length a"
  show "a ! i = b ! i"
  proof (rule bit_word_eqI)
    fix n :: nat assume "n < LENGTH(32)"
    then obtain j where j: "j < 32" "31 - j = n" by (intro that [of "31 - n"]) auto
    have "i * 32 + j < 32 * length a" using i j(1) by linarith
    with assms(2) [of "i * 32 + j"] show "bit (a ! i) n = bit (b ! i) n"
      using j by (simp add: bm_test_bit)
  qed
qed

text \<open>The inner loop, when number 0 is not free: the first set bit is cleared and reported.\<close>

lemma label_word_find:
  "(\<forall>j \<in> set js. w AND top_bit j \<noteq> 0 \<longrightarrow> scan_num i j \<noteq> 0) \<Longrightarrow>
   label_word i js w = (case List.find (\<lambda>j. w AND top_bit j \<noteq> 0 \<and> scan_num i j \<noteq> 0) js of
     None \<Rightarrow> (w, None) | Some j \<Rightarrow> (w AND NOT (top_bit j), Some (scan_num i j)))"
  by (induction js) (auto simp: Let_def)

text \<open>The pool with number 0 taken and counted is a pool in the sense of \<open>IndexPool\<close>.\<close>

definition norm_pool :: "index_bitmap \<Rightarrow> index_bitmap" where
  "norm_pool p = p\<lparr>pbitmap := bm_clear (pbitmap p) 0, index_num := index_num p + 1\<rparr>"

definition taken :: "index_bitmap \<Rightarrow> nat set" where
  "taken p = pool_used (norm_pool p) - {0}"

text \<open>
  Number 0 is taken already, or word 0 holds another free number; otherwise the search
  loses its place.
\<close>

definition aligned :: "index_bitmap \<Rightarrow> bool" where
  "aligned p \<longleftrightarrow> \<not> bm_test (pbitmap p) 0 \<or> (\<exists>n. 0 < n \<and> n < 32 \<and> bm_test (pbitmap p) n)"

definition label_pool_ok :: "index_bitmap \<Rightarrow> bool" where
  "label_pool_ok p \<longleftrightarrow> pool_wf (norm_pool p) \<and> index_size p = 32768"

lemma clear_taken: "0 < length bm \<Longrightarrow> \<not> bm_test bm 0 \<Longrightarrow> bm_clear bm 0 = bm"
  by (rule bm_eqI) (auto simp: bm_test_clear intro: gr0I)

lemma label_pool_size:
  assumes "label_pool_ok p"
  shows "length (pbitmap p) = 1024" "unat (bitmap_size p) = 1024" "unat (index_size p) = 32768"
proof -
  show "unat (index_size p) = 32768" using assms by (simp add: label_pool_ok_def)
  then show "length (pbitmap p) = 1024" "unat (bitmap_size p) = 1024"
    using assms by (simp_all add: label_pool_ok_def pool_wf_def norm_pool_def)
qed

text \<open>With number 0 taken, the search is that of the index pools.\<close>

lemma label_scan_scan:
  assumes "length (pbitmap p) = unat (bitmap_size p)" "\<not> bm_test (pbitmap p) 0" "unat (bitmap_size p) \<le> 1024"
  shows "label_scan p i i = (case scan p i i 0 of
      Found q a b \<Rightarrow> (scan_num a b, p\<lparr>pbitmap := bm_clear (pbitmap p) (q * 32 + b), index_num := index_num p + 1\<rparr>)
    | Exhausted \<Rightarrow> (0, p)
    | Oversize \<Rightarrow> (0, snd (label_scan p i i)))"
proof (induction "unat (bitmap_size p) - i" arbitrary: i)
  case 0
  then show ?case by (simp add: scan.simps label_scan.simps)
next
  case (Suc d)
  have i: "i < unat (bitmap_size p)" using Suc.hyps(2) by linarith
  then have il: "i < length (pbitmap p)" using assms(1) by simp
  show ?case
  proof (cases "pbitmap p ! i = 0")
    case True
    then have "label_scan p i i = label_scan p (Suc i) (Suc i)" "scan p i i 0 = scan p (Suc i) (Suc i) 0"
      using i by (simp_all add: scan.simps [of p i i] label_scan.simps [of p i i])
    moreover have "d = unat (bitmap_size p) - Suc i" using Suc.hyps(2) by linarith
    ultimately show ?thesis using Suc.hyps(1) [of "Suc i"] by (cases "scan p (Suc i) (Suc i) 0") auto
  next
    case False
    have nz: "scan_num i j \<noteq> 0" if "j < 32" "pbitmap p ! i AND top_bit j \<noteq> 0" for j
    proof
      assume z: "scan_num i j = 0"
      have "unat (scan_num i j) = i * 32 + j" using i assms(3) that(1) by (intro unat_scan_num) auto
      with z have "i = 0" "j = 0" by simp_all
      with that(2) assms(2) show False by (simp add: bm_test_def)
    qed
    have w: "label_word i [0..<32] (pbitmap p ! i) = (case scan_word (pbitmap p ! i) i 0 of
        None \<Rightarrow> (pbitmap p ! i, None) | Some j \<Rightarrow> (pbitmap p ! i AND NOT (top_bit j), Some (scan_num i j)))"
      unfolding scan_word_def by (rule label_word_find) (use nz in auto)
    obtain j where j: "j < 32" "bm_test (pbitmap p) (i * 32 + j)" using False word_zero_iff [OF il] by blast
    then have "scan_word (pbitmap p ! i) i 0 \<noteq> None"
      using nz [OF j(1)] by (auto simp: scan_word_def find_None_iff bm_test_def)
    then obtain k where k: "scan_word (pbitmap p ! i) i 0 = Some k" by auto
    have "(i * 32 + k) div 32 = i" "(i * 32 + k) mod 32 = k" using scan_word_Some(2) [OF k] by simp_all
    with k w i False show ?thesis
      by (simp add: scan.simps [of p i i] label_scan.simps [of p i i] Let_def bm_clear_def)
  qed
qed

lemma scan_counter [simp]: "scan (p\<lparr>index_num := c\<rparr>) q i j = scan p q i j"
  by (induction p q i j rule: scan.induct)
    (subst (1 2) scan.simps, auto split: option.split)

text \<open>In an aligned pool the search clears number 0 on its way and goes on as if it were taken.\<close>

lemma label_word_upt:
  "label_word i [0..<32] w =
     (if w AND top_bit 0 = 0 \<or> scan_num i 0 \<noteq> 0 then label_word i [0..<32] w
      else label_word i [1..<32] (w AND NOT (top_bit 0)))"
  by (simp add: upt_conv_Cons)

lemma label_scan_aligned:
  assumes "aligned p" "0 < unat (bitmap_size p)" "length (pbitmap p) = unat (bitmap_size p)"
  shows "label_scan p 0 0 = label_scan (p\<lparr>pbitmap := bm_clear (pbitmap p) 0\<rparr>) 0 0"
proof (cases "bm_test (pbitmap p) 0")
  case False
  then show ?thesis using assms clear_taken [of "pbitmap p"] by simp
next
  case True
  let ?w = "pbitmap p ! 0" and ?v = "pbitmap p ! 0 AND NOT (top_bit 0)"
  let ?q = "p\<lparr>pbitmap := bm_clear (pbitmap p) 0\<rparr>"
  obtain n where n: "0 < n" "n < 32" "bm_test (pbitmap p) n" using assms(1) True by (auto simp: aligned_def)
  have len: "0 < length (pbitmap p)" using assms by simp
  have "bm_test (bm_clear (pbitmap p) 0) n" using n len by (simp add: bm_test_clear)
  then have v: "?v \<noteq> 0" and w: "?w \<noteq> 0" and q0: "pbitmap ?q ! 0 = ?v"
    using n True len by (auto simp: bm_test_def bm_clear_def)
  have "?v AND top_bit 0 = 0" by (rule bit_word_eqI) (simp add: bit_simps)
  then have z: "?v AND top_bit 0 = 0" "?w AND top_bit 0 \<noteq> 0" "scan_num 0 0 = 0"
    using True by (simp_all add: bm_test_def scan_num_def)
  have "label_word 0 [0..<32] ?w = label_word 0 [0..<32] ?v"
    using z by (simp add: upt_conv_Cons)
  moreover have "label_scan p 0 0 = (case label_word 0 [0..<32] ?w of
      (w, None) \<Rightarrow> label_scan (p\<lparr>pbitmap := (pbitmap p)[0 := w]\<rparr>) 0 (Suc 0)
    | (w, Some num) \<Rightarrow> let p = p\<lparr>pbitmap := (pbitmap p)[0 := w]\<rparr>
        in if num > index_size p then (0, p) else (num, p\<lparr>index_num := index_num p + 1\<rparr>))"
    using w assms(2) by (simp add: label_scan.simps [of p 0 0] split: prod.split option.split)
  moreover have "label_scan ?q 0 0 = (case label_word 0 [0..<32] ?v of
      (w, None) \<Rightarrow> label_scan (p\<lparr>pbitmap := (pbitmap p)[0 := w]\<rparr>) 0 (Suc 0)
    | (w, Some num) \<Rightarrow> let p = p\<lparr>pbitmap := (pbitmap p)[0 := w]\<rparr>
        in if num > index_size p then (0, p) else (num, p\<lparr>index_num := index_num p + 1\<rparr>))"
    using v q0 assms(2) by (subst label_scan.simps [of ?q 0 0]) (simp add: bm_clear_def Let_def split: prod.split option.split)
  ultimately show ?thesis by simp
qed

lemma taken_iff: "n \<in> taken p \<longleftrightarrow> 0 < n \<and> n < 32 * length (pbitmap p) \<and> \<not> bm_test (pbitmap p) n"
  using bm_test_clear [of 0 "pbitmap p" n]
  by (cases "pbitmap p = []") (auto simp: taken_def norm_pool_def pool_used_def bm_used_def)

text \<open>
  The result of an allocation in a well-formed, aligned pool; \<open>32767\<close> is the largest number
  a pool can hand out, so its counter never reaches \<open>index_size\<close>.
\<close>

lemma norm_frame [simp]: "index_size (norm_pool p) = index_size p" "bitmap_size (norm_pool p) = bitmap_size p"
  "length (pbitmap (norm_pool p)) = length (pbitmap p)" "index_num (norm_pool p) = index_num p + 1"
  by (simp_all add: norm_pool_def)

lemma used_norm: "label_pool_ok p \<Longrightarrow> pool_used (norm_pool p) = insert 0 (taken p)"
  by (auto simp: taken_def label_pool_ok_def pool_wf_def)

lemma taken_count:
  assumes ok: "label_pool_ok p"
  shows "unat (index_num p) = card (taken p)" "card (taken p) < 32768" "index_num p < index_size p"
proof -
  have fin: "finite (taken p)" by (simp add: taken_def pool_used_def)
  have sub: "taken p \<subseteq> {1..<32768}" using label_pool_size [OF ok] by (auto simp: taken_iff)
  have "card (taken p) \<le> card {1..<32768 :: nat}" by (rule card_mono [OF _ sub]) simp
  then show c: "card (taken p) < 32768" by simp
  have "0 \<notin> taken p" by (simp add: taken_def)
  then have "card (pool_used (norm_pool p)) = Suc (card (taken p))"
    unfolding used_norm [OF ok] using fin by simp
  then have s: "unat (index_num p + 1) = Suc (card (taken p))"
    using ok by (simp add: label_pool_ok_def pool_wf_def)
  have "index_num p + 1 \<noteq> 0" using s by (metis unat_0 nat.distinct(1))
  then have "unat (index_num p + 1) = Suc (unat (index_num p))" by (simp add: unatSuc add.commute)
  with s show u: "unat (index_num p) = card (taken p)" by simp
  show "index_num p < index_size p"
    unfolding word_less_nat_alt u label_pool_size(3) [OF ok] by (rule c)
qed


text \<open>The lowest free number from 1 on is taken, or none is free.\<close>

definition label_alloc_spec :: "index_bitmap \<Rightarrow> u32 \<times> index_bitmap \<Rightarrow> bool" where
  "label_alloc_spec p r \<longleftrightarrow> (case r of (n, p') \<Rightarrow>
     label_pool_ok p' \<and> aligned p' \<and>
     (if n = 0 then taken p' = taken p \<and> taken p = {1..<32768}
      else unat n < 32768 \<and> unat n \<notin> taken p \<and> (\<forall>m. 0 < m \<and> m < unat n \<longrightarrow> m \<in> taken p) \<and>
        taken p' = insert (unat n) (taken p)))"

lemma cleared_pool:
  assumes "label_pool_ok p"
  shows "label_pool_ok (p\<lparr>pbitmap := bm_clear (pbitmap p) 0\<rparr>)"
    "taken (p\<lparr>pbitmap := bm_clear (pbitmap p) 0\<rparr>) = taken p"
    "\<not> bm_test (bm_clear (pbitmap p) 0) 0"
proof -
  have len: "0 < 32 * length (pbitmap p)" using label_pool_size [OF assms] by simp
  then show z: "\<not> bm_test (bm_clear (pbitmap p) 0) 0" by (simp add: bm_test_clear)
  have "norm_pool (p\<lparr>pbitmap := bm_clear (pbitmap p) 0\<rparr>) = norm_pool p"
    using clear_taken [OF _ z] len by (simp add: norm_pool_def)
  then show "label_pool_ok (p\<lparr>pbitmap := bm_clear (pbitmap p) 0\<rparr>)"
    "taken (p\<lparr>pbitmap := bm_clear (pbitmap p) 0\<rparr>) = taken p"
    using assms by (simp_all add: label_pool_ok_def taken_def)
qed

lemma label_scan_ok:
  assumes ok: "label_pool_ok p" and z: "\<not> bm_test (pbitmap p) 0"
  shows "label_alloc_spec p (label_scan p 0 0)"
proof -
  note sz = label_pool_size [OF ok]
  have wf: "pool_wf (norm_pool p)" using ok by (simp add: label_pool_ok_def)
  have nb: "pbitmap (norm_pool p) = pbitmap p" using clear_taken [OF _ z] sz by (simp add: norm_pool_def)
  then have np: "norm_pool p = p\<lparr>index_num := index_num p + 1\<rparr>" by (simp add: norm_pool_def)
  have s: "label_scan p 0 0 = (case scan p 0 0 0 of
      Found q a b \<Rightarrow> (scan_num a b, p\<lparr>pbitmap := bm_clear (pbitmap p) (q * 32 + b), index_num := index_num p + 1\<rparr>)
    | Exhausted \<Rightarrow> (0, p) | Oversize \<Rightarrow> (0, snd (label_scan p 0 0)))"
    by (rule label_scan_scan) (use sz z in auto)
  have f: "scan p 0 0 0 = (case List.find (bm_test (pbitmap p)) [0..<32768] of
       None \<Rightarrow> Exhausted
     | Some n \<Rightarrow> if 32768 < n then Oversize else Found (n div 32) (n div 32) (n mod 32))"
    using scan_first [OF wf, of 0] sz by (simp add: np split: option.split)
  show ?thesis
  proof (cases "List.find (bm_test (pbitmap p)) [0..<32768]")
    case None
    then have "taken p = {1..<32768}" using sz by (auto simp: find_None_iff taken_iff)
    with None f s ok z show ?thesis by (simp add: label_alloc_spec_def aligned_def)
  next
    case (Some n)
    then have n: "n < 32768" "bm_test (pbitmap p) n" "\<forall>m < n. \<not> bm_test (pbitmap p) m"
      by (auto simp: find_Some_iff)
    let ?r = "p\<lparr>pbitmap := bm_clear (pbitmap p) n, index_num := index_num p + 1\<rparr>"
    have un: "unat (scan_num (n div 32) (n mod 32)) = n"
      using unat_scan_num [of "n div 32" "n mod 32"] n(1) by simp
    have r: "label_scan p 0 0 = (scan_num (n div 32) (n mod 32), ?r)" using s f Some n(1) by simp
    have n0: "n \<noteq> 0" using n(2) z by (cases n) auto
    have used: "n \<notin> pool_used (norm_pool p)" using n(1,2) sz by (simp add: pool_used_def bm_used_def nb)
    have len: "n < 32 * length (pbitmap p)" "0 < 32 * length (pbitmap p)" using n(1) sz by simp_all
    have z': "\<not> bm_test (bm_clear (pbitmap p) n) 0" using z len n0 by (simp add: bm_test_clear)
    have "pbitmap (norm_pool ?r) = bm_clear (pbitmap (norm_pool p)) n"
      unfolding nb using clear_taken [OF _ z'] len by (simp add: norm_pool_def)
    then have w: "pool_wf (norm_pool ?r)" "pool_used (norm_pool ?r) = insert n (pool_used (norm_pool p))"
      using pool_wf_take [OF wf, of n "norm_pool ?r"] n(1) sz used by simp_all
    have "label_pool_ok ?r" using w(1) ok by (simp add: label_pool_ok_def)
    moreover have "taken ?r = insert n (taken p)" using w(2) n0 by (auto simp: taken_def)
    moreover have "\<forall>m. 0 < m \<and> m < n \<longrightarrow> m \<in> taken p" using n(1,3) sz by (auto simp: taken_iff)
    moreover have "n \<notin> taken p" using used by (simp add: taken_def)
    moreover have "scan_num (n div 32) (n mod 32) \<noteq> 0" using un n0 by (metis unat_0)
    moreover have "aligned ?r" using z' by (simp add: aligned_def)
    ultimately show ?thesis unfolding r label_alloc_spec_def using n(1) un by simp
  qed
qed

lemma label_pool_alloc_ok:
  assumes ok: "label_pool_ok p" and al: "aligned p"
  shows "label_alloc_spec p (label_pool_alloc p)"
proof -
  let ?q = "p\<lparr>pbitmap := bm_clear (pbitmap p) 0\<rparr>"
  note c = cleared_pool [OF ok] and sz = label_pool_size [OF ok]
  have "label_alloc_spec ?q (label_scan ?q 0 0)" using label_scan_ok [OF c(1)] c(3) by simp
  moreover have "label_pool_alloc p = label_scan ?q 0 0"
    using label_scan_aligned [OF al] sz taken_count(3) [OF ok] by (auto simp: label_pool_alloc_def)
  ultimately show ?thesis unfolding label_alloc_spec_def c(2) by simp
qed

lemma label_pool_free_ok:
  assumes ok: "label_pool_ok p" and al: "aligned p" and n: "unat n \<in> taken p"
  shows "\<exists>p'. label_pool_free p n = (1, p') \<and> label_pool_ok p' \<and> aligned p' \<and> taken p' = taken p - {unat n}"
proof -
  note sz = label_pool_size [OF ok]
  have n': "0 < unat n" "unat n < 32768" using n sz by (auto simp: taken_iff)
  have s: "index_size p = 32768" using ok by (simp add: label_pool_ok_def)
  let ?p = "p\<lparr>pbitmap := bm_set (pbitmap p) (unat n), index_num := index_num p - 1\<rparr>"
  have m: "n mod index_size p = n"
    by (rule word_unat_eq_iff [THEN iffD2]) (use n' s in \<open>simp add: unat_mod_distrib\<close>)
  have "n < index_size p * 32" using n' by (simp add: s word_less_nat_alt)
  then have r: "label_pool_free p n = (1, ?p)" using m by (simp add: label_pool_free_def Let_def)
  have len: "unat n < 32 * length (pbitmap p)" "0 < 32 * length (pbitmap p)" using n' sz by simp_all
  have "bm_clear (bm_set (pbitmap p) (unat n)) 0 = bm_set (bm_clear (pbitmap p) 0) (unat n)"
    by (rule bm_eqI) (use len n' in \<open>auto simp: bm_test_clear bm_test_set\<close>)
  then have b: "pbitmap (norm_pool ?p) = bm_set (pbitmap (norm_pool p)) (unat n)" by (simp add: norm_pool_def)
  have "unat n \<in> pool_used (norm_pool p)" "pool_wf (norm_pool p)"
    using n ok by (simp_all add: taken_def label_pool_ok_def)
  then have w: "pool_wf (norm_pool ?p)" "pool_used (norm_pool ?p) = pool_used (norm_pool p) - {unat n}"
    using pool_wf_give [of "norm_pool p" "unat n" "norm_pool ?p"] b n' by simp_all
  have "label_pool_ok ?p" using w(1) ok by (simp add: label_pool_ok_def)
  moreover have "taken ?p = taken p - {unat n}" using w(2) by (auto simp: taken_def)
  moreover have "aligned ?p" using al len n' by (auto simp: aligned_def bm_test_set)
  ultimately show ?thesis using r by blast
qed


section \<open>The manager\<close>

text \<open>The invariant of the module, and the labels that pool 0 has handed out.\<close>

definition lm_ok :: "label_manager \<Rightarrow> bool" where
  "lm_ok s \<longleftrightarrow> length (label_pool s) = LABEL_POOL_MAX \<and> label_pool_ok (label_pool s ! 0) \<and> aligned (label_pool s ! 0)"

definition labels_out :: "label_manager \<Rightarrow> nat set" where
  "labels_out s = taken (label_pool s ! 0)"

lemma fresh_pool_ok: "label_pool_ok fresh_label_pool" "aligned fresh_label_pool" "taken fresh_label_pool = {}"
proof -
  have "bm_used (bm_clear (replicate 1024 (- 1 :: u32)) 0) = {0}" by (simp add: bm_used_clear)
  then show "label_pool_ok fresh_label_pool"
    by (simp add: label_pool_ok_def norm_pool_def fresh_label_pool_def pool_wf_def pool_used_def)
  have "bm_test (replicate 1024 (- 1)) 1" by (rule bm_test_full) simp
  then show "aligned fresh_label_pool" by (auto simp: aligned_def fresh_label_pool_def intro!: exI [of _ 1])
  show "taken fresh_label_pool = {}" using bm_test_full [of _ 1024] by (auto simp: taken_iff fresh_label_pool_def)
qed

lemma lm_ok_init: "lm_ok (label_pool_init s)" "labels_out (label_pool_init s) = {}"
  using fresh_pool_ok by (simp_all add: lm_ok_def labels_out_def label_pool_init_def)

lemma open_pool_0: "lm_ok s \<Longrightarrow> open_pool 0 s = Some 0"
  using taken_count(3) [of "label_pool s ! 0"] by (simp add: open_pool_def lm_ok_def upt_conv_Cons)

lemma node_create_pools [simp]: "label_pool (snd (label_table_node_create mem l m s)) = label_pool s"
  by (simp add: label_table_node_create_def label_table_node_add_def Let_def split: prod.split if_splits)

lemma node_delete_pools [simp]: "label_pool (snd (label_tabel_node_delete l s)) = label_pool s"
  by (simp add: label_tabel_node_delete_def split: option.split)

text \<open>\<open>label_alloc\<close> never leaves pool 0.\<close>

lemma label_alloc_pool:
  assumes "lm_ok s"
  obtains n p where "label_pool_alloc (label_pool s ! 0) = (n, p)"
    "label_alloc mem m s = (n + 15, snd (label_table_node_create mem (n + 15) m (s\<lparr>label_pool := (label_pool s)[0 := p]\<rparr>)))"
    "label_alloc_spec (label_pool s ! 0) (n, p)"
proof -
  obtain n p where a: "label_pool_alloc (label_pool s ! 0) = (n, p)" by fastforce
  moreover have "label_alloc_spec (label_pool s ! 0) (label_pool_alloc (label_pool s ! 0))"
    using assms label_pool_alloc_ok by (simp add: lm_ok_def)
  ultimately show thesis using that open_pool_0 [OF assms] by (simp add: label_alloc_def take_label_def Let_def)
qed

lemma pool_of_low:
  assumes "unat n < 32768" shows "pool_of (n + 15) = 0"
proof -
  have "uint n < 32768" using assms unfolding uint_nat by linarith
  then have "uint n < 2 ^ 31" by simp
  moreover have "- (2 ^ 31) \<le> uint n" by (rule order_trans [OF _ unsigned_greater_eq]) simp
  ultimately have "signed_take_bit 31 (uint n) = uint n" by (intro signed_take_bit_int_eq_self)
  then have "sint n = uint n" by (simp add: sint_uint)
  moreover have "0 \<le> uint n" by (rule unsigned_greater_eq)
  ultimately show ?thesis using \<open>uint n < 32768\<close> by (simp add: pool_of_def signed_divide_int_def)
qed

lemma label_free_ok:
  assumes ok: "lm_ok s" and n: "unat n \<in> labels_out s"
  shows "\<exists>s'. label_free (n + 15) s = Some (1, s') \<and> lm_ok s' \<and> labels_out s' = labels_out s - {unat n} \<and>
    label_table s' = label_table (snd (label_tabel_node_delete (n + 15) s))"
proof -
  have p: "label_pool_ok (label_pool s ! 0)" "aligned (label_pool s ! 0)" "length (label_pool s) = 32"
    using ok by (simp_all add: lm_ok_def)
  have "unat n < 32768" using n label_pool_size [OF p(1)] by (simp add: labels_out_def taken_iff)
  note po = pool_of_low [OF this]
  obtain q where "label_pool_free (label_pool s ! 0) n = (1, q)" "label_pool_ok q" "aligned q"
      "taken q = taken (label_pool s ! 0) - {unat n}"
    using label_pool_free_ok [OF p(1,2)] n by (auto simp: labels_out_def)
  with p po show ?thesis
    by (simp add: label_free_def on_label_pool_def lm_ok_def labels_out_def)
qed

definition alloc_label :: "(nat \<Rightarrow> nat) \<Rightarrow> u32 \<Rightarrow> label_manager \<Rightarrow> (nat \<times> label_manager) option" where
  "alloc_label mem m s = (case label_alloc mem m s of (l, s') \<Rightarrow> Some (unat (l - 15), s'))"

definition free_label :: "label_manager \<Rightarrow> nat \<Rightarrow> label_manager option" where
  "free_label s n = map_option snd (label_free (of_nat n + 15) s)"

interpretation labels: id_allocator lm_ok labels_out "alloc_label mem m" free_label
  for mem :: "nat \<Rightarrow> nat" and m :: u32
proof
  fix s n s'
  assume ok: "lm_ok s"
  then have len: "length (label_pool s) = 32" by (simp add: lm_ok_def)
  show "\<exists>n s'. alloc_label mem m s = Some (n, s')" by (simp add: alloc_label_def split: prod.split)
  show "lm_ok s' \<and> (if n = 0 then labels_out s' = labels_out s
      else n \<notin> labels_out s \<and> labels_out s' = insert n (labels_out s))" if "alloc_label mem m s = Some (n, s')"
    by (rule label_alloc_pool [OF ok, of mem m])
      (use that len in \<open>auto simp: alloc_label_def label_alloc_spec_def lm_ok_def labels_out_def unat_eq_0 split: if_splits\<close>)
  show "\<exists>s'. free_label s n = Some s' \<and> lm_ok s' \<and> labels_out s' = labels_out s - {n}"
    if n: "n \<in> labels_out s" "n \<noteq> 0"
  proof -
    have "n < 32768" using n ok label_pool_size by (auto simp: labels_out_def taken_iff lm_ok_def)
    then have "unat (of_nat n :: u32) = n" by (simp add: unat_of_nat take_bit_nat_eq_self)
    with label_free_ok [OF ok, of "of_nat n"] n show ?thesis by (auto simp: free_label_def)
  qed
qed


section \<open>Properties\<close>

lemma label_alloc_out:
  assumes "lm_ok s"
  shows "case label_alloc mem m s of (l, s') \<Rightarrow> lm_ok s' \<and>
    (if l = 15 then labels_out s' = labels_out s \<and> labels_out s = {1..<32768}
     else unat (l - 15) < 32768 \<and> unat (l - 15) \<notin> labels_out s \<and>
       (\<forall>k. 0 < k \<and> k < unat (l - 15) \<longrightarrow> k \<in> labels_out s) \<and> labels_out s' = insert (unat (l - 15)) (labels_out s))"
  by (rule label_alloc_pool [OF assms, of mem m])
    (use assms in \<open>auto simp: label_alloc_spec_def lm_ok_def labels_out_def split: if_splits\<close>)

lemma label_alloc_table:
  assumes "lm_ok s" "label_alloc mem m s = (l, s')"
  shows "label_table s' = label_table (snd (label_table_node_create mem l m s))"
proof -
  have fr: "label_table (snd (label_table_node_create mem l m (s\<lparr>label_pool := ps\<rparr>))) =
      label_table (snd (label_table_node_create mem l m s))" for ps
    by (simp add: label_table_node_create_def label_table_node_add_def Let_def split: prod.split)
  show ?thesis by (rule label_alloc_pool [OF assms(1), of mem m]) (use assms(2) fr in auto)
qed

text \<open>The table of labels in use: well-formed, and the next two addresses are new to it.\<close>

definition table_ok :: "(nat \<Rightarrow> nat) \<Rightarrow> label_manager \<Rightarrow> bool" where
  "table_ok mem s \<longleftrightarrow> hash_wf (\<lambda>_. True) (label_table s) \<and>
     mem (callocs s) \<noteq> 0 \<and> mem (callocs s + 1) \<noteq> 0 \<and> mem (callocs s + 1) \<notin> addr ` set (hash_bucket_loop (label_table s))"

lemma node_create_records:
  assumes ok: "table_ok mem s" and new: "hios_hash_find (label_table s) l = None"
    and room: "num_entries (label_table s) \<noteq> hash_size (label_table s)"
  shows "\<exists>b s'. label_table_node_create mem l m s = (True, s') \<and> hash_wf (\<lambda>_. True) (label_table s') \<and>
    data b = \<lparr>lbl = l, module_id = m, lstate = LABEL_INUSED\<rparr> \<and>
    hios_hash_find (label_table s') = (hios_hash_find (label_table s))(l \<mapsto> b)"
proof -
  let ?i = "\<lparr>addr = mem (callocs s + 1), hashval = 0, hash_key = l,
    data = \<lparr>lbl = l, module_id = m, lstate = LABEL_INUSED\<rparr>\<rparr>"
  have wf: "hash_wf (\<lambda>_. True) (label_table s)" using ok by (simp add: table_ok_def)
  obtain tab where add: "hios_hash_add (label_table s) ?i = (0, tab)"
    using room by (auto simp: hios_hash_add_def Let_def)
  have fr: "hash_fresh (label_table s) ?i"
    using ok new by (simp add: hash_fresh_def table_ok_def hios_hash_find_None_iff [OF wf])
  have "hios_hash_find tab = (hios_hash_find (label_table s))(l \<mapsto> ?i\<lparr>hashval := compute_hash (label_table s) l\<rparr>)"
    using hash.add_find [OF wf fr add] by auto
  moreover have "label_table_node_create mem l m s =
      (True, s\<lparr>callocs := callocs s + 2, label_table := tab\<rparr>)"
    using ok room add by (simp add: label_table_node_create_def label_table_node_add_def table_ok_def)
  ultimately show ?thesis
    using hash.add_inv [OF wf fr add]
    by (intro exI [of _ "?i\<lparr>hashval := compute_hash (label_table s) l\<rparr>"]
        exI [of _ "s\<lparr>callocs := callocs s + 2, label_table := tab\<rparr>"]) simp
qed

text \<open>
  C40: In the states of \<open>lm_ok\<close> \<open>label_alloc\<close> returns 15 plus the lowest free number of pool 0 and
  marks exactly it, and records in the table that the module uses the label; \<open>15\<close> itself comes
  back only when all 32767 numbers of pool 0 are out.  Not every reachable state is in
  \<open>lm_ok\<close>: when \<open>label_get\<close> has taken all labels from 16 to 46 before the first allocation, the
  pool is not \<open>aligned\<close>, and the allocation loses its place (\<open>search_loses_place\<close>).  Memory is at
  hand, and the table has room and no record of a label that is free.
\<close>

theorem label_alloc_lowest:
  assumes "lm_ok s" "table_ok mem s" "num_entries (label_table s) \<noteq> hash_size (label_table s)"
    and "\<forall>l. l = 15 \<or> unat (l - 15) \<notin> labels_out s \<longrightarrow> hios_hash_find (label_table s) l = None"
  shows "\<exists>l s' b. label_alloc mem m s = (l, s') \<and> lm_ok s' \<and>
    (if l = 15 then labels_out s' = labels_out s \<and> labels_out s = {1..<32768}
     else unat (l - 15) \<notin> labels_out s \<and> (\<forall>k. 0 < k \<and> k < unat (l - 15) \<longrightarrow> k \<in> labels_out s) \<and>
       labels_out s' = insert (unat (l - 15)) (labels_out s)) \<and>
    data b = \<lparr>lbl = l, module_id = m, lstate = LABEL_INUSED\<rparr> \<and>
    hios_hash_find (label_table s') = (hios_hash_find (label_table s))(l \<mapsto> b)"
proof -
  obtain l s' where r: "label_alloc mem m s = (l, s')" by fastforce
  note out = label_alloc_out [OF assms(1), of mem m, unfolded r prod.case]
  then have "hios_hash_find (label_table s) l = None" using assms(4) by (auto split: if_splits)
  from node_create_records [OF assms(2) this assms(3), of m] label_alloc_table [OF assms(1) r] obtain b where
    "data b = \<lparr>lbl = l, module_id = m, lstate = LABEL_INUSED\<rparr>"
    "hios_hash_find (label_table s') = (hios_hash_find (label_table s))(l \<mapsto> b)" by auto
  with out r show ?thesis by (intro exI [of _ l] exI [of _ s'] exI [of _ b]) (auto split: if_splits)
qed

definition started :: label_manager where
  "started = label_pool_init \<lparr>label_pool = [], label_table = label_table_init 0, callocs = 0\<rparr>"

lemma started_ok: "lm_ok started" "table_ok Suc started" "labels_out started = {}"
  "num_entries (label_table started) \<noteq> hash_size (label_table started)"
  "hios_hash_find (label_table started) l = None"
proof -
  show "lm_ok started" "labels_out started = {}" unfolding started_def by (rule lm_ok_init)+
  have tab: "label_table started = hios_hash_init 131072 label_table_compute_hash label_table_compare"
    by (simp add: started_def label_pool_init_def label_table_init_def)
  have wf: "hash_wf (\<lambda>_. True) (label_table started)" unfolding tab
    by (rule hios_hash_init_wf) (simp add: label_table_compare_def)
  moreover have "hash_bucket_loop (label_table started) = []"
    unfolding tab by (simp add: hios_hash_init_def hash_bucket_loop_def)
  ultimately have wf: "hash_wf (\<lambda>_. True) (label_table started)" "hash_bucket_loop (label_table started) = []"
    by blast+
  then show "table_ok Suc started" by (simp add: table_ok_def)
  show "hios_hash_find (label_table started) l = None"
    using wf(2) by (simp add: hios_hash_find_None_iff [OF wf(1)])
  show "num_entries (label_table started) \<noteq> hash_size (label_table started)"
    by (simp add: started_def label_pool_init_def label_table_init_def hios_hash_init_def)
qed

theorem label_alloc_lowest_witness:
  "\<exists>l s' b. label_alloc Suc 7 started = (l, s') \<and> l \<noteq> 15 \<and> data b = \<lparr>lbl = l, module_id = 7, lstate = LABEL_INUSED\<rparr> \<and>
    hios_hash_find (label_table s') l = Some b"
  using label_alloc_lowest [of started Suc 7, OF started_ok(1,2,4)] started_ok(3,5)
  by (auto split: if_splits)

text \<open>
  however a module interleaves \<open>label_alloc\<close> and \<open>label_free\<close> of labels it holds, from
  \<open>label_pool_init\<close> on, every call returns and no label is held twice: the labels held are
  exactly those marked in pool 0.
\<close>

theorem labels_held_once:
  "\<exists>s' held. id_run (alloc_label mem m) free_label ops (label_pool_init s, []) = Some (s', held) \<and>
    distinct held \<and> 0 \<notin> set held \<and> labels_out s' = set held"
  using labels.run_from_scratch [OF lm_ok_init(1), of mem m ops s] lm_ok_init(2) [of s]
  by (auto simp: labels_out_def taken_def)

text \<open>
  The 31 other pools are never used by \<open>label_alloc\<close>: the counter of pool 0 stays below
  its size, so when all its numbers are out every call returns the invalid label 15.
\<close>

theorem other_pools_unused:
  assumes "lm_ok s"
  shows "case label_alloc mem m s of (l, s') \<Rightarrow>
    tl (label_pool s') = tl (label_pool s) \<and> (labels_out s = {1..<32768} \<longrightarrow> l = 15 \<and> labels_out s' = labels_out s)"
proof -
  obtain l s' where r: "label_alloc mem m s = (l, s')" by fastforce
  have "tl (xs[0 := x]) = tl xs" for x :: index_bitmap and xs by (cases xs) auto
  then have "tl (label_pool s') = tl (label_pool s)"
    by - (rule label_alloc_pool [OF assms, of mem m], use r in auto)
  moreover have "l = 15" if "labels_out s = {1..<32768}"
  proof (rule ccontr)
    assume "l \<noteq> 15"
    with label_alloc_out [OF assms, of mem m] r have "unat (l - 15) < 32768" "unat (l - 15) \<notin> labels_out s" by auto
    with that have "unat (l - 15) = 0" by auto
    with \<open>l \<noteq> 15\<close> show False by (simp add: unat_eq_0)
  qed
  moreover have "l = 15 \<Longrightarrow> labels_out s' = labels_out s"
    using label_alloc_out [OF assms, of mem m] r by auto
  ultimately show ?thesis using r by auto
qed


theorem other_pools_unused_witness:
  "case label_alloc Suc 7 started of (l, s') \<Rightarrow>
    tl (label_pool s') = tl (label_pool started) \<and> (labels_out started = {1..<32768} \<longrightarrow> l = 15 \<and> labels_out s' = labels_out started)"
  by (rule other_pools_unused) (rule started_ok)

lemma set_clear: "n < 32 * length bm \<Longrightarrow> bm_test bm n \<Longrightarrow> bm_set (bm_clear bm n) n = bm"
  by (rule bm_eqI) (auto simp: bm_test_clear bm_test_set)

lemma pool_get_free:
  assumes "index_size p = 32768" "length (pbitmap p) = 1024" "bm_test (pbitmap p) (unat n mod 32768)" "n < 2 ^ 20"
  obtains q where "label_pool_get p n = (1, q)" "label_pool_free q n = (1, p)" "q \<noteq> p"
proof -
  let ?n = "unat n mod 32768"
  let ?q = "p\<lparr>pbitmap := bm_clear (pbitmap p) ?n, index_num := index_num p + 1\<rparr>"
  have big: "\<not> n \<ge> 32768 * 32" using assms(4) by (simp add: not_le)
  have len: "?n < 32 * length (pbitmap p)" using assms(2) by simp
  have m: "unat (n mod 32768) = ?n" by (simp add: unat_mod_distrib)
  have "label_pool_get p n = (1, ?q)" using assms(1,3) big m by (simp add: label_pool_get_def)
  moreover have "label_pool_free ?q n = (1, p)"
    using assms(1) big m set_clear [OF len assms(3)] by (simp add: label_pool_free_def)
  moreover have "bm_test (pbitmap ?q) ?n \<noteq> bm_test (pbitmap p) ?n"
    using bm_test_clear [OF len, of ?n] assms(3) by simp
  then have "?q \<noteq> p" by metis
  ultimately show thesis by (rule that)
qed

text \<open>
  Taking a given free label with \<open>label_get\<close> and freeing it again restores the pools bit by
  bit and every lookup in the table, for a label of any of the 32 pools.
\<close>

theorem label_get_free_roundtrip:
  assumes i: "pool_of l = int i" "i < LABEL_POOL_MAX" "length (label_pool s) = LABEL_POOL_MAX"
    and p: "index_size (label_pool s ! i) = 32768" "length (pbitmap (label_pool s ! i)) = 1024"
      "bm_test (pbitmap (label_pool s ! i)) (unat (l - 15) mod 32768)" "l - 15 < 2 ^ 20"
    and tab: "table_ok mem s" "num_entries (label_table s) \<noteq> hash_size (label_table s)"
      "hios_hash_find (label_table s) l = None"
  shows "\<exists>s1 s2. label_get mem l m s = Some (1, s1) \<and> label_free l s1 = Some (1, s2) \<and>
    label_pool s1 ! i \<noteq> label_pool s ! i \<and> hios_hash_find (label_table s1) l \<noteq> None \<and>
    label_pool s2 = label_pool s \<and> hios_hash_find (label_table s2) = hios_hash_find (label_table s)"
proof -
  obtain q where q: "label_pool_get (label_pool s ! i) (l - 15) = (1, q)"
      "label_pool_free q (l - 15) = (1, label_pool s ! i)" "q \<noteq> label_pool s ! i"
    using pool_get_free [OF p] by blast
  let ?s = "s\<lparr>label_pool := (label_pool s)[i := q]\<rparr>"
  have po: "nat (pool_of l mod 256) = i" "\<not> pool_of l \<ge> int LABEL_POOL_MAX" using i by simp_all
  have "table_ok mem ?s" using tab(1) by (simp add: table_ok_def)
  from node_create_records [OF this, of l m] tab obtain b s1 where c:
    "label_table_node_create mem l m ?s = (True, s1)" "hash_wf (\<lambda>_. True) (label_table s1)"
    "hios_hash_find (label_table s1) = (hios_hash_find (label_table s))(l \<mapsto> b)" by auto
  have ps: "label_pool s1 = (label_pool s)[i := q]" using node_create_pools [of mem l m ?s] c(1) by simp
  have get: "label_get mem l m s = Some (1, s1)"
    using i(2,3) po q(1) c(1) by (simp add: label_get_def on_label_pool_def)
  have found: "hios_hash_find (label_table s1) l = Some b" using c(3) by simp
  define s2 where "s2 = s1\<lparr>label_table := hios_hash_delete (label_table s1) b, label_pool := label_pool s\<rparr>"
  have free: "label_free l s1 = Some (1, s2)"
    using i(2,3) po ps q(2) found by (simp add: label_free_def on_label_pool_def label_tabel_node_delete_def s2_def)
  have "hios_hash_find (label_table s2) k = hios_hash_find (label_table s) k" for k
    using hash.del_found [OF c(2) found] c(3) tab(3) by (cases "k = l") (simp_all add: s2_def)
  then have "hios_hash_find (label_table s2) = hios_hash_find (label_table s)" by (rule ext)
  with get free q(3) found ps i show ?thesis by (intro exI [of _ s1] exI [of _ s2]) (simp add: s2_def)
qed

theorem label_get_free_roundtrip_witness:
  "\<exists>s1 s2. label_get Suc 1000015 7 started = Some (1, s1) \<and> label_free 1000015 s1 = Some (1, s2) \<and>
    label_pool s2 = label_pool started \<and> hios_hash_find (label_table s2) = hios_hash_find (label_table started)"
proof -
  have "pool_of 1000015 = int 30" by code_simp
  moreover have "label_pool started = replicate 32 fresh_label_pool"
    by (simp add: started_def label_pool_init_def)
  moreover have "bm_test (pbitmap fresh_label_pool) (unat (1000015 - 15 :: u32) mod 32768)"
    unfolding fresh_label_pool_def index_bitmap.select_convs by (rule bm_test_full) simp
  ultimately show ?thesis
    using label_get_free_roundtrip [of 1000015 30 started Suc 7] started_ok(2,4,5)
    by (auto simp: fresh_label_pool_def)
qed

section \<open>What else the model shows\<close>

text \<open>
  Labels 16 to 46 taken by \<open>label_get\<close> leave only number 0 in the first word; the next
  allocation returns number 64 and marks number 32, which the search has left behind.
\<close>

definition low_labels_taken :: index_bitmap where
  "low_labels_taken = fresh_label_pool\<lparr>pbitmap := 0x80000000 # replicate 1023 (- 1), index_num := 31\<rparr>"

lemma search_loses_place:
  "label_pool_alloc low_labels_taken =
    (64, low_labels_taken\<lparr>pbitmap := 0 # (- 1 AND NOT 0x80000000) # replicate 1022 (- 1), index_num := 32\<rparr>)"
proof -
  have r: "replicate 1023 x = x # replicate 1022 x" for x :: u32 by (simp add: eval_nat_numeral)
  have u: "[0..<32] = 0 # [1..<32::nat]" by (simp add: upt_conv_Cons)
  have w: "label_word 0 [0..<32] 0x80000000 = (0, None)" "label_word 2 [0..<32] (- 1) = (- 1 AND NOT 0x80000000, Some 64)"
    by (code_simp, simp only: u label_word.simps, code_simp)
  have s: "(2 :: nat) = Suc (Suc 0)" by simp
  show ?thesis
    unfolding label_pool_alloc_def low_labels_taken_def fresh_label_pool_def
    by (simp add: label_scan.simps w(1) w(2) [unfolded s] r)
qed

text \<open>Freeing a label twice wraps the counter, and pool 0 is then taken to be full.\<close>

lemma double_free_wraps:
  "index_num (snd (label_pool_free fresh_label_pool 1)) = - 1"
  "open_pool 0 (label_pool_init s\<lparr>label_pool := [snd (label_pool_free fresh_label_pool 1), fresh_label_pool]\<rparr>) = Some 1"
proof -
  have "\<not> (1 :: u32) \<ge> 32768 * 32" "(1 :: u32) mod 32768 = 1" by code_simp+
  then show n: "index_num (snd (label_pool_free fresh_label_pool 1)) = - 1"
    by (simp add: label_pool_free_def fresh_label_pool_def)
  have "index_size (snd (label_pool_free fresh_label_pool 1)) = 32768"
    by (simp add: label_pool_free_def fresh_label_pool_def)
  moreover have "\<not> (- 1 :: u32) < 32768" "(0 :: u32) < 32768" by code_simp+
  moreover have "[0..<32] = 0 # 1 # [2..<32::nat]" by (simp add: upt_conv_Cons)
  ultimately show "open_pool 0 (label_pool_init s\<lparr>label_pool :=
      [snd (label_pool_free fresh_label_pool 1), fresh_label_pool]\<rparr>) = Some 1"
    using n by (simp add: open_pool_def fresh_label_pool_def)
qed

text \<open>
  A label from pool 1 is the same number as one from pool 0, and \<open>label_min_alloc\<close> ignores the
  bound within a pool.
\<close>

lemma labels_repeat_across_pools:
  "fst (take_label 0 (label_pool_init s)) = fst (take_label 1 (label_pool_init s))"
  by (simp add: take_label_def label_pool_init_def split: prod.split)

end
