(* ===== verification/HPTimer.thy ===== *)
theory HPTimer
  imports Prelude "HOL-Library.Multiset"
begin

text \<open>
  The timer service of \<open>lib/hptimer.c\<close>: one list of timers ordered by expiry in which
  every node stores the ticks that separate it from its predecessor.  A node's address is its
  timer id; callback and argument are one value of type \<open>'a\<close>.  The abstract view is
  \<open>due\<close>: the list of ids with the ticks left.  \<open>running\<close> is the node whose callback is
  being executed and \<open>stale\<close> records that an operation wrote through an id that is no
  longer a live node, which is undefined in C.
\<close>

section \<open>Data\<close>

record 'a hp_timer =
  tid :: nat
  pFunc :: 'a
  iLoop :: bool
  iDelete :: bool
  iInterval :: int
  iTick :: int
  iTickGap :: int

record 'a hp_lists =
  pTHead :: "'a hp_timer list"
  iCount :: int
  iBasInt :: int
  tempHead :: "'a hp_timer list"
  tempCount :: int
  running :: "'a hp_timer option"
  stale :: bool

section \<open>Operations\<close>

definition high_pre_timer_init :: "int \<Rightarrow> 'a hp_lists" where
  "high_pre_timer_init iBasTimer =
     \<lparr>pTHead = [], iCount = 0, iBasInt = (if iBasTimer > 0 then iBasTimer else 10),
      tempHead = [], tempCount = 0, running = None, stale = False\<rparr>"

text \<open>The walk of \<open>high_pre_timer_subadd\<close>; \<open>acc\<close> is its local \<open>iTick\<close>.\<close>

fun subadd_walk :: "int \<Rightarrow> 'a hp_timer \<Rightarrow> 'a hp_timer list \<Rightarrow> 'a hp_timer list" where
  "subadd_walk acc t [] = [t\<lparr>iTickGap := iTick t - acc\<rparr>]"
| "subadd_walk acc t (n # ns) =
     (let acc' = acc + iTickGap n in
      if acc' < iTick t then n # subadd_walk acc' t ns
      else t\<lparr>iTickGap := iTick t + iTickGap n - acc'\<rparr> # n\<lparr>iTickGap := acc' - iTick t\<rparr> # ns)"

definition high_pre_timer_subadd :: "'a hp_timer \<Rightarrow> 'a hp_lists \<Rightarrow> 'a hp_lists" where
  "high_pre_timer_subadd t s = s\<lparr>pTHead := subadd_walk 0 t (pTHead s), iCount := iCount s + 1\<rparr>"

text \<open>\<open>addr\<close> is what \<open>malloc\<close> returns, \<open>0\<close> for NULL; C division truncates, both operands are positive.\<close>

definition high_pre_timer_add ::
  "nat \<Rightarrow> bool \<Rightarrow> 'a option \<Rightarrow> int \<Rightarrow> 'a hp_lists \<Rightarrow> nat \<times> 'a hp_lists" where
  "high_pre_timer_add addr loop func iMillSec s =
     (if iMillSec < iBasInt s then (0, s)
      else case func of
          None \<Rightarrow> (0, s)
        | Some f \<Rightarrow>
            if addr = 0 then (0, s)
            else (addr, high_pre_timer_subadd
                   \<lparr>tid = addr, pFunc = f, iLoop = loop, iDelete = False, iInterval = iMillSec,
                    iTick = iMillSec div iBasInt s, iTickGap = 0\<rparr> s))"

text \<open>Unlinking a node; its gap goes to its successor.\<close>

fun unlink_timer :: "nat \<Rightarrow> 'a hp_timer list \<Rightarrow> 'a hp_timer list" where
  "unlink_timer i [] = []"
| "unlink_timer i (t # ts) =
     (if tid t = i
      then case ts of [] \<Rightarrow> [] | n # ns \<Rightarrow> n\<lparr>iTickGap := iTickGap n + iTickGap t\<rparr> # ns
      else t # unlink_timer i ts)"

text \<open>In the list of expired timers the gaps do not matter and are left alone.\<close>

fun unlink_temp :: "nat \<Rightarrow> 'a hp_timer list \<Rightarrow> 'a hp_timer list" where
  "unlink_temp i [] = []"
| "unlink_temp i (t # ts) = (if tid t = i then ts else t # unlink_temp i ts)"

definition high_pre_timer_delete :: "nat \<Rightarrow> 'a hp_lists \<Rightarrow> int \<times> 'a hp_lists" where
  "high_pre_timer_delete i s =
     (if i = 0 then (-1, s)
      else if i \<in> tid ` set (pTHead s)
      then (0, s\<lparr>pTHead := unlink_timer i (pTHead s), iCount := iCount s - 1\<rparr>)
      else if i \<in> tid ` set (tempHead s)
      then (0, s\<lparr>tempHead := unlink_temp i (tempHead s), tempCount := tempCount s - 1\<rparr>)
      else case running s of
          Some t \<Rightarrow> if tid t = i then (-1, s\<lparr>running := Some (t\<lparr>iDelete := True\<rparr>)\<rparr>)
                    else (-1, s\<lparr>stale := True\<rparr>)
        | None \<Rightarrow> (-1, s\<lparr>stale := True\<rparr>))"

fun gap_until :: "int \<Rightarrow> nat \<Rightarrow> 'a hp_timer list \<Rightarrow> (int \<times> 'a hp_timer) option" where
  "gap_until acc i [] = None"
| "gap_until acc i (t # ts) =
     (if tid t = i then Some (acc + iTickGap t, t) else gap_until (acc + iTickGap t) i ts)"

text \<open>Both queries return the status and what they store behind \<open>plRet\<close>.\<close>

definition high_pre_timer_passtime :: "nat \<Rightarrow> 'a hp_lists \<Rightarrow> int \<times> int option" where
  "high_pre_timer_passtime i s =
     (if i = 0 then (-1, None)
      else case gap_until 0 i (pTHead s) of
          None \<Rightarrow> (-1, Some 0)
        | Some (lTick, t) \<Rightarrow> (0, Some ((iTick t - lTick) * iBasInt s)))"

definition high_pre_timer_remain :: "nat \<Rightarrow> 'a hp_lists \<Rightarrow> int \<times> int option" where
  "high_pre_timer_remain i s =
     (if i = 0 then (-1, None)
      else case gap_until 0 i (pTHead s) of
          None \<Rightarrow> (-1, Some 0)
        | Some (lTick, t) \<Rightarrow> (0, Some (lTick * iBasInt s)))"

text \<open>The part of \<open>high_pre_timer_dotick\<close> under the lock: the expired timers leave the list.\<close>

definition decr_head :: "'a hp_timer list \<Rightarrow> 'a hp_timer list" where
  "decr_head ts = (case ts of [] \<Rightarrow> [] | t # ts' \<Rightarrow> t\<lparr>iTickGap := iTickGap t - 1\<rparr> # ts')"

definition dotick_collect :: "'a hp_lists \<Rightarrow> int \<times> 'a hp_lists" where
  "dotick_collect s =
     (let ts = decr_head (pTHead s);
          expired = takeWhile (\<lambda>t. iTickGap t \<le> 0) ts;
          lCount = int (length expired)
      in (lCount,
          if lCount > 0
          then s\<lparr>pTHead := dropWhile (\<lambda>t. iTickGap t \<le> 0) ts, tempHead := expired,
                 iCount := iCount s - lCount, tempCount := lCount\<rparr>
          else s\<lparr>pTHead := ts\<rparr>))"

text \<open>
  \<open>high_pre_timer_timeout\<close>.  The callback works on the whole state \<open>'s\<close> of the process, of
  which the timer lists are the part read by \<open>getT\<close> and written by \<open>putT\<close>.  Each round pops
  one expired timer, so their number is enough fuel as long as no callback adds one.
\<close>

definition timeout_pop :: "'a hp_lists \<Rightarrow> ('a hp_timer \<times> 'a hp_lists) option" where
  "timeout_pop s =
     (case tempHead s of
        [] \<Rightarrow> None
      | t # ts \<Rightarrow> Some (t, s\<lparr>tempHead := ts, tempCount := tempCount s - 1, running := Some t\<rparr>))"

definition timeout_finish :: "'a hp_lists \<Rightarrow> 'a hp_lists" where
  "timeout_finish s =
     (case running s of
        None \<Rightarrow> s
      | Some t \<Rightarrow>
          let s = s\<lparr>running := None\<rparr>
          in if iLoop t \<and> \<not> iDelete t then high_pre_timer_subadd t s else s)"

fun high_pre_timer_timeout ::
  "('s \<Rightarrow> 'a hp_lists) \<Rightarrow> ('a hp_lists \<Rightarrow> 's \<Rightarrow> 's) \<Rightarrow> ('a \<Rightarrow> 's \<Rightarrow> 's) \<Rightarrow> nat \<Rightarrow> 's \<Rightarrow> 's option" where
  "high_pre_timer_timeout getT putT call 0 s =
     (case timeout_pop (getT s) of None \<Rightarrow> Some s | Some _ \<Rightarrow> None)"
| "high_pre_timer_timeout getT putT call (Suc n) s =
     (case timeout_pop (getT s) of
        None \<Rightarrow> Some s
      | Some (t, h) \<Rightarrow>
          let s' = call (pFunc t) (putT h s)
          in high_pre_timer_timeout getT putT call n (putT (timeout_finish (getT s')) s'))"

definition high_pre_timer_dotick ::
  "('s \<Rightarrow> 'a hp_lists) \<Rightarrow> ('a hp_lists \<Rightarrow> 's \<Rightarrow> 's) \<Rightarrow> ('a \<Rightarrow> 's \<Rightarrow> 's) \<Rightarrow> 's \<Rightarrow> 's option" where
  "high_pre_timer_dotick getT putT call s =
     (let (lCount, h) = dotick_collect (getT s)
      in if lCount > 0 then high_pre_timer_timeout getT putT call (nat lCount) (putT h s)
         else Some (putT h s))"


section \<open>The abstract view\<close>

fun due :: "int \<Rightarrow> 'a hp_timer list \<Rightarrow> (nat \<times> int) list" where
  "due acc [] = []"
| "due acc (t # ts) = (tid t, acc + iTickGap t) # due (acc + iTickGap t) ts"

definition remaining :: "'a hp_lists \<Rightarrow> nat \<Rightarrow> int option" where
  "remaining s = map_of (due 0 (pTHead s))"

lemma fst_due [simp]: "map fst (due acc ts) = map tid ts"
  by (induction ts arbitrary: acc) auto

lemma length_due [simp]: "length (due acc ts) = length ts"
  by (induction ts arbitrary: acc) auto

lemma due_shift: "due (acc + d) ts = map (\<lambda>(i, r). (i, r + d)) (due acc ts)"
proof (induction ts arbitrary: acc)
  case (Cons t ts)
  from Cons [of "acc + iTickGap t"] show ?case by (simp add: add.commute add.left_commute)
qed simp

lemma map_of_shift: "map_of (map (\<lambda>(i, r). (i, r + d)) xs) i = map_option (\<lambda>r. r + d) (map_of xs i)"
  for d :: int
  by (induction xs) auto

lemma map_of_due_None: "map_of (due acc ts) i = None \<longleftrightarrow> i \<notin> tid ` set ts"
proof -
  have "fst ` set (due acc ts) = tid ` set ts"
    by (metis fst_due list.set_map)
  then show ?thesis by (simp add: map_of_eq_None_iff)
qed

lemma remaining_None: "remaining s i = None \<longleftrightarrow> i \<notin> tid ` set (pTHead s)"
  by (simp add: remaining_def map_of_due_None)

subsection \<open>Well-formed lists\<close>

text \<open>Every partial sum of gaps is at most the timer's own tick count, so it fits an \<open>int\<close>.\<close>

fun gaps_ok :: "int \<Rightarrow> 'a hp_timer list \<Rightarrow> bool" where
  "gaps_ok acc [] = True"
| "gaps_ok acc (t # ts) = (0 \<le> iTickGap t \<and> acc + iTickGap t \<le> iTick t \<and> gaps_ok (acc + iTickGap t) ts)"

definition live :: "'a hp_lists \<Rightarrow> 'a hp_timer list" where
  "live s = pTHead s @ tempHead s @ (case running s of None \<Rightarrow> [] | Some t \<Rightarrow> [t])"

definition hp_wf :: "'a hp_lists \<Rightarrow> bool" where
  "hp_wf s \<longleftrightarrow> 0 < iBasInt s \<and> gaps_ok 0 (pTHead s) \<and>
     (pTHead s \<noteq> [] \<longrightarrow> 0 < iTickGap (hd (pTHead s))) \<and>
     distinct (map tid (live s)) \<and> (\<forall>t \<in> set (live s). tid t \<noteq> 0 \<and> 0 < iTick t) \<and>
     iCount s = int (length (pTHead s)) \<and> tempCount s = int (length (tempHead s))"

lemma hp_wf_pos: "hp_wf s \<Longrightarrow> 0 < iBasInt s"
  by (simp add: hp_wf_def)

lemma due_ge: "gaps_ok acc ts \<Longrightarrow> (i, r) \<in> set (due acc ts) \<Longrightarrow> acc \<le> r"
  by (induction acc ts rule: gaps_ok.induct) fastforce+

lemma due_sorted: "gaps_ok acc ts \<Longrightarrow> sorted (map snd (due acc ts))"
  by (induction acc ts rule: gaps_ok.induct) (auto dest: due_ge)

lemma remaining_pos:
  assumes "hp_wf s" "remaining s i = Some r" shows "0 < r"
proof (cases "pTHead s")
  case Nil
  then show ?thesis using assms(2) by (simp add: remaining_def)
next
  case (Cons t ts)
  have "(i, r) \<in> set (due 0 (pTHead s))"
    using assms(2) by (simp add: remaining_def map_of_SomeD)
  then show ?thesis
    using assms(1) Cons due_ge [of "iTickGap t" ts i r] by (auto simp: hp_wf_def)
qed

subsection \<open>Adding a timer\<close>

lemma set_subadd_walk: "tid ` set (subadd_walk acc t ts) = insert (tid t) (tid ` set ts)"
  by (induction acc t ts rule: subadd_walk.induct) (auto simp: Let_def)

lemma mset_tid_subadd: "mset (map tid (subadd_walk acc t ts)) = add_mset (tid t) (mset (map tid ts))"
  by (induction acc t ts rule: subadd_walk.induct) (auto simp: Let_def)

lemma length_subadd [simp]: "length (subadd_walk acc t ts) = Suc (length ts)"
  by (induction acc t ts rule: subadd_walk.induct) (auto simp: Let_def)

lemma due_subadd:
  "tid t \<notin> tid ` set ts \<Longrightarrow> map_of (due acc (subadd_walk acc t ts)) = (map_of (due acc ts))(tid t \<mapsto> iTick t)"
proof (induction acc t ts rule: subadd_walk.induct)
  case (2 acc t n ns)
  then show ?case
    by (auto simp: Let_def fun_upd_twist algebra_simps)
qed simp

lemma gaps_subadd: "gaps_ok acc ts \<Longrightarrow> acc \<le> iTick t \<Longrightarrow> gaps_ok acc (subadd_walk acc t ts)"
  by (induction acc t ts rule: subadd_walk.induct) (auto simp: Let_def)

lemma hd_gap_subadd:
  assumes "0 < iTick t" "ts \<noteq> [] \<Longrightarrow> 0 < iTickGap (hd ts)"
  shows "0 < iTickGap (hd (subadd_walk 0 t ts))"
  using assms by (cases ts) (auto simp: Let_def)

lemma subadd_iTick: "x \<in> set (subadd_walk acc t ts) \<Longrightarrow> \<exists>y \<in> insert t (set ts). tid x = tid y \<and> iTick x = iTick y"
  by (induction acc t ts rule: subadd_walk.induct) (fastforce simp: Let_def split: if_splits)+

lemma subadd_wf:
  assumes wf: "hp_wf s" and t: "tid t \<notin> tid ` set (live s)" "tid t \<noteq> 0" "0 < iTick t"
  shows "hp_wf (high_pre_timer_subadd t s)"
    and "remaining (high_pre_timer_subadd t s) = (remaining s)(tid t \<mapsto> iTick t)"
proof -
  have nt: "tid t \<notin> tid ` set (pTHead s)" using t(1) by (auto simp: live_def)
  show "remaining (high_pre_timer_subadd t s) = (remaining s)(tid t \<mapsto> iTick t)"
    using due_subadd [OF nt] by (simp add: remaining_def high_pre_timer_subadd_def)
  let ?s = "high_pre_timer_subadd t s"
  have "mset (map tid (live ?s)) = add_mset (tid t) (mset (map tid (live s)))"
    by (simp add: live_def high_pre_timer_subadd_def mset_tid_subadd del: mset_map)
  then have d: "distinct (map tid (live ?s))"
    using wf t(1) by (metis distinct.simps(2) hp_wf_def list.set_map mset.simps(2) mset_eq_imp_distinct_iff)
  have "\<forall>x \<in> set (live ?s). tid x \<noteq> 0 \<and> 0 < iTick x"
  proof
    fix x assume "x \<in> set (live ?s)"
    then consider "x \<in> set (subadd_walk 0 t (pTHead s))" | "x \<in> set (live s)"
      by (auto simp: live_def high_pre_timer_subadd_def)
    then show "tid x \<noteq> 0 \<and> 0 < iTick x"
    proof cases
      case 1
      then obtain y where "y \<in> insert t (set (pTHead s))" "tid x = tid y" "iTick x = iTick y"
        using subadd_iTick by blast
      then show ?thesis using wf t by (auto simp: hp_wf_def live_def)
    qed (use wf in \<open>simp add: hp_wf_def\<close>)
  qed
  with wf t d show "hp_wf ?s"
    using gaps_subadd [of 0 "pTHead s" t] hd_gap_subadd [of t "pTHead s"]
    by (simp add: hp_wf_def high_pre_timer_subadd_def)
qed


lemma hp_add_ok:
  assumes wf: "hp_wf s" and a: "a \<noteq> 0" "a \<notin> tid ` set (live s)" and ms: "iBasInt s \<le> ms"
  shows "\<exists>s'. high_pre_timer_add a loop (Some f) ms s = (a, s') \<and> hp_wf s' \<and>
    remaining s' = (remaining s)(a \<mapsto> ms div iBasInt s) \<and> iBasInt s' = iBasInt s"
proof -
  let ?t = "\<lparr>tid = a, pFunc = f, iLoop = loop, iDelete = False, iInterval = ms,
    iTick = ms div iBasInt s, iTickGap = 0\<rparr>"
  have "0 < ms div iBasInt s" using ms hp_wf_pos [OF wf] by (simp add: pos_imp_zdiv_pos_iff)
  then have "hp_wf (high_pre_timer_subadd ?t s)"
    "remaining (high_pre_timer_subadd ?t s) = (remaining s)(a \<mapsto> ms div iBasInt s)"
    using subadd_wf [OF wf, of ?t] a by simp_all
  moreover have "high_pre_timer_add a loop (Some f) ms s = (a, high_pre_timer_subadd ?t s)"
    using a(1) ms by (simp add: high_pre_timer_add_def)
  moreover have "iBasInt (high_pre_timer_subadd ?t s) = iBasInt s"
    by (simp add: high_pre_timer_subadd_def)
  ultimately show ?thesis by blast
qed

lemma hp_add_fails:
  "ms < iBasInt s \<or> f = None \<or> a = 0 \<Longrightarrow> high_pre_timer_add a loop f ms s = (0, s)"
  by (auto simp: high_pre_timer_add_def split: option.split)

subsection \<open>Deleting a timer\<close>

lemma tid_unlink: "map tid (unlink_timer i ts) = remove1 i (map tid ts)"
  by (induction i ts rule: unlink_timer.induct) (auto split: list.split)

lemma tid_unlink_temp: "map tid (unlink_temp i ts) = remove1 i (map tid ts)"
  by (induction i ts rule: unlink_temp.induct) auto

lemma length_unlink: "i \<in> tid ` set ts \<Longrightarrow> length (unlink_timer i ts) = length ts - 1"
  by (metis length_map length_remove1 list.set_map tid_unlink)

lemma length_unlink_temp: "i \<in> tid ` set ts \<Longrightarrow> length (unlink_temp i ts) = length ts - 1"
  by (metis length_map length_remove1 list.set_map tid_unlink_temp)

lemma due_unlink:
  "distinct (map tid ts) \<Longrightarrow> map_of (due acc (unlink_timer i ts)) = (map_of (due acc ts))(i := None)"
proof (induction ts arbitrary: acc)
  case (Cons t ts)
  show ?case
  proof (cases "tid t = i")
    case True
    with Cons.prems have none: "map_of (due (acc + iTickGap t) ts) i = None"
      by (auto simp: map_of_due_None)
    have "due acc (unlink_timer i (t # ts)) = due (acc + iTickGap t) ts"
      using True by (cases ts) (simp_all add: algebra_simps)
    with none True show ?thesis by (auto simp: fun_eq_iff)
  next
    case False
    with Cons show ?thesis by (auto simp: fun_upd_twist)
  qed
qed simp

lemma gaps_unlink: "gaps_ok acc ts \<Longrightarrow> gaps_ok acc (unlink_timer i ts)"
proof (induction acc ts rule: gaps_ok.induct)
  case (2 acc t ts)
  show ?case
  proof (cases "tid t = i")
    case True
    with 2 show ?thesis by (cases ts) (simp_all add: ac_simps)
  next
    case False
    with 2 show ?thesis by simp
  qed
qed simp

lemma hd_gap_unlink:
  "gaps_ok 0 ts \<Longrightarrow> ts \<noteq> [] \<Longrightarrow> 0 < iTickGap (hd ts) \<Longrightarrow> unlink_timer i ts \<noteq> []
    \<Longrightarrow> 0 < iTickGap (hd (unlink_timer i ts))"
  by (cases ts) (auto split: list.splits)

lemma unlink_iTick: "x \<in> set (unlink_timer i ts) \<Longrightarrow> \<exists>y \<in> set ts. tid x = tid y \<and> iTick x = iTick y"
proof (induction ts)
  case (Cons t ts)
  show ?case
  proof (cases "tid t = i")
    case True
    with Cons.prems show ?thesis by (cases ts) auto
  next
    case False
    with Cons show ?thesis by auto
  qed
qed simp

lemma unlink_temp_subset: "set (unlink_temp i ts) \<subseteq> set ts"
  by (induction i ts rule: unlink_temp.induct) auto

text \<open>A live timer that is not the running one is deleted without a trace.\<close>

lemma hp_delete_ok:
  assumes wf: "hp_wf s" and i: "i \<in> tid ` (set (pTHead s) \<union> set (tempHead s))"
  shows "\<exists>s'. high_pre_timer_delete i s = (0, s') \<and> hp_wf s' \<and> remaining s' = (remaining s)(i := None) \<and>
    tid ` set (live s') = tid ` set (live s) - {i} \<and> stale s' = stale s \<and>
    iBasInt s' = iBasInt s \<and> running s' = running s"
proof -
  have d: "distinct (map tid (live s))" using wf by (simp add: hp_wf_def)
  obtain x where "x \<in> set (live s)" "tid x = i" using i by (auto simp: live_def)
  then have nz: "i \<noteq> 0" using wf by (auto simp: hp_wf_def)
  let ?run = "case running s of None \<Rightarrow> [] | Some t \<Rightarrow> [t]"
  show ?thesis
  proof (cases "i \<in> tid ` set (pTHead s)")
    case True
    let ?s = "s\<lparr>pTHead := unlink_timer i (pTHead s), iCount := iCount s - 1\<rparr>"
    have del: "high_pre_timer_delete i s = (0, ?s)" using True nz by (simp add: high_pre_timer_delete_def)
    have tids: "map tid (live ?s) = remove1 i (map tid (live s))"
      using True by (simp add: live_def tid_unlink remove1_append)
    have "distinct (map tid (live ?s))" unfolding tids using d by (rule distinct_remove1)
    moreover have "\<forall>x \<in> set (live ?s). tid x \<noteq> 0 \<and> 0 < iTick x"
    proof
      fix x assume "x \<in> set (live ?s)"
      then have "\<exists>y \<in> set (live s). tid x = tid y \<and> iTick x = iTick y"
        using unlink_iTick [of x i "pTHead s"] by (auto simp: live_def)
      with wf show "tid x \<noteq> 0 \<and> 0 < iTick x" unfolding hp_wf_def by metis
    qed
    moreover have "int (length (unlink_timer i (pTHead s))) = int (length (pTHead s)) - 1"
      using True length_unlink [OF True] by (cases "pTHead s") auto
    moreover have "pTHead s \<noteq> []" using True by auto
    ultimately have "hp_wf ?s"
      using wf gaps_unlink [of 0 "pTHead s" i] hd_gap_unlink [of "pTHead s" i]
      by (auto simp: hp_wf_def)
    moreover have "remaining ?s = (remaining s)(i := None)"
      using d by (simp add: remaining_def due_unlink live_def)
    moreover have "tid ` set (live ?s) = tid ` set (live s) - {i}"
      using tids d by (metis list.set_map set_remove1_eq)
    ultimately show ?thesis using del by (intro exI [of _ ?s]) simp
  next
    case False
    with i have t: "i \<in> tid ` set (tempHead s)" by auto
    let ?s = "s\<lparr>tempHead := unlink_temp i (tempHead s), tempCount := tempCount s - 1\<rparr>"
    have del: "high_pre_timer_delete i s = (0, ?s)" using False t nz by (simp add: high_pre_timer_delete_def)
    have tids: "map tid (live ?s) = remove1 i (map tid (live s))"
      using False t by (simp add: live_def tid_unlink_temp remove1_append)
    have "distinct (map tid (live ?s))" unfolding tids using d by (rule distinct_remove1)
    moreover have "set (live ?s) \<subseteq> set (live s)" using unlink_temp_subset by (auto simp: live_def)
    moreover have "int (length (unlink_temp i (tempHead s))) = int (length (tempHead s)) - 1"
      using t length_unlink_temp [OF t] by (cases "tempHead s") auto
    ultimately have "hp_wf ?s"
      using wf by (auto simp: hp_wf_def)
    moreover have "remaining ?s = (remaining s)(i := None)"
      using False remaining_None [of s i] by (auto simp: remaining_def)
    moreover have "tid ` set (live ?s) = tid ` set (live s) - {i}"
      using tids d by (metis list.set_map set_remove1_eq)
    ultimately show ?thesis using del by (intro exI [of _ ?s]) simp
  qed
qed

subsection \<open>One tick\<close>

text \<open>The ids of the timers a tick takes out, in the order in which their callbacks run.\<close>

definition expired_ids :: "'a hp_lists \<Rightarrow> nat list" where
  "expired_ids s = map tid (takeWhile (\<lambda>t. iTickGap t \<le> 0) (decr_head (pTHead s)))"

lemma due_decr_head: "due 0 (decr_head ts) = map (\<lambda>(i, r). (i, r - 1)) (due 0 ts)"
proof (cases ts)
  case (Cons t ts')
  then show ?thesis using due_shift [of "iTickGap t" "-1" ts'] by (simp add: decr_head_def)
qed (simp add: decr_head_def)

lemma take_zero_gaps:
  assumes "\<forall>t \<in> set ts. 0 \<le> iTickGap t"
  shows "due acc (takeWhile (\<lambda>t. iTickGap t \<le> 0) ts) = takeWhile (\<lambda>(i, r). r \<le> acc) (due acc ts) \<and>
    due acc (dropWhile (\<lambda>t. iTickGap t \<le> 0) ts) = dropWhile (\<lambda>(i, r). r \<le> acc) (due acc ts)"
  using assms
proof (induction ts arbitrary: acc)
  case (Cons t ts)
  then show ?case by (cases "iTickGap t = 0") auto
qed simp

lemma gaps_nonneg: "gaps_ok acc ts \<Longrightarrow> t \<in> set ts \<Longrightarrow> 0 \<le> iTickGap t"
  by (induction acc ts rule: gaps_ok.induct) auto

lemma takeWhile_sorted:
  "sorted (map snd xs) \<Longrightarrow> takeWhile (\<lambda>(i, r). r \<le> k) xs = filter (\<lambda>(i, r). r \<le> k) xs \<and>
    dropWhile (\<lambda>(i, r). r \<le> k) xs = filter (\<lambda>(i, r). \<not> r \<le> k) xs"
  for k :: int
proof (induction xs)
  case (Cons x xs)
  show ?case
  proof (cases "snd x \<le> k")
    case True
    with Cons show ?thesis by (auto simp: split_def)
  next
    case False
    with Cons.prems have "\<forall>y \<in> set xs. \<not> snd y \<le> k" by fastforce
    then have "filter (\<lambda>(i, r). r \<le> k) xs = []" "filter (\<lambda>(i, r). \<not> r \<le> k) xs = xs"
      by (auto simp: filter_empty_conv split_def intro!: filter_True)
    with False show ?thesis by (simp add: split_def)
  qed
qed simp

lemma sorted_minus: "sorted xs \<Longrightarrow> sorted (map (\<lambda>r. r - d) xs)" for d :: int
  by (induction xs) auto

lemma decr_head_nonneg:
  assumes "gaps_ok 0 ts" "ts \<noteq> [] \<longrightarrow> 0 < iTickGap (hd ts)"
  shows "\<forall>t \<in> set (decr_head ts). 0 \<le> iTickGap t"
  using assms gaps_nonneg by (cases ts) (auto simp: decr_head_def)

text \<open>What the tick leaves and what it takes out, in terms of the ticks left.\<close>

lemma tick_due:
  assumes "hp_wf s"
  shows "due 0 (dropWhile (\<lambda>t. iTickGap t \<le> 0) (decr_head (pTHead s))) =
      map (\<lambda>(i, r). (i, r - 1)) (filter (\<lambda>(i, r). 1 < r) (due 0 (pTHead s)))"
    and "expired_ids s = map fst (filter (\<lambda>(i, r). r = 1) (due 0 (pTHead s)))"
proof -
  let ?ts = "pTHead s" and ?ts' = "decr_head (pTHead s)"
  have nn: "\<forall>t \<in> set ?ts'. 0 \<le> iTickGap t"
    by (rule decr_head_nonneg) (use assms in \<open>auto simp: hp_wf_def\<close>)
  have "sorted (map snd (due 0 ?ts))" using assms by (simp add: hp_wf_def due_sorted)
  then have "sorted (map snd (due 0 ?ts'))"
    using sorted_minus [of "map snd (due 0 ?ts)" 1] by (simp add: due_decr_head comp_def split_def)
  note w = takeWhile_sorted [OF this, of 0]
  have pos: "\<forall>(i, r) \<in> set (due 0 ?ts). 0 < r"
  proof (cases ?ts)
    case (Cons t ts)
    then show ?thesis using assms due_ge [of "iTickGap t" ts] by (fastforce simp: hp_wf_def)
  qed simp
  show "due 0 (dropWhile (\<lambda>t. iTickGap t \<le> 0) ?ts') =
      map (\<lambda>(i, r). (i, r - 1)) (filter (\<lambda>(i, r). 1 < r) (due 0 ?ts))"
    using take_zero_gaps [OF nn, of 0] w
    by (simp add: due_decr_head filter_map comp_def split_def not_le)
  have "expired_ids s = map fst (due 0 (takeWhile (\<lambda>t. iTickGap t \<le> 0) ?ts'))"
    by (simp add: expired_ids_def)
  also have "\<dots> = map fst (filter (\<lambda>(i, r). r \<le> 1) (due 0 ?ts))"
    using take_zero_gaps [OF nn, of 0] w
    by (simp add: due_decr_head filter_map comp_def split_def)
  also have "filter (\<lambda>(i, r). r \<le> 1) (due 0 ?ts) = filter (\<lambda>(i, r). r = 1) (due 0 ?ts)"
    by (rule filter_cong) (use pos in fastforce)+
  finally show "expired_ids s = map fst (filter (\<lambda>(i, r). r = 1) (due 0 ?ts))" .
qed


lemma map_of_filter_val:
  "distinct (map fst xs) \<Longrightarrow> map_of (filter (\<lambda>(i, r). P r) xs) i =
    (case map_of xs i of None \<Rightarrow> None | Some r \<Rightarrow> if P r then Some r else None)"
proof (induction xs)
  case (Cons x xs)
  have "\<not> P (snd x) \<Longrightarrow> map_of xs (fst x) = None" using Cons.prems by (simp add: map_of_eq_None_iff)
  with Cons show ?case by (cases "fst x = i") (auto simp: split_def)
qed simp

lemma distinct_due: "hp_wf s \<Longrightarrow> distinct (map fst (due 0 (pTHead s)))"
  by (simp add: hp_wf_def live_def)

text \<open>What a node keeps for good: its repetition flag and its tick count.\<close>

definition attrs :: "'a hp_timer list \<Rightarrow> (nat \<times> bool \<times> int) list" where
  "attrs ts = map (\<lambda>t. (tid t, iLoop t, iTick t)) ts"

definition period :: "'a hp_lists \<Rightarrow> nat \<Rightarrow> int option" where
  "period s i = (case map_of (attrs (pTHead s)) i of Some (True, n) \<Rightarrow> Some n | _ \<Rightarrow> None)"

lemma fst_attrs [simp]: "map fst (attrs ts) = map tid ts"
  by (simp add: attrs_def)

lemma attrs_append: "attrs (us @ vs) = attrs us @ attrs vs"
  by (simp add: attrs_def)

lemma length_attrs [simp]: "length (attrs ts) = length ts"
  by (simp add: attrs_def)

lemma attrs_subadd:
  "tid t \<notin> tid ` set ts \<Longrightarrow>
   map_of (attrs (subadd_walk acc t ts)) = (map_of (attrs ts))(tid t \<mapsto> (iLoop t, iTick t))"
  by (induction acc t ts rule: subadd_walk.induct) (auto simp: attrs_def Let_def)

lemma attrs_unlink:
  "distinct (map tid ts) \<Longrightarrow> map_of (attrs (unlink_timer i ts)) = (map_of (attrs ts))(i := None)"
proof (induction ts)
  case (Cons t ts)
  show ?case
  proof (cases "tid t = i")
    case True
    with Cons.prems have "map_of (attrs ts) i = None"
      by (auto simp: attrs_def map_of_eq_None_iff)
    moreover have "attrs (unlink_timer i (t # ts)) = attrs ts"
      using True by (cases ts) (simp_all add: attrs_def)
    ultimately show ?thesis using True by (auto simp: attrs_def fun_eq_iff)
  next
    case False
    with Cons show ?thesis by (auto simp: attrs_def)
  qed
qed (simp add: attrs_def)

lemma attrs_decr_head [simp]: "attrs (decr_head ts) = attrs ts"
  by (cases ts) (simp_all add: decr_head_def attrs_def)

subsection \<open>Collecting the expired timers\<close>

lemma gaps_ok_drop:
  "gaps_ok acc ts \<Longrightarrow> (\<forall>t \<in> set us. iTickGap t = 0) \<Longrightarrow> ts = us @ vs \<Longrightarrow> gaps_ok acc vs"
  by (induction us arbitrary: ts) auto

lemma gaps_ok_decr_head:
  assumes "gaps_ok 0 ts" "ts \<noteq> [] \<longrightarrow> 0 < iTickGap (hd ts)"
  shows "gaps_ok 0 (decr_head ts)"
proof -
  have "gaps_ok (acc - 1) us" if "gaps_ok acc us" for acc and us :: "'a hp_timer list"
    using that by (induction acc us rule: gaps_ok.induct) (auto simp: algebra_simps)
  then show ?thesis using assms by (cases ts) (auto simp: decr_head_def)
qed

lemma dotick_collect_ok:
  assumes wf: "hp_wf s" and idle: "tempHead s = []" and c: "dotick_collect s = (n, s')"
  shows "hp_wf s'" "map tid (tempHead s') = expired_ids s" "n = int (length (tempHead s'))"
    "mset (attrs (pTHead s' @ tempHead s')) = mset (attrs (pTHead s))"
    "iBasInt s' = iBasInt s" "running s' = running s" "stale s' = stale s"
    "remaining s' i = (case remaining s i of None \<Rightarrow> None | Some r \<Rightarrow> if r \<le> 1 then None else Some (r - 1))"
proof -
  let ?ts = "decr_head (pTHead s)" and ?P = "\<lambda>t :: 'a hp_timer. iTickGap t \<le> 0"
  have nn: "\<forall>t \<in> set ?ts. 0 \<le> iTickGap t"
    by (rule decr_head_nonneg) (use wf in \<open>auto simp: hp_wf_def\<close>)
  have s': "pTHead s' = dropWhile ?P ?ts" "tempHead s' = takeWhile ?P ?ts"
    "iCount s' = iCount s - int (length (takeWhile ?P ?ts))" "tempCount s' = int (length (takeWhile ?P ?ts))"
    "iBasInt s' = iBasInt s" "running s' = running s" "stale s' = stale s"
    and n: "n = int (length (takeWhile ?P ?ts))"
  proof -
    have "takeWhile ?P ?ts = [] \<Longrightarrow> dropWhile ?P ?ts = ?ts" by (metis append_Nil takeWhile_dropWhile_id)
    then show "pTHead s' = dropWhile ?P ?ts" "tempHead s' = takeWhile ?P ?ts"
      "iCount s' = iCount s - int (length (takeWhile ?P ?ts))" "tempCount s' = int (length (takeWhile ?P ?ts))"
      "iBasInt s' = iBasInt s" "running s' = running s" "stale s' = stale s"
      "n = int (length (takeWhile ?P ?ts))"
      using c idle wf by (auto simp: dotick_collect_def Let_def hp_wf_def split: if_splits)
  qed
  show "map tid (tempHead s') = expired_ids s" "n = int (length (tempHead s'))"
    "iBasInt s' = iBasInt s" "running s' = running s" "stale s' = stale s"
    using s' n by (simp_all add: expired_ids_def)
  have at: "attrs (takeWhile ?P ?ts) @ attrs (dropWhile ?P ?ts) = attrs (pTHead s)"
    by (simp add: attrs_append [symmetric])
  from arg_cong [OF at, of mset] show m: "mset (attrs (pTHead s' @ tempHead s')) = mset (attrs (pTHead s))"
    by (simp add: attrs_append s' union_commute)
  have tids: "mset (map tid (live s')) = mset (map tid (live s))"
  proof -
    have "mset (map tid (pTHead s' @ tempHead s')) = mset (map tid (pTHead s))"
      using m by (metis fst_attrs mset_map)
    then show ?thesis using idle s'(6) by (simp add: live_def)
  qed
  then have "distinct (map tid (live s'))" using wf by (metis hp_wf_def mset_eq_imp_distinct_iff)
  moreover have "\<forall>x \<in> set (live s'). tid x \<noteq> 0 \<and> 0 < iTick x"
  proof
    fix x assume x: "x \<in> set (live s')"
    have old: "\<forall>y \<in> set (live s). tid y \<noteq> 0 \<and> 0 < iTick y" using wf by (simp add: hp_wf_def)
    from x consider "x \<in> set ?ts" | "Some x = running s"
      by (auto simp: live_def s' dest: set_takeWhileD set_dropWhileD split: option.splits)
    then show "tid x \<noteq> 0 \<and> 0 < iTick x"
    proof cases
      case 1
      then have "\<exists>y \<in> set (pTHead s). tid x = tid y \<and> iTick x = iTick y"
        by (cases "pTHead s") (auto simp: decr_head_def)
      with old show ?thesis by (auto simp: live_def)
    next
      case 2
      with old show ?thesis by (auto simp: live_def split: option.splits)
    qed
  qed
  moreover have "gaps_ok 0 (pTHead s')"
  proof (rule gaps_ok_drop)
    show "gaps_ok 0 ?ts" by (rule gaps_ok_decr_head) (use wf in \<open>auto simp: hp_wf_def\<close>)
    show "\<forall>t \<in> set (takeWhile ?P ?ts). iTickGap t = 0" using nn by (fastforce dest: set_takeWhileD)
    show "?ts = takeWhile ?P ?ts @ pTHead s'" by (simp add: s')
  qed
  moreover have "pTHead s' \<noteq> [] \<longrightarrow> 0 < iTickGap (hd (pTHead s'))"
    using hd_dropWhile [of ?P ?ts] unfolding s' by linarith
  moreover have "iCount s' = int (length (pTHead s'))"
  proof -
    have "length (pTHead s) = length (takeWhile ?P ?ts) + length (dropWhile ?P ?ts)"
      using arg_cong [OF at, of length] by simp
    then show ?thesis using wf s' by (simp add: hp_wf_def)
  qed
  ultimately show "hp_wf s'" using wf s' by (simp add: hp_wf_def)
  have "remaining s' i = map_option (\<lambda>r. r + - 1) (map_of (filter (\<lambda>(i, r). 1 < r) (due 0 (pTHead s))) i)"
    using tick_due(1) [OF wf] map_of_shift [of "-1"] by (simp add: remaining_def s')
  also have "\<dots> = (case remaining s i of None \<Rightarrow> None | Some r \<Rightarrow> if r \<le> 1 then None else Some (r - 1))"
    by (simp add: map_of_filter_val [OF distinct_due [OF wf]] remaining_def split: option.split)
  finally show "remaining s' i = (case remaining s i of None \<Rightarrow> None | Some r \<Rightarrow> if r \<le> 1 then None else Some (r - 1))" .
qed


subsection \<open>Running the expired timers\<close>

text \<open>Whatever the callbacks do, the tick ends if none of them adds to the list of expired timers.\<close>

lemma tempHead_finish [simp]: "tempHead (timeout_finish h) = tempHead h"
  by (simp add: timeout_finish_def high_pre_timer_subadd_def Let_def split: option.split)

lemma timeout_terminates:
  assumes lens: "\<And>h s. getT (putT h s) = h"
    and call: "\<And>f s. length (tempHead (getT (call f s))) \<le> length (tempHead (getT s))"
  shows "length (tempHead (getT s)) \<le> n \<Longrightarrow> \<exists>s'. high_pre_timer_timeout getT putT call n s = Some s'"
proof (induction n arbitrary: s)
  case 0
  then show ?case by (simp add: timeout_pop_def)
next
  case (Suc n)
  show ?case
  proof (cases "tempHead (getT s)")
    case Nil
    then show ?thesis by (simp add: timeout_pop_def)
  next
    case (Cons t ts)
    let ?h = "(getT s)\<lparr>tempHead := ts, tempCount := tempCount (getT s) - 1, running := Some t\<rparr>"
    let ?s = "call (pFunc t) (putT ?h s)"
    have "length (tempHead (getT ?s)) \<le> length ts" using call [of "pFunc t" "putT ?h s"] by (simp add: lens)
    then have "length (tempHead (getT (putT (timeout_finish (getT ?s)) ?s))) \<le> n"
      using Suc.prems Cons by (simp add: lens)
    from Suc.IH [OF this] show ?thesis by (simp add: timeout_pop_def Cons Let_def)
  qed
qed

text \<open>Neither deleting nor adding a timer lengthens the list of expired ones.\<close>

lemma unlink_temp_shorter: "length (unlink_temp i ts) \<le> length ts"
  by (induction ts) auto

lemma delete_shorter: "length (tempHead (snd (high_pre_timer_delete i h))) \<le> length (tempHead h)"
  by (simp add: high_pre_timer_delete_def unlink_temp_shorter split: option.split)

lemma add_same_temp: "high_pre_timer_add a l f n h = (i, h') \<Longrightarrow> tempHead h' = tempHead h"
  by (auto simp: high_pre_timer_add_def high_pre_timer_subadd_def split: if_splits option.splits)

lemma dotick_terminates:
  assumes lens: "\<And>h s. getT (putT h s) = h"
    and call: "\<And>f s. length (tempHead (getT (call f s))) \<le> length (tempHead (getT s))"
  shows "\<exists>s'. high_pre_timer_dotick getT putT call s = Some s'"
proof -
  obtain n h where c: "dotick_collect (getT s) = (n, h)" by (cases "dotick_collect (getT s)")
  show ?thesis
  proof (cases "n > 0")
    case True
    then have "length (tempHead h) = nat n"
      using c by (auto simp: dotick_collect_def Let_def)
    then have "length (tempHead (getT (putT h s))) \<le> nat n" by (simp add: lens)
    from timeout_terminates [of getT putT call, OF lens call this] c True show ?thesis
      by (simp add: high_pre_timer_dotick_def)
  qed (simp add: high_pre_timer_dotick_def c)
qed

text \<open>With callbacks that leave the timers alone a tick re-arms the loop timers it expired.\<close>

definition idle_dotick :: "'a hp_lists \<Rightarrow> 'a hp_lists option" where
  "idle_dotick s = high_pre_timer_dotick (\<lambda>s. s) (\<lambda>h _. h) (\<lambda>_ s. s) s"

definition no_delete :: "'a hp_lists \<Rightarrow> bool" where
  "no_delete s \<longleftrightarrow> (\<forall>t \<in> set (live s). \<not> iDelete t)"

lemma subadd_iDelete: "x \<in> set (subadd_walk acc t ts) \<Longrightarrow> \<exists>y \<in> insert t (set ts). iDelete x = iDelete y"
  by (induction acc t ts rule: subadd_walk.induct) (fastforce simp: Let_def split: if_splits)+

lemma pop_then_finish:
  assumes wf: "hp_wf s" and nd: "no_delete s" and idle: "running s = None" and t: "tempHead s = t # ts"
  defines "s' \<equiv> timeout_finish (s\<lparr>tempHead := ts, tempCount := tempCount s - 1, running := Some t\<rparr>)"
  shows "hp_wf s'" "no_delete s'" "running s' = None" "tempHead s' = ts" "iBasInt s' = iBasInt s"
    "remaining s' = (if iLoop t then (remaining s)(tid t \<mapsto> iTick t) else remaining s)"
    "map_of (attrs (pTHead s')) = (if iLoop t then (map_of (attrs (pTHead s)))(tid t \<mapsto> (True, iTick t))
       else map_of (attrs (pTHead s)))"
proof -
  let ?r = "s\<lparr>tempHead := ts, tempCount := tempCount s - 1, running := None\<rparr>"
  have ndt: "\<not> iDelete t" using nd t by (simp add: no_delete_def live_def)
  have s': "s' = (if iLoop t then high_pre_timer_subadd t ?r else ?r)"
    by (simp add: s'_def timeout_finish_def Let_def ndt)
  have liv: "live s = pTHead s @ t # ts" "live ?r = pTHead s @ ts" using t idle by (simp_all add: live_def)
  have wfr: "hp_wf ?r" using wf liv t by (auto simp: hp_wf_def)
  have fresh: "tid t \<notin> tid ` set (live ?r)" "tid t \<noteq> 0" "0 < iTick t"
    using wf liv by (auto simp: hp_wf_def)
  have r: "remaining ?r = remaining s" by (simp add: remaining_def)
  have nt: "tid t \<notin> tid ` set (pTHead s)" using fresh liv by auto
  show "hp_wf s'" "remaining s' = (if iLoop t then (remaining s)(tid t \<mapsto> iTick t) else remaining s)"
    using subadd_wf [OF wfr fresh] wfr r by (simp_all add: s')
  show "running s' = None" "tempHead s' = ts" "iBasInt s' = iBasInt s"
    "map_of (attrs (pTHead s')) = (if iLoop t then (map_of (attrs (pTHead s)))(tid t \<mapsto> (True, iTick t))
       else map_of (attrs (pTHead s)))"
    using attrs_subadd [OF nt] by (simp_all add: s' high_pre_timer_subadd_def)
  have "\<not> iDelete x" if "x \<in> set (live s')" for x
  proof -
    from that consider "x \<in> set (subadd_walk 0 t (pTHead s))" | "x \<in> set (live s)"
      by (auto simp: s' live_def high_pre_timer_subadd_def t split: if_splits)
    then show ?thesis
      using subadd_iDelete [of x 0 t "pTHead s"] nd liv by cases (auto simp: no_delete_def)
  qed
  then show "no_delete s'" by (simp add: no_delete_def)
qed

lemma idle_timeout:
  "hp_wf s \<Longrightarrow> no_delete s \<Longrightarrow> running s = None \<Longrightarrow> length (tempHead s) = n \<Longrightarrow>
   \<exists>s'. high_pre_timer_timeout (\<lambda>s. s) (\<lambda>h _. h) (\<lambda>_ s. s) n s = Some s' \<and> hp_wf s' \<and> no_delete s' \<and>
     running s' = None \<and> tempHead s' = [] \<and> iBasInt s' = iBasInt s \<and>
     (\<forall>i. remaining s' i = (case map_of (attrs (tempHead s)) i of Some (True, k) \<Rightarrow> Some k | _ \<Rightarrow> remaining s i)) \<and>
     (\<forall>i. map_of (attrs (pTHead s')) i =
       (case map_of (attrs (tempHead s)) i of Some (True, k) \<Rightarrow> Some (True, k) | _ \<Rightarrow> map_of (attrs (pTHead s)) i))"
proof (induction n arbitrary: s)
  case 0
  then show ?case by (simp add: timeout_pop_def attrs_def)
next
  case (Suc n)
  then obtain t ts where t: "tempHead s = t # ts" by (cases "tempHead s") auto
  let ?h = "s\<lparr>tempHead := ts, tempCount := tempCount s - 1, running := Some t\<rparr>"
  note st = pop_then_finish [OF Suc.prems(1-3) t]
  have "tid t \<notin> tid ` set ts" using Suc.prems(1) t by (auto simp: hp_wf_def live_def)
  then have nt: "map_of (attrs ts) (tid t) = None" by (auto simp: attrs_def map_of_eq_None_iff)
  have "length ts = n" using Suc.prems(4) t by simp
  from Suc.IH [OF st(1-3), unfolded st(4), OF this] obtain s' where s':
    "high_pre_timer_timeout (\<lambda>s. s) (\<lambda>h _. h) (\<lambda>_ s. s) n (timeout_finish ?h) = Some s'"
    "hp_wf s'" "no_delete s'" "running s' = None" "tempHead s' = []" "iBasInt s' = iBasInt (timeout_finish ?h)"
    "\<forall>i. remaining s' i = (case map_of (attrs ts) i of Some (True, k) \<Rightarrow> Some k
      | _ \<Rightarrow> remaining (timeout_finish ?h) i)"
    "\<forall>i. map_of (attrs (pTHead s')) i = (case map_of (attrs ts) i of Some (True, k) \<Rightarrow> Some (True, k)
      | _ \<Rightarrow> map_of (attrs (pTHead (timeout_finish ?h))) i)"
    by blast
  have at: "attrs (tempHead s) = (tid t, iLoop t, iTick t) # attrs ts" by (simp add: t attrs_def)
  have "high_pre_timer_timeout (\<lambda>s. s) (\<lambda>h _. h) (\<lambda>_ s. s) (Suc n) s = Some s'"
    using s'(1) by (simp add: timeout_pop_def t Let_def)
  moreover have "remaining s' i = (case map_of (attrs (tempHead s)) i of Some (True, k) \<Rightarrow> Some k | _ \<Rightarrow> remaining s i)" for i
    using s'(7) st(6) nt by (cases "i = tid t") (auto simp: at split: option.split bool.split)
  moreover have "map_of (attrs (pTHead s')) i = (case map_of (attrs (tempHead s)) i of Some (True, k) \<Rightarrow> Some (True, k)
      | _ \<Rightarrow> map_of (attrs (pTHead s)) i)" for i
    using s'(8) st(7) nt by (cases "i = tid t") (auto simp: at split: option.split bool.split)
  ultimately show ?case using s'(2-6) st(5) by (intro exI [of _ s']) simp
qed


definition hp_idle :: "'a hp_lists \<Rightarrow> bool" where
  "hp_idle s \<longleftrightarrow> hp_wf s \<and> no_delete s \<and> running s = None \<and> tempHead s = []"

text \<open>What is left of a timer after a tick.\<close>

definition after_tick :: "int option \<Rightarrow> int option \<Rightarrow> int option" where
  "after_tick r p = (case r of None \<Rightarrow> None | Some r \<Rightarrow> if r \<le> 1 then p else Some (r - 1))"

lemma decr_head_iDelete: "x \<in> set (decr_head ts) \<Longrightarrow> \<exists>y \<in> set ts. iDelete x = iDelete y"
  by (cases ts) (auto simp: decr_head_def)

lemma collect_no_delete:
  assumes "no_delete s" "dotick_collect s = (n, s')" "tempHead s = []"
  shows "no_delete s'"
  unfolding no_delete_def
proof
  fix x assume x: "x \<in> set (live s')"
  have "set (pTHead s') \<union> set (tempHead s') \<subseteq> set (decr_head (pTHead s))" "running s' = running s"
    using assms(2,3) by (auto simp: dotick_collect_def Let_def dest: set_takeWhileD set_dropWhileD split: if_splits)
  with x have "x \<in> set (decr_head (pTHead s)) \<or> Some x = running s"
    by (auto simp: live_def split: option.splits)
  then show "\<not> iDelete x"
    using assms(1) decr_head_iDelete [of x "pTHead s"] by (auto simp: no_delete_def live_def)
qed

lemma idle_dotick_ok:
  assumes idle: "hp_idle s"
  shows "\<exists>s'. idle_dotick s = Some s' \<and> hp_idle s' \<and> iBasInt s' = iBasInt s \<and>
    (\<forall>i. remaining s' i = after_tick (remaining s i) (period s i)) \<and>
    (\<forall>i. remaining s' i \<noteq> None \<longrightarrow> period s' i = period s i)"
proof -
  have wf: "hp_wf s" and nd: "no_delete s" and run: "running s = None" and tmp: "tempHead s = []"
    using idle by (simp_all add: hp_idle_def)
  obtain n h where c: "dotick_collect s = (n, h)" by (cases "dotick_collect s")
  note C = dotick_collect_ok [OF wf tmp c]
  have ndh: "no_delete h" by (rule collect_no_delete [OF nd c tmp])
  have runh: "running h = None" using C(6) run by simp
  have nn: "n = int (length (tempHead h))" by (rule C(3))
  obtain s' where s': "idle_dotick s = Some s'" "hp_wf s'" "no_delete s'" "running s' = None" "tempHead s' = []"
    "iBasInt s' = iBasInt h"
    "\<forall>i. remaining s' i = (case map_of (attrs (tempHead h)) i of Some (True, k) \<Rightarrow> Some k | _ \<Rightarrow> remaining h i)"
    "\<forall>i. map_of (attrs (pTHead s')) i = (case map_of (attrs (tempHead h)) i of Some (True, k) \<Rightarrow> Some (True, k)
      | _ \<Rightarrow> map_of (attrs (pTHead h)) i)"
  proof (cases "n > 0")
    case True
    then have "idle_dotick s = high_pre_timer_timeout (\<lambda>s. s) (\<lambda>h _. h) (\<lambda>_ s. s) (length (tempHead h)) h"
      using c nn by (simp add: idle_dotick_def high_pre_timer_dotick_def)
    then show ?thesis using idle_timeout [OF C(1) ndh runh refl] that by metis
  next
    case False
    then have e: "tempHead h = []" using nn by simp
    have "idle_dotick s = Some h" using c False by (simp add: idle_dotick_def high_pre_timer_dotick_def)
    then show ?thesis using that [of h] C(1) ndh runh e by (simp add: attrs_def)
  qed
  have d: "distinct (map fst (attrs (pTHead h @ tempHead h)))"
    using C(1) by (simp add: hp_wf_def live_def runh)
  have at: "map_of (attrs (pTHead s)) = map_of (attrs (tempHead h)) ++ map_of (attrs (pTHead h))"
  proof -
    have "distinct (map fst (attrs (pTHead s)))" using wf by (simp add: hp_wf_def live_def)
    moreover have "set (attrs (pTHead s)) = set (attrs (pTHead h @ tempHead h))"
      using C(4) by (metis set_mset_mset)
    ultimately have "map_of (attrs (pTHead s)) = map_of (attrs (pTHead h @ tempHead h))"
      using d by (simp add: map_of_inject_set)
    then show ?thesis by (simp add: attrs_append)
  qed
  have dom: "remaining q i = None \<longleftrightarrow> map_of (attrs (pTHead q)) i = None" for q :: "'a hp_lists" and i
    by (simp add: remaining_None attrs_def map_of_eq_None_iff image_image)
  have disj: "map_of (attrs (tempHead h)) i \<noteq> None \<Longrightarrow> map_of (attrs (pTHead h)) i = None" for i
  proof -
    assume "map_of (attrs (tempHead h)) i \<noteq> None"
    then have "i \<in> tid ` set (tempHead h)" by (auto simp: attrs_def map_of_eq_None_iff image_image)
    then have "i \<notin> tid ` set (pTHead h)" using d by (auto simp: attrs_append attrs_def)
    then show ?thesis by (auto simp: attrs_def map_of_eq_None_iff)
  qed
  have key: "remaining s' i = after_tick (remaining s i) (period s i) \<and>
      (remaining s' i \<noteq> None \<longrightarrow> period s' i = period s i)" for i
  proof (cases "map_of (attrs (tempHead h)) i")
    case (Some lk)
    obtain l k where lk: "lk = (l, k)" by (cases lk)
    have ph: "map_of (attrs (pTHead h)) i = None" using disj Some by simp
    then have rh: "remaining h i = None" using dom by simp
    have ats: "map_of (attrs (pTHead s)) i = Some (l, k)" using at ph Some lk by (simp add: map_add_def)
    then obtain r where r: "remaining s i = Some r" using dom [of s i] by (cases "remaining s i") auto
    then have "r \<le> 1" using C(8) [of i] rh by (auto split: if_splits)
    then have at1: "after_tick (remaining s i) (period s i) = (if l then Some k else None)"
      using r ats by (simp add: after_tick_def period_def)
    have "remaining s' i = (if l then Some k else None)"
      using s'(7) Some lk rh by (cases l) simp_all
    moreover have "l \<Longrightarrow> map_of (attrs (pTHead s')) i = Some (l, k)"
      using s'(8) Some lk by simp
    ultimately show ?thesis using at1 ats by (auto simp: period_def)
  next
    case None
    have ats: "map_of (attrs (pTHead s)) i = map_of (attrs (pTHead h)) i" using at None by (simp add: map_add_def split: option.split)
    have rs: "remaining s' i = remaining h i" "map_of (attrs (pTHead s')) i = map_of (attrs (pTHead h)) i"
      using s'(7,8) None by simp_all
    have "remaining h i = after_tick (remaining s i) (period s i)"
    proof (cases "remaining s i")
      case (Some r)
      then have "remaining h i \<noteq> None" using dom ats by (metis option.distinct(1))
      then have "\<not> r \<le> 1" using C(8) [of i] Some by (auto split: if_splits)
      then show ?thesis using C(8) [of i] Some by (simp add: after_tick_def)
    qed (use C(8) [of i] in \<open>simp add: after_tick_def\<close>)
    then show ?thesis using rs ats by (simp add: period_def)
  qed
  have "hp_idle s'" using s'(2-5) by (simp add: hp_idle_def)
  with key s'(1,6) C(5) show ?thesis by (intro exI [of _ s']) simp
qed

section \<open>The contract of the timer service\<close>

text \<open>A client's view: it starts, cancels and lets time pass; \<open>fired\<close> collects what expired.\<close>

datatype timer_op = Start nat int bool | Cancel nat | Tick

fun ticks :: "timer_op list \<Rightarrow> int" where
  "ticks [] = 0"
| "ticks (Tick # ops) = 1 + ticks ops"
| "ticks (_ # ops) = ticks ops"

definition op_ok :: "('s \<Rightarrow> nat \<Rightarrow> int option) \<Rightarrow> 's \<Rightarrow> timer_op \<Rightarrow> bool" where
  "op_ok left s oper = (case oper of
     Start i n _ \<Rightarrow> i \<noteq> 0 \<and> 0 < n \<and> left s i = None
   | Cancel i \<Rightarrow> left s i \<noteq> None
   | Tick \<Rightarrow> True)"

locale timer_service =
  fixes inv :: "'s \<Rightarrow> bool"
    and left :: "'s \<Rightarrow> nat \<Rightarrow> int option"
    and again :: "'s \<Rightarrow> nat \<Rightarrow> int option"
    and exec :: "timer_op \<Rightarrow> 's \<Rightarrow> 's"
  assumes left_pos: "inv s \<Longrightarrow> left s i = Some r \<Longrightarrow> 0 < r"
    and start_law: "inv s \<Longrightarrow> op_ok left s (Start i n loop) \<Longrightarrow>
      inv (exec (Start i n loop) s) \<and> left (exec (Start i n loop) s) = (left s)(i \<mapsto> n) \<and>
      again (exec (Start i n loop) s) = (again s)(i := if loop then Some n else None)"
    and cancel_law: "inv s \<Longrightarrow> op_ok left s (Cancel i) \<Longrightarrow>
      inv (exec (Cancel i) s) \<and> left (exec (Cancel i) s) = (left s)(i := None) \<and>
      again (exec (Cancel i) s) = (again s)(i := None)"
    and tick_law: "inv s \<Longrightarrow>
      inv (exec Tick s) \<and> (\<forall>i. left (exec Tick s) i = after_tick (left s i) (again s i)) \<and>
      (\<forall>i. left (exec Tick s) i \<noteq> None \<longrightarrow> again (exec Tick s) i = again s i)"
begin

lemma exec_inv: "inv s \<Longrightarrow> op_ok left s oper \<Longrightarrow> inv (exec oper s)"
  using start_law cancel_law tick_law by (cases oper) auto

text \<open>An undisturbed timer counts the ticks down, whatever happens to the others.\<close>

lemma counts_down:
  assumes "inv s" "left s i = Some r" "Cancel i \<notin> set ops" "ticks ops < r"
    "\<And>us v vs. ops = us @ v # vs \<Longrightarrow> op_ok left (fold exec us s) v"
  shows "inv (fold exec ops s) \<and> left (fold exec ops s) i = Some (r - ticks ops) \<and>
    again (fold exec ops s) i = again s i"
  using assms
proof (induction ops arbitrary: s r)
  case Nil
  then show ?case by simp
next
  case (Cons v vs)
  have ok: "op_ok left s v" using Cons.prems(5) [of "[]"] by simp
  have inv': "inv (exec v s)" by (rule exec_inv [OF Cons.prems(1) ok])
  have nonneg: "0 \<le> ticks vs" by (induction vs rule: ticks.induct) auto
  have rest: "op_ok left (fold exec us (exec v s)) w" if "vs = us @ w # ws" for us w ws
    using Cons.prems(5) [of "v # us"] that by simp
  show ?case
  proof (cases v)
    case (Start j n loop)
    with ok Cons.prems(2) have "j \<noteq> i" by (auto simp: op_ok_def)
    with start_law [OF Cons.prems(1), of j n loop] ok Start Cons.prems
    have "left (exec v s) i = Some r" "again (exec v s) i = again s i" by auto
    with Cons.IH [OF inv' this(1) _ _ rest] Cons.prems(3,4) Start show ?thesis by simp
  next
    case (Cancel j)
    with Cons.prems(3) have "j \<noteq> i" by auto
    with cancel_law [OF Cons.prems(1), of j] ok Cancel Cons.prems
    have "left (exec v s) i = Some r" "again (exec v s) i = again s i" by auto
    with Cons.IH [OF inv' this(1) _ _ rest] Cons.prems(3,4) Cancel show ?thesis by simp
  next
    case Tick
    with Cons.prems(4) nonneg have "1 < r" by simp
    with tick_law [OF Cons.prems(1)] Cons.prems(2) Tick
    have "left (exec v s) i = Some (r - 1)" "again (exec v s) i = again s i" by (simp_all add: after_tick_def)
    with Cons.IH [OF inv' this(1) _ _ rest] Cons.prems(3,4) Tick show ?thesis by simp
  qed
qed

text \<open>It expires with the tick that makes the count reach its time, not before.\<close>

lemma expires_on_time:
  assumes "inv s" "left s i = Some r" "Cancel i \<notin> set ops" "ticks ops = r - 1"
    "\<And>us v vs. ops = us @ v # vs \<Longrightarrow> op_ok left (fold exec us s) v"
  shows "left (fold exec ops s) i = Some 1 \<and> left (exec Tick (fold exec ops s)) i = again s i"
  using counts_down [OF assms(1-3) _ assms(5)] assms(4) tick_law [of "fold exec ops s"]
  by (simp add: after_tick_def)

end


text \<open>
  The service of \<open>lib/hptimer.c\<close> seen in whole ticks: \<open>Start i n\<close> is \<open>high_pre_timer_add\<close>
  with \<open>n\<close> base intervals and \<open>i\<close> the address \<open>malloc\<close> returns.
\<close>

fun hp_exec :: "'a \<Rightarrow> timer_op \<Rightarrow> 'a hp_lists \<Rightarrow> 'a hp_lists" where
  "hp_exec f (Start i n loop) s = snd (high_pre_timer_add i loop (Some f) (n * iBasInt s) s)"
| "hp_exec f (Cancel i) s = snd (high_pre_timer_delete i s)"
| "hp_exec f Tick s = the (idle_dotick s)"

lemma idle_live: "hp_idle s \<Longrightarrow> live s = pTHead s"
  by (simp add: hp_idle_def live_def)

lemma subadd_idle:
  assumes idle: "hp_idle s" and t: "remaining s (tid t) = None" "tid t \<noteq> 0" "0 < iTick t" "\<not> iDelete t"
  defines "s' \<equiv> high_pre_timer_subadd t s"
  shows "hp_idle s'" "remaining s' = (remaining s)(tid t \<mapsto> iTick t)"
    "period s' = (period s)(tid t := if iLoop t then Some (iTick t) else None)"
proof -
  have wf: "hp_wf s" using idle by (simp add: hp_idle_def)
  have nt: "tid t \<notin> tid ` set (pTHead s)" using t(1) by (simp add: remaining_None)
  then have fr: "tid t \<notin> tid ` set (live s)" using idle_live [OF idle] by simp
  show "remaining s' = (remaining s)(tid t \<mapsto> iTick t)"
    unfolding s'_def by (rule subadd_wf(2) [OF wf fr t(2,3)])
  have "no_delete s'"
    using idle t(4) subadd_iDelete [of _ 0 t "pTHead s"]
    by (fastforce simp: s'_def no_delete_def live_def high_pre_timer_subadd_def hp_idle_def)
  then show "hp_idle s'"
    using subadd_wf(1) [OF wf fr t(2,3)] idle by (simp add: hp_idle_def s'_def high_pre_timer_subadd_def)
  show "period s' = (period s)(tid t := if iLoop t then Some (iTick t) else None)"
    using attrs_subadd [OF nt, of 0] by (auto simp: period_def s'_def high_pre_timer_subadd_def fun_eq_iff)
qed

lemma delete_idle:
  assumes idle: "hp_idle s" and i: "remaining s i \<noteq> None"
  defines "s' \<equiv> snd (high_pre_timer_delete i s)"
  shows "hp_idle s'" "remaining s' = (remaining s)(i := None)" "period s' = (period s)(i := None)"
    "iBasInt s' = iBasInt s"
proof -
  have wf: "hp_wf s" using idle by (simp add: hp_idle_def)
  have ti: "i \<in> tid ` set (pTHead s)" using i unfolding remaining_None by (rule notnotD)
  from hp_delete_ok [OF wf, of i] ti obtain q where q: "high_pre_timer_delete i s = (0, q)" "hp_wf q"
      "remaining q = (remaining s)(i := None)" "iBasInt q = iBasInt s" by auto
  then have s': "s' = q" by (simp add: s'_def)
  show "remaining s' = (remaining s)(i := None)" "iBasInt s' = iBasInt s" using q s' by simp_all
  have nz: "i \<noteq> 0" using ti wf by (auto simp: hp_wf_def live_def)
  have p: "q = s\<lparr>pTHead := unlink_timer i (pTHead s), iCount := iCount s - 1\<rparr>"
    using q(1) ti nz by (simp add: high_pre_timer_delete_def)
  have "x \<in> set (unlink_timer i ts) \<Longrightarrow> \<exists>y \<in> set ts. iDelete x = iDelete y" for x and ts :: "'a hp_timer list"
  proof (induction ts)
    case (Cons t ts)
    then show ?case by (cases ts) (auto split: if_splits)
  qed simp
  then have "no_delete q"
    using idle by (fastforce simp: p no_delete_def live_def hp_idle_def)
  then show "hp_idle s'" using q(2) idle by (simp add: hp_idle_def p s')
  have "distinct (map tid (pTHead s))" using wf by (simp add: hp_wf_def live_def)
  from attrs_unlink [OF this, of i] show "period s' = (period s)(i := None)"
    by (auto simp: period_def p s' fun_eq_iff)
qed

interpretation hp: timer_service hp_idle remaining period "hp_exec f" for f :: 'a
proof
  fix s :: "'a hp_lists" and i r n loop
  assume idle: "hp_idle s"
  then have wf: "hp_wf s" by (simp add: hp_idle_def)
  show "remaining s i = Some r \<Longrightarrow> 0 < r" by (rule remaining_pos [OF wf])
  show "hp_idle (hp_exec f (Start i n loop) s) \<and>
      remaining (hp_exec f (Start i n loop) s) = (remaining s)(i \<mapsto> n) \<and>
      period (hp_exec f (Start i n loop) s) = (period s)(i := if loop then Some n else None)"
    if ok: "op_ok remaining s (Start i n loop)"
  proof -
    have n: "i \<noteq> 0" "0 < n" "remaining s i = None" using ok by (simp_all add: op_ok_def)
    have b: "0 < iBasInt s" by (rule hp_wf_pos [OF wf])
    let ?t = "\<lparr>tid = i, pFunc = f, iLoop = loop, iDelete = False, iInterval = n * iBasInt s, iTick = n, iTickGap = 0\<rparr>"
    have "hp_exec f (Start i n loop) s = high_pre_timer_subadd ?t s"
      using n b by (simp add: high_pre_timer_add_def)
    then show ?thesis using subadd_idle [OF idle, of ?t] n by simp
  qed
  show "hp_idle (hp_exec f (Cancel i) s) \<and> remaining (hp_exec f (Cancel i) s) = (remaining s)(i := None) \<and>
      period (hp_exec f (Cancel i) s) = (period s)(i := None)" if "op_ok remaining s (Cancel i)"
    using delete_idle [OF idle, of i] that by (simp add: op_ok_def)
  show "hp_idle (hp_exec f Tick s) \<and>
      (\<forall>i. remaining (hp_exec f Tick s) i = after_tick (remaining s i) (period s i)) \<and>
      (\<forall>i. remaining (hp_exec f Tick s) i \<noteq> None \<longrightarrow> period (hp_exec f Tick s) i = period s i)"
    using idle_dotick_ok [OF idle] by auto
qed

section \<open>Properties\<close>

text \<open>
  C7: a timer created with \<open>ms\<close> milliseconds expires with tick number \<open>ms / iBasInt\<close>, not
  earlier and not later, whatever other timers are created and deleted meanwhile; a loop
  timer starts over with the same time, a one-shot timer is gone.
\<close>

theorem timer_expires_on_time:
  assumes "hp_idle s" "a \<noteq> 0" "remaining s a = None" "iBasInt s \<le> ms"
    and "Cancel a \<notin> set ops" "ticks ops = ms div iBasInt s - 1"
    and "\<And>us v vs. ops = us @ v # vs \<Longrightarrow>
      op_ok remaining (fold (hp_exec g) us (snd (high_pre_timer_add a loop (Some f) ms s))) v"
    and s1: "s1 = fold (hp_exec g) ops (snd (high_pre_timer_add a loop (Some f) ms s))"
  shows "remaining s1 a = Some 1 \<and>
    remaining (hp_exec g Tick s1) a = (if loop then Some (ms div iBasInt s) else None)"
proof -
  let ?t = "\<lparr>tid = a, pFunc = f, iLoop = loop, iDelete = False, iInterval = ms,
    iTick = ms div iBasInt s, iTickGap = 0\<rparr>"
  have "0 < iBasInt s" using assms(1) by (simp add: hp_idle_def hp_wf_pos)
  then have pos: "0 < ms div iBasInt s" using assms(4) by (simp add: pos_imp_zdiv_pos_iff)
  have add: "snd (high_pre_timer_add a loop (Some f) ms s) = high_pre_timer_subadd ?t s"
    using assms(2,4) by (simp add: high_pre_timer_add_def)
  note sub = subadd_idle [OF assms(1), of ?t]
  have "hp_idle (high_pre_timer_subadd ?t s)" "remaining (high_pre_timer_subadd ?t s) a = Some (ms div iBasInt s)"
    "period (high_pre_timer_subadd ?t s) a = (if loop then Some (ms div iBasInt s) else None)"
    using sub assms(2,3) pos by simp_all
  note r = this
  from hp.expires_on_time [OF r(1,2) assms(5,6), of g] hp.counts_down [OF r(1,2) assms(5) _, of g] assms(6,7)
  show ?thesis
    unfolding s1 add r(3) [symmetric] by (auto simp: add r(3))
qed


lemma init_idle: "hp_idle (high_pre_timer_init b)"
  by (simp add: hp_idle_def hp_wf_def high_pre_timer_init_def no_delete_def live_def)

lemma op_ok_Tick: "op_ok l s Tick"
  by (simp add: op_ok_def)

theorem timer_expires_on_time_witness:
  "remaining (fold (hp_exec ()) [Start 2 1 False, Tick, Tick]
     (snd (high_pre_timer_add 1 True (Some ()) 35 (high_pre_timer_init 10)))) 1 = Some 1"
proof -
  have r: "remaining (high_pre_timer_init 10 :: unit hp_lists) 1 = None"
    by (simp add: remaining_def high_pre_timer_init_def)
  have ok: "op_ok remaining (fold (hp_exec ()) us
      (snd (high_pre_timer_add 1 True (Some ()) 35 (high_pre_timer_init 10)))) v"
    if "[Start 2 1 False, Tick, Tick] = us @ v # vs" for us v vs
  proof (cases us)
    case Nil
    with that have "v = Start 2 1 False" by simp
    with Nil show ?thesis
      by (simp add: op_ok_def high_pre_timer_add_def high_pre_timer_subadd_def high_pre_timer_init_def remaining_def)
  next
    case (Cons u us')
    with that have "v = Tick" by (cases us') (auto simp: Cons_eq_append_conv)
    then show ?thesis by (simp add: op_ok_Tick)
  qed
  show ?thesis
    by (rule timer_expires_on_time [OF init_idle _ r _ _ _ ok refl, THEN conjunct1])
      (simp_all add: high_pre_timer_init_def)
qed

text \<open>
  \<open>high_pre_timer_delete\<close> of a timer that waits or has expired without having run yet
  returns \<open>0\<close>, removes exactly this timer, leaves the time left of every other timer as it
  was and writes through no dead id.
\<close>

theorem timer_delete_exact:
  assumes "hp_wf s" "i \<in> tid ` (set (pTHead s) \<union> set (tempHead s))"
  shows "\<exists>s'. high_pre_timer_delete i s = (0, s') \<and> hp_wf s' \<and> remaining s' = (remaining s)(i := None) \<and>
    tid ` set (live s') = tid ` set (live s) - {i} \<and> stale s' = stale s"
  using hp_delete_ok [OF assms] by blast

definition two_timers :: "unit hp_lists" where
  "two_timers = hp_exec () (Start 2 5 False) (hp_exec () (Start 1 3 True) (high_pre_timer_init 10))"

lemma two_timers_ok: "hp_idle two_timers" "remaining two_timers = [1 \<mapsto> 3, 2 \<mapsto> 5]"
proof -
  let ?s = "hp_exec () (Start 1 3 True) (high_pre_timer_init 10)"
  have r0: "remaining (high_pre_timer_init 10 :: unit hp_lists) = Map.empty"
    by (simp add: remaining_def high_pre_timer_init_def)
  then have 1: "hp_idle ?s" "remaining ?s = [1 \<mapsto> 3]"
    using hp.start_law [OF init_idle [of 10], of 1 3 True "()"] by (simp_all add: op_ok_def)
  then show "hp_idle two_timers" "remaining two_timers = [1 \<mapsto> 3, 2 \<mapsto> 5]"
    using hp.start_law [OF 1(1), of 2 5 False "()"] by (simp_all add: op_ok_def two_timers_def)
qed

lemma two_timers_ids: "tid ` set (pTHead two_timers) = {1, 2}"
proof -
  have "i \<in> tid ` set (pTHead two_timers) \<longleftrightarrow> remaining two_timers i \<noteq> None" for i
    by (simp add: remaining_None)
  moreover have "remaining two_timers i \<noteq> None \<longleftrightarrow> i \<in> {1, 2}" for i
    unfolding two_timers_ok(2) by simp
  ultimately show ?thesis by blast
qed

theorem timer_delete_exact_witness:
  "\<exists>s'. high_pre_timer_delete 1 two_timers = (0, s') \<and> remaining s' = (remaining two_timers)(1 := None)"
proof -
  have "hp_wf two_timers" using two_timers_ok by (simp add: hp_idle_def)
  moreover have "1 \<in> tid ` (set (pTHead two_timers) \<union> set (tempHead two_timers))"
    using two_timers_ids by auto
  ultimately show ?thesis using timer_delete_exact [of two_timers 1] by blast
qed

text \<open>
  one tick takes out exactly the timers with one tick left, in the order of the list,
  and the time left of every other timer drops by one.
\<close>

theorem tick_takes_exactly_due:
  assumes "hp_wf s" "tempHead s = []" "dotick_collect s = (n, s')"
  shows "hp_wf s' \<and> map tid (tempHead s') = map fst (filter (\<lambda>(i, r). r = 1) (due 0 (pTHead s))) \<and>
    (\<forall>i. remaining s' i = (case remaining s i of None \<Rightarrow> None | Some r \<Rightarrow> if r \<le> 1 then None else Some (r - 1)))"
  using dotick_collect_ok [OF assms] tick_due(2) [OF assms(1)] by simp

theorem tick_takes_exactly_due_witness:
  "\<exists>n s'. dotick_collect two_timers = (n, s') \<and> remaining s' 1 = Some 2 \<and> remaining s' 2 = Some 4"
proof -
  obtain n s' where c: "dotick_collect two_timers = (n, s')" by (cases "dotick_collect two_timers")
  have "hp_wf two_timers" "tempHead two_timers = []" using two_timers_ok by (simp_all add: hp_idle_def)
  from tick_takes_exactly_due [OF this c] c show ?thesis by (simp add: two_timers_ok(2))
qed

lemma gap_until_bounds:
  "gaps_ok acc ts \<Longrightarrow> gap_until acc i ts = Some (l, t) \<Longrightarrow> t \<in> set ts \<and> acc \<le> l \<and> l \<le> iTick t"
  by (induction acc i ts rule: gap_until.induct) (auto split: if_splits)

lemma gap_until_due: "map_option fst (gap_until acc i ts) = map_of (due acc ts) i"
  by (induction acc i ts rule: gap_until.induct) auto

text \<open>
  The two queries agree.  For a waiting timer the time passed is between \<open>0\<close> and the
  timer's time, the time left is positive, and both add up to \<open>iTick\<close> base intervals, so no
  partial sum of gaps leaves the range of an \<open>int\<close> that holds \<open>iTick * iBasInt\<close>.
\<close>

theorem timer_queries_agree:
  assumes "hp_wf s" "remaining s i = Some r"
  shows "\<exists>t \<in> set (pTHead s). tid t = i \<and> 0 < r \<and> r \<le> iTick t \<and>
    high_pre_timer_remain i s = (0, Some (r * iBasInt s)) \<and>
    high_pre_timer_passtime i s = (0, Some ((iTick t - r) * iBasInt s))"
proof -
  have "map_option fst (gap_until 0 i (pTHead s)) = Some r"
    using assms(2) by (simp add: gap_until_due remaining_def)
  then obtain t where t: "gap_until 0 i (pTHead s) = Some (r, t)" by auto
  have b: "t \<in> set (pTHead s)" "r \<le> iTick t"
    using gap_until_bounds [OF _ t] assms(1) by (simp_all add: hp_wf_def)
  have "gap_until acc j ts = Some (l, u) \<Longrightarrow> tid u = j" for acc j l u and ts :: "'a hp_timer list"
    by (induction acc j ts rule: gap_until.induct) (auto split: if_splits)
  from this [OF t] have i: "tid t = i" .
  then have "i \<noteq> 0" using b assms(1) by (auto simp: hp_wf_def live_def)
  with t i b remaining_pos [OF assms] show ?thesis
    by (intro bexI [of _ t]) (simp_all add: high_pre_timer_remain_def high_pre_timer_passtime_def)
qed

theorem timer_queries_agree_witness:
  "\<exists>t \<in> set (pTHead two_timers). tid t = 2 \<and> high_pre_timer_remain 2 two_timers = (0, Some (5 * iBasInt two_timers))"
proof -
  have "hp_wf two_timers" "remaining two_timers 2 = Some 5" using two_timers_ok by (simp_all add: hp_idle_def)
  from timer_queries_agree [OF this] show ?thesis by blast
qed

end
