(* ===== verification/Prefix.thy ===== *)
theory Prefix
  imports Prelude "HOL-Library.Sublist"
begin

text \<open>
  Network prefixes, \<open>lib/prefix.c\<close>: an address family, a length in bits and the bytes of the
  address as they lie in memory, most significant first.  The union that holds the address
  has 16 bytes.  A \<open>struct in_addr\<close> is the list of its four bytes.  IPv6 is compiled in.  A
  failing \<open>assert\<close> is \<open>None\<close>.
\<close>

section \<open>Data\<close>

abbreviation (input) AF_UNSPEC :: u8 where "AF_UNSPEC \<equiv> 0"
abbreviation (input) AF_INET :: u8 where "AF_INET \<equiv> 2"
abbreviation (input) AF_INET6 :: u8 where "AF_INET6 \<equiv> 10"

record ip_prefix =
  family :: u8
  prefixlen :: u8
  pbytes :: "u8 list"

abbreviation plen :: "ip_prefix \<Rightarrow> nat" where "plen p \<equiv> unat (prefixlen p)"

definition maskbit :: "u8 list" where
  "maskbit = [0x00, 0x80, 0xc0, 0xe0, 0xf0, 0xf8, 0xfc, 0xfe, 0xff]"

text \<open>Row \<open>n\<close> of the table has \<open>n\<close> leading ones.\<close>

definition maskbytes6 :: "u8 list list" where
  "maskbytes6 = map (\<lambda>n. map (\<lambda>k. maskbit ! min 8 (n - 8 * k)) [0..<16]) [0..<129]"

section \<open>Comparing prefixes\<close>

definition prefix_bit :: "u8 list \<Rightarrow> nat \<Rightarrow> nat" where
  "prefix_bit bs n = unat (drop_bit (7 - n mod 8) (bs ! (n div 8)) AND 1)"

text \<open>The loop \<open>while (offset--) if (a[offset] != b[offset]) return 0; return 1\<close>.\<close>

fun bytes_agree :: "u8 list \<Rightarrow> u8 list \<Rightarrow> nat \<Rightarrow> bool" where
  "bytes_agree a b 0 = True"
| "bytes_agree a b (Suc k) = (if a ! k \<noteq> b ! k then False else bytes_agree a b k)"

definition prefix_match :: "ip_prefix \<Rightarrow> ip_prefix \<Rightarrow> bool" where
  "prefix_match n p =
     (if prefixlen n > prefixlen p then False
      else let offset = plen n div 8; shift = plen n mod 8 in
        if shift \<noteq> 0 \<and> maskbit ! shift AND (pbytes n ! offset XOR pbytes p ! offset) \<noteq> 0 then False
        else bytes_agree (pbytes n) (pbytes p) offset)"

definition prefix_copy :: "ip_prefix \<Rightarrow> ip_prefix \<Rightarrow> ip_prefix option" where
  "prefix_copy dest src =
     (let dest = dest\<lparr>family := family src, prefixlen := prefixlen src\<rparr>;
          copy = (\<lambda>n. Some (dest\<lparr>pbytes := take n (pbytes src) @ drop n (pbytes dest)\<rparr>)) in
      if family src = AF_INET then copy 4
      else if family src = AF_INET6 then copy 16
      else if family src = AF_UNSPEC then copy 8
      else None)"

definition prefix_same :: "ip_prefix \<Rightarrow> ip_prefix \<Rightarrow> bool" where
  "prefix_same p1 p2 \<longleftrightarrow> family p1 = family p2 \<and> prefixlen p1 = prefixlen p2 \<and>
     (family p1 = AF_INET \<and> take 4 (pbytes p1) = take 4 (pbytes p2) \<or>
      family p1 = AF_INET6 \<and> take 16 (pbytes p1) = take 16 (pbytes p2))"

definition prefix_cmp :: "ip_prefix \<Rightarrow> ip_prefix \<Rightarrow> int" where
  "prefix_cmp p1 p2 =
     (if family p1 \<noteq> family p2 \<or> prefixlen p1 \<noteq> prefixlen p2 then 1
      else let offset = plen p1 div 8; shift = plen p1 mod 8 in
        if shift \<noteq> 0 \<and> maskbit ! shift AND (pbytes p1 ! offset XOR pbytes p2 ! offset) \<noteq> 0 then 1
        else if bytes_agree (pbytes p1) (pbytes p2) offset then 0 else 1)"

definition prefix_blen :: "ip_prefix \<Rightarrow> nat" where
  "prefix_blen p = (if family p = AF_INET then 4 else if family p = AF_INET6 then 16 else 0)"

definition prefix_common_bits :: "ip_prefix \<Rightarrow> ip_prefix \<Rightarrow> int" where
  "prefix_common_bits p1 p2 =
     (let length = prefix_blen p1 in
      if family p1 \<noteq> family p2 \<or> length = 0 then - 1
      else case List.find (\<lambda>pos. pbytes p1 ! pos \<noteq> pbytes p2 ! pos) [0..<length] of
          None \<Rightarrow> int (length * 8)
        | Some pos \<Rightarrow>
            let xor = pbytes p1 ! pos XOR pbytes p2 ! pos in
            case List.find (\<lambda>b. xor AND push_bit (7 - b) 1 \<noteq> 0) [0..<8] of
              None \<Rightarrow> int (pos * 8 + 8)
            | Some b \<Rightarrow> int (pos * 8 + b))"

definition prefix_family_str :: "ip_prefix \<Rightarrow> string" where
  "prefix_family_str p = (if family p = AF_INET then ''inet'' else if family p = AF_INET6 then ''inet6'' else ''unspec'')"

definition str2family :: "string \<Rightarrow> int" where
  "str2family s = (if s = ''ipv4'' then 2 else if s = ''ipv6'' then 10 else - 1)"

definition afi2family :: "u16 \<Rightarrow> int" where
  "afi2family afi = (if afi = 1 then 2 else if afi = 2 then 10 else 0)"

definition family2afi :: "int \<Rightarrow> u16" where
  "family2afi f = (if f = 2 then 1 else if f = 10 then 2 else 0)"

definition safi2str :: "u8 \<Rightarrow> string option" where
  "safi2str safi =
     (if safi = 1 then Some ''unicast'' else if safi = 2 then Some ''multicast''
      else if safi = 7 then Some ''encap'' else if safi = 4 then Some ''vpn'' else None)"

section \<open>Masks\<close>

definition htonl :: "u32 \<Rightarrow> u8 list" where
  "htonl w = map (\<lambda>k. ucast (drop_bit (24 - 8 * k) w)) [0..<4]"

definition ntohl :: "u8 list \<Rightarrow> u32" where
  "ntohl bs = foldl (\<lambda>a b. push_bit 8 a OR ucast b) 0 bs"

text \<open>\<open>masklen_to_netip\<close>, \<open>masklen_to_hostip\<close> and \<open>masklen2ip\<close> have the same body.\<close>

definition masklen2ip :: "int \<Rightarrow> u8 list option" where
  "masklen2ip masklen =
     (if \<not> (masklen \<ge> 0 \<and> masklen \<le> 32) then None
      else Some (htonl (ucast (push_bit (nat (32 - masklen)) (0xffffffff :: 64 word)))))"

definition builtin_clz :: "u32 \<Rightarrow> nat" where
  "builtin_clz w = length (takeWhile (\<lambda>i. \<not> bit w (31 - i)) [0..<32])"

definition ip_masklen :: "u8 list \<Rightarrow> u8" where
  "ip_masklen netmask = (let tmp = NOT (ntohl netmask) in if tmp \<noteq> 0 then of_nat (builtin_clz tmp) else 32)"

definition apply_mask_ipv4 :: "ip_prefix \<Rightarrow> ip_prefix option" where
  "apply_mask_ipv4 p =
     (case masklen2ip (int (plen p)) of
        None \<Rightarrow> None
      | Some msk \<Rightarrow> Some (p\<lparr>pbytes := map2 (\<lambda>a b. a AND b) (take 4 (pbytes p)) msk @ drop 4 (pbytes p)\<rparr>))"

definition prefix_ipv4_any :: "ip_prefix \<Rightarrow> bool" where
  "prefix_ipv4_any p \<longleftrightarrow> (\<forall>b \<in> set (take 4 (pbytes p)). b = 0) \<and> prefixlen p = 0"

text \<open>The loop \<open>while (val) { len++; val <<= 1; }\<close>.\<close>

function shift_out :: "u8 \<Rightarrow> nat" where
  "shift_out val = (if val \<noteq> 0 then Suc (shift_out (push_bit 1 val)) else 0)"
  by pat_completeness auto
termination
proof (relation "measure (\<lambda>v. LEAST n. push_bit n v = 0)", simp)
  fix val :: u8
  assume nz: "val \<noteq> 0"
  have "push_bit 8 val = 0" by (rule bit_word_eqI) (simp add: bit_push_bit_iff)
  then have z: "push_bit (LEAST n. push_bit n val = 0) val = 0" by (rule LeastI)
  with nz obtain k where k: "(LEAST n. push_bit n val = 0) = Suc k"
    by (cases "LEAST n. push_bit n val = 0") auto
  with z have "push_bit k (push_bit 1 val) = 0" by (simp add: push_bit_push_bit ac_simps)
  then have "(LEAST n. push_bit n (push_bit 1 val) = 0) \<le> k" by (rule Least_le)
  with k show "(push_bit 1 val, val) \<in> measure (\<lambda>v. LEAST n. push_bit n v = 0)" by simp
qed

declare shift_out.simps [simp del]

fun ip6_masklen :: "u8 list \<Rightarrow> nat" where
  "ip6_masklen [] = 0"
| "ip6_masklen (b # bs) = (if b = 0xff then 8 + ip6_masklen bs else shift_out b)"

definition masklen2ip6 :: "int \<Rightarrow> u8 list option" where
  "masklen2ip6 masklen = (if \<not> (masklen \<ge> 0 \<and> masklen \<le> 128) then None else Some (maskbytes6 ! nat masklen))"

definition apply_mask_ipv6 :: "ip_prefix \<Rightarrow> ip_prefix" where
  "apply_mask_ipv6 p =
     (let index = plen p div 8 in
      if index < 16 then
        let offset = plen p mod 8
        in p\<lparr>pbytes := take index (pbytes p) @ [pbytes p ! index AND maskbit ! offset] @ replicate (15 - index) 0\<rparr>
      else p)"

definition apply_mask :: "ip_prefix \<Rightarrow> ip_prefix option" where
  "apply_mask p =
     (if family p = AF_INET then apply_mask_ipv4 p
      else if family p = AF_INET6 then Some (apply_mask_ipv6 p)
      else Some p)"

definition IN_CLASSA :: "u32 \<Rightarrow> bool" where "IN_CLASSA a \<longleftrightarrow> a AND 0x80000000 = 0"
definition IN_CLASSB :: "u32 \<Rightarrow> bool" where "IN_CLASSB a \<longleftrightarrow> a AND 0xc0000000 = 0x80000000"
definition IN_CLASSC :: "u32 \<Rightarrow> bool" where "IN_CLASSC a \<longleftrightarrow> a AND 0xe0000000 = 0xc0000000"

definition apply_classful_mask_ipv4 :: "ip_prefix \<Rightarrow> ip_prefix option" where
  "apply_classful_mask_ipv4 p =
     (let destination = ntohl (take 4 (pbytes p)) in
      if prefixlen p = 32 then Some p
      else if IN_CLASSC destination then apply_mask_ipv4 (p\<lparr>prefixlen := 24\<rparr>)
      else if IN_CLASSB destination then apply_mask_ipv4 (p\<lparr>prefixlen := 16\<rparr>)
      else apply_mask_ipv4 (p\<lparr>prefixlen := 8\<rparr>))"

definition ipv4_network_addr :: "u8 list \<Rightarrow> int \<Rightarrow> u8 list option" where
  "ipv4_network_addr hostaddr masklen =
     map_option (\<lambda>msk. map2 (\<lambda>a m. a AND m) hostaddr msk) (masklen2ip masklen)"

definition ipv4_broadcast_addr :: "u8 list \<Rightarrow> int \<Rightarrow> u8 list option" where
  "ipv4_broadcast_addr hostaddr masklen =
     map_option (\<lambda>msk. if masklen \<noteq> 31 then map2 (\<lambda>a m. a OR NOT m) hostaddr msk
       else map2 (\<lambda>a m. a XOR NOT m) hostaddr msk) (masklen2ip masklen)"

section \<open>Text\<close>

text \<open>
  \<open>inet_aton\<close> of the C library is a parameter: the address a string denotes, if any.  \<open>atoi\<close>
  is spelled out; a number beyond the range of an \<open>int\<close> wraps.
\<close>

definition c_isdigit :: "char \<Rightarrow> bool" where
  "c_isdigit c \<longleftrightarrow> 48 \<le> (of_char c :: nat) \<and> (of_char c :: nat) \<le> 57"

definition c_isspace :: "char \<Rightarrow> bool" where
  "c_isspace c \<longleftrightarrow> (of_char c :: nat) = 32 \<or> 9 \<le> (of_char c :: nat) \<and> (of_char c :: nat) \<le> 13"

definition c_digits :: "string \<Rightarrow> nat" where
  "c_digits s = foldl (\<lambda>n c. 10 * n + (of_char c - 48)) 0 (takeWhile c_isdigit s)"

definition c_atoi :: "string \<Rightarrow> u32" where
  "c_atoi s = (case dropWhile c_isspace s of
     [] \<Rightarrow> 0
   | c # cs \<Rightarrow> if c = CHR ''-'' then - of_nat (c_digits cs)
       else if c = CHR ''+'' then of_nat (c_digits cs) else of_nat (c_digits (c # cs)))"

definition all_digit :: "string \<Rightarrow> bool" where
  "all_digit s = list_all c_isdigit s"

text \<open>\<open>None\<close> is the result 0.\<close>

definition str2prefix_ipv4 :: "(string \<Rightarrow> u8 list option) \<Rightarrow> string \<Rightarrow> ip_prefix \<Rightarrow> ip_prefix option" where
  "str2prefix_ipv4 inet_aton s p =
     (let set_addr = (\<lambda>a l. p\<lparr>family := AF_INET, prefixlen := l, pbytes := a @ drop 4 (pbytes p)\<rparr>) in
      if CHR ''/'' \<notin> set s then map_option (\<lambda>a. set_addr a 32) (inet_aton s)
      else let cp = takeWhile (\<lambda>c. c \<noteq> CHR ''/'') s;
               pnt = tl (dropWhile (\<lambda>c. c \<noteq> CHR ''/'') s);
               plen = ucast (c_atoi pnt) :: u8 in
           if plen > 32 then None else map_option (\<lambda>a. set_addr a plen) (inet_aton cp))"

definition str2prefix_ipv6 :: "(string \<Rightarrow> u8 list option) \<Rightarrow> string \<Rightarrow> ip_prefix \<Rightarrow> ip_prefix option" where
  "str2prefix_ipv6 inet_pton6 s p =
     (let set_addr = (\<lambda>a l. p\<lparr>family := AF_INET6, prefixlen := l, pbytes := a\<rparr>) in
      if CHR ''/'' \<notin> set s then map_option (\<lambda>a. set_addr a 128) (inet_pton6 s)
      else let cp = takeWhile (\<lambda>c. c \<noteq> CHR ''/'') s;
               pnt = tl (dropWhile (\<lambda>c. c \<noteq> CHR ''/'') s) in
           case inet_pton6 cp of
             None \<Rightarrow> None
           | Some a \<Rightarrow> let plen = ucast (c_atoi pnt) :: u8 in if plen > 128 then None else Some (set_addr a plen))"

definition str2prefix :: "(string \<Rightarrow> u8 list option) \<Rightarrow> (string \<Rightarrow> u8 list option) \<Rightarrow> string \<Rightarrow> ip_prefix \<Rightarrow> ip_prefix option" where
  "str2prefix inet_aton inet_pton6 s p =
     (case str2prefix_ipv4 inet_aton s p of Some q \<Rightarrow> Some q | None \<Rightarrow> str2prefix_ipv6 inet_pton6 s p)"

section \<open>Prefixes as bit strings\<close>

definition pbit :: "u8 list \<Rightarrow> nat \<Rightarrow> bool" where
  "pbit bs k = bit (bs ! (k div 8)) (7 - k mod 8)"

definition pbits :: "ip_prefix \<Rightarrow> bool list" where
  "pbits p = map (pbit (pbytes p)) [0..<plen p]"

definition pfx_ok :: "ip_prefix \<Rightarrow> bool" where
  "pfx_ok p \<longleftrightarrow> length (pbytes p) = 16 \<and> (family p = AF_INET \<and> plen p \<le> 32 \<or> family p = AF_INET6 \<and> plen p \<le> 128)"

lemma length_pbits [simp]: "length (pbits p) = plen p"
  by (simp add: pbits_def)

lemma nth_pbits [simp]: "k < plen p \<Longrightarrow> pbits p ! k = pbit (pbytes p) k"
  by (simp add: pbits_def)

lemma prefix_bit_pbit: "prefix_bit bs n = of_bool (pbit bs n)"
  by (cases "pbit bs n") (simp_all add: prefix_bit_def pbit_def and_one_eq bit_iff_odd_drop_bit mod_2_eq_odd)

lemma byte_eq_iff: "(x :: u8) = y \<longleftrightarrow> (\<forall>i < 8. bit x (7 - i) = bit y (7 - i))"
proof
  assume r: "\<forall>i < 8. bit x (7 - i) = bit y (7 - i)"
  show "x = y"
  proof (rule bit_word_eqI)
    fix n :: nat assume "n < LENGTH(8)"
    then have "7 - (7 - n) = n" "7 - n < 8" by simp_all
    with r show "bit x n = bit y n" by metis
  qed
qed simp

lemma maskbit_bit: "s \<le> 8 \<Longrightarrow> i < 8 \<Longrightarrow> bit (maskbit ! s) (7 - i) \<longleftrightarrow> i < s"
proof -
  have "\<forall>s \<in> set [0..<9]. \<forall>i \<in> set [0..<8]. bit (maskbit ! s) (7 - i) \<longleftrightarrow> i < s" by code_simp
  then show "s \<le> 8 \<Longrightarrow> i < 8 \<Longrightarrow> ?thesis" by simp
qed

lemma mask_diff:
  assumes "s \<le> 8"
  shows "maskbit ! s AND (x XOR y) = 0 \<longleftrightarrow> (\<forall>i < s. bit x (7 - i) = bit y (7 - i))"
proof -
  have "maskbit ! s AND (x XOR y) = 0 \<longleftrightarrow> (\<forall>i < 8. \<not> (i < s \<and> bit x (7 - i) \<noteq> bit y (7 - i)))"
    unfolding byte_eq_iff using maskbit_bit [OF assms] by (auto simp: bit_and_iff bit_xor_iff)
  with assms show ?thesis by auto
qed

lemma split_bit: "(\<forall>j < 8 * Suc k. P j) \<longleftrightarrow> (\<forall>j < 8 * k. P j) \<and> (\<forall>i < 8. P (8 * k + i))" for k :: nat
proof
  assume r: "(\<forall>j < 8 * k. P j) \<and> (\<forall>i < 8. P (8 * k + i))"
  show "\<forall>j < 8 * Suc k. P j"
  proof (intro allI impI)
    fix j assume "j < 8 * Suc k"
    then have "j < 8 * k \<or> j = 8 * k + (j - 8 * k) \<and> j - 8 * k < 8" by auto
    with r show "P j" by metis
  qed
qed auto

lemma bytes_agree_iff: "bytes_agree a b k \<longleftrightarrow> (\<forall>j < 8 * k. pbit a j = pbit b j)"
  by (induction k) (simp_all add: split_bit pbit_def byte_eq_iff [of "_ ! _"] conj_commute del: mult_Suc_right)

lemma bits_agree_iff:
  "(\<forall>j < n. pbit a j = pbit b j) \<longleftrightarrow>
    (n mod 8 \<noteq> 0 \<longrightarrow> maskbit ! (n mod 8) AND (a ! (n div 8) XOR b ! (n div 8)) = 0) \<and> bytes_agree a b (n div 8)"
proof -
  have "(\<forall>j < n. pbit a j = pbit b j) \<longleftrightarrow>
    (\<forall>j < 8 * (n div 8). pbit a j = pbit b j) \<and> (\<forall>i < n mod 8. pbit a (8 * (n div 8) + i) = pbit b (8 * (n div 8) + i))"
    (is "?l \<longleftrightarrow> ?r")
  proof
    assume r: ?r
    show ?l
    proof (intro allI impI)
      fix j assume "j < n"
      then have "j < 8 * (n div 8) \<or> j = 8 * (n div 8) + (j - 8 * (n div 8)) \<and> j - 8 * (n div 8) < n mod 8"
        by (auto simp: minus_mult_div_eq_mod) presburger
      with r show "pbit a j = pbit b j" by metis
    qed
  next
    assume l: ?l
    show ?r
    proof (intro conjI allI impI)
      fix j assume "j < 8 * (n div 8)" then show "pbit a j = pbit b j" using l by auto
    next
      fix i assume "i < n mod 8"
      then have "8 * (n div 8) + i < n" by presburger
      with l show "pbit a (8 * (n div 8) + i) = pbit b (8 * (n div 8) + i)" by simp
    qed
  qed
  moreover have "(\<forall>i < n mod 8. pbit a (8 * (n div 8) + i) = pbit b (8 * (n div 8) + i)) \<longleftrightarrow>
    maskbit ! (n mod 8) AND (a ! (n div 8) XOR b ! (n div 8)) = 0"
  proof -
    have "i < n mod 8 \<Longrightarrow> i < 8" for i by (rule less_trans [OF _ mod_less_divisor]) auto
    then show ?thesis by (auto simp: mask_diff less_imp_le pbit_def)
  qed
  ultimately show ?thesis by (auto simp: bytes_agree_iff maskbit_def)
qed

lemma prefix_map_upt: "prefix (map f [0..<m]) (map g [0..<n]) \<longleftrightarrow> m \<le> n \<and> (\<forall>j < m. f j = g j)"
proof
  assume "prefix (map f [0..<m]) (map g [0..<n])"
  then obtain zs where z: "map g [0..<n] = map f [0..<m] @ zs" by (auto simp: prefix_def)
  have "m \<le> n" using arg_cong [OF z, of length] by simp
  moreover have "f j = g j" if "j < m" for j
    using arg_cong [OF z, of "\<lambda>xs. xs ! j"] that \<open>m \<le> n\<close> by (simp add: nth_append)
  ultimately show "m \<le> n \<and> (\<forall>j < m. f j = g j)" by blast
next
  assume "m \<le> n \<and> (\<forall>j < m. f j = g j)"
  then have "map g [0..<n] = map f [0..<m] @ map g [m..<n]"
    by (intro nth_equalityI) (auto simp: nth_append)
  then show "prefix (map f [0..<m]) (map g [0..<n])" by simp
qed

lemma prefix_pbits: "prefix (pbits n) (pbits p) \<longleftrightarrow> plen n \<le> plen p \<and> (\<forall>j < plen n. pbit (pbytes n) j = pbit (pbytes p) j)"
  unfolding pbits_def by (rule prefix_map_upt)

lemma prefix_match_iff: "prefix_match n p \<longleftrightarrow> prefix (pbits n) (pbits p)"
  by (auto simp: prefix_match_def prefix_pbits bits_agree_iff Let_def word_less_nat_alt)

lemma prefix_cmp_iff:
  "prefix_cmp p q = 0 \<longleftrightarrow> family p = family q \<and> prefixlen p = prefixlen q \<and> pbits p = pbits q"
proof -
  have "pbits p = pbits q \<longleftrightarrow> plen p = plen q \<and> (\<forall>j < plen p. pbit (pbytes p) j = pbit (pbytes q) j)"
    unfolding prefix_order.eq_iff prefix_pbits by auto
  then show ?thesis by (auto simp: prefix_cmp_def bits_agree_iff Let_def)
qed

section \<open>Masks\<close>

text \<open>Both kinds of masks have the bytes of \<open>maskbit\<close>.\<close>

definition mask_bytes :: "nat \<Rightarrow> nat \<Rightarrow> u8 list" where
  "mask_bytes w n = map (\<lambda>k. maskbit ! min 8 (n - 8 * k)) [0..<w]"

lemma masklen2ip_bytes: "n \<le> 32 \<Longrightarrow> masklen2ip (int n) = Some (mask_bytes 4 n)"
proof -
  have "\<forall>n \<in> set [0..<33]. masklen2ip (int n) = Some (mask_bytes 4 n)" by code_simp
  then show "n \<le> 32 \<Longrightarrow> ?thesis" by simp
qed

lemma masklen2ip6_bytes: "n \<le> 128 \<Longrightarrow> masklen2ip6 (int n) = Some (mask_bytes 16 n)"
  by (simp add: masklen2ip6_def maskbytes6_def mask_bytes_def del: upt_Suc)

lemma masklens:
  "\<forall>n \<in> set [0..<33]. ip_masklen (mask_bytes 4 n) = of_nat n"
  "\<forall>n \<in> set [0..<129]. ip6_masklen (mask_bytes 16 n) = n"
  by code_simp+

text \<open>Masking a byte string keeps the first \<open>n\<close> bits and clears the others.\<close>

definition masked :: "nat \<Rightarrow> nat \<Rightarrow> u8 list \<Rightarrow> u8 list \<Rightarrow> bool" where
  "masked w n a b \<longleftrightarrow> length b = length a \<and> (\<forall>k < w. b ! k = a ! k AND maskbit ! min 8 (n - 8 * k))"

lemma masked_bit:
  assumes "masked w n a b" "k < 8 * w"
  shows "pbit b k \<longleftrightarrow> pbit a k \<and> k < n"
proof -
  have "bit (maskbit ! min 8 (n - 8 * (k div 8))) (7 - k mod 8) \<longleftrightarrow> k mod 8 < min 8 (n - 8 * (k div 8))"
    by (rule maskbit_bit) simp_all
  moreover have "k div 8 < w" using assms(2) by (simp add: less_mult_imp_div_less mult.commute)
  moreover have "k mod 8 < min 8 (n - 8 * (k div 8)) \<longleftrightarrow> k < n" by simp presburger
  ultimately show ?thesis using assms(1) by (simp add: masked_def pbit_def bit_and_iff)
qed

lemma and_ff: "(a :: u8) AND 0xff = a"
proof -
  have "(0xff :: u8) = - 1" by simp
  then show ?thesis by (simp only: and.right_neutral)
qed

lemma apply_mask_masked:
  assumes "pfx_ok p"
  shows "\<exists>b. apply_mask p = Some (p\<lparr>pbytes := b\<rparr>) \<and> masked (prefix_blen p) (plen p) (pbytes p) b"
proof (cases "family p = AF_INET")
  case True
  then have n: "plen p \<le> 32" "length (pbytes p) = 16" using assms by (simp_all add: pfx_ok_def)
  let ?b = "map2 (\<lambda>a b. a AND b) (take 4 (pbytes p)) (mask_bytes 4 (plen p)) @ drop 4 (pbytes p)"
  have "apply_mask p = Some (p\<lparr>pbytes := ?b\<rparr>)"
    unfolding apply_mask_def apply_mask_ipv4_def masklen2ip_bytes [OF n(1)] using True by simp
  moreover have "masked 4 (plen p) (pbytes p) ?b"
    using n(2) by (simp add: masked_def mask_bytes_def nth_append)
  ultimately show ?thesis using True by (auto simp: prefix_blen_def)
next
  case False
  then have f: "family p = AF_INET6" and n: "plen p \<le> 128" "length (pbytes p) = 16"
    using assms by (auto simp: pfx_ok_def)
  let ?i = "plen p div 8"
  have "masked 16 (plen p) (pbytes p) (pbytes (apply_mask_ipv6 p))"
  proof (cases "?i < 16")
    case True
    have "maskbit ! min 8 (plen p - 8 * k) = (if k < ?i then 0xff else if k = ?i then maskbit ! (plen p mod 8) else 0)" for k
    proof -
      have "k < ?i \<Longrightarrow> min 8 (plen p - 8 * k) = 8" "k = ?i \<Longrightarrow> min 8 (plen p - 8 * k) = plen p mod 8"
        "k > ?i \<Longrightarrow> min 8 (plen p - 8 * k) = 0" by (simp_all add: minus_mult_div_eq_mod min_def)
      then show ?thesis by (cases k ?i rule: linorder_cases) (simp_all add: maskbit_def)
    qed
    moreover have "a AND 0xff = a" for a :: u8 by (rule and_ff)
    ultimately show ?thesis using True n
      by (auto simp: masked_def apply_mask_ipv6_def Let_def nth_append nth_Cons')
  next
    case nt: False
    then have "min 8 (plen p - 8 * k) = 8" if "k < 16" for k using n(1) that by simp
    moreover have "a AND 0xff = a" for a :: u8 by (rule and_ff)
    ultimately show ?thesis using nt by (simp add: masked_def apply_mask_ipv6_def maskbit_def)
  qed
  moreover have "apply_mask_ipv6 p = p\<lparr>pbytes := pbytes (apply_mask_ipv6 p)\<rparr>"
    by (simp add: apply_mask_ipv6_def Let_def)
  ultimately show ?thesis using f by (auto simp: apply_mask_def prefix_blen_def)
qed

section \<open>Properties\<close>

text \<open>
  C36: \<open>prefix_match\<close> decides whether the network bits of the first prefix are an initial part
  of those of the second, and \<open>prefix_cmp\<close> whether both have the same family and bits.
\<close>

theorem prefix_match_compares_bits:
  "prefix_match n p = prefix (pbits n) (pbits p) \<and>
   (prefix_cmp n p = 0 \<longleftrightarrow> family n = family p \<and> prefixlen n = prefixlen p \<and> pbits n = pbits p)"
  by (simp add: prefix_match_iff prefix_cmp_iff)

text \<open>
  a mask length turned into a netmask and back is the same number, for both families; a
  number that is not a mask length fails the assertion.
\<close>

theorem netmask_roundtrip:
  "map_option (\<lambda>m. uint (ip_masklen m)) (masklen2ip n) = (if 0 \<le> n \<and> n \<le> 32 then Some n else None) \<and>
   map_option (\<lambda>m. int (ip6_masklen m)) (masklen2ip6 n) = (if 0 \<le> n \<and> n \<le> 128 then Some n else None)"
proof (cases "0 \<le> n")
  case True
  then obtain k where k: "n = int k" by (metis nonneg_int_cases)
  have "uint (of_nat k :: u8) = int k" if "k \<le> 32"
    using that by (simp add: uint_nat unat_of_nat take_bit_nat_eq_self)
  then show ?thesis
    using masklens masklen2ip_bytes [of k] masklen2ip6_bytes [of k]
    by (auto simp: k masklen2ip_def masklen2ip6_def)
qed (simp add: masklen2ip_def masklen2ip6_def)

text \<open>
  \<open>apply_mask\<close> computes a canonical form: two prefixes are the same network for
  \<open>prefix_cmp\<close> exactly when \<open>prefix_same\<close> finds their masked forms equal byte by byte.
\<close>

theorem apply_mask_canonical:
  assumes "pfx_ok p" "pfx_ok q"
  shows "\<exists>p' q'. apply_mask p = Some p' \<and> apply_mask q = Some q' \<and> (prefix_cmp p q = 0 \<longleftrightarrow> prefix_same p' q')"
proof -
  obtain a where a: "apply_mask p = Some (p\<lparr>pbytes := a\<rparr>)" "masked (prefix_blen p) (plen p) (pbytes p) a"
    using apply_mask_masked [OF assms(1)] by blast
  obtain b where b: "apply_mask q = Some (q\<lparr>pbytes := b\<rparr>)" "masked (prefix_blen q) (plen q) (pbytes q) b"
    using apply_mask_masked [OF assms(2)] by blast
  let ?w = "prefix_blen p"
  have len: "length a = 16" "length b = 16" using a b assms by (simp_all add: masked_def pfx_ok_def)
  have w: "plen p \<le> 8 * ?w" "?w \<le> 16" using assms(1) by (auto simp: pfx_ok_def prefix_blen_def)
  have same: "prefix_same (p\<lparr>pbytes := a\<rparr>) (q\<lparr>pbytes := b\<rparr>) \<longleftrightarrow>
      family p = family q \<and> prefixlen p = prefixlen q \<and> take ?w a = take ?w b"
    using assms by (auto simp: prefix_same_def pfx_ok_def prefix_blen_def)
  have "pbits p = pbits q \<longleftrightarrow> take ?w a = take ?w b" if f: "family p = family q" "prefixlen p = prefixlen q"
  proof -
    have b': "masked ?w (plen p) (pbytes q) b" using b(2) f by (simp add: prefix_blen_def split: if_splits)
    have "take ?w a = take ?w b \<longleftrightarrow> bytes_agree a b ?w"
    proof -
      have "take k a = take k b \<longleftrightarrow> bytes_agree a b k" if "k \<le> 16" for k
        using that len by (induction k) (auto simp: take_Suc_conv_app_nth)
      then show ?thesis using w(2) .
    qed
    also have "\<dots> \<longleftrightarrow> (\<forall>j < 8 * ?w. pbit a j = pbit b j)" by (rule bytes_agree_iff)
    also have "\<dots> \<longleftrightarrow> (\<forall>j < plen p. pbit (pbytes p) j = pbit (pbytes q) j)"
      using masked_bit [OF a(2)] masked_bit [OF b'] w(1) by (auto dest: less_le_trans)
    finally show ?thesis unfolding prefix_order.eq_iff prefix_pbits using f by auto
  qed
  then show ?thesis using a(1) b(1) same by (auto simp: prefix_cmp_iff)
qed


definition net10 :: "u8 \<Rightarrow> ip_prefix" where
  "net10 l = \<lparr>family = AF_INET, prefixlen = l, pbytes = [10, 1, 2, 3] @ replicate 12 0\<rparr>"

theorem apply_mask_canonical_witness:
  "\<exists>p' q'. apply_mask (net10 8) = Some p' \<and> apply_mask (net10 9) = Some q' \<and> \<not> prefix_same p' q'"
  using apply_mask_canonical [of "net10 8" "net10 9"] by (auto simp: pfx_ok_def net10_def prefix_cmp_def)

text \<open>
  A length of 256 is cut to 0 by the conversion to \<open>u_char\<close> before it is compared with 32.
\<close>

lemma length_256_is_default_route:
  "map_option prefixlen (str2prefix_ipv4 (\<lambda>s. if s = ''10.0.0.0'' then Some [10, 0, 0, 0] else None)
     ''10.0.0.0/256'' (net10 8)) = Some 0"
  by code_simp

end
