(* ===== verification/RouteTable.thy ===== *)
theory RouteTable
  imports Prefix
begin

text \<open>
  The routing table of the routing daemons, \<open>lib/table.c\<close>: a binary radix tree of nodes linked
  by pointers in both directions and counted by locks.  A table is kept as the C code has it,
  a heap of nodes at addresses; \<open>None\<close> as a pointer is NULL.  The default delegate is used:
  \<open>mem\<close> gives the addresses of the nodes allocated one after the other, since
  \<open>route_node_create\<close> waits until there is memory.  The result of an operation is \<open>None\<close> when
  an \<open>assert\<close> fails or a loop does not end.  All nodes of the heap belong to one table, so the
  field \<open>table\<close> of a node is left out, and so are \<open>aggregate\<close> and the user data of the table.
\<close>

section \<open>Data\<close>

record 'i route_node =
  np :: ip_prefix
  parent :: "nat option"
  l_left :: "nat option"
  l_right :: "nat option"
  lock :: u32
  info :: "'i option"

record 'i route_table =
  nodes :: "nat \<Rightarrow> 'i route_node option"
  rt_top :: "nat option"
  rt_count :: "64 word"
  allocs :: nat

definition route_table_init :: "'i route_table" where
  "route_table_init = \<lparr>nodes = (\<lambda>_. None), rt_top = None, rt_count = 0, allocs = 0\<rparr>"

definition node_at :: "'i route_table \<Rightarrow> nat \<Rightarrow> 'i route_node" where
  "node_at s a = the (nodes s a)"

definition set_node :: "nat \<Rightarrow> ('i route_node \<Rightarrow> 'i route_node) \<Rightarrow> 'i route_table \<Rightarrow> 'i route_table" where
  "set_node a f s = s\<lparr>nodes := (nodes s)(a := Some (f (node_at s a)))\<rparr>"

definition link :: "'i route_node \<Rightarrow> nat \<Rightarrow> nat option" where
  "link n b = (if b = 0 then l_left n else l_right n)"

definition zero_prefix :: ip_prefix where
  "zero_prefix = \<lparr>family = 0, prefixlen = 0, pbytes = replicate 16 0\<rparr>"

definition blank_node :: "'i route_node" where
  "blank_node = \<lparr>np = zero_prefix, parent = None, l_left = None, l_right = None, lock = 0, info = None\<rparr>"

section \<open>Building blocks\<close>

definition route_node_new :: "(nat \<Rightarrow> nat) \<Rightarrow> 'i route_table \<Rightarrow> nat \<times> 'i route_table" where
  "route_node_new mem s =
     (let a = mem (allocs s) in (a, s\<lparr>nodes := (nodes s)(a := Some blank_node), allocs := allocs s + 1\<rparr>))"

definition route_node_set :: "(nat \<Rightarrow> nat) \<Rightarrow> ip_prefix \<Rightarrow> 'i route_table \<Rightarrow> (nat \<times> 'i route_table) option" where
  "route_node_set mem q s =
     (case route_node_new mem s of (a, s) \<Rightarrow>
        map_option (\<lambda>c. (a, set_node a (\<lambda>n. n\<lparr>np := c\<rparr>) s)) (prefix_copy (np (node_at s a)) q))"

definition route_node_free :: "nat \<Rightarrow> 'i route_table \<Rightarrow> 'i route_table" where
  "route_node_free a s = s\<lparr>nodes := (nodes s)(a := None)\<rparr>"

text \<open>The loop \<open>while (new->prefixlen < p->prefixlen && !(mask & diff))\<close> of \<open>route_common\<close>.\<close>

function common_scan :: "u8 \<Rightarrow> u8 \<Rightarrow> u8 \<Rightarrow> u8 \<Rightarrow> u8" where
  "common_scan msk diff len l =
     (if len < l \<and> msk AND diff = 0 then common_scan (drop_bit 1 msk) diff (len + 1) l else len)"
  by pat_completeness auto
termination
  by (relation "measure (\<lambda>(msk, diff, len, l). unat l - unat len)")
    (auto simp: unat_plus1_less word_less_nat_alt)

declare common_scan.simps [simp del]

definition route_common :: "ip_prefix \<Rightarrow> ip_prefix \<Rightarrow> ip_prefix \<Rightarrow> ip_prefix" where
  "route_common n p new =
     (let i = length (takeWhile (\<lambda>i. pbytes n ! i = pbytes p ! i) [0..<plen p div 8]);
          new = new\<lparr>pbytes := take i (pbytes n) @ drop i (pbytes new), prefixlen := of_nat (i * 8)\<rparr> in
      if prefixlen new \<noteq> prefixlen p then
        let diff = pbytes n ! i XOR pbytes p ! i;
            new = new\<lparr>prefixlen := common_scan 0x80 diff (prefixlen new) (prefixlen p)\<rparr>
        in new\<lparr>pbytes := (pbytes new)[i := pbytes n ! i AND maskbit ! (plen new mod 8)]\<rparr>
      else new)"

definition set_link :: "nat \<Rightarrow> nat \<Rightarrow> 'i route_table \<Rightarrow> 'i route_table" where
  "set_link node new s =
     (let b = prefix_bit (pbytes (np (node_at s new))) (plen (np (node_at s node)));
          s = set_node node (\<lambda>n. if b = 0 then n\<lparr>l_left := Some new\<rparr> else n\<lparr>l_right := Some new\<rparr>) s
      in set_node new (\<lambda>n. n\<lparr>parent := Some node\<rparr>) s)"

definition route_lock_node :: "nat \<Rightarrow> 'i route_table \<Rightarrow> 'i route_table" where
  "route_lock_node a = set_node a (\<lambda>n. n\<lparr>lock := lock n + 1\<rparr>)"

section \<open>Looking up\<close>

partial_function (option) match_walk ::
  "'i route_table \<Rightarrow> ip_prefix \<Rightarrow> nat option \<Rightarrow> nat option \<Rightarrow> nat option option" where
  "match_walk s p node matched =
     (case node of
        None \<Rightarrow> Some matched
      | Some a \<Rightarrow> let n = node_at s a in
          if \<not> (prefixlen (np n) \<le> prefixlen p \<and> prefix_match (np n) p) then Some matched
          else let matched = (case info n of None \<Rightarrow> matched | Some _ \<Rightarrow> Some a) in
            if prefixlen (np n) = prefixlen p then Some matched
            else match_walk s p (link n (prefix_bit (pbytes p) (plen (np n)))) matched)"

declare match_walk.simps [code]

definition route_node_match :: "ip_prefix \<Rightarrow> 'i route_table \<Rightarrow> (nat option \<times> 'i route_table) option" where
  "route_node_match p s =
     map_option (\<lambda>m. case m of Some a \<Rightarrow> (Some a, route_lock_node a s) | None \<Rightarrow> (None, s))
       (match_walk s p (rt_top s) None)"

definition route_node_match_ipv4 :: "u8 list \<Rightarrow> 'i route_table \<Rightarrow> (nat option \<times> 'i route_table) option" where
  "route_node_match_ipv4 addr =
     route_node_match \<lparr>family = AF_INET, prefixlen = 32, pbytes = addr @ replicate 12 0\<rparr>"

definition route_node_match_ipv6 :: "u8 list \<Rightarrow> 'i route_table \<Rightarrow> (nat option \<times> 'i route_table) option" where
  "route_node_match_ipv6 addr = route_node_match \<lparr>family = AF_INET6, prefixlen = 128, pbytes = addr\<rparr>"

text \<open>
  The common loop of \<open>route_node_lookup\<close> and \<open>route_node_get\<close>: it stops at a node of the same
  length (\<open>Inl\<close>), or past the last matching node (\<open>Inr (node, match)\<close>).
\<close>

partial_function (option) get_walk ::
  "'i route_table \<Rightarrow> ip_prefix \<Rightarrow> nat option \<Rightarrow> nat option \<Rightarrow> (nat + nat option \<times> nat option) option" where
  "get_walk s p node matched =
     (case node of
        None \<Rightarrow> Some (Inr (None, matched))
      | Some a \<Rightarrow> let n = node_at s a in
          if \<not> (prefixlen (np n) \<le> prefixlen p \<and> prefix_match (np n) p) then Some (Inr (Some a, matched))
          else if prefixlen (np n) = prefixlen p then Some (Inl a)
          else get_walk s p (link n (prefix_bit (pbytes p) (plen (np n)))) (Some a))"

declare get_walk.simps [code]

definition route_node_lookup :: "ip_prefix \<Rightarrow> 'i route_table \<Rightarrow> (nat option \<times> 'i route_table) option" where
  "route_node_lookup p s =
     map_option (\<lambda>r. case r of
         Inl a \<Rightarrow> (case info (node_at s a) of None \<Rightarrow> (None, s) | Some _ \<Rightarrow> (Some a, route_lock_node a s))
       | Inr _ \<Rightarrow> (None, s)) (get_walk s p (rt_top s) None)"

section \<open>Adding a node\<close>

definition attach :: "nat option \<Rightarrow> nat \<Rightarrow> 'i route_table \<Rightarrow> 'i route_table" where
  "attach matched new s = (case matched of Some m \<Rightarrow> set_link m new s | None \<Rightarrow> s\<lparr>rt_top := Some new\<rparr>)"

definition route_node_get :: "(nat \<Rightarrow> nat) \<Rightarrow> ip_prefix \<Rightarrow> 'i route_table \<Rightarrow> (nat \<times> 'i route_table) option" where
  "route_node_get mem p s =
     (case get_walk s p (rt_top s) None of
        None \<Rightarrow> None
      | Some (Inl a) \<Rightarrow> Some (a, route_lock_node a s)
      | Some (Inr (None, matched)) \<Rightarrow>
          map_option (\<lambda>(new, s).
            let s = attach matched new s; s = s\<lparr>rt_count := rt_count s + 1\<rparr> in (new, route_lock_node new s))
            (route_node_set mem p s)
      | Some (Inr (Some node, matched)) \<Rightarrow>
          (case route_node_new mem s of (new, s) \<Rightarrow>
            let s = set_node new (\<lambda>n. n\<lparr>np := (route_common (np (node_at s node)) p (np n))\<lparr>family := family p\<rparr>\<rparr>) s;
                s = set_link new node s;
                s = attach matched new s in
            if prefixlen (np (node_at s new)) \<noteq> prefixlen p then
              map_option (\<lambda>(new', s).
                let s = set_link new new' s; s = s\<lparr>rt_count := rt_count s + 1 + 1\<rparr> in (new', route_lock_node new' s))
                (route_node_set mem p s)
            else
              let s = s\<lparr>rt_count := rt_count s + 1\<rparr> in Some (new, route_lock_node new s)))"

section \<open>Removing nodes\<close>

partial_function (option) route_node_delete :: "nat \<Rightarrow> 'i route_table \<Rightarrow> 'i route_table option" where
  "route_node_delete a s =
     (let n = node_at s a in
      if \<not> (lock n = 0 \<and> Option.is_none (info n)) then None
      else if l_left n \<noteq> None \<and> l_right n \<noteq> None then Some s
      else
        let child = (if l_left n \<noteq> None then l_left n else l_right n);
            s = (case child of None \<Rightarrow> s | Some c \<Rightarrow> set_node c (\<lambda>m. m\<lparr>parent := parent n\<rparr>) s);
            s = (case parent n of
                   None \<Rightarrow> s\<lparr>rt_top := child\<rparr>
                 | Some b \<Rightarrow> set_node b (\<lambda>m. if l_left m = Some a then m\<lparr>l_left := child\<rparr> else m\<lparr>l_right := child\<rparr>) s);
            s = s\<lparr>rt_count := rt_count s - 1\<rparr>;
            s = route_node_free a s
        in case parent n of
             None \<Rightarrow> Some s
           | Some b \<Rightarrow> if lock (node_at s b) = 0 then route_node_delete b s else Some s)"

declare route_node_delete.simps [code]

definition route_unlock_node :: "nat \<Rightarrow> 'i route_table \<Rightarrow> 'i route_table option" where
  "route_unlock_node a s =
     (if \<not> lock (node_at s a) > 0 then None
      else let s = set_node a (\<lambda>n. n\<lparr>lock := lock n - 1\<rparr>) s in
        if lock (node_at s a) = 0 then route_node_delete a s else Some s)"

text \<open>Freeing a whole table; the result tells that the final assertion on the counter holds.\<close>

partial_function (option) free_walk :: "nat option \<Rightarrow> 'i route_table \<Rightarrow> 'i route_table option" where
  "free_walk node s =
     (case node of
        None \<Rightarrow> Some s
      | Some a \<Rightarrow> let n = node_at s a in
          if l_left n \<noteq> None then free_walk (l_left n) s
          else if l_right n \<noteq> None then free_walk (l_right n) s
          else let s = s\<lparr>rt_count := rt_count s - 1\<rparr>; s = route_node_free a s in
            case parent n of
              None \<Rightarrow> Some s
            | Some b \<Rightarrow> free_walk (Some b)
                (set_node b (\<lambda>m. if l_left m = Some a then m\<lparr>l_left := None\<rparr> else m\<lparr>l_right := None\<rparr>) s))"

declare free_walk.simps [code]

definition route_table_free :: "'i route_table \<Rightarrow> unit option" where
  "route_table_free s =
     (case free_walk (rt_top s) s of None \<Rightarrow> None | Some s \<Rightarrow> if rt_count s = 0 then Some () else None)"

definition route_table_count :: "'i route_table \<Rightarrow> 64 word" where
  "route_table_count s = rt_count s"

section \<open>Iterating\<close>

definition route_top :: "'i route_table \<Rightarrow> nat option \<times> 'i route_table" where
  "route_top s = (case rt_top s of None \<Rightarrow> (None, s) | Some a \<Rightarrow> (Some a, route_lock_node a s))"

text \<open>The way up, to the right sibling of the first left child that has one, below \<open>limit\<close>.\<close>

partial_function (option) up_walk :: "'i route_table \<Rightarrow> nat option \<Rightarrow> nat \<Rightarrow> nat option option" where
  "up_walk s limit a =
     (case parent (node_at s a) of
        None \<Rightarrow> Some None
      | Some b \<Rightarrow>
          if limit = Some a then Some None
          else if l_left (node_at s b) = Some a \<and> l_right (node_at s b) \<noteq> None
          then Some (l_right (node_at s b))
          else up_walk s limit b)"

declare up_walk.simps [code]

definition move_to :: "nat option \<Rightarrow> nat \<Rightarrow> 'i route_table \<Rightarrow> (nat option \<times> 'i route_table) option" where
  "move_to nxt a s =
     map_option (Pair nxt) (route_unlock_node a (case nxt of None \<Rightarrow> s | Some b \<Rightarrow> route_lock_node b s))"

definition next_until :: "nat option \<Rightarrow> nat \<Rightarrow> 'i route_table \<Rightarrow> (nat option \<times> 'i route_table) option" where
  "next_until limit a s =
     (let n = node_at s a in
      if l_left n \<noteq> None then move_to (l_left n) a s
      else if l_right n \<noteq> None then move_to (l_right n) a s
      else case up_walk s limit a of None \<Rightarrow> None | Some nxt \<Rightarrow> move_to nxt a s)"

definition route_next :: "nat \<Rightarrow> 'i route_table \<Rightarrow> (nat option \<times> 'i route_table) option" where
  "route_next = next_until None"

definition route_next_until :: "nat \<Rightarrow> nat option \<Rightarrow> 'i route_table \<Rightarrow> (nat option \<times> 'i route_table) option" where
  "route_next_until a limit = next_until limit a"

definition route_table_prefix_iter_cmp :: "ip_prefix \<Rightarrow> ip_prefix \<Rightarrow> int option" where
  "route_table_prefix_iter_cmp p1 p2 =
     (if prefixlen p1 \<le> prefixlen p2 \<and> prefix_match p1 p2 then Some (if prefixlen p1 = prefixlen p2 then 0 else - 1)
      else if \<not> prefixlen p1 \<le> prefixlen p2 \<and> prefix_match p2 p1 then Some 1
      else let c = route_common p1 p2 zero_prefix in
        if \<not> (prefixlen c < prefixlen p1 \<and> prefixlen c < prefixlen p2) then None
        else if prefix_bit (pbytes p1) (plen c) \<noteq> 0
        then if prefix_bit (pbytes p2) (plen c) = 0 then Some 1 else None
        else if prefix_bit (pbytes p2) (plen c) \<noteq> 0 then Some (- 1) else None)"

definition route_get_subtree_next :: "'i route_table \<Rightarrow> nat \<Rightarrow> nat option option" where
  "route_get_subtree_next s a = up_walk s None a"

partial_function (option) next_internal ::
  "ip_prefix \<Rightarrow> nat option \<Rightarrow> 'i route_table \<Rightarrow> (nat option \<times> 'i route_table) option" where
  "next_internal p node s =
     (case node of
        None \<Rightarrow> Some (None, s)
      | Some a \<Rightarrow> let n = node_at s a in
          if (if prefixlen (np n) < prefixlen p then prefix_match (np n) p else prefix_match p (np n)) then
            if prefixlen (np n) = prefixlen p then
              (case route_next a (route_lock_node a s) of
                 None \<Rightarrow> None
               | Some (None, s) \<Rightarrow> Some (None, s)
               | Some (Some b, s) \<Rightarrow> map_option (Pair (Some b)) (route_unlock_node b s))
            else if prefixlen (np n) > prefixlen p then Some (Some a, s)
            else
              (case link n (prefix_bit (pbytes p) (plen (np n))) of
                 Some b \<Rightarrow> next_internal p (Some b) s
               | None \<Rightarrow>
                   if l_right n \<noteq> None then Some (l_right n, s)
                   else map_option (\<lambda>r. (r, s)) (route_get_subtree_next s a))
          else
            (case route_table_prefix_iter_cmp (np n) p of
               None \<Rightarrow> None
             | Some c \<Rightarrow>
                 if c > 0 then Some (Some a, s)
                 else if \<not> c < 0 then None
                 else map_option (\<lambda>r. (r, s)) (route_get_subtree_next s a)))"

declare next_internal.simps [code]

definition route_table_get_next :: "ip_prefix \<Rightarrow> 'i route_table \<Rightarrow> (nat option \<times> 'i route_table) option" where
  "route_table_get_next p s =
     (case next_internal p (rt_top s) s of
        None \<Rightarrow> None
      | Some (None, s) \<Rightarrow> Some (None, s)
      | Some (Some a, s) \<Rightarrow>
          (case route_table_prefix_iter_cmp (np (node_at s a)) p of
             None \<Rightarrow> None
           | Some c \<Rightarrow> if c > 0 then Some (Some a, route_lock_node a s) else None))"

section \<open>Iterators\<close>

datatype iter_state = RT_ITER_STATE_INIT | RT_ITER_STATE_ITERATING | RT_ITER_STATE_PAUSED | RT_ITER_STATE_DONE

record route_table_iter =
  it_state :: iter_state
  it_current :: "nat option"
  pause_prefix :: ip_prefix

definition route_table_iter_init :: route_table_iter where
  "route_table_iter_init = \<lparr>it_state = RT_ITER_STATE_INIT, it_current = None, pause_prefix = zero_prefix\<rparr>"

definition route_table_iter_pause ::
  "route_table_iter \<Rightarrow> 'i route_table \<Rightarrow> (route_table_iter \<times> 'i route_table) option" where
  "route_table_iter_pause it s =
     (if it_state it = RT_ITER_STATE_ITERATING then
        let a = the (it_current it) in
        (case prefix_copy (pause_prefix it) (np (node_at s a)) of
           None \<Rightarrow> None
         | Some c \<Rightarrow> map_option (\<lambda>s. (it\<lparr>pause_prefix := c, it_current := None, it_state := RT_ITER_STATE_PAUSED\<rparr>, s))
             (route_unlock_node a s))
      else Some (it, s))"

definition route_table_iter_cleanup ::
  "route_table_iter \<Rightarrow> 'i route_table \<Rightarrow> (route_table_iter \<times> 'i route_table) option" where
  "route_table_iter_cleanup it s =
     (if it_state it = RT_ITER_STATE_ITERATING then
        map_option (\<lambda>s. (it\<lparr>it_current := None, it_state := RT_ITER_STATE_DONE\<rparr>, s))
          (route_unlock_node (the (it_current it)) s)
      else if it_current it \<noteq> None then None
      else Some (it\<lparr>it_state := RT_ITER_STATE_DONE\<rparr>, s))"

definition route_table_iter_next ::
  "route_table_iter \<Rightarrow> 'i route_table \<Rightarrow> (nat option \<times> route_table_iter \<times> 'i route_table) option" where
  "route_table_iter_next it s =
     (let finish = map_option (\<lambda>(node, s). (node, it\<lparr>it_current := node,
            it_state := if node \<noteq> None then RT_ITER_STATE_ITERATING else RT_ITER_STATE_DONE\<rparr>, s)) in
      case it_state it of
        RT_ITER_STATE_INIT \<Rightarrow> finish (Some (route_top s))
      | RT_ITER_STATE_ITERATING \<Rightarrow> finish (route_next (the (it_current it)) s)
      | RT_ITER_STATE_PAUSED \<Rightarrow> finish (route_table_get_next (pause_prefix it) s)
      | RT_ITER_STATE_DONE \<Rightarrow> Some (None, it, s))"

definition route_table_iter_is_done :: "route_table_iter \<Rightarrow> bool" where
  "route_table_iter_is_done it \<longleftrightarrow> it_state it = RT_ITER_STATE_DONE"

definition route_table_iter_started :: "route_table_iter \<Rightarrow> bool" where
  "route_table_iter_started it \<longleftrightarrow> it_state it \<noteq> RT_ITER_STATE_INIT"

end
