(* ===== verification/RouteOrder.thy ===== *)
theory RouteOrder
  imports RouteTable
begin

text \<open>
  The bit-level facts behind the routing table: \<open>route_common\<close> finds the first bit in which two
  prefixes differ, and \<open>route_table_prefix_iter_cmp\<close> is the lexicographic order on bit strings.
\<close>

section \<open>The first differing bit\<close>

definition first_diff :: "u8 list \<Rightarrow> u8 list \<Rightarrow> nat \<Rightarrow> nat \<Rightarrow> bool" where
  "first_diff a b l k \<longleftrightarrow> k \<le> l \<and> (\<forall>j < k. pbit a j = pbit b j) \<and> (k < l \<longrightarrow> pbit a k \<noteq> pbit b k)"

lemma first_diff_unique: "first_diff a b l k \<Longrightarrow> first_diff a b l k' \<Longrightarrow> k = k'"
  unfolding first_diff_def by (metis linorder_neqE_nat order.strict_trans2)

lemma common_scan_result:
  assumes "b < 8 \<or> unat l \<le> 8 * i + 8" "8 * i + b \<le> unat l" "unat len = 8 * i + b" "b \<le> 8"
    and "unat l \<le> 8 * i + 8 \<or> (\<exists>m. b \<le> m \<and> m < 8 \<and> bit diff (7 - m))"
    and "msk = (if b < 8 then drop_bit b 0x80 else 0)"
  shows "let k = unat (common_scan msk diff len l) in 8 * i + b \<le> k \<and> k \<le> unat l \<and>
    (\<forall>m. 8 * i + b \<le> 8 * i + m \<and> 8 * i + m < k \<longrightarrow> m < 8 \<and> \<not> bit diff (7 - m)) \<and>
    (k < unat l \<longrightarrow> k < 8 * i + 8 \<and> bit diff (7 - (k - 8 * i)))"
  using assms
proof (induction "unat l - unat len" arbitrary: b len msk)
  case 0
  then have "len = l" by (simp add: word_unat_eq_iff)
  then have "common_scan msk diff len l = l" by (simp add: common_scan.simps)
  with 0 show ?case by (auto simp: Let_def)
next
  case (Suc d)
  have lt: "len < l" using Suc.hyps(2) by (simp add: word_less_nat_alt)
  have b: "b < 8" using Suc.hyps(2) Suc.prems by linarith
  have one: "msk AND diff = 0 \<longleftrightarrow> \<not> bit diff (7 - b)"
  proof -
    have "\<forall>b \<in> set [0..<8]. \<forall>n \<in> set [0..<8]. bit (drop_bit b (0x80 :: u8)) n \<longleftrightarrow> n = 7 - b" by code_simp
    then have "bit msk n \<longleftrightarrow> n = 7 - b" if "n < 8" for n using Suc.prems(6) b that by simp
    moreover have "msk AND diff = 0 \<longleftrightarrow> (\<forall>n < 8. \<not> (bit msk n \<and> bit diff n))"
    proof
      assume "msk AND diff = 0"
      then have "\<not> bit (msk AND diff) n" for n by simp
      then show "\<forall>n < 8. \<not> (bit msk n \<and> bit diff n)" by (simp add: bit_and_iff)
    next
      assume "\<forall>n < 8. \<not> (bit msk n \<and> bit diff n)"
      then show "msk AND diff = 0" by (intro bit_word_eqI) (simp add: bit_and_iff)
    qed
    ultimately show ?thesis using b by auto
  qed
  show ?case
  proof (cases "bit diff (7 - b)")
    case True
    then have "common_scan msk diff len l = len" using one by (simp add: common_scan.simps)
    then show ?thesis using True Suc.prems(2,3) b lt by (auto simp: Let_def word_less_nat_alt)
  next
    case False
    then have step: "common_scan msk diff len l = common_scan (drop_bit 1 msk) diff (len + 1) l"
      using one lt by (subst common_scan.simps) simp
    have u: "unat (len + 1) = 8 * i + Suc b" using unat_plus1_less [OF lt] Suc.prems(3) by simp
    have m: "drop_bit 1 msk = (if Suc b < 8 then drop_bit (Suc b) 0x80 else 0)"
    proof (cases "Suc b < 8")
      case True
      then show ?thesis using Suc.prems(6) b by (simp add: drop_bit_drop_bit)
    next
      case nt: False
      then have "b = 7" using b by simp
      then show ?thesis using Suc.prems(6) by (simp add: drop_bit_drop_bit)
    qed
    have ex: "unat l \<le> 8 * i + 8 \<or> (\<exists>m. Suc b \<le> m \<and> m < 8 \<and> bit diff (7 - m))"
      using Suc.prems(5) False by (metis Suc_leI le_neq_implies_less)
    have d: "d = unat l - unat (len + 1)" using Suc.hyps(2) u Suc.prems(3) by simp
    have s: "Suc b < 8 \<or> unat l \<le> 8 * i + 8" "8 * i + Suc b \<le> unat l" "Suc b \<le> 8"
      using ex lt Suc.prems(3) b by (auto simp: word_less_nat_alt)
    have IH: "let k = unat (common_scan (drop_bit 1 msk) diff (len + 1) l) in 8 * i + Suc b \<le> k \<and> k \<le> unat l \<and>
      (\<forall>m. 8 * i + Suc b \<le> 8 * i + m \<and> 8 * i + m < k \<longrightarrow> m < 8 \<and> \<not> bit diff (7 - m)) \<and>
      (k < unat l \<longrightarrow> k < 8 * i + 8 \<and> bit diff (7 - (k - 8 * i)))"
      by (rule Suc.hyps(1) [OF d s(1,2) u s(3) ex m])
    show ?thesis unfolding step Let_def
    proof (intro conjI allI impI)
      fix m assume a: "8 * i + b \<le> 8 * i + m \<and> 8 * i + m < unat (common_scan (drop_bit 1 msk) diff (len + 1) l)"
      show "m < 8" "\<not> bit diff (7 - m)"
        using a IH False b by (cases "m = b"; simp add: Let_def)+
    qed (use IH in \<open>auto simp: Let_def\<close>)
  qed
qed

lemma route_common_split:
  fixes n p new :: ip_prefix
  defines "i \<equiv> length (takeWhile (\<lambda>i. pbytes n ! i = pbytes p ! i) [0..<plen p div 8])"
    and "k \<equiv> plen (route_common n p new)"
  shows "first_diff (pbytes n) (pbytes p) (plen p) k \<and> 8 * i \<le> k \<and> k < 8 * i + 8"
proof -
  let ?l = "plen p"
  have il: "i \<le> ?l div 8" using length_takeWhile_le [of _ "[0..<?l div 8]"] by (simp add: i_def)
  have l256: "?l < 256" using unsigned_less [of "prefixlen p"] by simp
  have agree: "pbytes n ! j = pbytes p ! j" if "j < i" for j
    using that il nth_mem [of j "takeWhile (\<lambda>i. pbytes n ! i = pbytes p ! i) [0..<?l div 8]"]
    by (auto simp: i_def takeWhile_nth dest: set_takeWhileD)
  have stop: "pbytes n ! i \<noteq> pbytes p ! i" if "i < ?l div 8"
    using nth_length_takeWhile [of "\<lambda>i. pbytes n ! i = pbytes p ! i" "[0..<?l div 8]"] that by (simp add: i_def)
  have bits: "pbit (pbytes n) j = pbit (pbytes p) j" if "j < 8 * i" for j
    using agree [of "j div 8"] that by (simp add: pbit_def less_mult_imp_div_less mult.commute)
  have "i * 8 < 2 ^ 8" using il l256 by simp
  then have ui: "unat (of_nat (i * 8) :: u8) = 8 * i"
    by (subst unat_of_nat) (simp add: take_bit_nat_eq_self)
  let ?diff = "pbytes n ! i XOR pbytes p ! i"
  have pl: "plen (route_common n p new) =
      (if 8 * i = ?l then ?l else unat (common_scan 0x80 ?diff (of_nat (i * 8)) (prefixlen p)))"
    unfolding route_common_def Let_def i_def [symmetric] using ui by (auto simp: word_unat_eq_iff)
  have dbit: "bit ?diff (7 - m) \<longleftrightarrow> pbit (pbytes n) (8 * i + m) \<noteq> pbit (pbytes p) (8 * i + m)" if "m < 8" for m
    using that by (simp add: pbit_def bit_xor_iff)
  show ?thesis
  proof (cases "8 * i = ?l")
    case True
    then show ?thesis using pl bits by (simp add: first_diff_def k_def)
  next
    case False
    have ex: "?l \<le> 8 * i + 8 \<or> (\<exists>m. 0 \<le> m \<and> m < 8 \<and> bit ?diff (7 - m))"
    proof (cases "i < ?l div 8")
      case True
      then obtain m where "m < 8" "bit (pbytes n ! i) (7 - m) \<noteq> bit (pbytes p ! i) (7 - m)"
        using stop byte_eq_iff by blast
      then show ?thesis by (auto simp: bit_xor_iff)
    next
      case False
      then show ?thesis using il by linarith
    qed
    have il8: "8 * i + 0 \<le> unat (prefixlen p)" using il by linarith
    have pk: "k = unat (common_scan 0x80 ?diff (of_nat (i * 8)) (prefixlen p))"
      using pl False by (simp only: k_def if_False)
    have "let k = unat (common_scan 0x80 ?diff (of_nat (i * 8)) (prefixlen p)) in 8 * i + 0 \<le> k \<and> k \<le> ?l \<and>
      (\<forall>m. 8 * i + 0 \<le> 8 * i + m \<and> 8 * i + m < k \<longrightarrow> m < 8 \<and> \<not> bit ?diff (7 - m)) \<and>
      (k < ?l \<longrightarrow> k < 8 * i + 8 \<and> bit ?diff (7 - (k - 8 * i)))"
      by (rule common_scan_result) (use ui ex il8 in auto)
    then have k: "8 * i \<le> k" "k \<le> ?l"
      "\<And>m. 8 * i + m < k \<Longrightarrow> m < 8 \<and> \<not> bit ?diff (7 - m)" "k < ?l \<Longrightarrow> k < 8 * i + 8 \<and> bit ?diff (7 - (k - 8 * i))"
      unfolding pk [symmetric] Let_def by auto
    have "pbit (pbytes n) j = pbit (pbytes p) j" if "j < k" for j
    proof (cases "j < 8 * i")
      case nj: False
      then show ?thesis using k(3) [of "j - 8 * i"] dbit [of "j - 8 * i"] that by simp
    qed (rule bits)
    moreover have "pbit (pbytes n) k \<noteq> pbit (pbytes p) k" if "k < ?l"
    proof -
      have "k - 8 * i < 8" using k(1) k(4) [OF that] by linarith
      from dbit [OF this] k(4) [OF that] k(1) show ?thesis by simp
    qed
    ultimately have fd: "first_diff (pbytes n) (pbytes p) (plen p) k" using k(2) by (simp add: first_diff_def)
    have "k < 8 * i + 8"
    proof (cases "k < ?l")
      case full: False
      have "\<not> i < ?l div 8"
      proof
        assume i: "i < ?l div 8"
        then obtain m where m: "m < 8" "bit (pbytes n ! i) (7 - m) \<noteq> bit (pbytes p ! i) (7 - m)"
          using stop byte_eq_iff by blast
        have "8 * i + m < k" using i m(1) full by linarith
        then show False using fd dbit [OF m(1)] m by (simp add: first_diff_def bit_xor_iff)
      qed
      then show ?thesis using il k(2) by linarith
    qed (use k(4) in simp)
    with fd k(1) show ?thesis by simp
  qed
qed

lemma route_common_plen:
  "first_diff (pbytes n) (pbytes p) (plen p) (plen (route_common n p new))"
  using route_common_split by blast

text \<open>The common bits are copied.\<close>

lemma route_common_bits:
  assumes "length (pbytes n) = 16" "length (pbytes new) = 16" "plen p \<le> 128"
  shows "length (pbytes (route_common n p new)) = 16"
    "j < plen (route_common n p new) \<Longrightarrow> j < 128 \<Longrightarrow> pbit (pbytes (route_common n p new)) j = pbit (pbytes n) j"
proof -
  define i where "i = length (takeWhile (\<lambda>i. pbytes n ! i = pbytes p ! i) [0..<plen p div 8])"
  let ?k = "plen (route_common n p new)"
  note k = route_common_split [of n p new, folded i_def]
  have ki: "?k div 8 = i" using k by auto
  have bytes: "pbytes (route_common n p new) = (if of_nat (i * 8) \<noteq> prefixlen p
    then (take i (pbytes n) @ drop i (pbytes new))[i := pbytes n ! i AND maskbit ! (?k mod 8)]
    else take i (pbytes n) @ drop i (pbytes new))"
    unfolding route_common_def Let_def i_def [symmetric] by simp
  have "?k \<le> plen p" using k by (simp add: first_diff_def)
  then have "i \<le> 16" using k assms(3) by linarith
  then show "length (pbytes (route_common n p new)) = 16" using assms by (simp add: bytes)
  assume j: "j < ?k" "j < 128"
  show "pbit (pbytes (route_common n p new)) j = pbit (pbytes n) j"
  proof (cases "j div 8 < i")
    case True
    moreover have "j div 8 < 16" using j(2) by simp
    ultimately show ?thesis using assms j by (simp add: pbit_def bytes nth_append)
  next
    case False
    have ji: "j div 8 = i" "j mod 8 < ?k mod 8" using False j(1) k ki by (auto simp: minus_mult_div_eq_mod [symmetric])
    have "i < 16" using ji(1) j(2) by auto
    have "?k \<le> plen p" using k by (simp add: first_diff_def)
    then have "8 * i < plen p" using j(1) False ji(1) by linarith
    moreover have "plen p < 256" using unsigned_less [of "prefixlen p"] by simp
    ultimately have "i * 8 < 2 ^ 8" by simp
    then have "unat (of_nat (i * 8) :: u8) = i * 8" by (subst unat_of_nat) (simp add: take_bit_nat_eq_self)
    then have ne: "of_nat (i * 8) \<noteq> prefixlen p" using \<open>8 * i < plen p\<close> by auto
    have "bit (maskbit ! (?k mod 8)) (7 - j mod 8)" using ji(2) by (intro maskbit_bit [THEN iffD2]) auto
    then show ?thesis using ne \<open>i < 16\<close> assms ji(1) by (simp add: pbit_def bytes bit_and_iff)
  qed
qed

section \<open>The order of an iteration\<close>

text \<open>A prefix comes before the longer prefixes it contains, and bit 0 comes before bit 1.\<close>

definition before :: "bool list \<Rightarrow> bool list \<Rightarrow> bool" where
  "before xs ys \<longleftrightarrow> (xs, ys) \<in> lexord {(False, True)}"

lemma before_irrefl: "\<not> before xs xs"
  unfolding before_def by (rule lexord_irreflexive) simp

lemma before_trans: "before xs ys \<Longrightarrow> before ys zs \<Longrightarrow> before xs zs"
  unfolding before_def by (rule lexord_trans) (auto simp: trans_def)

lemma before_total: "xs = ys \<or> before xs ys \<or> before ys xs"
proof -
  have "\<forall>a b. (a, b) \<in> {(False, True)} \<or> a = b \<or> (b, a) \<in> {(False, True)}" by auto
  from lexord_linear [OF this, of xs ys] show ?thesis unfolding before_def by blast
qed

lemma before_prefix: "prefix xs ys \<Longrightarrow> xs \<noteq> ys \<Longrightarrow> before xs ys"
  unfolding before_def prefix_def by (auto intro!: lexord_append_rightI) (metis neq_Nil_conv)

lemma before_branch: "prefix (xs @ [False]) ys \<Longrightarrow> prefix (xs @ [True]) zs \<Longrightarrow> before ys zs"
  unfolding before_def prefix_def by (auto simp: lexord_append_leftI)

text \<open>Two prefixes neither of which contains the other part at the common length.\<close>

lemma common_branch:
  fixes new :: ip_prefix
  assumes "\<not> prefix (pbits p) (pbits q)" "\<not> prefix (pbits q) (pbits p)"
  defines "c \<equiv> plen (route_common p q new)"
  shows "c < plen p" "c < plen q" "take c (pbits p) = take c (pbits q)" "pbit (pbytes p) c \<noteq> pbit (pbytes q) c"
proof -
  have f: "c \<le> plen q" "\<forall>j < c. pbit (pbytes p) j = pbit (pbytes q) j"
    "c < plen q \<Longrightarrow> pbit (pbytes p) c \<noteq> pbit (pbytes q) c"
    using route_common_plen [of p q new] by (simp_all add: first_diff_def c_def)
  show cp: "c < plen p"
  proof (rule ccontr)
    assume "\<not> c < plen p"
    with f(1,2) assms(1) show False by (simp add: prefix_pbits)
  qed
  show cq: "c < plen q"
  proof (rule ccontr)
    assume "\<not> c < plen q"
    with f(1,2) cp assms(2) show False by (simp add: prefix_pbits)
  qed
  show "take c (pbits p) = take c (pbits q)" using f(2) cp cq by (intro nth_equalityI) auto
  show "pbit (pbytes p) c \<noteq> pbit (pbytes q) c" using f(3) cq .
qed

lemma take_branch:
  assumes "c < plen p" shows "prefix (take c (pbits p) @ [pbit (pbytes p) c]) (pbits p)"
  using take_is_prefix [of "Suc c" "pbits p"] assms by (simp add: take_Suc_conv_app_nth)

lemma iter_cmp_branch:
  assumes n: "\<not> prefix (pbits p) (pbits q)" "\<not> prefix (pbits q) (pbits p)"
  shows "route_table_prefix_iter_cmp p q =
    Some (if pbit (pbytes p) (plen (route_common p q zero_prefix)) then 1 else - 1)"
    "before (pbits p) (pbits q) \<longleftrightarrow> \<not> pbit (pbytes p) (plen (route_common p q zero_prefix))"
proof -
  let ?c = "plen (route_common p q zero_prefix)"
  note c = common_branch [OF n, of zero_prefix]
  have "(pbits p \<noteq> pbits q)" using n(1) by auto
  show "route_table_prefix_iter_cmp p q = Some (if pbit (pbytes p) ?c then 1 else - 1)"
    using n c by (auto simp: route_table_prefix_iter_cmp_def prefix_match_iff Let_def prefix_bit_pbit word_less_nat_alt)
  have tp: "prefix (take ?c (pbits q) @ [pbit (pbytes p) ?c]) (pbits p)"
    using take_branch [OF c(1)] c(3) by simp
  have tq: "prefix (take ?c (pbits q) @ [pbit (pbytes q) ?c]) (pbits q)" by (rule take_branch [OF c(2)])
  show "before (pbits p) (pbits q) \<longleftrightarrow> \<not> pbit (pbytes p) ?c"
  proof (cases "pbit (pbytes p) ?c")
    case True
    then have "before (pbits q) (pbits p)" using before_branch [of _ "pbits q" "pbits p"] tp tq c(4) by simp
    then show ?thesis using True by (metis before_trans before_irrefl)
  next
    case False
    then show ?thesis using before_branch [of _ "pbits p" "pbits q"] tp tq c(4) by simp
  qed
qed

text \<open>
  \<open>route_table_prefix_iter_cmp\<close> never violates one of its assertions and computes the
  lexicographic order of the network bits, a total order in which a network precedes the
  networks it contains.
\<close>

theorem iter_cmp_is_order:
  "route_table_prefix_iter_cmp p q =
     Some (if pbits p = pbits q then 0 else if before (pbits p) (pbits q) then - 1 else 1)"
proof (cases "prefix (pbits p) (pbits q)")
  case True
  then have "prefixlen p \<le> prefixlen q" by (simp add: prefix_pbits word_le_nat_alt)
  moreover have "prefixlen p = prefixlen q \<longleftrightarrow> pbits p = pbits q"
    using True by (auto simp: prefix_def word_unat_eq_iff simp flip: length_pbits)
  ultimately show ?thesis
    using True before_prefix [OF True] by (auto simp: route_table_prefix_iter_cmp_def prefix_match_iff)
next
  case np: False
  show ?thesis
  proof (cases "prefix (pbits q) (pbits p)")
    case True
    have ne: "pbits p \<noteq> pbits q" using np by auto
    have "\<not> plen p \<le> plen q"
    proof
      assume "plen p \<le> plen q"
      then have "pbits p = pbits q" using True by (auto simp: prefix_def simp flip: length_pbits)
      with ne show False ..
    qed
    moreover have "\<not> before (pbits p) (pbits q)"
      using before_prefix [OF True] ne by (metis before_trans before_irrefl)
    ultimately show ?thesis
      using True np ne by (simp add: route_table_prefix_iter_cmp_def prefix_match_iff word_le_nat_alt)
  next
    case False
    have "pbits p \<noteq> pbits q" using np by auto
    then show ?thesis using iter_cmp_branch [OF np False] by simp
  qed
qed

end
