(* ===== verification/RouteTree.thy ===== *)
theory RouteTree
  imports RouteOrder
begin

text \<open>
  The abstraction of the routing table: a heap of nodes represents a binary tree when every
  node's pointers are those of the tree and nothing else is allocated.  Operations follow
  paths, so a tree is also seen as a context with a hole and the subtree in it.  The network
  bits of the nodes make it a radix tree, and nodes without a lock are forks.
\<close>

section \<open>Trees and contexts\<close>

datatype 'i rtree = Tip | Nod nat ip_prefix u32 "'i option" "'i rtree" "'i rtree"

fun root :: "'i rtree \<Rightarrow> nat option" where
  "root Tip = None"
| "root (Nod a q lk i l r) = Some a"

fun addrs :: "'i rtree \<Rightarrow> nat list" where
  "addrs Tip = []"
| "addrs (Nod a q lk i l r) = a # addrs l @ addrs r"

text \<open>The entries of a tree in the order of an iteration.\<close>

type_synonym 'i entry = "nat \<times> ip_prefix \<times> u32 \<times> 'i option"

fun pre :: "'i rtree \<Rightarrow> 'i entry list" where
  "pre Tip = []"
| "pre (Nod a q lk i l r) = (a, q, lk, i) # pre l @ pre r"

text \<open>A node on the way to the hole: the direction taken, its fields and its other subtree.\<close>

type_synonym 'i frame = "bool \<times> nat \<times> ip_prefix \<times> u32 \<times> 'i option \<times> 'i rtree"

fun fill :: "'i frame \<Rightarrow> 'i rtree \<Rightarrow> 'i rtree" where
  "fill (d, a, q, lk, i, u) t = (if d then Nod a q lk i u t else Nod a q lk i t u)"

fun plug :: "'i frame list \<Rightarrow> 'i rtree \<Rightarrow> 'i rtree" where
  "plug [] t = t"
| "plug (f # c) t = plug c (fill f t)"

fun up :: "'i frame list \<Rightarrow> nat option" where
  "up [] = None"
| "up ((d, a, q, lk, i, u) # c) = Some a"

fun caddrs :: "'i frame list \<Rightarrow> nat list" where
  "caddrs [] = []"
| "caddrs ((d, a, q, lk, i, u) # c) = a # addrs u @ caddrs c"

text \<open>The entries before and after the hole.\<close>

fun lpre :: "'i frame list \<Rightarrow> 'i entry list" where
  "lpre [] = []"
| "lpre ((d, a, q, lk, i, u) # c) = lpre c @ (a, q, lk, i) # (if d then pre u else [])"

fun rpre :: "'i frame list \<Rightarrow> 'i entry list" where
  "rpre [] = []"
| "rpre ((d, a, q, lk, i, u) # c) = (if d then [] else pre u) @ rpre c"

lemma pre_plug: "pre (plug c t) = lpre c @ pre t @ rpre c"
  by (induction c arbitrary: t) auto

lemma map_fst_pre: "map fst (pre t) = addrs t"
  by (induction t) auto

lemma length_pre: "length (pre t) = length (addrs t)"
  by (metis length_map map_fst_pre)

lemma set_addrs_plug [simp]: "set (addrs (plug c t)) = set (caddrs c) \<union> set (addrs t)"
  by (induction c arbitrary: t) (auto split: if_splits)

lemma length_addrs_plug [simp]: "length (addrs (plug c t)) = length (caddrs c) + length (addrs t)"
  by (induction c arbitrary: t) auto

lemma distinct_addrs_plug [simp]:
  "distinct (addrs (plug c t)) \<longleftrightarrow> distinct (caddrs c) \<and> distinct (addrs t) \<and> set (caddrs c) \<inter> set (addrs t) = {}"
proof (induction c arbitrary: t)
  case (Cons f c)
  obtain d a q lk i u where "f = (d, a, q, lk, i, u)" by (cases f)
  with Cons show ?case by (cases d) auto
qed simp

section \<open>Trees in the heap\<close>

definition cell :: "ip_prefix \<Rightarrow> nat option \<Rightarrow> nat option \<Rightarrow> nat option \<Rightarrow> u32 \<Rightarrow> 'i option \<Rightarrow> 'i route_node" where
  "cell q par l r lk i = \<lparr>np = q, parent = par, l_left = l, l_right = r, lock = lk, info = i\<rparr>"

fun tree_at :: "(nat \<Rightarrow> 'i route_node option) \<Rightarrow> nat option \<Rightarrow> 'i rtree \<Rightarrow> bool" where
  "tree_at h par Tip = True"
| "tree_at h par (Nod a q lk i l r) \<longleftrightarrow>
     h a = Some (cell q par (root l) (root r) lk i) \<and> tree_at h (Some a) l \<and> tree_at h (Some a) r"

text \<open>The nodes on the way to a hole that is filled with a tree whose root is at \<open>x\<close>.\<close>

fun ctx_at :: "(nat \<Rightarrow> 'i route_node option) \<Rightarrow> nat option \<Rightarrow> 'i frame list \<Rightarrow> nat option \<Rightarrow> bool" where
  "ctx_at h tp [] x \<longleftrightarrow> tp = x"
| "ctx_at h tp ((d, a, q, lk, i, u) # c) x \<longleftrightarrow>
     h a = Some (cell q (up c) (if d then root u else x) (if d then x else root u) lk i) \<and>
     tree_at h (Some a) u \<and> ctx_at h tp c (Some a)"

lemma tree_at_plug:
  "tree_at h None (plug c t) \<and> tp = root (plug c t) \<longleftrightarrow> ctx_at h tp c (root t) \<and> tree_at h (up c) t"
proof (induction c arbitrary: t)
  case (Cons f c)
  obtain d a q lk i u where "f = (d, a, q, lk, i, u)" by (cases f)
  with Cons show ?case by (cases d) auto
qed auto

lemma tree_at_frame: "x \<notin> set (addrs t) \<Longrightarrow> tree_at (h(x := v)) par t = tree_at h par t"
  by (induction t arbitrary: par) auto

lemma ctx_at_frame: "x \<notin> set (caddrs c) \<Longrightarrow> ctx_at (h(x := v)) tp c y = ctx_at h tp c y"
  by (induction c arbitrary: y) (auto simp: tree_at_frame)

text \<open>The state represents a tree.\<close>

definition rep :: "'i route_table \<Rightarrow> 'i rtree \<Rightarrow> bool" where
  "rep s t \<longleftrightarrow> tree_at (nodes s) None t \<and> rt_top s = root t \<and> distinct (addrs t) \<and>
     dom (nodes s) = set (addrs t) \<and> rt_count s = of_nat (length (addrs t))"

lemma rep_plug:
  "rep s (plug c t) \<longleftrightarrow> ctx_at (nodes s) (rt_top s) c (root t) \<and> tree_at (nodes s) (up c) t \<and>
     distinct (caddrs c) \<and> distinct (addrs t) \<and> set (caddrs c) \<inter> set (addrs t) = {} \<and>
     dom (nodes s) = set (caddrs c) \<union> set (addrs t) \<and> rt_count s = of_nat (length (caddrs c) + length (addrs t))"
  unfolding rep_def using tree_at_plug [of "nodes s" c t "rt_top s"] by auto

lemma node_at_frame:
  "rep s (plug c (Nod a q lk i l r)) \<Longrightarrow> node_at s a = cell q (up c) (root l) (root r) lk i"
  by (simp add: rep_plug node_at_def)

lemma cell_sel [simp]: "np (cell q par l r lk i) = q" "parent (cell q par l r lk i) = par"
  "l_left (cell q par l r lk i) = l" "l_right (cell q par l r lk i) = r"
  "lock (cell q par l r lk i) = lk" "info (cell q par l r lk i) = i"
  by (simp_all add: cell_def)

text \<open>Every entry of the table is a node in a context.\<close>

lemma fill_plug: "fill f (plug c t) = plug (c @ [f]) t"
  by (induction c arbitrary: t) auto

lemma entry_split:
  "(a, q, lk, i) \<in> set (pre t) \<Longrightarrow> \<exists>c l r. t = plug c (Nod a q lk i l r)"
proof (induction t)
  case (Nod b q' lk' i' l' r')
  from Nod.prems consider "b = a" "q' = q" "lk' = lk" "i' = i" | "(a, q, lk, i) \<in> set (pre l')" | "(a, q, lk, i) \<in> set (pre r')"
    by auto
  then show ?case
  proof cases
    case 1
    then show ?thesis by (intro exI [of _ "[]"]) auto
  next
    case 2
    then show ?thesis using Nod.IH(1) fill_plug [of "(False, b, q', lk', i', r')"] by (metis fill.simps)
  next
    case 3
    then show ?thesis using Nod.IH(2) fill_plug [of "(True, b, q', lk', i', l')"] by (metis fill.simps)
  qed
qed simp

section \<open>Radix trees\<close>

text \<open>All networks below a node extend its network by the bit of the branch.\<close>

fun radix :: "bool list \<Rightarrow> 'i rtree \<Rightarrow> bool" where
  "radix b Tip = True"
| "radix b (Nod a q lk i l r) \<longleftrightarrow> prefix b (pbits q) \<and> pfx_ok q \<and>
     radix (pbits q @ [False]) l \<and> radix (pbits q @ [True]) r"

fun bound :: "'i frame list \<Rightarrow> bool list" where
  "bound [] = []"
| "bound ((d, a, q, lk, i, u) # c) = pbits q @ [d]"

fun radix_ctx :: "'i frame list \<Rightarrow> bool" where
  "radix_ctx [] = True"
| "radix_ctx ((d, a, q, lk, i, u) # c) \<longleftrightarrow> prefix (bound c) (pbits q) \<and> pfx_ok q \<and>
     radix (pbits q @ [\<not> d]) u \<and> radix_ctx c"

lemma radix_plug: "radix [] (plug c t) \<longleftrightarrow> radix_ctx c \<and> radix (bound c) t"
proof (induction c arbitrary: t)
  case (Cons f c)
  obtain d a q lk i u where "f = (d, a, q, lk, i, u)" by (cases f)
  with Cons show ?case by (cases d) auto
qed simp

lemma radix_weaken: "radix b t \<Longrightarrow> prefix b' b \<Longrightarrow> radix b' t"
  by (cases t) (auto intro: prefix_order.trans)

text \<open>A node without a lock is a fork without information.\<close>

fun forks :: "'i rtree \<Rightarrow> bool" where
  "forks Tip = True"
| "forks (Nod a q lk i l r) \<longleftrightarrow> (lk = 0 \<longrightarrow> i = None \<and> l \<noteq> Tip \<and> r \<noteq> Tip) \<and> forks l \<and> forks r"

fun forks_ctx :: "'i frame list \<Rightarrow> bool" where
  "forks_ctx [] = True"
| "forks_ctx ((d, a, q, lk, i, u) # c) \<longleftrightarrow> (lk = 0 \<longrightarrow> i = None \<and> u \<noteq> Tip) \<and> forks u \<and> forks_ctx c"

text \<open>Whether the hole may stay empty.\<close>

fun may_empty :: "'i frame list \<Rightarrow> bool" where
  "may_empty [] = True"
| "may_empty ((d, a, q, lk, i, u) # c) \<longleftrightarrow> lk \<noteq> 0"

lemma fill_not_Tip [simp]: "fill f t \<noteq> Tip" "Tip \<noteq> fill f t"
  by (cases f; simp)+

lemma forks_plug: "forks (plug c t) \<longleftrightarrow> forks_ctx c \<and> forks t \<and> (t = Tip \<longrightarrow> may_empty c)"
proof (induction c arbitrary: t)
  case (Cons f c)
  obtain d a q lk i u where "f = (d, a, q, lk, i, u)" by (cases f)
  with Cons show ?case by (cases d) auto
qed simp

text \<open>The invariant of a table.\<close>

definition table_is :: "'i route_table \<Rightarrow> 'i rtree \<Rightarrow> bool" where
  "table_is s t \<longleftrightarrow> rep s t \<and> radix [] t \<and> forks t"


section \<open>Order of the entries\<close>

abbreviation ebits :: "'i entry \<Rightarrow> bool list" where "ebits e \<equiv> pbits (fst (snd e))"

lemma radix_pre: "radix b t \<Longrightarrow> e \<in> set (pre t) \<Longrightarrow> prefix b (ebits e)"
proof (induction t arbitrary: b)
  case (Nod a q lk i l r)
  have "prefix b (pbits q)" using Nod.prems(1) by simp
  moreover have "e = (a, q, lk, i) \<or> prefix (pbits q @ [False]) (ebits e) \<or> prefix (pbits q @ [True]) (ebits e)"
    using Nod by auto
  ultimately show ?case by (auto intro: prefix_order.trans append_prefixD)
qed simp

lemma radix_sorted: "radix b t \<Longrightarrow> sorted_wrt (\<lambda>e f. before (ebits e) (ebits f)) (pre t)"
proof (induction t arbitrary: b)
  case (Nod a q lk i l r)
  have l: "prefix (pbits q @ [False]) (ebits e)" if "e \<in> set (pre l)" for e
    using radix_pre [of _ l] Nod.prems that by auto
  have r: "prefix (pbits q @ [True]) (ebits e)" if "e \<in> set (pre r)" for e
    using radix_pre [of _ r] Nod.prems that by auto
  have b: "before (pbits q) bs" if "prefix (pbits q @ [d]) bs" for d bs
    using that by (intro before_prefix) (auto dest: append_prefixD prefix_length_le)
  have "\<forall>e \<in> set (pre l @ pre r). before (pbits q) (ebits e)"
    unfolding set_append using l r b by blast
  moreover have "\<forall>e \<in> set (pre l). \<forall>f \<in> set (pre r). before (ebits e) (ebits f)"
    using l r before_branch by blast
  ultimately show ?case using Nod by (auto simp: sorted_wrt_append)
qed simp

lemma sorted_bits_unique:
  "sorted_wrt (\<lambda>e f. before (ebits e) (ebits f)) xs \<Longrightarrow> e \<in> set xs \<Longrightarrow> f \<in> set xs \<Longrightarrow> ebits e = ebits f \<Longrightarrow> e = f"
  by (induction xs) (auto simp: before_irrefl)

section \<open>Searching\<close>

text \<open>The place where the search for a prefix in a subtree stops.\<close>

fun seek :: "ip_prefix \<Rightarrow> 'i frame list \<Rightarrow> 'i rtree \<Rightarrow> 'i frame list \<times> 'i rtree" where
  "seek p c Tip = (c, Tip)"
| "seek p c (Nod a q lk i l r) =
     (if \<not> prefix (pbits q) (pbits p) \<or> prefixlen q = prefixlen p then (c, Nod a q lk i l r)
      else if pbit (pbytes p) (plen q) then seek p ((True, a, q, lk, i, l) # c) r
      else seek p ((False, a, q, lk, i, r) # c) l)"

lemma seek_plug: "seek p c t = (c', t') \<Longrightarrow> plug c' t' = plug c t"
  by (induction p c t rule: seek.induct) (auto split: if_splits)

lemma prefix_step:
  assumes "prefix (pbits q) (pbits p)" "prefixlen q \<noteq> prefixlen p"
  shows "prefix (pbits q @ [pbit (pbytes p) (plen q)]) (pbits p)"
proof -
  have "plen q < plen p" using assms by (metis le_neq_implies_less prefix_pbits word_unat_eq_iff)
  moreover have "take (plen q) (pbits p) = pbits q" using assms(1) by (auto simp: prefix_def simp flip: length_pbits)
  ultimately show ?thesis using take_branch [of "plen q" p] by simp
qed

lemma same_bits: "prefixlen q = prefixlen p \<Longrightarrow> prefix (pbits q) (pbits p) \<Longrightarrow> pbits q = pbits p"
  using prefix_length_prefix [of "pbits p" "pbits p" "pbits q"] by (auto intro: prefix_order.antisym)

lemma seek_bound:
  "seek p c t = (c', t') \<Longrightarrow> prefix (bound c) (pbits p) \<Longrightarrow> prefix (bound c') (pbits p)"
proof (induction p c t rule: seek.induct)
  case (2 p c a q lk i l r)
  show ?case
  proof (cases "\<not> prefix (pbits q) (pbits p) \<or> prefixlen q = prefixlen p")
    case False
    then show ?thesis using 2 prefix_step [of q p] by (auto split: if_splits)
  qed (use 2 in auto)
qed simp

text \<open>Where the search stops there is nothing, the prefix itself, or a network outside of it.\<close>

lemma seek_stops:
  "seek p c t = (c', t') \<Longrightarrow> (case t' of Tip \<Rightarrow> True
    | Nod a q lk i l r \<Rightarrow> prefix (pbits q) (pbits p) \<longrightarrow> pbits q = pbits p \<and> prefixlen q = prefixlen p)"
  by (induction p c t rule: seek.induct) (auto split: if_splits dest: same_bits)

text \<open>The entries that contain the prefix lie on the way or at its end.\<close>

lemma not_below: "radix b t \<Longrightarrow> \<not> prefix b (pbits p) \<Longrightarrow> e \<in> set (pre t) \<Longrightarrow> \<not> prefix (ebits e) (pbits p)"
  using radix_pre prefix_order.trans by blast

lemma other_branch:
  "prefix (pbits q) (pbits p) \<Longrightarrow> d \<noteq> pbit (pbytes p) (plen q) \<Longrightarrow> \<not> prefix (pbits q @ [d]) (pbits p)"
proof
  assume a: "d \<noteq> pbit (pbytes p) (plen q)" "prefix (pbits q @ [d]) (pbits p)"
  then obtain zs where z: "pbits p = pbits q @ d # zs" by (auto simp: prefix_def)
  then have "pbits p ! plen q = d" by (simp flip: length_pbits)
  moreover have "plen q < plen p" using z by (simp flip: length_pbits)
  ultimately show False using a(1) by simp
qed

lemma deeper: "radix (pbits q @ [d]) t \<Longrightarrow> prefixlen q = prefixlen p \<Longrightarrow> e \<in> set (pre t) \<Longrightarrow> \<not> prefix (ebits e) (pbits p)"
  using radix_pre [of "pbits q @ [d]" t e] prefix_length_le [of "pbits q @ [d]" "ebits e"] prefix_length_le [of "ebits e" "pbits p"]
  by auto

lemma seek_finds:
  assumes "radix b t" "e \<in> set (pre t)" "ebits e = pbits p"
  shows "\<exists>a q lk i l r. snd (seek p c t) = Nod a q lk i l r \<and> prefix (pbits q) (pbits p)"
  using assms
proof (induction p c t arbitrary: b rule: seek.induct)
  case (2 p c a q lk i l r)
  have rl: "radix (pbits q @ [False]) l" "radix (pbits q @ [True]) r" using "2.prems"(1) by auto
  show ?case
  proof (cases "e = (a, q, lk, i)")
    case True
    then have "pbits q = pbits p" using "2.prems"(3) by simp
    moreover from this have "prefixlen q = prefixlen p" by (metis length_pbits word_unat_eq_iff)
    ultimately show ?thesis by simp
  next
    case False
    then have "e \<in> set (pre l) \<or> e \<in> set (pre r)" using "2.prems"(2) by simp
    then obtain d where d: "e \<in> set (pre (if d then r else l))"
      by (elim disjE) (rule that [of False], simp, rule that [of True], simp)
    have "radix (pbits q @ [d]) (if d then r else l)" using rl by simp
    from radix_pre [OF this d] have px: "prefix (pbits q @ [d]) (pbits p)" unfolding "2.prems"(3) .
    then have q: "prefix (pbits q) (pbits p)" by (rule append_prefixD)
    have "plen q < plen p" using prefix_length_le [OF px] by simp
    then have ne: "prefixlen q \<noteq> prefixlen p" by auto
    have "pbit (pbytes p) (plen q) = d" using other_branch [OF q] px by blast
    then have sk: "seek p c (Nod a q lk i l r) = seek p ((d, a, q, lk, i, if d then l else r) # c) (if d then r else l)"
      using q ne by simp
    have c: "\<not> (\<not> prefix (pbits q) (pbits p) \<or> prefixlen q = prefixlen p)" using q ne by simp
    show ?thesis
    proof (cases d)
      case True
      with "2.IH"(1) [OF c] rl(2) d "2.prems"(3) \<open>pbit (pbytes p) (plen q) = d\<close> show ?thesis unfolding sk by simp
    next
      case False
      with "2.IH"(2) [OF c] rl(1) d "2.prems"(3) \<open>pbit (pbytes p) (plen q) = d\<close> show ?thesis unfolding sk by simp
    qed
  qed
qed simp

end
