(* ===== verification/RouteOps.thy ===== *)
theory RouteOps
  imports RouteTree
begin

text \<open>
  The operations of the routing table refine operations on trees: looking up follows the
  search of \<open>seek\<close>, \<open>route_node_get\<close> plugs new nodes into the context where the search
  stopped, \<open>route_unlock_node\<close> prunes the way up, and an iteration walks the entries in order.
\<close>

section \<open>Looking up\<close>

definition covers :: "'i entry \<Rightarrow> ip_prefix \<Rightarrow> bool" where
  "covers e p \<longleftrightarrow> snd (snd (snd e)) \<noteq> None \<and> prefix (ebits e) (pbits p)"

lemma link_cell: "link (cell q par (root l) (root r) lk i) (of_bool d) = root (if d then r else l)"
  by (simp add: link_def)

lemma match_cond: "prefixlen q \<le> prefixlen p \<and> prefix_match q p \<longleftrightarrow> prefix (pbits q) (pbits p)"
  by (auto simp: prefix_match_iff prefix_pbits word_le_nat_alt)

lemma match_walk_finds:
  assumes "tree_at (nodes s) par t" "radix b t"
  shows "match_walk s p (root t) m =
    (let es = filter (\<lambda>e. covers e p) (pre t) in Some (if es = [] then m else Some (fst (last es))))"
  using assms
proof (induction t arbitrary: par b m)
  case Tip
  then show ?case by (simp add: match_walk.simps)
next
  case (Nod a q lk i l r)
  have n: "node_at s a = cell q par (root l) (root r) lk i" using Nod.prems by (simp add: node_at_def)
  have rl: "radix (pbits q @ [False]) l" "radix (pbits q @ [True]) r" using Nod.prems by auto
  note step = match_walk.simps [of s p "Some a" m]
  show ?case
  proof (cases "prefix (pbits q) (pbits p)")
    case False
    have "\<not> covers e p" if "e \<in> set (pre (Nod a q lk i l r))" for e
      using that False rl by (auto simp: covers_def dest!: radix_pre intro: append_prefixD prefix_order.trans)
    then have "filter (\<lambda>e. covers e p) (pre (Nod a q lk i l r)) = []" by (simp add: filter_empty_conv)
    then show ?thesis using False by (simp add: step n match_cond Let_def)
  next
    case True
    let ?m = "case i of None \<Rightarrow> m | Some _ \<Rightarrow> Some a"
    have here: "covers (a, q, lk, i) p \<longleftrightarrow> i \<noteq> None" using True by (simp add: covers_def)
    show ?thesis
    proof (cases "prefixlen q = prefixlen p")
      case same: True
      have "filter (\<lambda>e. covers e p) (pre l) = []" "filter (\<lambda>e. covers e p) (pre r) = []"
        using deeper [OF rl(1) same] deeper [OF rl(2) same] by (auto simp: filter_empty_conv covers_def)
      then show ?thesis using True same here by (simp add: step n match_cond Let_def split: option.split)
    next
      case False
      define d where "d = pbit (pbytes p) (plen q)"
      let ?t = "if d then r else l" and ?u = "if d then l else r"
      have "\<not> prefix (pbits q @ [\<not> d]) (pbits p)" using other_branch [OF True, of "\<not> d"] by (simp add: d_def)
      moreover have "radix (pbits q @ [\<not> d]) ?u" using rl by simp
      ultimately have u: "filter (\<lambda>e. covers e p) (pre ?u) = []"
        using not_below [of "pbits q @ [\<not> d]" ?u p] unfolding filter_empty_conv covers_def by blast
      have "match_walk s p (Some a) m = match_walk s p (root ?t) ?m"
        using True False by (simp add: step n match_cond prefix_bit_pbit link_cell d_def del: of_bool_eq_iff)
      also have "\<dots> = (let es = filter (\<lambda>e. covers e p) (pre ?t) in Some (if es = [] then ?m else Some (fst (last es))))"
        using Nod.IH Nod.prems by (cases d) auto
      finally show ?thesis using u here by (cases d) (auto simp: Let_def split: option.splits)
    qed
  qed
qed

lemma get_walk_finds:
  assumes "tree_at (nodes s) (up c) t"
  shows "get_walk s p (root t) (up c) = Some (case seek p c t of
      (c', Tip) \<Rightarrow> Inr (None, up c')
    | (c', Nod a q lk i l r) \<Rightarrow> if prefix (pbits q) (pbits p) then Inl a else Inr (Some a, up c'))"
  using assms
proof (induction p c t rule: seek.induct)
  case (1 p c)
  then show ?case by (simp add: get_walk.simps)
next
  case (2 p c a q lk i l r)
  have n: "node_at s a = cell q (up c) (root l) (root r) lk i" using "2.prems" by (simp add: node_at_def)
  note step = get_walk.simps [of s p "Some a" "up c"]
  show ?case
  proof (cases "\<not> prefix (pbits q) (pbits p) \<or> prefixlen q = prefixlen p")
    case True
    then show ?thesis by (auto simp: step n match_cond)
  next
    case False
    then have m: "prefix (pbits q) (pbits p)" "prefixlen q \<noteq> prefixlen p" by auto
    have "get_walk s p (Some a) (up c) = get_walk s p (link (node_at s a) (of_bool (pbit (pbytes p) (plen q)))) (Some a)"
      using m by (simp add: step n match_cond prefix_bit_pbit Let_def del: of_bool_eq_iff)
    then show ?thesis
      using m "2.IH" "2.prems" by (cases "pbit (pbytes p) (plen q)") (simp_all add: n link_def)
  qed
qed

lemma table_get_walk:
  assumes "rep s t"
  shows "get_walk s p (rt_top s) None = Some (case seek p [] t of
      (c', Tip) \<Rightarrow> Inr (None, up c')
    | (c', Nod a q lk i l r) \<Rightarrow> if prefix (pbits q) (pbits p) then Inl a else Inr (Some a, up c'))"
  using get_walk_finds [of s "[]" t p] assms by (simp add: rep_def)


text \<open>What \<open>route_lock_node\<close> does to the tree.\<close>

lemma lock_in_heap:
  assumes "rep s (plug c (Nod a q lk i l r))"
  shows "rep (set_node a (\<lambda>n. n\<lparr>lock := f (lock n)\<rparr>) s) (plug c (Nod a q (f lk) i l r))"
proof -
  have "a \<notin> set (caddrs c)" "a \<notin> set (addrs l)" "a \<notin> set (addrs r)" using assms by (auto simp: rep_plug)
  then show ?thesis using assms node_at_frame [OF assms]
    by (auto simp: rep_plug set_node_def ctx_at_frame tree_at_frame cell_def)
qed

lemma rep_lock: "rep s (plug c (Nod a q lk i l r)) \<Longrightarrow> rep (route_lock_node a s) (plug c (Nod a q (lk + 1) i l r))"
  unfolding route_lock_node_def by (rule lock_in_heap)

section \<open>Adding a node\<close>

text \<open>Filling the hole of a context changes the node above it, or the top of the table.\<close>

definition put :: "nat option \<Rightarrow> nat \<Rightarrow> nat \<Rightarrow> 'i route_table \<Rightarrow> 'i route_table" where
  "put par b x s = (case par of None \<Rightarrow> s\<lparr>rt_top := Some x\<rparr>
     | Some m \<Rightarrow> set_node m (\<lambda>n. if b = 0 then n\<lparr>l_left := Some x\<rparr> else n\<lparr>l_right := Some x\<rparr>) s)"

fun dir :: "'i frame list \<Rightarrow> bool" where
  "dir [] = False"
| "dir ((d, a, q, lk, i, u) # c) = d"

lemma put_in_ctx:
  assumes "ctx_at (nodes s) (rt_top s) c y" "distinct (caddrs c)"
  shows "ctx_at (nodes (put (up c) (of_bool (dir c)) x s)) (rt_top (put (up c) (of_bool (dir c)) x s)) c (Some x)"
    "z \<notin> set (caddrs c) \<Longrightarrow> nodes (put (up c) (of_bool (dir c)) x s) z = nodes s z"
    "dom (nodes (put (up c) (of_bool (dir c)) x s)) = dom (nodes s)"
    "rt_count (put (up c) (of_bool (dir c)) x s) = rt_count s"
proof -
  have "c = [] \<or> (\<exists>d a q lk i u c'. c = (d, a, q, lk, i, u) # c')" by (metis list.exhaust prod_cases6)
  then consider "c = []" | d a q lk i u c' where "c = (d, a, q, lk, i, u) # c'" by blast
  note cases = this
  show "ctx_at (nodes (put (up c) (of_bool (dir c)) x s)) (rt_top (put (up c) (of_bool (dir c)) x s)) c (Some x)"
  proof (cases rule: cases)
    case 2
    with assms show ?thesis
      by (auto simp: put_def set_node_def node_at_def ctx_at_frame tree_at_frame cell_def)
  qed (simp add: put_def)
  show "z \<notin> set (caddrs c) \<Longrightarrow> nodes (put (up c) (of_bool (dir c)) x s) z = nodes s z"
    by (cases rule: cases) (auto simp: put_def set_node_def)
  show "dom (nodes (put (up c) (of_bool (dir c)) x s)) = dom (nodes s)"
    by (cases rule: cases) (use assms in \<open>auto simp: put_def set_node_def\<close>)
  show "rt_count (put (up c) (of_bool (dir c)) x s) = rt_count s"
    by (cases rule: cases) (auto simp: put_def set_node_def)
qed


text \<open>The part of \<open>rep\<close> that does not speak of the counter.\<close>

definition shape :: "'i route_table \<Rightarrow> 'i rtree \<Rightarrow> bool" where
  "shape s t \<longleftrightarrow> tree_at (nodes s) None t \<and> rt_top s = root t \<and> distinct (addrs t) \<and> dom (nodes s) = set (addrs t)"

lemma rep_shape: "rep s t \<longleftrightarrow> shape s t \<and> rt_count s = of_nat (length (addrs t))"
  by (auto simp: rep_def shape_def)

lemma shape_plug:
  "shape s (plug c t) \<longleftrightarrow> ctx_at (nodes s) (rt_top s) c (root t) \<and> tree_at (nodes s) (up c) t \<and>
     distinct (caddrs c) \<and> distinct (addrs t) \<and> set (caddrs c) \<inter> set (addrs t) = {} \<and>
     dom (nodes s) = set (caddrs c) \<union> set (addrs t)"
  unfolding shape_def using tree_at_plug [of "nodes s" c t "rt_top s"] by auto

lemma shape_count [simp]: "shape (s\<lparr>rt_count := n\<rparr>) t = shape s t"
  by (simp add: shape_def)

lemma tree_parent:
  assumes "tree_at (nodes s) par t" "root t = Some a" "distinct (addrs t)"
  shows "tree_at (nodes (set_node a (\<lambda>n. n\<lparr>parent := par'\<rparr>) s)) par' t"
  using assms by (cases t) (auto simp: set_node_def node_at_def tree_at_frame cell_def)

lemma bound_bit:
  assumes "prefix (bound c) (pbits p)" "up c = Some m"
  obtains d q lk i u c' where "c = (d, m, q, lk, i, u) # c'" "pbit (pbytes p) (plen q) = d"
proof -
  obtain d q lk i u c' where c: "c = (d, m, q, lk, i, u) # c'"
    using assms(2) by (cases c rule: up.cases) auto
  have "prefix (pbits q @ [d]) (pbits p)" using assms(1) c by simp
  moreover from this have "prefix (pbits q) (pbits p)" by (rule append_prefixD)
  ultimately have "pbit (pbytes p) (plen q) = d" using other_branch [of q p d] by blast
  with c that show thesis by blast
qed

text \<open>Attaching a detached tree to the node above the hole.\<close>

lemma attach_shape:
  assumes c: "ctx_at (nodes s) (rt_top s) c y" "distinct (caddrs c)"
    and t: "tree_at (nodes s) None t" "root t = Some x" "distinct (addrs t)"
    and dom: "set (caddrs c) \<inter> set (addrs t) = {}" "dom (nodes s) = set (caddrs c) \<union> set (addrs t)"
    and b: "prefix (bound c) (pbits (np (node_at s x)))"
  shows "shape (attach (up c) x s) (plug c t)" "rt_count (attach (up c) x s) = rt_count s"
proof -
  let ?s = "put (up c) (of_bool (dir c)) x s"
  have x: "x \<in> set (addrs t)" using t(2) by (cases t) auto
  note p = put_in_ctx [OF c, where x = x]
  have tp: "tree_at (nodes ?s) None t"
  proof -
    have "tree_at h None t" if "\<And>z. z \<in> set (addrs t) \<Longrightarrow> h z = nodes s z" for h :: "nat \<Rightarrow> 'a route_node option"
      using t(1) that by (induction t arbitrary: rule: tree_at.induct) auto
    then show ?thesis using p(2) dom(1) by (metis IntI empty_iff)
  qed
  have a: "attach (up c) x s = (if up c = None then ?s else set_node x (\<lambda>n. n\<lparr>parent := up c\<rparr>) ?s)"
  proof (cases "up c")
    case None
    then show ?thesis by (simp add: attach_def put_def)
  next
    case (Some m)
    obtain d q lk i u c' where c': "c = (d, m, q, lk, i, u) # c'" "pbit (pbytes (np (node_at s x))) (plen q) = d"
      using bound_bit [OF b Some] by blast
    have "node_at s m = cell q (up c') (if d then root u else y) (if d then y else root u) lk i"
      using c(1) c'(1) by (simp add: node_at_def)
    then show ?thesis using c' by (simp add: attach_def put_def set_link_def prefix_bit_pbit)
  qed
  show "rt_count (attach (up c) x s) = rt_count s" using p(4) unfolding a by (auto simp: set_node_def)
  show "shape (attach (up c) x s) (plug c t)"
  proof (cases "up c")
    case None
    with a have "attach (up c) x s = ?s" by simp
    then show ?thesis using p(1,3) tp c(2) t dom None by (simp add: shape_plug)
  next
    case (Some m)
    have "x \<notin> set (caddrs c)" using x dom(1) by auto
    then have "ctx_at (nodes (set_node x (\<lambda>n. n\<lparr>parent := up c\<rparr>) ?s)) (rt_top ?s) c (Some x)"
      using p(1) by (simp add: set_node_def ctx_at_frame)
    moreover have "tree_at (nodes (set_node x (\<lambda>n. n\<lparr>parent := up c\<rparr>) ?s)) (up c) t"
      by (rule tree_parent [OF tp t(2,3)])
    moreover have "dom (nodes (set_node x (\<lambda>n. n\<lparr>parent := up c\<rparr>) ?s)) = set (caddrs c) \<union> set (addrs t)"
      using p(3) dom(2) x by (auto simp: set_node_def)
    moreover have "attach (up c) x s = set_node x (\<lambda>n. n\<lparr>parent := up c\<rparr>) ?s" using a Some by simp
    moreover have "rt_top (set_node x (\<lambda>n. n\<lparr>parent := up c\<rparr>) ?s) = rt_top ?s" by (simp add: set_node_def)
    ultimately show ?thesis using c(2) t dom by (simp add: shape_plug)
  qed
qed


text \<open>A new leaf; its prefix is a copy whose bytes beyond the family's are zero.\<close>

definition copy_of :: "ip_prefix \<Rightarrow> ip_prefix" where
  "copy_of p = the (prefix_copy zero_prefix p)"

lemma copy_ok:
  assumes "pfx_ok p"
  shows "prefix_copy zero_prefix p = Some (copy_of p)" "pbits (copy_of p) = pbits p" "pfx_ok (copy_of p)"
    "prefixlen (copy_of p) = prefixlen p" "family (copy_of p) = family p"
proof -
  have w: "pbit (take k (pbytes p) @ x) j = pbit (pbytes p) j" if "j < plen p" "plen p \<le> 8 * k" "k \<le> 16" for j k x
  proof -
    have "j div 8 < k" using that by linarith
    then show ?thesis using that assms by (simp add: pbit_def pfx_ok_def nth_append)
  qed
  show "prefix_copy zero_prefix p = Some (copy_of p)"
    using assms by (auto simp: copy_of_def prefix_copy_def pfx_ok_def Let_def)
  show "pbits (copy_of p) = pbits p" "pfx_ok (copy_of p)" "prefixlen (copy_of p) = prefixlen p" "family (copy_of p) = family p"
    using assms w [of _ 4 "drop 4 (pbytes zero_prefix)"] w [of _ 16 "[]"]
    by (auto simp: copy_of_def prefix_copy_def pfx_ok_def Let_def pbits_def zero_prefix_def)
qed

text \<open>The next addresses are free.\<close>

definition fresh_addrs :: "(nat \<Rightarrow> nat) \<Rightarrow> 'i route_table \<Rightarrow> bool" where
  "fresh_addrs mem s \<longleftrightarrow> mem (allocs s) \<notin> dom (nodes s) \<and> mem (allocs s + 1) \<notin> dom (nodes s) \<and>
     mem (allocs s) \<noteq> mem (allocs s + 1)"

lemma node_set:
  assumes "pfx_ok p"
  shows "route_node_set mem p s = Some (mem (allocs s), s\<lparr>nodes := (nodes s)(mem (allocs s) :=
    Some (cell (copy_of p) None None None 0 None)), allocs := allocs s + 1\<rparr>)"
  using copy_ok(1) [OF assms]
  by (simp add: route_node_set_def route_node_new_def Let_def set_node_def node_at_def blank_node_def cell_def)

text \<open>Plugging a leaf into an empty place below a context.\<close>

lemma attach_leaf:
  assumes "shape s (plug c Tip)" "pfx_ok p" "prefix (bound c) (pbits p)" "mem (allocs s) \<notin> dom (nodes s)"
  shows "\<exists>s1. route_node_set mem p s = Some (mem (allocs s), s1) \<and>
    shape (attach (up c) (mem (allocs s)) s1) (plug c (Nod (mem (allocs s)) (copy_of p) 0 None Tip Tip)) \<and>
    rt_count (attach (up c) (mem (allocs s)) s1) = rt_count s"
proof -
  let ?a = "mem (allocs s)"
  let ?s = "s\<lparr>nodes := (nodes s)(?a := Some (cell (copy_of p) None None None 0 None)), allocs := allocs s + 1\<rparr>"
  have a: "?a \<notin> set (caddrs c)" using assms(1,4) by (auto simp: shape_plug)
  have "shape (attach (up c) ?a ?s) (plug c (Nod ?a (copy_of p) 0 None Tip Tip))"
    "rt_count (attach (up c) ?a ?s) = rt_count ?s"
    by (rule attach_shape [where y = None and t = "Nod ?a (copy_of p) 0 None Tip Tip"];
        use assms a copy_ok(2) [OF assms(2)] in \<open>auto simp: shape_plug ctx_at_frame node_at_def\<close>)+
  then show ?thesis using node_set [OF assms(2)] by auto
qed


text \<open>The tree after \<open>route_node_get\<close>.\<close>

definition common_prefix :: "ip_prefix \<Rightarrow> ip_prefix \<Rightarrow> ip_prefix" where
  "common_prefix q p = (route_common q p zero_prefix)\<lparr>family := family p\<rparr>"

definition tree_get :: "ip_prefix \<Rightarrow> nat \<Rightarrow> nat \<Rightarrow> 'i rtree \<Rightarrow> nat \<times> 'i rtree" where
  "tree_get p x y t = (case seek p [] t of
     (c, Tip) \<Rightarrow> (x, plug c (Nod x (copy_of p) 1 None Tip Tip))
   | (c, Nod a q lk i l r) \<Rightarrow>
       if prefix (pbits q) (pbits p) then (a, plug c (Nod a q (lk + 1) i l r))
       else let cp = common_prefix q p; d = pbit (pbytes q) (plen cp) in
         if prefixlen cp = prefixlen p then (x, plug ((d, x, cp, 1, None, Tip) # c) (Nod a q lk i l r))
         else (y, plug ((\<not> d, x, cp, 0, None, Nod a q lk i l r) # c) (Nod y (copy_of p) 1 None Tip Tip)))"

lemma common_prefix_ok:
  assumes q: "pfx_ok q" and p: "pfx_ok p" and n: "\<not> prefix (pbits q) (pbits p)"
  shows "plen (common_prefix q p) < plen q" "plen (common_prefix q p) \<le> plen p"
    "pbits (common_prefix q p) = take (plen (common_prefix q p)) (pbits q)"
    "pbits (common_prefix q p) = take (plen (common_prefix q p)) (pbits p)"
    "plen (common_prefix q p) < plen p \<Longrightarrow>
      pbit (pbytes p) (plen (common_prefix q p)) \<noteq> pbit (pbytes q) (plen (common_prefix q p))"
    "pfx_ok (common_prefix q p)"
proof -
  let ?c = "common_prefix q p" and ?k = "plen (route_common q p zero_prefix)"
  have k: "plen ?c = ?k" by (simp add: common_prefix_def)
  have f: "?k \<le> plen p" "\<forall>j < ?k. pbit (pbytes q) j = pbit (pbytes p) j"
    "?k < plen p \<Longrightarrow> pbit (pbytes q) ?k \<noteq> pbit (pbytes p) ?k"
    using route_common_plen [of q p zero_prefix] by (simp_all add: first_diff_def)
  have lq: "?k < plen q"
  proof (rule ccontr)
    assume "\<not> ?k < plen q"
    with f(1,2) n show False by (simp add: prefix_pbits)
  qed
  have len: "length (pbytes q) = 16" "length (pbytes zero_prefix) = 16" "plen p \<le> 128" "plen q \<le> 128"
    using p q by (auto simp: pfx_ok_def zero_prefix_def)
  have bits: "pbits ?c = map (pbit (pbytes q)) [0..<?k]"
    using route_common_bits(2) [OF len(1-3)] lq len(4) by (simp add: pbits_def common_prefix_def)
  show "plen ?c < plen q" "plen ?c \<le> plen p" using lq f(1) k by simp_all
  show "pbits ?c = take (plen ?c) (pbits q)" using bits lq k by (simp add: pbits_def take_map)
  show "pbits ?c = take (plen ?c) (pbits p)" using bits f(1,2) k by (simp add: pbits_def take_map)
  show "plen ?c < plen p \<Longrightarrow> pbit (pbytes p) (plen ?c) \<noteq> pbit (pbytes q) (plen ?c)" using f(3) k by simp
  show "pfx_ok ?c"
    using p f(1) k route_common_bits(1) [OF len(1-3)] by (auto simp: pfx_ok_def common_prefix_def)
qed


lemma common_prefix_greatest:
  assumes "pfx_ok q" "pfx_ok p" "\<not> prefix (pbits q) (pbits p)" "prefix b (pbits q)" "prefix b (pbits p)"
  shows "prefix b (pbits (common_prefix q p))"
proof -
  let ?k = "plen (common_prefix q p)"
  note c = common_prefix_ok [OF assms(1-3)]
  have "length b \<le> ?k"
  proof (rule ccontr)
    assume "\<not> length b \<le> ?k"
    then have k: "?k < length b" by simp
    then have "pbits q ! ?k = pbits p ! ?k" using assms(4,5) by (auto simp: prefix_def nth_append)
    moreover have "?k < plen p" using k prefix_length_le [OF assms(5)] by simp
    ultimately show False using c(1,5) by simp
  qed
  then show ?thesis using assms(4) c(1) unfolding c(3) by (auto simp: prefix_def)
qed

text \<open>The new node between the context and the network where the search stopped.\<close>

lemma fork_shape:
  assumes t: "shape s (plug c (Nod a q lk i l r))" and x: "x \<notin> dom (nodes s)"
    and b: "prefix (bound c) (pbits cp)"
  defines "d \<equiv> pbit (pbytes q) (plen cp)"
  defines "s1 \<equiv> s\<lparr>nodes := (nodes s)(x := Some (cell cp None None None 0 None)), allocs := allocs s + 1\<rparr>"
  shows "shape (attach (up c) x (set_link x a s1)) (plug ((d, x, cp, 0, None, Tip) # c) (Nod a q lk i l r))"
    "rt_count (attach (up c) x (set_link x a s1)) = rt_count s"
    "allocs (attach (up c) x (set_link x a s1)) = allocs s + 1"
proof -
  let ?T = "Nod a q lk i l r" and ?f = "(d, x, cp, 0, None, Tip)"
  have sh: "ctx_at (nodes s) (rt_top s) c (Some a)" "tree_at (nodes s) (up c) ?T" "distinct (caddrs c)"
      "distinct (addrs ?T)" "set (caddrs c) \<inter> set (addrs ?T) = {}" "dom (nodes s) = set (caddrs c) \<union> set (addrs ?T)"
    using t by (simp_all add: shape_plug)
  have xs: "x \<notin> set (caddrs c)" "x \<notin> set (addrs ?T)" using x sh(6) by auto
  have na: "node_at s1 a = cell q (up c) (root l) (root r) lk i" "node_at s1 x = cell cp None None None 0 None"
    using sh(2) xs(2) by (auto simp: s1_def node_at_def)
  let ?n = "cell cp None (if d then None else Some a) (if d then Some a else None) 0 None"
  have sl: "set_link x a s1 = set_node a (\<lambda>n. n\<lparr>parent := Some x\<rparr>) (s1\<lparr>nodes := (nodes s1)(x := Some ?n)\<rparr>)"
    using na by (auto simp: set_link_def prefix_bit_pbit d_def set_node_def cell_def)
  have T1: "tree_at (nodes (s1\<lparr>nodes := (nodes s1)(x := Some ?n)\<rparr>)) (up c) ?T"
    using sh(2) xs(2) by (simp add: s1_def tree_at_frame)
  have T2: "tree_at (nodes (set_link x a s1)) (Some x) ?T"
    unfolding sl by (rule tree_parent [OF T1 _ sh(4)]) simp
  have nx: "nodes (set_link x a s1) x = Some ?n" using xs(2) by (simp add: sl set_node_def)
  have T3: "tree_at (nodes (set_link x a s1)) None (fill ?f ?T)" using T2 nx by auto
  have ac: "a \<notin> set (caddrs c)" using sh(5) by auto
  have C: "ctx_at (nodes (set_link x a s1)) (rt_top (set_link x a s1)) c (Some a)"
    unfolding sl using sh(1) xs(1) ac by (simp add: set_node_def s1_def ctx_at_frame)
  have D: "dom (nodes (set_link x a s1)) = set (caddrs c) \<union> set (addrs (fill ?f ?T))"
    unfolding sl using sh(6) xs by (auto simp: set_node_def s1_def)
  have A: "root (fill ?f ?T) = Some x" "distinct (addrs (fill ?f ?T))" "set (caddrs c) \<inter> set (addrs (fill ?f ?T)) = {}"
    "prefix (bound c) (pbits (np (node_at (set_link x a s1) x)))"
    using sh(4,5) xs b nx by (auto simp: node_at_def)
  note at = attach_shape [OF C sh(3) T3 A(1,2,3) D A(4)]
  show "shape (attach (up c) x (set_link x a s1)) (plug (?f # c) ?T)" using at(1) by simp
  show "rt_count (attach (up c) x (set_link x a s1)) = rt_count s" using at(2) unfolding sl by (simp add: set_node_def s1_def)
  show "allocs (attach (up c) x (set_link x a s1)) = allocs s + 1"
    by (cases "up c") (simp_all add: attach_def set_link_def set_node_def s1_def Let_def)
qed


lemma new_node:
  "route_node_new mem s = (mem (allocs s), s\<lparr>nodes := (nodes s)(mem (allocs s) := Some blank_node), allocs := allocs s + 1\<rparr>)"
  by (simp add: route_node_new_def Let_def)

lemma route_node_get_refines:
  assumes t: "rep s t" "radix [] t" and p: "pfx_ok p" and fr: "fresh_addrs mem s"
  defines "r \<equiv> tree_get p (mem (allocs s)) (mem (allocs s + 1)) t"
  shows "\<exists>s'. route_node_get mem p s = Some (fst r, s') \<and> rep s' (snd r)"
proof -
  let ?x = "mem (allocs s)" and ?y = "mem (allocs s + 1)"
  obtain c u where sk: "seek p [] t = (c, u)" by fastforce
  have tc: "t = plug c u" using seek_plug [OF sk] by simp
  have bd: "prefix (bound c) (pbits p)" by (rule seek_bound [OF sk]) simp
  have rx: "radix_ctx c" "radix (bound c) u" using t(2) by (simp_all add: tc radix_plug)
  note gw = table_get_walk [OF t(1), of p, unfolded sk prod.case]
  show ?thesis
  proof (cases u)
    case Tip
    have "shape s (plug c Tip)" "?x \<notin> dom (nodes s)" using t(1) fr by (simp_all add: tc Tip rep_shape fresh_addrs_def)
    from attach_leaf [where mem = mem, OF this(1) p bd this(2)] obtain s1 where s1: "route_node_set mem p s = Some (?x, s1)"
      "shape (attach (up c) ?x s1) (plug c (Nod ?x (copy_of p) 0 None Tip Tip))" "rt_count (attach (up c) ?x s1) = rt_count s"
      by blast
    let ?s2 = "(attach (up c) ?x s1)\<lparr>rt_count := rt_count (attach (up c) ?x s1) + 1\<rparr>"
    have "rep ?s2 (plug c (Nod ?x (copy_of p) 0 None Tip Tip))"
      using s1(2,3) t(1) by (simp add: rep_shape tc Tip)
    from rep_lock [OF this] show ?thesis
      using gw s1(1) by (simp add: r_def tree_get_def sk Tip route_node_get_def Let_def)
  next
    case (Nod a q lk i l r')
    show ?thesis
    proof (cases "prefix (pbits q) (pbits p)")
      case True
      then have "r = (a, plug c (Nod a q (lk + 1) i l r'))" by (simp add: r_def tree_get_def sk Nod)
      moreover have "rep s (plug c (Nod a q lk i l r'))" using t(1) by (simp add: tc Nod)
      ultimately show ?thesis using rep_lock [of s c a q lk i l r'] True gw by (simp add: Nod route_node_get_def)
    next
      case False
      let ?cp = "common_prefix q p" and ?T = "Nod a q lk i l r'"
      let ?d = "pbit (pbytes q) (plen ?cp)"
      have qok: "pfx_ok q" "prefix (bound c) (pbits q)" using rx(2) by (simp_all add: Nod)
      note cp = common_prefix_ok [OF qok(1) p False]
      have bcp: "prefix (bound c) (pbits ?cp)" by (rule common_prefix_greatest [OF qok(1) p False qok(2) bd])
      have x: "?x \<notin> dom (nodes s)" using fr by (simp add: fresh_addrs_def)
      have sh: "shape s (plug c ?T)" using t(1) by (simp add: rep_shape tc Nod)
      define s1 where "s1 = s\<lparr>nodes := (nodes s)(?x := Some (cell ?cp None None None 0 None)), allocs := allocs s + 1\<rparr>"
      define s2 where "s2 = attach (up c) ?x (set_link ?x a s1)"
      note f = fork_shape [OF sh x bcp, folded s1_def s2_def]
      have na: "node_at s a = cell q (up c) (root l) (root r') lk i" "a \<noteq> ?x"
        using node_at_frame [of s c a q lk i l r'] t(1) x sh by (auto simp: tc Nod shape_plug)
      have s1': "set_node ?x (\<lambda>n. n\<lparr>np := (route_common (np (node_at (s\<lparr>nodes := (nodes s)(?x := Some blank_node), allocs := allocs s + 1\<rparr>) a))
          p (np n))\<lparr>family := family p\<rparr>\<rparr>) (s\<lparr>nodes := (nodes s)(?x := Some blank_node), allocs := allocs s + 1\<rparr>) = s1"
        using na by (simp add: set_node_def node_at_def s1_def blank_node_def cell_def common_prefix_def)
      have npx: "np (node_at s2 ?x) = ?cp"
        using f(1) unfolding shape_plug by (auto simp: node_at_def)
      have g: "route_node_get mem p s = (if prefixlen ?cp \<noteq> prefixlen p
          then map_option (\<lambda>(new', s). (new', route_lock_node new' ((set_link ?x new' s)\<lparr>rt_count := rt_count (set_link ?x new' s) + 1 + 1\<rparr>)))
            (route_node_set mem p s2)
          else Some (?x, route_lock_node ?x (s2\<lparr>rt_count := rt_count s2 + 1\<rparr>)))"
        unfolding route_node_get_def gw Nod new_node
        using False npx s1' by (simp add: Let_def flip: s2_def)
      show ?thesis
      proof (cases "prefixlen ?cp = prefixlen p")
        case True
        have "rep (s2\<lparr>rt_count := rt_count s2 + 1\<rparr>) (plug c (fill (?d, ?x, ?cp, 0, None, Tip) ?T))"
          using f(1,2) t(1) by (simp add: rep_shape tc Nod)
        then have "rep (route_lock_node ?x (s2\<lparr>rt_count := rt_count s2 + 1\<rparr>)) (plug c (fill (?d, ?x, ?cp, 1, None, Tip) ?T))"
          using rep_lock [where s = "s2\<lparr>rt_count := rt_count s2 + 1\<rparr>" and c = c and lk = 0] by (cases ?d) fastforce+
        then show ?thesis using g True False by (simp add: r_def tree_get_def sk Nod Let_def)
      next
        case ne: False
        let ?c = "(\<not> ?d, ?x, ?cp, 0, None, ?T) # c"
        have sh2: "shape s2 (plug ?c Tip)" using f(1) by (cases ?d) simp_all
        have "plen ?cp < plen p" using cp(2) ne by (metis le_neq_implies_less word_unat_eq_iff)
        then have bc: "prefix (bound ?c) (pbits p)"
          using cp(4,5) take_branch [of "plen ?cp" p] by simp
        have dom2: "dom (nodes s2) = insert ?x (dom (nodes s))"
          using f(1) sh by (auto simp: shape_def)
        have y: "mem (allocs s2) = ?y" "?y \<notin> dom (nodes s2)"
          using fr f(3) dom2 by (auto simp: fresh_addrs_def s2_def)
        from attach_leaf [OF sh2 p bc, of mem] y obtain s3 where s3: "route_node_set mem p s2 = Some (?y, s3)"
          "shape (attach (up ?c) ?y s3) (plug ?c (Nod ?y (copy_of p) 0 None Tip Tip))" "rt_count (attach (up ?c) ?y s3) = rt_count s2"
          by auto
        have al: "attach (up ?c) ?y s3 = set_link ?x ?y s3" by (simp add: attach_def)
        have "rep ((set_link ?x ?y s3)\<lparr>rt_count := rt_count (set_link ?x ?y s3) + 1 + 1\<rparr>) (plug ?c (Nod ?y (copy_of p) 0 None Tip Tip))"
          using s3(2,3) f(2) t(1) unfolding al by (simp add: rep_shape tc Nod)
        from rep_lock [OF this] show ?thesis
          using g ne False s3(1) by (simp add: r_def tree_get_def sk Nod Let_def)
      qed
    qed
  qed
qed

section \<open>Removing a node\<close>

text \<open>What takes the place of a node with at most one child, and the pruning of the way up.\<close>

fun remnant :: "'i rtree \<Rightarrow> 'i rtree" where
  "remnant Tip = Tip"
| "remnant (Nod a q lk i l r) = (if root l \<noteq> None then l else r)"

fun two_children :: "'i rtree \<Rightarrow> bool" where
  "two_children Tip = True"
| "two_children (Nod a q lk i l r) \<longleftrightarrow> root l \<noteq> None \<and> root r \<noteq> None"

fun frame_lock :: "'i frame \<Rightarrow> u32" where
  "frame_lock (d, a, q, lk, i, u) = lk"

fun prune :: "'i frame list \<Rightarrow> 'i rtree \<Rightarrow> 'i rtree" where
  "prune [] t = (if two_children t then t else remnant t)"
| "prune (f # c) t =
     (if two_children t then plug (f # c) t
      else if frame_lock f = 0 then prune c (fill f (remnant t))
      else plug (f # c) (remnant t))"

lemma root_None [simp]: "root t = None \<longleftrightarrow> t = Tip"
  by (cases t) auto

text \<open>One step of \<open>route_node_delete\<close>: the node is taken out of the chain of pointers.\<close>

definition cut_out :: "nat \<Rightarrow> nat option \<Rightarrow> nat option \<Rightarrow> 'i route_table \<Rightarrow> 'i route_table" where
  "cut_out a par child s =
     (let s = (case child of None \<Rightarrow> s | Some c \<Rightarrow> set_node c (\<lambda>m. m\<lparr>parent := par\<rparr>) s);
          s = (case par of
                 None \<Rightarrow> s\<lparr>rt_top := child\<rparr>
               | Some b \<Rightarrow> set_node b (\<lambda>m. if l_left m = Some a then m\<lparr>l_left := child\<rparr> else m\<lparr>l_right := child\<rparr>) s);
          s = s\<lparr>rt_count := rt_count s - 1\<rparr>
      in route_node_free a s)"

lemma delete_step:
  "route_node_delete a s =
     (let n = node_at s a in
      if \<not> (lock n = 0 \<and> Option.is_none (info n)) then None
      else if l_left n \<noteq> None \<and> l_right n \<noteq> None then Some s
      else let s' = cut_out a (parent n) (if l_left n \<noteq> None then l_left n else l_right n) s in
        case parent n of
          None \<Rightarrow> Some s'
        | Some b \<Rightarrow> if lock (node_at s' b) = 0 then route_node_delete b s' else Some s')"
  by (subst route_node_delete.simps) (simp only: cut_out_def Let_def)

lemma cut_out_rep:
  assumes r: "rep s (plug c (Nod a q lk i l r))" and one: "\<not> two_children (Nod a q lk i l r)"
  defines "t \<equiv> remnant (Nod a q lk i l r)"
  shows "rep (cut_out a (up c) (root t) s) (plug c t)"
proof -
  have sh: "ctx_at (nodes s) (rt_top s) c (Some a)" "tree_at (nodes s) (Some a) t" "distinct (caddrs c)"
      "distinct (addrs t)" "set (caddrs c) \<inter> set (addrs t) = {}" "a \<notin> set (caddrs c)" "a \<notin> set (addrs t)"
      "dom (nodes s) = insert a (set (caddrs c) \<union> set (addrs t))"
    using r one by (auto simp: rep_plug t_def)
  have n: "rt_count s - 1 = of_nat (length (caddrs c) + length (addrs t))"
    using r one by (auto simp: rep_plug t_def)
  define s1 where "s1 = (case root t of None \<Rightarrow> s | Some x \<Rightarrow> set_node x (\<lambda>m. m\<lparr>parent := up c\<rparr>) s)"
  have x: "x \<in> set (addrs t)" if "root t = Some x" for x using that by (cases t) auto
  have xc: "x \<notin> set (caddrs c)" if "root t = Some x" for x using x [OF that] sh(5) by blast
  have t1: "tree_at (nodes s1) (up c) t"
    using sh(2,4) by (cases "root t") (auto simp: s1_def intro: tree_parent)
  have c1: "ctx_at (nodes s1) (rt_top s1) c (Some a)"
    using sh(1) xc by (cases "root t") (auto simp: s1_def set_node_def ctx_at_frame)
  have d1: "dom (nodes s1) = insert a (set (caddrs c) \<union> set (addrs t))" "rt_count s1 = rt_count s"
    using sh(8) x by (cases "root t"; auto simp: s1_def set_node_def)+
  define s2 where "s2 = (case up c of None \<Rightarrow> s1\<lparr>rt_top := root t\<rparr>
    | Some b \<Rightarrow> set_node b (\<lambda>m. if l_left m = Some a then m\<lparr>l_left := root t\<rparr> else m\<lparr>l_right := root t\<rparr>) s1)"
  have s2: "ctx_at (nodes s2) (rt_top s2) c (root t) \<and> tree_at (nodes s2) (up c) t \<and>
    dom (nodes s2) = dom (nodes s1) \<and> rt_count s2 = rt_count s1"
  proof (cases c)
    case Nil
    then show ?thesis using t1 by (simp add: s2_def)
  next
    case (Cons f c')
    obtain d b qb lb ib u where f: "f = (d, b, qb, lb, ib, u)" by (cases f)
    have nb: "node_at s1 b = cell qb (up c') (if d then root u else Some a) (if d then Some a else root u) lb ib"
      using c1 by (simp add: Cons f node_at_def)
    have "root u \<noteq> Some a" using sh(6) by (cases u) (auto simp: Cons f)
    moreover have "b \<notin> set (addrs t)" "b \<notin> set (addrs u)" "b \<notin> set (caddrs c')" using sh(3,5) by (auto simp: Cons f)
    ultimately show ?thesis
      using c1 t1 nb by (auto simp: s2_def Cons f set_node_def tree_at_frame ctx_at_frame cell_def)
  qed
  have co: "cut_out a (up c) (root t) s = route_node_free a (s2\<lparr>rt_count := rt_count s2 - 1\<rparr>)"
    unfolding cut_out_def Let_def s2_def s1_def ..
  have "dom ((nodes s2)(a := None)) = set (caddrs c) \<union> set (addrs t)" using s2 d1 sh(6,7) by auto
  then show ?thesis
    unfolding co rep_plug using s2 d1(2) n sh(3-7) by (simp add: route_node_free_def ctx_at_frame tree_at_frame)
qed

lemma delete_one_step:
  assumes r: "rep s (plug c (Nod a q 0 None l r))" and one: "\<not> two_children (Nod a q 0 None l r)"
  defines "s' \<equiv> cut_out a (up c) (root (remnant (Nod a q 0 None l r))) s"
  shows "route_node_delete a s = (case up c of None \<Rightarrow> Some s'
    | Some b \<Rightarrow> if lock (node_at s' b) = 0 then route_node_delete b s' else Some s')"
proof -
  have ch: "(if root l \<noteq> None then root l else root r) = root (remnant (Nod a q 0 None l r))" by simp
  have two: "\<not> (root l \<noteq> None \<and> root r \<noteq> None)" using one by simp
  show ?thesis
    unfolding delete_step [of a s] Let_def node_at_frame [OF r] cell_sel ch s'_def if_not_P [OF two] by simp
qed

lemma delete_fork:
  assumes "rep s (plug c (Nod a q 0 None l r))" "two_children (Nod a q 0 None l r)"
  shows "route_node_delete a s = Some s"
  unfolding delete_step [of a s] Let_def node_at_frame [OF assms(1)] cell_sel using assms(2) by simp

lemma route_node_delete_prunes:
  assumes "rep s (plug c (Nod a q 0 None l r))" "forks_ctx c"
  shows "\<exists>s'. route_node_delete a s = Some s' \<and> rep s' (prune c (Nod a q 0 None l r))"
  using assms
proof (induction c arbitrary: s a q l r)
  case Nil
  show ?case
  proof (cases "two_children (Nod a q 0 None l r)")
    case True
    then show ?thesis using Nil delete_fork [OF Nil.prems(1)] by simp
  next
    case False
    then show ?thesis using cut_out_rep [OF Nil.prems(1) False] delete_one_step [OF Nil.prems(1) False]
      by (simp only: prune.simps if_False plug.simps up.simps option.case) blast
  qed
next
  case (Cons f c)
  obtain d b qb lb ib u where f: "f = (d, b, qb, lb, ib, u)" by (cases f)
  let ?T = "Nod a q 0 None l r"
  define t where "t = remnant ?T"
  show ?case
  proof (cases "two_children ?T")
    case True
    then show ?thesis using Cons.prems delete_fork [OF Cons.prems(1) True] by (simp only: prune.simps if_True) blast
  next
    case False
    define s' where "s' = cut_out a (Some b) (root t) s"
    define L R where "L = (if d then u else t)" and "R = (if d then t else u)"
    have fl: "fill f t = Nod b qb lb ib L R" by (simp add: f L_def R_def)
    have r: "rep s' (plug (f # c) t)" using cut_out_rep [OF Cons.prems(1) False] by (simp add: f s'_def t_def)
    then have r': "rep s' (plug c (Nod b qb lb ib L R))" by (simp add: fl)
    have e: "route_node_delete a s = (if lb = 0 then route_node_delete b s' else Some s')"
      using delete_one_step [OF Cons.prems(1) False] node_at_frame [OF r'] by (simp add: f s'_def t_def)
    have pr: "prune (f # c) ?T = (if lb = 0 then prune c (Nod b qb lb ib L R) else plug (f # c) t)"
      using False by (simp only: prune.simps if_False t_def [symmetric] fl) (simp add: f)
    show ?thesis
    proof (cases "lb = 0")
      case True
      then have "ib = None" "forks_ctx c" using Cons.prems(2) by (simp_all add: f)
      with Cons.IH [of s' b qb L R] r' True show ?thesis unfolding e pr by simp
    next
      case nz: False
      then show ?thesis unfolding e pr using r by simp
    qed
  qed
qed

text \<open>Dropping a lock.\<close>

definition tree_unlock :: "'i frame list \<Rightarrow> nat \<Rightarrow> ip_prefix \<Rightarrow> u32 \<Rightarrow> 'i option \<Rightarrow> 'i rtree \<Rightarrow> 'i rtree \<Rightarrow> 'i rtree" where
  "tree_unlock c a q lk i l r =
     (if lk = 1 then prune c (Nod a q 0 i l r) else plug c (Nod a q (lk - 1) i l r))"

lemma route_unlock_refines:
  assumes "rep s (plug c (Nod a q lk i l r))" "forks_ctx c" "lk \<noteq> 0" "lk = 1 \<Longrightarrow> i = None"
  shows "\<exists>s'. route_unlock_node a s = Some s' \<and> rep s' (tree_unlock c a q lk i l r)"
proof -
  note n = node_at_frame [OF assms(1)]
  let ?s = "set_node a (\<lambda>n. n\<lparr>lock := lock n - 1\<rparr>) s"
  have r: "rep ?s (plug c (Nod a q (lk - 1) i l r))" by (rule lock_in_heap [OF assms(1)])
  note n' = node_at_frame [OF r]
  have "lk > 0" using assms(3) by (simp add: word_gt_0)
  then show ?thesis
    using r n n' assms route_node_delete_prunes [of ?s c a q l r]
    by (auto simp: route_unlock_node_def tree_unlock_def)
qed

end
