(* ===== verification/RouteMap.thy ===== *)
theory RouteMap
  imports RouteOps
begin

text \<open>
  The contract of the routing table: a map from the bits of a network to the address, the
  number of locks and the information of its node.  Each operation of the heap refines the
  corresponding operation on the map, and keeps the invariant of the table.
\<close>

section \<open>The abstraction\<close>

definition nets :: "'i entry list \<Rightarrow> bool list \<Rightarrow> (nat \<times> u32 \<times> 'i option) option" where
  "nets es = map_of (map (\<lambda>(a, q, lk, i). (pbits q, (a, lk, i))) (filter (\<lambda>(a, q, lk, i). lk \<noteq> 0) es))"

definition networks :: "'i rtree \<Rightarrow> bool list \<Rightarrow> (nat \<times> u32 \<times> 'i option) option" where
  "networks t = nets (pre t)"

abbreviation in_order :: "'i entry list \<Rightarrow> bool" where
  "in_order es \<equiv> sorted_wrt (\<lambda>e f. before (ebits e) (ebits f)) es"

lemma nets_None: "\<forall>e \<in> set es. ebits e \<noteq> k \<Longrightarrow> nets es k = None"
  by (auto simp: nets_def map_of_eq_None_iff split_def)

lemma nets_append: "nets (xs @ ys) = nets ys ++ nets xs"
  by (simp add: nets_def)

lemma sorted_without: "sorted_wrt P (xs @ y # ys) \<Longrightarrow> sorted_wrt P (xs @ ys)"
  by (auto simp: sorted_wrt_append)

lemma in_order_other:
  assumes "in_order (xs @ (a, q, lk, i) # ys)" "e \<in> set (xs @ ys)"
  shows "ebits e \<noteq> pbits q"
proof -
  have "before (ebits e) (pbits q) \<or> before (pbits q) (ebits e)"
    using assms by (auto simp: sorted_wrt_append)
  then show ?thesis using before_irrefl by auto
qed

lemma nets_at:
  assumes "in_order (xs @ (a, q, lk, i) # ys)"
  shows "nets (xs @ (a, q, lk, i) # ys) = (nets (xs @ ys))(pbits q := if lk = 0 then None else Some (a, lk, i))"
proof -
  have ne: "\<forall>e \<in> set xs \<union> set ys. ebits e \<noteq> pbits q" using in_order_other [OF assms] by simp
  have "nets [(a, q, lk, i)] = (if lk = 0 then Map.empty else [pbits q \<mapsto> (a, lk, i)])" by (simp add: nets_def)
  then have "nets ((a, q, lk, i) # ys) = nets ys ++ (if lk = 0 then Map.empty else [pbits q \<mapsto> (a, lk, i)])"
    using nets_append [of "[(a, q, lk, i)]" ys] by simp
  moreover have "nets xs (pbits q) = None" "nets ys (pbits q) = None" using ne by (auto intro!: nets_None)
  ultimately show ?thesis
    by (auto simp: nets_append map_add_def fun_eq_iff split: option.splits)
qed

lemma in_order_nets:
  assumes "in_order es" "(a, q, lk, i) \<in> set es" "lk \<noteq> 0"
  shows "nets es (pbits q) = Some (a, lk, i)"
proof -
  obtain xs ys where es: "es = xs @ (a, q, lk, i) # ys" using split_list [OF assms(2)] by blast
  show ?thesis using nets_at [OF assms(1) [unfolded es]] assms(3) by (simp add: es)
qed

lemma nets_SomeD: "nets es k = Some (a, lk, i) \<Longrightarrow> lk \<noteq> 0 \<and> (\<exists>q. (a, q, lk, i) \<in> set es \<and> pbits q = k)"
  by (auto simp: nets_def dest!: map_of_SomeD)

text \<open>The invariant of a table, and the map it represents.\<close>

definition table_map :: "'i route_table \<Rightarrow> (bool list \<Rightarrow> (nat \<times> u32 \<times> 'i option) option) \<Rightarrow> bool" where
  "table_map s m \<longleftrightarrow> (\<exists>t. rep s t \<and> radix [] t \<and> forks t \<and> m = networks t)"

lemma table_order: "radix b t \<Longrightarrow> in_order (pre t)"
  by (rule radix_sorted)

lemma networks_plug:
  assumes "radix [] (plug c (Nod a q lk i l r))"
  shows "networks (plug c (Nod a q lk i l r)) =
    (nets (lpre c @ pre l @ pre r @ rpre c))(pbits q := if lk = 0 then None else Some (a, lk, i))"
  using nets_at [of "lpre c" a q lk i "pre l @ pre r @ rpre c"] radix_sorted [OF assms]
  by (simp add: networks_def pre_plug)

section \<open>Getting a node\<close>

lemma relock_radix: "radix [] (plug c (Nod a q lk i l r)) \<Longrightarrow> radix [] (plug c (Nod a q lk' i' l r))"
  by (simp add: radix_plug)

lemma relock_networks:
  assumes "radix [] (plug c (Nod a q lk i l r))"
  shows "networks (plug c (Nod a q lk' i' l r)) =
    (networks (plug c (Nod a q lk i l r)))(pbits q := if lk' = 0 then None else Some (a, lk', i'))"
  using networks_plug [OF assms] networks_plug [OF relock_radix [OF assms]] by simp

lemma tree_get_networks:
  assumes t: "radix [] t" "forks t" and p: "pfx_ok p"
    and lock: "\<And>a lk i. networks t (pbits p) = Some (a, lk, i) \<Longrightarrow> lk + 1 \<noteq> 0"
  shows "case tree_get p x y t of (a, t') \<Rightarrow> radix [] t' \<and> forks t' \<and>
    networks t' = (networks t)(pbits p \<mapsto>
      (case networks t (pbits p) of None \<Rightarrow> (a, 1, None) | Some (b, lk, i) \<Rightarrow> (b, lk + 1, i))) \<and>
    (\<forall>b lk i. networks t (pbits p) = Some (b, lk, i) \<longrightarrow> a = b)"
proof -
  obtain c u where sk: "seek p [] t = (c, u)" by fastforce
  have tc: "t = plug c u" using seek_plug [OF sk] by simp
  have bd: "prefix (bound c) (pbits p)" by (rule seek_bound [OF sk]) simp
  have rx: "radix_ctx c" "radix (bound c) u" using t(1) by (simp_all add: tc radix_plug)
  have fk: "forks_ctx c" "forks u" "u = Tip \<Longrightarrow> may_empty c" using t(2) by (simp_all add: tc forks_plug)
  have none: "networks t (pbits p) = None" if "\<And>e. e \<in> set (pre t) \<Longrightarrow> ebits e \<noteq> pbits p"
    unfolding networks_def using that by (intro nets_None) auto
  show ?thesis
  proof (cases u)
    case Tip
    let ?t = "plug c (Nod x (copy_of p) 1 None Tip Tip)"
    have r: "radix [] ?t" "forks ?t"
      using rx fk bd copy_ok [OF p] by (simp_all add: radix_plug forks_plug)
    have o: "in_order (lpre c @ (x, copy_of p, 1, None) # rpre c)" using radix_sorted [OF r(1)] by (simp add: pre_plug)
    then have "networks t (pbits p) = None"
      using in_order_other [OF o] copy_ok(2) [OF p] by (intro none) (simp add: tc Tip pre_plug)
    moreover have "networks ?t = (networks t)(pbits p \<mapsto> (x, 1, None))"
      using networks_plug [OF r(1)] copy_ok(2) [OF p] by (simp add: networks_def tc Tip pre_plug)
    ultimately show ?thesis using r by (simp add: tree_get_def sk Tip)
  next
    case (Nod a q lk i l r)
    show ?thesis
    proof (cases "prefix (pbits q) (pbits p)")
      case True
      then have q: "pbits q = pbits p" using seek_stops [OF sk] Nod by simp
      have rt: "radix [] (plug c (Nod a q lk i l r))" using t(1) by (simp add: tc Nod)
      have nt: "networks t (pbits p) = (if lk = 0 then None else Some (a, lk, i))"
        using networks_plug [OF rt] q by (simp add: tc Nod)
      then have lk: "lk + 1 \<noteq> 0" using lock by (cases "lk = 0") auto
      have i: "lk = 0 \<Longrightarrow> i = None" using fk(2) by (simp add: Nod)
      have "radix [] (plug c (Nod a q (lk + 1) i l r))" by (rule relock_radix [OF rt])
      moreover have "forks (plug c (Nod a q (lk + 1) i l r))" using fk lk by (simp add: forks_plug Nod)
      moreover have "networks (plug c (Nod a q (lk + 1) i l r)) = (networks t)(pbits p \<mapsto> (a, lk + 1, i))"
        using relock_networks [OF rt, of "lk + 1" i] lk q by (simp add: tc Nod)
      moreover have "tree_get p x y t = (a, plug c (Nod a q (lk + 1) i l r))"
        using True by (simp add: tree_get_def sk Nod)
      ultimately show ?thesis using nt i by simp
    next
      case False
      let ?cp = "common_prefix q p" and ?T = "Nod a q lk i l r"
      let ?d = "pbit (pbytes q) (plen ?cp)"
      have qok: "pfx_ok q" "prefix (bound c) (pbits q)" using rx(2) by (simp_all add: Nod)
      note cp = common_prefix_ok [OF qok(1) p False]
      have bcp: "prefix (bound c) (pbits ?cp)" by (rule common_prefix_greatest [OF qok(1) p False qok(2) bd])
      have T: "radix (pbits ?cp @ [?d]) ?T"
        using rx(2) take_branch [OF cp(1)] cp(3) by (simp add: Nod)
      show ?thesis
      proof (cases "prefixlen ?cp = prefixlen p")
        case True
        then have same: "pbits ?cp = pbits p" using cp(4) by (metis length_pbits order_refl take_all)
        let ?t = "plug ((?d, x, ?cp, 1, None, Tip) # c) ?T"
        have r: "radix [] ?t" "forks ?t"
          using rx fk bcp cp(6) T by (simp_all add: radix_plug forks_plug Nod del: radix.simps(2) plug.simps)
        have pt: "pre ?t = lpre c @ (x, ?cp, 1, None) # pre ?T @ rpre c" by (simp add: pre_plug del: plug.simps pre.simps(2))
        then have o: "in_order (lpre c @ (x, ?cp, 1, None) # pre ?T @ rpre c)" using radix_sorted [OF r(1)] by simp
        have "pre t = lpre c @ pre ?T @ rpre c" by (simp add: tc Nod pre_plug)
        then have "networks t (pbits p) = None"
          using in_order_other [OF o] same by (intro none) simp
        moreover have "networks ?t = (networks t)(pbits p \<mapsto> (x, 1, None))"
          unfolding networks_def pt using nets_at [OF o] same by (simp add: tc Nod pre_plug)
        ultimately show ?thesis using r False True by (simp add: tree_get_def sk Nod Let_def del: plug.simps)
      next
        case ne: False
        then have lt: "plen ?cp < plen p" using cp(2) by (metis le_neq_implies_less word_unat_eq_iff)
        have leaf: "radix (pbits ?cp @ [\<not> ?d]) (Nod y (copy_of p) 1 None Tip Tip)"
          using take_branch [OF lt] cp(4,5) [OF] lt copy_ok [OF p] by simp
        let ?t = "plug ((\<not> ?d, x, ?cp, 0, None, ?T) # c) (Nod y (copy_of p) 1 None Tip Tip)"
        have r: "radix [] ?t" "forks ?t"
          using rx fk bcp cp(6) T leaf by (simp_all add: radix_plug forks_plug Nod del: radix.simps(2) plug.simps)
        let ?u = "if \<not> ?d then pre ?T else []" and ?v = "if \<not> ?d then [] else pre ?T"
        have pt: "pre ?t = lpre c @ (x, ?cp, 0, None) # ?u @ (y, copy_of p, 1, None) # ?v @ rpre c"
          by (simp add: pre_plug del: plug.simps)
        have "in_order (lpre c @ (x, ?cp, 0, None) # ?u @ (y, copy_of p, 1, None) # ?v @ rpre c)"
          using radix_sorted [OF r(1)] unfolding pt .
        from sorted_without [OF this]
        have o: "in_order ((lpre c @ ?u) @ (y, copy_of p, 1, None) # ?v @ rpre c)" by simp
        have uv: "(lpre c @ ?u) @ ?v @ rpre c = pre t" by (simp add: tc Nod pre_plug)
        have "networks t (pbits p) = None"
        proof (rule none)
          fix e assume "e \<in> set (pre t)"
          then have "e \<in> set ((lpre c @ ?u) @ ?v @ rpre c)" unfolding uv .
          from in_order_other [OF o this] show "ebits e \<noteq> pbits p" using copy_ok(2) [OF p] by simp
        qed
        moreover have "networks ?t = (networks t)(pbits p \<mapsto> (y, 1, None))"
        proof -
          have "networks ?t = nets ((lpre c @ ?u) @ (y, copy_of p, 1, None) # ?v @ rpre c)"
            unfolding networks_def pt by (simp add: nets_def)
          also have "\<dots> = (nets ((lpre c @ ?u) @ ?v @ rpre c))(pbits p \<mapsto> (y, 1, None))"
            using nets_at [OF o] copy_ok(2) [OF p] by simp
          finally show ?thesis unfolding uv networks_def .
        qed
        ultimately show ?thesis using r False ne by (simp add: tree_get_def sk Nod Let_def del: plug.simps)
      qed
    qed
  qed
qed

section \<open>Dropping a lock\<close>

lemma prune_ok:
  assumes "radix [] (plug c (Nod a q 0 None l r))" "forks_ctx c" "forks l" "forks r"
  shows "radix [] (prune c (Nod a q 0 None l r)) \<and> forks (prune c (Nod a q 0 None l r)) \<and>
    networks (prune c (Nod a q 0 None l r)) = networks (plug c (Nod a q 0 None l r))"
  using assms
proof (induction c arbitrary: a q l r)
  case Nil
  have "radix [] l" "radix [] r" using Nil.prems(1) by (auto intro: radix_weaken)
  moreover have "nets ((a, q, 0, None) # es) = nets es" for es :: "'a entry list" by (simp add: nets_def)
  ultimately show ?case using Nil by (auto simp: networks_def)
next
  case (Cons f c)
  obtain d b qb lb ib u where f: "f = (d, b, qb, lb, ib, u)" by (cases f)
  let ?T = "Nod a q 0 None l r"
  define t where "t = remnant ?T"
  define L R where "L = (if d then u else t)" and "R = (if d then t else u)"
  have fl: "fill f t = Nod b qb lb ib L R" by (simp add: f L_def R_def)
  show ?case
  proof (cases "two_children ?T")
    case True
    then show ?thesis using Cons.prems by (auto simp: forks_plug simp del: plug.simps(2))
  next
    case one: False
    have rx: "radix_ctx (f # c)" "radix (bound (f # c)) ?T" using Cons.prems(1) unfolding radix_plug by blast+
    then have "radix (bound (f # c)) l" "radix (bound (f # c)) r"
      by (auto intro: radix_weaken prefix_order.trans)
    then have rt: "radix [] (plug (f # c) t)" unfolding radix_plug using rx(1) by (simp add: t_def)
    have ft: "forks t" "forks_ctx c" "forks u" using Cons.prems by (simp_all add: t_def f)
    have pt: "pre t = pre l @ pre r" using one by (auto simp: t_def)
    have nt: "networks (plug (f # c) t) = networks (plug (f # c) ?T)"
      unfolding networks_def pre_plug pt by (simp add: nets_def)
    have pr: "prune (f # c) ?T = (if lb = 0 then prune c (Nod b qb lb ib L R) else plug (f # c) t)"
      using one by (simp only: prune.simps if_False t_def [symmetric] fl) (simp add: f)
    show ?thesis
    proof (cases "lb = 0")
      case True
      then have "ib = None" using Cons.prems(2) by (simp add: f)
      moreover have "radix [] (plug c (Nod b qb lb ib L R))" using rt by (simp add: fl)
      moreover have "forks L" "forks R" using ft by (simp_all add: L_def R_def)
      ultimately have "radix [] (prune c (Nod b qb lb ib L R)) \<and> forks (prune c (Nod b qb lb ib L R)) \<and>
          networks (prune c (Nod b qb lb ib L R)) = networks (plug c (Nod b qb lb ib L R))"
        using Cons.IH [of b qb L R] ft(2) True by simp
      then show ?thesis using nt True unfolding pr by (simp add: fl)
    next
      case False
      have "forks (plug (f # c) t)" unfolding forks_plug using Cons.prems(2) ft False by (simp add: f)
      then show ?thesis using rt nt False unfolding pr by simp
    qed
  qed
qed

lemma tree_unlock_networks:
  assumes t: "radix [] (plug c (Nod a q lk i l r))" "forks (plug c (Nod a q lk i l r))"
    and lk: "lk \<noteq> 0" "lk = 1 \<Longrightarrow> i = None"
  defines "t' \<equiv> tree_unlock c a q lk i l r"
  shows "radix [] t'" "forks t'"
    "networks t' = (networks (plug c (Nod a q lk i l r)))(pbits q := if lk = 1 then None else Some (a, lk - 1, i))"
proof -
  have fk: "forks_ctx c" "forks l" "forks r" using t(2) by (simp_all add: forks_plug)
  have "radix [] t' \<and> forks t' \<and>
    networks t' = (networks (plug c (Nod a q lk i l r)))(pbits q := if lk = 1 then None else Some (a, lk - 1, i))"
  proof (cases "lk = 1")
    case True
    then have "t' = prune c (Nod a q 0 None l r)" using lk by (simp add: t'_def tree_unlock_def)
    then show ?thesis
      using prune_ok [OF relock_radix [OF t(1)] fk] relock_networks [OF t(1), of 0 None] True by simp
  next
    case False
    then have nz: "lk - 1 \<noteq> 0" by simp
    have t': "t' = plug c (Nod a q (lk - 1) i l r)" using False by (simp add: t'_def tree_unlock_def)
    show ?thesis unfolding t' using relock_radix [OF t(1)] relock_networks [OF t(1), of "lk - 1" i] nz False fk
      by (simp add: forks_plug)
  qed
  then show "radix [] t'" "forks t'"
    "networks t' = (networks (plug c (Nod a q lk i l r)))(pbits q := if lk = 1 then None else Some (a, lk - 1, i))"
    by blast+
qed

lemma networks_node:
  assumes "radix [] t" "networks t k = Some (a, lk, i)"
  obtains c q l r where "t = plug c (Nod a q lk i l r)" "pbits q = k" "lk \<noteq> 0"
proof -
  obtain q where q: "(a, q, lk, i) \<in> set (pre t)" "pbits q = k" "lk \<noteq> 0"
    using nets_SomeD [OF assms(2) [unfolded networks_def]] by blast
  with entry_split [OF q(1)] that show thesis by blast
qed

section \<open>The contract\<close>

text \<open>
  A map whose entries count locks: \<open>get\<close> adds a lock, creating the entry if need be, and
  \<open>unlock\<close> drops one and with the last one the entry.  \<open>ready\<close> says that memory is at hand.
\<close>

locale locked_map =
  fixes represents :: "'s \<Rightarrow> ('k \<Rightarrow> ('a \<times> u32 \<times> 'i option) option) \<Rightarrow> bool"
    and ready :: "'s \<Rightarrow> bool"
    and valid :: "'p \<Rightarrow> bool"
    and key :: "'p \<Rightarrow> 'k"
    and get :: "'p \<Rightarrow> 's \<Rightarrow> ('a \<times> 's) option"
    and unlock :: "'a \<Rightarrow> 's \<Rightarrow> 's option"
  assumes get_node: "represents s m \<Longrightarrow> ready s \<Longrightarrow> valid p \<Longrightarrow>
      (\<And>a lk i. m (key p) = Some (a, lk, i) \<Longrightarrow> lk + 1 \<noteq> 0) \<Longrightarrow>
      \<exists>a s'. get p s = Some (a, s') \<and> (case m (key p) of
        None \<Rightarrow> represents s' (m(key p \<mapsto> (a, 1, None)))
      | Some (b, lk, i) \<Rightarrow> a = b \<and> represents s' (m(key p \<mapsto> (b, lk + 1, i))))"
    and unlock_node: "represents s m \<Longrightarrow> m k = Some (a, lk, i) \<Longrightarrow> (lk = 1 \<Longrightarrow> i = None) \<Longrightarrow>
      \<exists>s'. unlock a s = Some s' \<and> represents s' (m(k := if lk = 1 then None else Some (a, lk - 1, i)))"
    and locked: "represents s m \<Longrightarrow> m k = Some (a, lk, i) \<Longrightarrow> lk \<noteq> 0"
begin

lemma get_then_unlock:
  assumes "represents s m" "ready s" "valid p" "\<And>a lk i. m (key p) = Some (a, lk, i) \<Longrightarrow> lk + 1 \<noteq> 0"
  shows "\<exists>a s1 s2. get p s = Some (a, s1) \<and> unlock a s1 = Some s2 \<and> represents s2 m"
proof -
  obtain a s1 where g: "get p s = Some (a, s1)" "case m (key p) of
        None \<Rightarrow> represents s1 (m(key p \<mapsto> (a, 1, None)))
      | Some (b, lk, i) \<Rightarrow> a = b \<and> represents s1 (m(key p \<mapsto> (b, lk + 1, i)))"
    using get_node [OF assms(1-3)] assms(4) by blast
  show ?thesis
  proof (cases "m (key p)")
    case None
    then have "represents s1 (m(key p \<mapsto> (a, 1, None)))" using g(2) by simp
    from unlock_node [OF this, of "key p" a 1 None] None g(1) show ?thesis
      by (auto simp: fun_upd_idem)
  next
    case (Some x)
    then obtain lk i where x: "m (key p) = Some (a, lk, i)" "represents s1 (m(key p \<mapsto> (a, lk + 1, i)))"
      using g(2) by (cases x) auto
    have "lk + 1 \<noteq> 1" using locked [OF assms(1) x(1)] by simp
    with unlock_node [OF x(2), of "key p" a "lk + 1" i] g(1) x(1) show ?thesis
      by (auto simp: fun_upd_idem)
  qed
qed

end

lemma get_refines:
  assumes "table_map s m" "fresh_addrs mem s" "pfx_ok p" "\<And>a lk i. m (pbits p) = Some (a, lk, i) \<Longrightarrow> lk + 1 \<noteq> 0"
  shows "\<exists>a s'. route_node_get mem p s = Some (a, s') \<and> (case m (pbits p) of
      None \<Rightarrow> table_map s' (m(pbits p \<mapsto> (a, 1, None)))
    | Some (b, lk, i) \<Rightarrow> a = b \<and> table_map s' (m(pbits p \<mapsto> (b, lk + 1, i))))"
proof -
  obtain t where t: "rep s t" "radix [] t" "forks t" "m = networks t" using assms(1) by (auto simp: table_map_def)
  let ?r = "tree_get p (mem (allocs s)) (mem (allocs s + 1)) t"
  obtain s' where s': "route_node_get mem p s = Some (fst ?r, s')" "rep s' (snd ?r)"
    using route_node_get_refines [OF t(1,2) assms(3,2)] by blast
  have "case ?r of (a, t') \<Rightarrow> radix [] t' \<and> forks t' \<and>
    networks t' = (networks t)(pbits p \<mapsto>
      (case networks t (pbits p) of None \<Rightarrow> (a, 1, None) | Some (b, lk, i) \<Rightarrow> (b, lk + 1, i))) \<and>
    (\<forall>b lk i. networks t (pbits p) = Some (b, lk, i) \<longrightarrow> a = b)"
    by (rule tree_get_networks [OF t(2,3) assms(3)]) (use assms(4) t(4) in auto)
  with s' t(4) show ?thesis
    by (cases ?r) (auto simp: table_map_def split: option.split)
qed

lemma unlock_refines:
  assumes "table_map s m" "m k = Some (a, lk, i)" "lk = 1 \<Longrightarrow> i = None"
  shows "\<exists>s'. route_unlock_node a s = Some s' \<and> table_map s' (m(k := if lk = 1 then None else Some (a, lk - 1, i)))"
proof -
  obtain t where t: "rep s t" "radix [] t" "forks t" "m = networks t" using assms(1) by (auto simp: table_map_def)
  obtain c q l r where c: "t = plug c (Nod a q lk i l r)" "pbits q = k" "lk \<noteq> 0"
    using networks_node [OF t(2)] assms(2) t(4) by blast
  have "forks_ctx c" using t(3) by (simp add: c(1) forks_plug)
  from route_unlock_refines [OF t(1) [unfolded c(1)] this c(3) assms(3)]
  obtain s' where "route_unlock_node a s = Some s'" "rep s' (tree_unlock c a q lk i l r)" by blast
  with tree_unlock_networks [OF t(2) [unfolded c(1)] t(3) [unfolded c(1)] c(3) assms(3)] c t(4)
  show ?thesis by (auto simp: table_map_def)
qed

interpretation route: locked_map table_map "fresh_addrs mem" pfx_ok pbits "route_node_get mem" route_unlock_node
  for mem :: "nat \<Rightarrow> nat"
proof
  show "lk \<noteq> 0" if "table_map s m" "m k = Some (a, lk, i)" for s and m :: "bool list \<Rightarrow> (nat \<times> u32 \<times> 'c option) option" and k a lk i
    using that nets_SomeD by (fastforce simp: table_map_def networks_def)
qed (rule get_refines unlock_refines; assumption)+

section \<open>Properties\<close>

lemma table_map_init: "table_map route_table_init Map.empty"
  by (auto simp: table_map_def route_table_init_def rep_def networks_def nets_def intro!: exI [of _ Tip])

text \<open>Two networks in one table, 10.0.0.0/8 and 10.1.0.0/16, the first with information.\<close>

definition v4 :: "u8 \<Rightarrow> u8 \<Rightarrow> u8 \<Rightarrow> ip_prefix" where
  "v4 a b l = \<lparr>family = AF_INET, prefixlen = l, pbytes = [a, b] @ replicate 14 0\<rparr>"

definition two_nets_tree :: "nat rtree" where
  "two_nets_tree = Nod 0 (v4 10 0 8) 1 (Some 5) (Nod 1 (v4 10 1 16) 1 None Tip Tip) Tip"

definition two_nets :: "nat route_table" where
  "two_nets = \<lparr>nodes = [0 \<mapsto> cell (v4 10 0 8) None (Some 1) None 1 (Some 5),
       1 \<mapsto> cell (v4 10 1 16) (Some 0) None None 1 None],
     rt_top = Some 0, rt_count = 2, allocs = 2\<rparr>"

abbreviation bits8 :: "bool list" where "bits8 \<equiv> pbits (v4 10 0 8)"
abbreviation bits16 :: "bool list" where "bits16 \<equiv> pbits (v4 10 1 16)"

lemma two_nets_bits: "prefix (bits8 @ [False]) bits16" "bits8 \<noteq> bits16" "pfx_ok (v4 a b 8)" "pfx_ok (v4 a b 16)"
proof -
  have "take 9 bits16 = bits8 @ [False]" by code_simp
  then show "prefix (bits8 @ [False]) bits16" by (metis take_is_prefix)
  show "bits8 \<noteq> bits16" by code_simp
  show "pfx_ok (v4 a b 8)" "pfx_ok (v4 a b 16)" by (simp_all add: pfx_ok_def v4_def)
qed

definition two_map :: "bool list \<Rightarrow> (nat \<times> u32 \<times> nat option) option" where
  "two_map = [bits8 \<mapsto> (0, 1, Some 5), bits16 \<mapsto> (1, 1, None)]"

lemma two_map_at: "two_map bits8 = Some (0, 1, Some 5)" "two_map bits16 = Some (1, 1, None)"
  "two_map (pbits (v4 10 64 16)) = None" "two_map k = Some (a, lk, Some i) \<Longrightarrow> a = 0"
proof -
  show "two_map (pbits (v4 10 64 16)) = None" by code_simp
qed (use two_nets_bits(2) in \<open>auto simp: two_map_def split: if_splits\<close>)

lemma two_nets_map: "table_map two_nets two_map"
proof -
  have "rep two_nets two_nets_tree" by (auto simp: rep_def two_nets_def two_nets_tree_def)
  moreover have "radix [] two_nets_tree" "forks two_nets_tree"
    using two_nets_bits by (simp_all add: two_nets_tree_def)
  moreover have "networks two_nets_tree = two_map"
    using two_nets_bits(2) by (simp add: networks_def nets_def two_nets_tree_def two_map_def fun_upd_twist)
  ultimately show ?thesis unfolding table_map_def by metis
qed

lemma nets_covers:
  assumes "nets es k = Some (a, lk, Some i)" "prefix k (pbits p)"
  shows "\<exists>q. (a, q, lk, Some i) \<in> set (filter (\<lambda>e. covers e p) es) \<and> pbits q = k"
proof -
  obtain q where "(a, q, lk, Some i) \<in> set es" "pbits q = k" using nets_SomeD [OF assms(1)] by blast
  then show ?thesis using assms(2) by (intro exI [of _ q]) (simp add: covers_def)
qed

lemma last_covering_longest:
  assumes o: "in_order es" and l: "last (filter (\<lambda>e. covers e p) es) = (a, q, lk, i)"
    and k: "nets es k = Some (a', lk', Some i')" "prefix k (pbits p)"
  shows "length k \<le> plen q"
proof -
  let ?es = "filter (\<lambda>e. covers e p) es"
  obtain q' where q': "(a', q', lk', Some i') \<in> set ?es" "pbits q' = k" using nets_covers [OF k] by blast
  then have ne: "?es \<noteq> []" by (metis empty_iff empty_set)
  have "(a, q, lk, i) \<in> set ?es" using last_in_set [OF ne] unfolding l .
  then have q: "prefix (pbits q) (pbits p)" by (simp add: covers_def)
  have "in_order (butlast ?es @ [(a, q, lk, i)])" "(a', q', lk', Some i') \<in> set (butlast ?es @ [(a, q, lk, i)])"
    using sorted_wrt_filter [OF o] q'(1) append_butlast_last_id [OF ne] l by metis+
  then have "k = pbits q \<or> before k (pbits q)" using q'(2) unfolding sorted_wrt_append by fastforce
  then have "\<not> before (pbits q) k" using before_irrefl before_trans by blast
  moreover have "prefix k (pbits q) \<or> prefix (pbits q) k" using k(2) q by (rule prefix_same_cases)
  ultimately have "prefix k (pbits q)" using before_prefix by blast
  from prefix_length_le [OF this] show ?thesis by simp
qed

text \<open>
  C29: \<open>route_node_match\<close> is longest prefix match.  It always returns: NULL when no network with
  information contains the address, and otherwise the node, with one more lock, of the
  longest network with information that contains it.
\<close>

theorem match_is_longest_prefix:
  assumes "table_map s m"
  shows "\<exists>r. route_node_match p s = Some r \<and> (case r of
      (None, s') \<Rightarrow> s' = s \<and> (\<forall>k a lk i. m k = Some (a, lk, Some i) \<longrightarrow> \<not> prefix k (pbits p))
    | (Some a, s') \<Rightarrow> s' = route_lock_node a s \<and> (\<exists>k lk i. m k = Some (a, lk, Some i) \<and> prefix k (pbits p) \<and>
        (\<forall>k' a' lk' i'. m k' = Some (a', lk', Some i') \<and> prefix k' (pbits p) \<longrightarrow> length k' \<le> length k)))"
proof -
  obtain t where t: "rep s t" "radix [] t" "forks t" "m = nets (pre t)"
    using assms by (auto simp: table_map_def networks_def)
  let ?es = "filter (\<lambda>e. covers e p) (pre t)"
  have w: "match_walk s p (rt_top s) None = Some (if ?es = [] then None else Some (fst (last ?es)))"
    using match_walk_finds [of s None t "[]" p None] t by (simp add: rep_def Let_def)
  note o = radix_sorted [OF t(2)]
  show ?thesis
  proof (cases "?es = []")
    case True
    have "\<not> prefix k (pbits p)" if "m k = Some (a, lk, Some i)" for k a lk i
      using nets_covers [of "pre t" k a lk i p] that t(4) True by auto
    then show ?thesis using w True by (simp add: route_node_match_def)
  next
    case False
    obtain a q lk i where l: "last ?es = (a, q, lk, i)" by (cases "last ?es") auto
    then have i: "(a, q, lk, i) \<in> set (pre t)" "prefix (pbits q) (pbits p)" "i \<noteq> None"
      using last_in_set [OF False] by (auto simp: covers_def)
    from entry_split [OF i(1)] obtain c u v where c: "t = plug c (Nod a q lk i u v)" by blast
    have "lk \<noteq> 0" using t(3) i(3) by (auto simp: c forks_plug)
    then have mk: "m (pbits q) = Some (a, lk, i)" unfolding t(4) by (rule in_order_nets [OF o i(1)])
    have "\<forall>k' a' lk' i'. m k' = Some (a', lk', Some i') \<and> prefix k' (pbits p) \<longrightarrow> length k' \<le> plen q"
      using last_covering_longest [OF o l] t(4) by blast
    moreover have "route_node_match p s = Some (Some a, route_lock_node a s)"
      using w False l by (simp add: route_node_match_def)
    moreover obtain j where "i = Some j" using i(3) by blast
    ultimately show ?thesis using mk i(2)
      by (intro exI [of _ "(Some a, route_lock_node a s)"]) (simp add: exI [of _ "pbits q"])
  qed
qed

text \<open>
  \<open>route_node_lookup\<close> returns the node of exactly this network when it carries information,
  with one more lock, and NULL otherwise.
\<close>

theorem lookup_is_exact:
  assumes "table_map s m"
  shows "route_node_lookup p s = Some (case m (pbits p) of
      Some (a, lk, Some i) \<Rightarrow> (Some a, route_lock_node a s) | _ \<Rightarrow> (None, s))"
proof -
  obtain t where t: "rep s t" "radix [] t" "forks t" "m = networks t"
    using assms by (auto simp: table_map_def)
  obtain c u where sk: "seek p [] t = (c, u)" by fastforce
  have tc: "t = plug c u" using seek_plug [OF sk] by simp
  note gw = table_get_walk [OF t(1), of p, unfolded sk prod.case]
  show ?thesis
  proof (cases "\<exists>a q lk i l r. u = Nod a q lk i l r \<and> prefix (pbits q) (pbits p)")
    case True
    then obtain a q lk i l r where u: "u = Nod a q lk i l r" "prefix (pbits q) (pbits p)" by blast
    then have q: "pbits q = pbits p" using seek_stops [OF sk] by simp
    have mp: "m (pbits p) = (if lk = 0 then None else Some (a, lk, i))"
      using networks_plug [of c a q lk i l r] t(2) q by (simp add: t(4) tc u(1))
    have i: "lk = 0 \<Longrightarrow> i = None" using t(3) by (simp add: tc u(1) forks_plug)
    have "info (node_at s a) = i" using node_at_frame [of s c a q lk i l r] t(1) by (simp add: tc u(1))
    then show ?thesis using gw u mp i by (auto simp: route_node_lookup_def split: option.split)
  next
    case False
    then have "route_node_lookup p s = Some (None, s)"
      using gw by (auto simp: route_node_lookup_def split: rtree.splits)
    moreover have "m (pbits p) = None"
    proof (rule ccontr)
      assume "m (pbits p) \<noteq> None"
      then obtain a lk i where "networks t (pbits p) = Some (a, lk, i)" using t(4) by auto
      then obtain q where "(a, q, lk, i) \<in> set (pre t)" "pbits q = pbits p"
        unfolding networks_def using nets_SomeD by blast
      then show False using seek_finds [OF t(2), of "(a, q, lk, i)" p "[]"] sk False by auto
    qed
    ultimately show ?thesis by simp
  qed
qed


theorem match_is_longest_prefix_witness:
  "route_node_match (v4 10 1 32) two_nets = Some (Some 0, route_lock_node 0 two_nets)"
proof -
  have p: "prefix bits8 (pbits (v4 10 1 32))"
  proof -
    have "take 8 (pbits (v4 10 1 32)) = bits8" by code_simp
    then show ?thesis by (metis take_is_prefix)
  qed
  define q where "q = v4 10 1 32"
  note p = p [folded q_def]
  obtain rr where r: "route_node_match q two_nets = Some rr" and c: "case rr of
      (None, s') \<Rightarrow> s' = two_nets \<and> (\<forall>k a lk i. two_map k = Some (a, lk, Some i) \<longrightarrow> \<not> prefix k (pbits q))
    | (Some a, s') \<Rightarrow> s' = route_lock_node a two_nets \<and> (\<exists>k lk i. two_map k = Some (a, lk, Some i) \<and> prefix k (pbits q) \<and>
        (\<forall>k' a' lk' i'. two_map k' = Some (a', lk', Some i') \<and> prefix k' (pbits q) \<longrightarrow> length k' \<le> length k))"
    using match_is_longest_prefix [OF two_nets_map, of q] by blast
  obtain x s' where x: "rr = (x, s')" by fastforce
  show ?thesis unfolding q_def [symmetric]
  proof (cases x)
    case None
    with c p two_map_at(1) show "route_node_match q two_nets = Some (Some 0, route_lock_node 0 two_nets)"
      unfolding x by auto
  next
    case (Some a)
    then have "s' = route_lock_node a two_nets" "\<exists>k lk i. two_map k = Some (a, lk, Some i)" using c unfolding x by auto
    with two_map_at(4) r x Some show "route_node_match q two_nets = Some (Some 0, route_lock_node 0 two_nets)" by blast
  qed
qed

theorem lookup_is_exact_witness:
  "route_node_lookup (v4 10 0 8) two_nets = Some (Some 0, route_lock_node 0 two_nets) \<and>
   route_node_lookup (v4 10 1 16) two_nets = Some (None, two_nets)"
  using lookup_is_exact [OF two_nets_map] two_map_at(1,2) by simp

text \<open>
  C30: \<open>route_node_get\<close> refines the insertion into a map of counted nodes.  It always returns a
  node: the one of the network with one more lock, or a new one with one lock and no
  information, also when a stub has to be made between a network and its parent; nothing
  else changes in the map and the table keeps its invariant.
\<close>

theorem get_refines_map:
  assumes "table_map s m" "fresh_addrs mem s" "pfx_ok p"
    and "\<forall>a lk i. m (pbits p) = Some (a, lk, i) \<longrightarrow> lk + 1 \<noteq> 0"
  shows "\<exists>a s'. route_node_get mem p s = Some (a, s') \<and> (case m (pbits p) of
      None \<Rightarrow> table_map s' (m(pbits p \<mapsto> (a, 1, None)))
    | Some (b, lk, i) \<Rightarrow> a = b \<and> table_map s' (m(pbits p \<mapsto> (b, lk + 1, i))))"
  by (rule route.get_node [OF assms(1-3)]) (use assms(4) in blast)

theorem get_refines_map_witness:
  "\<exists>a s'. route_node_get (\<lambda>n. n) (v4 10 64 16) two_nets = Some (a, s') \<and>
    table_map s' (two_map(pbits (v4 10 64 16) \<mapsto> (a, 1, None)))"
  using get_refines_map [OF two_nets_map _ two_nets_bits(4), of "\<lambda>n. n" 10 64] two_map_at(3)
  by (simp add: fresh_addrs_def two_nets_def)

text \<open>
  C31: \<open>route_unlock_node\<close> refines the removal from the map: the node loses a lock, and with its
  last lock the network disappears together with the stubs that are not needed any more;
  its assertions hold as long as a node without locks carries no information.
\<close>

theorem unlock_refines_map:
  assumes "table_map s m" "m k = Some (a, lk, i)" "lk = 1 \<longrightarrow> i = None"
  shows "\<exists>s'. route_unlock_node a s = Some s' \<and>
    table_map s' (m(k := if lk = 1 then None else Some (a, lk - 1, i)))"
  by (rule route.unlock_node [OF assms(1,2)]) (use assms(3) in blast)

theorem unlock_refines_map_witness:
  "\<exists>s'. route_unlock_node 1 two_nets = Some s' \<and> table_map s' (two_map(bits16 := None))"
  using unlock_refines_map [OF two_nets_map two_map_at(2)] by simp

text \<open>
  Getting the node of a network and dropping the lock again restores the map of the table,
  whatever nodes had to be created and removed on the way.
\<close>

theorem get_unlock_roundtrip:
  assumes "table_map s m" "fresh_addrs mem s" "pfx_ok p"
    and "\<forall>a lk i. m (pbits p) = Some (a, lk, i) \<longrightarrow> lk + 1 \<noteq> 0"
  shows "\<exists>a s1 s2. route_node_get mem p s = Some (a, s1) \<and> route_unlock_node a s1 = Some s2 \<and> table_map s2 m"
  by (rule route.get_then_unlock [OF assms(1-3)]) (use assms(4) in blast)

theorem get_unlock_roundtrip_witness:
  "\<exists>a s1 s2. route_node_get (\<lambda>n. n) (v4 10 64 16) route_table_init = Some (a, s1) \<and>
    route_unlock_node a s1 = Some s2 \<and> table_map s2 (Map.empty :: bool list \<Rightarrow> (nat \<times> u32 \<times> unit option) option)"
proof -
  have "fresh_addrs (\<lambda>n. n) (route_table_init :: unit route_table)" by (simp add: fresh_addrs_def route_table_init_def)
  from get_unlock_roundtrip [OF table_map_init this two_nets_bits(4), of 10 64] show ?thesis by simp
qed

end
