(* ===== verification/RouteIter.thy ===== *)
theory RouteIter
  imports RouteMap
begin

text \<open>
  Walking through a routing table: \<open>route_top\<close> and \<open>route_next\<close> visit the entries in order,
  moving one lock along; \<open>route_table_get_next\<close> finds the place of any prefix in that order,
  which lets a paused iteration go on in a table that has changed; \<open>route_table_free\<close> takes
  the table apart from the leaves.
\<close>

section \<open>The next node\<close>

definition head_addr :: "'i entry list \<Rightarrow> nat option" where
  "head_addr es = (case es of [] \<Rightarrow> None | e # _ \<Rightarrow> Some (fst e))"

lemma head_addr_simps [simp]: "head_addr [] = None" "head_addr (e # es) = Some (fst e)"
  by (simp_all add: head_addr_def)

lemma head_addr_pre [simp]: "head_addr (pre t) = root t"
  by (cases t) auto

lemma head_addr_append: "head_addr (pre t @ es) = (if t = Tip then head_addr es else root t)"
  by (cases t) auto

lemma up_walk_next:
  assumes "ctx_at (nodes s) tp c (Some a)" "parent (node_at s a) = up c" "distinct (a # caddrs c)"
  shows "up_walk s None a = Some (head_addr (rpre c))"
  using assms
proof (induction c arbitrary: a)
  case Nil
  then show ?case by (simp add: up_walk.simps)
next
  case (Cons f c)
  obtain d b q lk i u where f: "f = (d, b, q, lk, i, u)" by (cases f)
  have nb: "node_at s b = cell q (up c) (if d then root u else Some a) (if d then Some a else root u) lk i"
    using Cons.prems(1) by (simp add: f node_at_def)
  have ua: "root u \<noteq> Some a" using Cons.prems(3) by (cases u) (auto simp: f)
  have IH: "up_walk s None b = Some (head_addr (rpre c))"
    using Cons.IH [of b] Cons.prems nb by (simp add: f)
  show ?case
    using IH Cons.prems(2) nb ua
    by (cases d; cases "u = Tip") (auto simp: f up_walk.simps [of s None a] head_addr_append)
qed

text \<open>The moves of an iteration.\<close>

definition locked_at :: "nat option \<Rightarrow> 'i route_table \<Rightarrow> 'i route_table" where
  "locked_at r s = (case r of None \<Rightarrow> s | Some a \<Rightarrow> route_lock_node a s)"

definition no_overflow :: "'i route_table \<Rightarrow> bool" where
  "no_overflow s \<longleftrightarrow> (\<forall>a \<in> dom (nodes s). lock (node_at s a) + 1 \<noteq> 0)"

lemma unlock_other:
  assumes a: "nodes s a = Some n" "lock n + 1 \<noteq> 0" and r: "r \<noteq> Some a"
    and fork: "lock n = 0 \<Longrightarrow> info n = None \<and> l_left n \<noteq> None \<and> l_right n \<noteq> None"
  shows "route_unlock_node a (locked_at r (route_lock_node a s)) = Some (locked_at r s)"
proof -
  let ?s = "locked_at r (route_lock_node a s)"
  have na: "node_at ?s a = n\<lparr>lock := lock n + 1\<rparr>"
    using a(1) r by (cases r) (auto simp: locked_at_def route_lock_node_def set_node_def node_at_def)
  have undo: "set_node a (\<lambda>n. n\<lparr>lock := lock n - 1\<rparr>) ?s = locked_at r s"
  proof -
    have "set_node a (\<lambda>n. n\<lparr>lock := lock n - 1\<rparr>) ?s = ?s\<lparr>nodes := (nodes ?s)(a := Some n)\<rparr>"
      unfolding set_node_def na by simp
    also have "\<dots> = locked_at r s"
      using a(1) r by (cases r) (auto simp: locked_at_def route_lock_node_def set_node_def node_at_def fun_upd_twist fun_upd_idem)
    finally show ?thesis .
  qed
  have nb: "node_at (locked_at r s) a = n"
    using a(1) r by (cases r) (auto simp: locked_at_def route_lock_node_def set_node_def node_at_def)
  have "lock n + 1 > 0" using a(2) by (simp add: word_gt_0)
  then have "route_unlock_node a ?s = (if lock n = 0 then route_node_delete a (locked_at r s) else Some (locked_at r s))"
    unfolding route_unlock_node_def na Let_def undo nb by simp
  moreover have "route_node_delete a (locked_at r s) = Some (locked_at r s)" if "lock n = 0"
    using fork that by (simp add: delete_step nb)
  ultimately show ?thesis by simp
qed

lemma entry_node:
  assumes "rep s t" "forks t" "t = plug c (Nod a q lk i l r)"
  shows "nodes s a = Some (cell q (up c) (root l) (root r) lk i)"
    "lk = 0 \<Longrightarrow> i = None \<and> root l \<noteq> None \<and> root r \<noteq> None"
  using assms by (auto simp: rep_plug forks_plug)

lemma route_next_moves:
  assumes t: "rep s t" "forks t" "no_overflow s" and c: "t = plug c (Nod a q lk i l r)"
  shows "route_next a (route_lock_node a s) =
    (let r = head_addr (pre l @ pre r @ rpre c) in Some (r, locked_at r s))"
proof -
  note n = entry_node [OF t(1,2) c]
  let ?s = "route_lock_node a s" and ?nxt = "head_addr (pre l @ pre r @ rpre c)"
  have r: "rep ?s (plug c (Nod a q (lk + 1) i l r))" using rep_lock t(1) c by blast
  note na = node_at_frame [OF r]
  have dist: "distinct (addrs t)" using t(1) by (simp add: rep_def)
  have up: "up_walk ?s None a = Some (head_addr (rpre c))"
    by (rule up_walk_next [of _ "rt_top ?s"]) (use r na in \<open>auto simp: rep_plug\<close>)
  have "?nxt \<noteq> Some a"
  proof
    assume "?nxt = Some a"
    then obtain e es where e: "pre l @ pre r @ rpre c = e # es" "fst e = a"
      by (cases "pre l @ pre r @ rpre c") auto
    have "map fst (pre t) = map fst (lpre c) @ a # map fst (pre l @ pre r @ rpre c)"
      by (simp add: c pre_plug)
    then have "map fst (pre t) = map fst (lpre c) @ a # a # map fst es" unfolding e(1) using e(2) by simp
    with dist show False unfolding map_fst_pre [symmetric] by simp
  qed
  moreover have "lk + 1 \<noteq> 0" using t(3) n(1) by (auto simp: no_overflow_def node_at_def dom_def)
  ultimately have un: "route_unlock_node a (locked_at ?nxt ?s) = Some (locked_at ?nxt s)"
    using unlock_other [OF n(1), of ?nxt] n(2) by simp
  have mv: "move_to x a ?s = map_option (Pair x) (route_unlock_node a (locked_at x ?s))" for x
    by (simp add: move_to_def locked_at_def)
  show ?thesis
    unfolding route_next_def next_until_def na Let_def cell_sel up option.case mv
    using un by (cases "l = Tip"; cases "r = Tip") (simp_all add: head_addr_append)
qed

section \<open>A whole iteration\<close>

text \<open>The client's loop over a table, with the addresses visited; \<open>n\<close> bounds the rounds.\<close>

fun route_visit :: "nat \<Rightarrow> nat option \<Rightarrow> 'i route_table \<Rightarrow> (nat list \<times> 'i route_table) option" where
  "route_visit n None s = Some ([], s)"
| "route_visit 0 (Some a) s = None"
| "route_visit (Suc n) (Some a) s =
     (case route_next a s of
        None \<Rightarrow> None
      | Some (r, s') \<Rightarrow> map_option (\<lambda>(as, s''). (a # as, s'')) (route_visit n r s'))"

lemma visit_rest:
  assumes t: "rep s t" "forks t" "no_overflow s"
  shows "pre t = xs @ ys \<Longrightarrow> length ys \<le> n \<Longrightarrow>
    route_visit n (head_addr ys) (locked_at (head_addr ys) s) = Some (map fst ys, s)"
proof (induction n arbitrary: xs ys)
  case 0
  then show ?case by (simp add: locked_at_def)
next
  case (Suc n)
  show ?case
  proof (cases ys)
    case Nil
    then show ?thesis by (simp add: locked_at_def)
  next
    case (Cons e es)
    obtain a q lk i where e: "e = (a, q, lk, i)" by (cases e)
    have "e \<in> set (pre t)" using Suc.prems(1) Cons by simp
    then obtain c l r where c: "t = plug c (Nod a q lk i l r)" using entry_split unfolding e by blast
    have d: "distinct (map fst (pre t))" using t(1) by (simp add: map_fst_pre rep_def)
    have "pre t = lpre c @ e # (pre l @ pre r @ rpre c)" by (simp add: c pre_plug e)
    moreover have "pre t = xs @ e # es" using Suc.prems(1) Cons by simp
    ultimately have es: "es = pre l @ pre r @ rpre c"
      using distinct_append_cancel [of fst xs e es "lpre c" "pre l @ pre r @ rpre c"] d by metis
    have "route_next a (route_lock_node a s) = Some (head_addr es, locked_at (head_addr es) s)"
      using route_next_moves [OF t c] es by (simp add: Let_def)
    moreover have "route_visit n (head_addr es) (locked_at (head_addr es) s) = Some (map fst es, s)"
      using Suc.IH [of "xs @ [e]" es] Suc.prems Cons by simp
    ultimately show ?thesis by (simp add: Cons e locked_at_def)
  qed
qed

lemma visit_all:
  assumes t: "rep s t" "forks t" "no_overflow s" "length (pre t) \<le> n"
  shows "(case route_top s of (r, s') \<Rightarrow> route_visit n r s') = Some (map fst (pre t), s)"
proof -
  have "route_top s = (head_addr (pre t), locked_at (head_addr (pre t)) s)"
    using t(1) by (simp add: route_top_def locked_at_def rep_def split: option.split)
  then show ?thesis using visit_rest [OF t(1-3), of "[]" "pre t" n] t(4) by simp
qed

section \<open>The node after a prefix\<close>

text \<open>Bit strings that part come in the order of the bits in which they differ.\<close>

lemma before_part:
  assumes "before xs ys" "\<not> prefix xs ys"
  obtains zs where "prefix (zs @ [False]) xs" "prefix (zs @ [True]) ys"
proof -
  from assms obtain u v w where "xs = u @ False # v" "ys = u @ True # w"
    unfolding before_def lexord_def prefix_def by auto
  then show thesis by (intro that [of u]) (auto simp: prefix_def)
qed

lemma before_extend:
  assumes "before xs ys" "\<not> prefix xs ys" "prefix xs xs'" "prefix ys ys'"
  shows "before xs' ys'"
proof -
  obtain zs where "prefix (zs @ [False]) xs" "prefix (zs @ [True]) ys" using before_part assms(1,2) by blast
  then show ?thesis using assms(3,4) prefix_order.trans before_branch by blast
qed

definition after :: "ip_prefix \<Rightarrow> 'i entry list \<Rightarrow> 'i entry list" where
  "after p es = filter (\<lambda>e. before (pbits p) (ebits e)) es"

lemma after_Nil [simp]: "after p [] = []"
  by (simp add: after_def)

lemma after_append [simp]: "after p (xs @ ys) = after p xs @ after p ys"
  by (simp add: after_def)

lemma after_all: "(\<And>e. e \<in> set es \<Longrightarrow> before (pbits p) (ebits e)) \<Longrightarrow> after p es = es"
  by (simp add: after_def)

lemma after_none: "(\<And>e. e \<in> set es \<Longrightarrow> before (ebits e) (pbits p)) \<Longrightarrow> after p es = []"
  unfolding after_def filter_empty_conv using before_trans before_irrefl by blast

text \<open>The entries beside the place of a prefix.\<close>

lemma rpre_after:
  assumes "radix_ctx c" "prefix (bound c) (pbits p)"
  shows "after p (rpre c) = rpre c"
  using assms
proof (induction c)
  case (Cons f c)
  obtain d b q lk i u where f: "f = (d, b, q, lk, i, u)" by (cases f)
  have bq: "prefix (bound c) (pbits q)" "prefix (pbits q @ [d]) (pbits p)" using Cons.prems by (simp_all add: f)
  then have "prefix (bound c) (pbits p)" by (meson append_prefixD prefix_order.trans)
  then have IH: "after p (rpre c) = rpre c" using Cons by (simp add: f)
  have "after p (pre u) = pre u" if "\<not> d"
  proof (rule after_all)
    fix e assume "e \<in> set (pre u)"
    moreover have "radix (pbits q @ [True]) u" using Cons.prems(1) that by (simp add: f)
    ultimately have "prefix (pbits q @ [True]) (ebits e)" using radix_pre by blast
    then show "before (pbits p) (ebits e)" using before_branch bq(2) that by simp
  qed
  then show ?case using IH by (simp add: f)
qed (simp add: after_def)

text \<open>The entries after a prefix in a tree, by the place of the prefix at its root.\<close>

lemma radix_node:
  assumes "radix b (Nod a q lk i l r)"
  shows "e \<in> set (pre l) \<Longrightarrow> prefix (pbits q @ [False]) (ebits e)"
    "e \<in> set (pre r) \<Longrightarrow> prefix (pbits q @ [True]) (ebits e)"
    "e \<in> set (pre (Nod a q lk i l r)) \<Longrightarrow> prefix (pbits q) (ebits e)"
proof -
  have rl: "radix (pbits q @ [False]) l" "radix (pbits q @ [True]) r" using assms by auto
  show "e \<in> set (pre l) \<Longrightarrow> prefix (pbits q @ [False]) (ebits e)" by (rule radix_pre [OF rl(1)])
  show "e \<in> set (pre r) \<Longrightarrow> prefix (pbits q @ [True]) (ebits e)" by (rule radix_pre [OF rl(2)])
  show "e \<in> set (pre (Nod a q lk i l r)) \<Longrightarrow> prefix (pbits q) (ebits e)"
    using radix_pre [of "pbits q" "Nod a q lk i l r" e] assms by simp
qed

lemma after_same:
  assumes t: "radix b (Nod a q lk i l r)" and "pbits q = pbits p"
  shows "after p (pre (Nod a q lk i l r)) = pre l @ pre r"
proof -
  have "before (pbits p) (ebits e)" if e: "e \<in> set (pre l) \<union> set (pre r)" for e
  proof -
    obtain d where "prefix (pbits q @ [d]) (ebits e)"
      using e radix_node(1) [OF t, of e] radix_node(2) [OF t, of e] by blast
    then have "prefix (pbits p) (ebits e)" "pbits p \<noteq> ebits e"
      using assms(2) by (auto dest: append_prefixD prefix_length_le)
    then show ?thesis by (rule before_prefix)
  qed
  then have "after p (pre l @ pre r) = pre l @ pre r" by (intro after_all) auto
  then show ?thesis using assms(2) before_irrefl by (simp add: after_def)
qed

lemma after_below:
  assumes t: "radix b (Nod a q lk i l r)" and p: "prefix (pbits p) (pbits q)" "pbits q \<noteq> pbits p"
  shows "after p (pre (Nod a q lk i l r)) = pre (Nod a q lk i l r)"
proof (rule after_all)
  fix e assume "e \<in> set (pre (Nod a q lk i l r))"
  then have "prefix (pbits q) (ebits e)" by (rule radix_node [OF t])
  then have "prefix (pbits p) (ebits e)" "pbits p \<noteq> ebits e"
    using p by (auto intro: prefix_order.trans prefix_order.antisym)
  then show "before (pbits p) (ebits e)" by (rule before_prefix)
qed

lemma after_above:
  assumes t: "radix b (Nod a q lk i l r)" and p: "prefix (pbits q @ [d]) (pbits p)"
  shows "after p (pre (Nod a q lk i l r)) = (if d then after p (pre r) else after p (pre l) @ pre r)"
proof -
  have "before (pbits q) (pbits p)"
    using p by (intro before_prefix) (auto dest: append_prefixD prefix_length_le)
  then have "after p (pre (Nod a q lk i l r)) = after p (pre l) @ after p (pre r)"
    using before_trans [of "pbits p" "pbits q" "pbits p"] before_irrefl by (auto simp: after_def)
  moreover have "after p (pre l) = []" if d
  proof (rule after_none)
    fix e assume "e \<in> set (pre l)"
    then show "before (ebits e) (pbits p)"
      using before_branch [OF radix_node(1) [OF t]] p \<open>d\<close> by simp
  qed
  moreover have "after p (pre r) = pre r" if "\<not> d"
  proof (rule after_all)
    fix e assume "e \<in> set (pre r)"
    then show "before (pbits p) (ebits e)"
      using before_branch [OF _ radix_node(2) [OF t], of "pbits p"] p \<open>\<not> d\<close> by simp
  qed
  ultimately show ?thesis by simp
qed

lemma after_apart:
  assumes t: "radix b (Nod a q lk i l r)" and p: "\<not> prefix (pbits q) (pbits p)" "\<not> prefix (pbits p) (pbits q)"
  shows "after p (pre (Nod a q lk i l r)) = (if before (pbits q) (pbits p) then [] else pre (Nod a q lk i l r))"
proof (cases "before (pbits q) (pbits p)")
  case True
  have "after p (pre (Nod a q lk i l r)) = []"
  proof (rule after_none)
    fix e assume "e \<in> set (pre (Nod a q lk i l r))"
    from before_extend [OF True p(1) radix_node(3) [OF t this] prefix_order.refl]
    show "before (ebits e) (pbits p)" .
  qed
  with True show ?thesis by simp
next
  case False
  then have pq: "before (pbits p) (pbits q)" using before_total [of "pbits p" "pbits q"] p(1) by (metis prefix_order.refl)
  have "after p (pre (Nod a q lk i l r)) = pre (Nod a q lk i l r)"
  proof (rule after_all)
    fix e assume "e \<in> set (pre (Nod a q lk i l r))"
    from before_extend [OF pq p(2) prefix_order.refl radix_node(3) [OF t this]]
    show "before (pbits p) (ebits e)" .
  qed
  with False show ?thesis by simp
qed

text \<open>One step of the search, in each of these cases.\<close>

lemma subtree_next:
  assumes "rep s (plug c (Nod a q lk i l r))"
  shows "route_get_subtree_next s a = Some (head_addr (rpre c))"
  unfolding route_get_subtree_next_def
  by (rule up_walk_next [of _ "rt_top s"]) (use assms node_at_frame [OF assms] in \<open>auto simp: rep_plug\<close>)

lemma nested_iff:
  "(if prefixlen q < prefixlen p then prefix_match q p else prefix_match p q) \<longleftrightarrow>
    prefix (pbits q) (pbits p) \<or> prefix (pbits p) (pbits q)"
  by (auto simp: prefix_match_iff prefix_pbits word_less_nat_alt)

lemma unlock_locked:
  assumes t: "rep s t" "forks t" "no_overflow s" "x \<in> fst ` set (pre t)"
  shows "route_unlock_node x (route_lock_node x s) = Some s"
proof -
  obtain q lk i where "(x, q, lk, i) \<in> set (pre t)" using t(4) by auto
  from entry_split [OF this] obtain c l r where c: "t = plug c (Nod x q lk i l r)" by blast
  note n = entry_node [OF t(1,2) c]
  have "lk + 1 \<noteq> 0" using t(3) n(1) by (auto simp: no_overflow_def node_at_def dom_def)
  then show ?thesis using unlock_other [OF n(1), of None] n(2) by (simp add: locked_at_def)
qed

lemma next_at_same:
  assumes t: "rep s (plug c (Nod a q lk i l r))" "forks (plug c (Nod a q lk i l r))" "no_overflow s"
    and same: "pbits q = pbits p"
  shows "next_internal p (Some a) s = Some (head_addr (pre l @ pre r @ rpre c), s)"
proof -
  let ?h = "head_addr (pre l @ pre r @ rpre c)"
  have len: "prefixlen q = prefixlen p" using same by (metis length_pbits word_unat_eq_iff)
  have nx: "route_next a (route_lock_node a s) = Some (?h, locked_at ?h s)"
    using route_next_moves [OF t refl] by (simp add: Let_def)
  have un: "route_unlock_node x (route_lock_node x s) = Some s" if "?h = Some x" for x
  proof (rule unlock_locked [OF t])
    show "x \<in> fst ` set (pre (plug c (Nod a q lk i l r)))"
      using that by (cases "pre l @ pre r @ rpre c") (auto simp: pre_plug image_iff)
  qed
  have "next_internal p (Some a) s = (case route_next a (route_lock_node a s) of
      None \<Rightarrow> None | Some (None, s) \<Rightarrow> Some (None, s)
    | Some (Some b, s) \<Rightarrow> map_option (Pair (Some b)) (route_unlock_node b s))"
    using next_internal.simps [of p "Some a" s] same len
    unfolding option.case Let_def node_at_frame [OF t(1)] cell_sel nested_iff by simp
  also have "\<dots> = Some (?h, s)" unfolding nx using un by (cases ?h) (simp_all add: locked_at_def)
  finally show ?thesis .
qed

lemma next_at_below:
  assumes t: "rep s (plug c (Nod a q lk i l r))" and p: "prefix (pbits p) (pbits q)" "pbits q \<noteq> pbits p"
  shows "next_internal p (Some a) s = Some (Some a, s)"
proof -
  have "prefixlen p \<noteq> prefixlen q" using p same_bits by metis
  then have "prefixlen p < prefixlen q" "prefixlen q \<noteq> prefixlen p"
    using p(1) by (auto simp: prefix_pbits word_less_nat_alt word_unat_eq_iff)
  then show ?thesis
    using next_internal.simps [of p "Some a" s] p
    unfolding option.case Let_def node_at_frame [OF t(1)] cell_sel nested_iff by simp
qed

lemma next_at_above:
  assumes t: "rep s (plug c (Nod a q lk i l r))" and p: "prefix (pbits q @ [d]) (pbits p)"
    and u: "u = (if d then r else l)"
  shows "next_internal p (Some a) s = (case root u of Some b \<Rightarrow> next_internal p (Some b) s
    | None \<Rightarrow> if root r \<noteq> None then Some (root r, s) else Some (head_addr (rpre c), s))"
proof -
  have q: "prefix (pbits q) (pbits p)" using p by (rule append_prefixD)
  have "plen q < plen p" using prefix_length_le [OF p] by simp
  then have len: "prefixlen q \<noteq> prefixlen p" "\<not> prefixlen p < prefixlen q"
    by (auto simp: word_less_nat_alt)
  have "pbits p ! plen q = d" using p nth_append_length [of "pbits q" d] by (auto simp: prefix_def)
  then have "pbit (pbytes p) (plen q) = d" using \<open>plen q < plen p\<close> by (simp add: pbits_def)
  then have lk: "link (cell q (up c) (root l) (root r) lk i) (prefix_bit (pbytes p) (plen q)) = root u"
    by (simp add: link_def prefix_bit_pbit u)
  show ?thesis
    using next_internal.simps [of p "Some a" s] q len
    unfolding option.case Let_def node_at_frame [OF t(1)] cell_sel nested_iff lk subtree_next [OF t]
    by (simp split: option.split)
qed

lemma next_at_apart:
  assumes t: "rep s (plug c (Nod a q lk i l r))" and p: "\<not> prefix (pbits q) (pbits p)" "\<not> prefix (pbits p) (pbits q)"
  shows "next_internal p (Some a) s = Some (if before (pbits q) (pbits p) then head_addr (rpre c) else Some a, s)"
proof -
  have cmp: "route_table_prefix_iter_cmp q p = Some (if before (pbits q) (pbits p) then - 1 else 1)"
    using iter_cmp_is_order [of q p] p by auto
  show ?thesis
    using next_internal.simps [of p "Some a" s] p
    unfolding option.case Let_def node_at_frame [OF t(1)] cell_sel nested_iff subtree_next [OF t] cmp by simp
qed

lemma next_internal_finds:
  assumes t: "rep s (plug c t)" "forks (plug c t)" "radix [] (plug c t)" "no_overflow s"
    and b: "prefix (bound c) (pbits p)" and ne: "t \<noteq> Tip"
  shows "next_internal p (root t) s = Some (head_addr (after p (pre t) @ rpre c), s)"
  using t b ne
proof (induction t arbitrary: c)
  case Tip
  then show ?case by simp
next
  case (Nod a q lk i l r)
  have rx: "radix (bound c) (Nod a q lk i l r)" using Nod.prems(3) by (simp add: radix_plug)
  consider (same) "pbits q = pbits p" | (below) "prefix (pbits p) (pbits q)" "pbits q \<noteq> pbits p"
    | (above) "prefix (pbits q) (pbits p)" "pbits q \<noteq> pbits p"
    | (apart) "\<not> prefix (pbits q) (pbits p)" "\<not> prefix (pbits p) (pbits q)" by blast
  then show ?case
  proof cases
    case same
    show ?thesis
      using next_at_same [OF Nod.prems(1,2,4) same] unfolding after_same [OF rx same] root.simps by simp
  next
    case below
    show ?thesis
      unfolding after_below [OF rx below] root.simps next_at_below [OF Nod.prems(1) below] by simp
  next
    case above
    then have len: "prefixlen q \<noteq> prefixlen p" by (auto dest: same_bits)
    define d where "d = pbit (pbytes p) (plen q)"
    have pd: "prefix (pbits q @ [d]) (pbits p)" unfolding d_def by (rule prefix_step [OF above(1) len])
    define u where "u = (if d then r else l)"
    note go = next_at_above [OF Nod.prems(1) pd u_def] and rest = after_above [OF rx pd]
    show ?thesis
    proof (cases "u = Tip")
      case True
      then show ?thesis
        unfolding root.simps go rest by (cases d; cases "r = Tip") (auto simp: head_addr_append u_def)
    next
      case False
      let ?f = "(d, a, q, lk, i, if d then l else r)"
      have same: "plug (?f # c) u = plug c (Nod a q lk i l r)" by (simp add: u_def)
      have bd: "prefix (bound (?f # c)) (pbits p)" using pd by simp
      have "next_internal p (root u) s = Some (head_addr (after p (pre u) @ rpre (?f # c)), s)"
      proof (cases d)
        case True
        show ?thesis using Nod.IH(2) [of "?f # c"] Nod.prems(1-4) bd False True same by (simp add: u_def)
      next
        case F: False
        show ?thesis using Nod.IH(1) [of "?f # c"] Nod.prems(1-4) bd False F same by (simp add: u_def)
      qed
      moreover have "after p (pre u) @ rpre (?f # c) = after p (pre (Nod a q lk i l r)) @ rpre c"
        unfolding rest by (cases d) (simp_all add: u_def)
      moreover obtain x where x: "root u = Some x" using False by (cases u) auto
      ultimately show ?thesis unfolding root.simps go x by (simp only: option.case)
    qed
  next
    case apart
    show ?thesis
      unfolding after_apart [OF rx apart] root.simps next_at_apart [OF Nod.prems(1) apart] by simp
  qed
qed

section \<open>Properties\<close>

abbreviation node_bits :: "'i route_table \<Rightarrow> nat \<Rightarrow> bool list" where
  "node_bits s a \<equiv> pbits (np (node_at s a))"

lemma entry_bits:
  assumes "rep s t" "e \<in> set (pre t)"
  shows "node_bits s (fst e) = ebits e"
proof -
  obtain a q lk i where e: "e = (a, q, lk, i)" by (cases e)
  obtain c l r where "t = plug c (Nod a q lk i l r)" using entry_split assms(2) unfolding e by blast
  then show ?thesis using node_at_frame assms(1) e by fastforce
qed

lemma rep_dom: "rep s t \<Longrightarrow> dom (nodes s) = fst ` set (pre t)"
  by (simp add: rep_def map_fst_pre [symmetric])

text \<open>
  C32: iterating over a table with \<open>route_top\<close> and \<open>route_next\<close> visits every node exactly once,
  in the order of the network bits, ends after as many steps as there are nodes, and leaves
  the table as it was: every lock that was taken on the way has been given back.
\<close>

theorem iteration_visits_all:
  assumes "table_map s m" "no_overflow s" "card (dom (nodes s)) \<le> n"
  shows "\<exists>as. (case route_top s of (r, s') \<Rightarrow> route_visit n r s') = Some (as, s) \<and>
    distinct as \<and> set as = dom (nodes s) \<and> sorted_wrt (\<lambda>a b. before (node_bits s a) (node_bits s b)) as"
proof -
  obtain t where t: "rep s t" "radix [] t" "forks t" using assms(1) by (auto simp: table_map_def)
  have d: "distinct (addrs t)" "dom (nodes s) = set (addrs t)" using t(1) by (simp_all add: rep_def)
  then have "length (pre t) \<le> n" using assms(3) by (simp add: length_pre distinct_card)
  then have "(case route_top s of (r, s') \<Rightarrow> route_visit n r s') = Some (addrs t, s)"
    using visit_all [OF t(1,3) assms(2)] by (simp add: map_fst_pre)
  moreover have "sorted_wrt (\<lambda>a b. before (node_bits s a) (node_bits s b)) (map fst (pre t))"
    unfolding sorted_wrt_map using radix_sorted [OF t(2)] entry_bits [OF t(1)]
    by (auto intro: sorted_wrt_mono_rel [rotated])
  ultimately show ?thesis using d by (auto simp: map_fst_pre)
qed

lemma two_nets_locks: "no_overflow two_nets"
  by (auto simp: no_overflow_def two_nets_def node_at_def)

theorem iteration_visits_all_witness:
  "\<exists>as. (case route_top two_nets of (r, s') \<Rightarrow> route_visit 2 r s') = Some (as, two_nets) \<and> set as = {0, 1}"
proof -
  have d: "dom (nodes two_nets) = {0, 1}" by (auto simp: two_nets_def)
  then have "card (dom (nodes two_nets)) \<le> 2" by simp
  from iteration_visits_all [OF two_nets_map two_nets_locks this] show ?thesis unfolding d by blast
qed

lemma get_next_finds:
  assumes t: "rep s t" "forks t" "radix [] t" "no_overflow s"
  shows "route_table_get_next p s = (let r = head_addr (after p (pre t)) in Some (r, locked_at r s))"
proof (cases "t = Tip")
  case True
  then show ?thesis using t(1) by (simp add: route_table_get_next_def rep_def next_internal.simps locked_at_def)
next
  case False
  let ?r = "head_addr (after p (pre t))"
  have n: "next_internal p (rt_top s) s = Some (?r, s)"
    using next_internal_finds [of s "[]" t p] t False by (simp add: rep_def)
  show ?thesis
  proof (cases "after p (pre t)")
    case Nil
    then show ?thesis using n by (simp add: route_table_get_next_def locked_at_def)
  next
    case (Cons e es)
    then have e: "e \<in> set (pre t)" "before (pbits p) (ebits e)" by (auto simp: after_def filter_eq_Cons_iff)
    have "pbits p \<noteq> ebits e" "\<not> before (ebits e) (pbits p)"
      using e(2) before_irrefl before_trans [of "pbits p" "ebits e" "pbits p"] by auto
    then have "route_table_prefix_iter_cmp (np (node_at s (fst e))) p = Some 1"
      unfolding iter_cmp_is_order entry_bits [OF t(1) e(1)] by simp
    then show ?thesis using n Cons by (simp add: route_table_get_next_def locked_at_def)
  qed
qed

text \<open>
  C33: \<open>route_table_get_next\<close> finds, for any prefix, whether it is in the table or not, the first
  node after it in the order of an iteration and locks it; no assertion fails and nothing
  else in the table changes.
\<close>

theorem get_next_is_successor:
  assumes "table_map s m" "no_overflow s"
  shows "\<exists>r. route_table_get_next p s = Some (r, locked_at r s) \<and> (case r of
      None \<Rightarrow> \<forall>a \<in> dom (nodes s). \<not> before (pbits p) (node_bits s a)
    | Some b \<Rightarrow> b \<in> dom (nodes s) \<and> before (pbits p) (node_bits s b) \<and>
        (\<forall>a \<in> dom (nodes s). before (pbits p) (node_bits s a) \<longrightarrow> a = b \<or> before (node_bits s b) (node_bits s a)))"
proof -
  obtain t where t: "rep s t" "radix [] t" "forks t" using assms(1) by (auto simp: table_map_def)
  let ?es = "after p (pre t)"
  have n: "route_table_get_next p s = Some (head_addr ?es, locked_at (head_addr ?es) s)"
    using get_next_finds [OF t(1,3,2) assms(2)] by (simp add: Let_def)
  have o: "in_order ?es" unfolding after_def by (intro sorted_wrt_filter radix_sorted [OF t(2)])
  have mem: "e \<in> set ?es \<longleftrightarrow> e \<in> set (pre t) \<and> before (pbits p) (ebits e)" for e
    by (auto simp: after_def)
  note b = entry_bits [OF t(1)] and d = rep_dom [OF t(1)]
  show ?thesis
  proof (cases ?es)
    case Nil
    then have "\<forall>a \<in> dom (nodes s). \<not> before (pbits p) (node_bits s a)"
      unfolding d using mem b by auto
    then show ?thesis using n unfolding Nil by simp
  next
    case (Cons e es)
    then have "e \<in> set ?es" by simp
    then have e: "e \<in> set (pre t)" "before (pbits p) (ebits e)" unfolding mem by blast+
    have "a = fst e \<or> before (node_bits s (fst e)) (node_bits s a)"
      if a: "a \<in> dom (nodes s)" "before (pbits p) (node_bits s a)" for a
    proof -
      obtain f where f: "f \<in> set (pre t)" "a = fst f" using a(1) unfolding d by blast
      then have "f \<in> set ?es" using mem a(2) b by simp
      then show ?thesis using o e f b unfolding Cons by auto
    qed
    then show ?thesis using n e b d unfolding Cons by auto
  qed
qed

theorem get_next_is_successor_witness:
  "\<exists>r. route_table_get_next (v4 10 0 8) two_nets = Some (r, locked_at r two_nets) \<and> r \<noteq> None"
proof -
  have b: "node_bits two_nets 0 = bits8" "node_bits two_nets 1 = bits16"
    by (simp_all add: two_nets_def node_at_def)
  have "before bits8 bits16"
    using two_nets_bits(1,2) by (intro before_prefix) (auto dest: append_prefixD)
  moreover have "1 \<in> dom (nodes two_nets)" by (simp add: two_nets_def)
  ultimately have some: "\<not> (\<forall>a \<in> dom (nodes two_nets). \<not> before bits8 (node_bits two_nets a))" using b(2) by metis
  obtain r where r: "route_table_get_next (v4 10 0 8) two_nets = Some (r, locked_at r two_nets)"
    and c: "case r of None \<Rightarrow> \<forall>a \<in> dom (nodes two_nets). \<not> before bits8 (node_bits two_nets a) | Some b \<Rightarrow> True"
    using get_next_is_successor [OF two_nets_map two_nets_locks, of "v4 10 0 8"] by (auto split: option.splits)
  have "r \<noteq> None" using c some by (cases r) simp_all
  with r show ?thesis by blast
qed

lemma copy_bits:
  assumes "pfx_ok p" "length (pbytes d) = 16"
  shows "\<exists>c. prefix_copy d p = Some c \<and> pbits c = pbits p"
proof -
  have w: "pbit (take k (pbytes p) @ x) j = pbit (pbytes p) j" if "j < plen p" "plen p \<le> 8 * k" "k \<le> 16" for j k x
  proof -
    have "j div 8 < k" using that by linarith
    then show ?thesis using that assms(1) by (simp add: pbit_def pfx_ok_def nth_append)
  qed
  show ?thesis
    using assms w [of _ 4 "drop 4 (pbytes d)"] w [of _ 16 "[]"]
    by (auto simp: prefix_copy_def pfx_ok_def Let_def pbits_def)
qed

text \<open>
  C34: pausing an iteration and resuming it in an unchanged table goes on exactly where the
  iteration would have gone without the pause: the pause gives the lock of the current node
  back, and the next step ends at the same node with the same locks.
\<close>

theorem pause_resume_same:
  assumes "table_map s m" "no_overflow s" "a \<in> dom (nodes s)"
    and "it_state it = RT_ITER_STATE_ITERATING" "it_current it = Some a" "length (pbytes (pause_prefix it)) = 16"
  shows "\<exists>it1 it2 it3 r s'. route_table_iter_pause it (route_lock_node a s) = Some (it1, s) \<and>
    it_state it1 = RT_ITER_STATE_PAUSED \<and> it_current it1 = None \<and>
    route_table_iter_next it1 s = Some (r, it2, s') \<and>
    route_table_iter_next it (route_lock_node a s) = Some (r, it3, s') \<and>
    it_state it2 = it_state it3 \<and> it_current it2 = r \<and> it_current it3 = r"
proof -
  obtain t where t: "rep s t" "radix [] t" "forks t" using assms(1) by (auto simp: table_map_def)
  obtain q lk i where "(a, q, lk, i) \<in> set (pre t)" using assms(3) unfolding rep_dom [OF t(1)] by auto
  from entry_split [OF this] obtain c l r where c: "t = plug c (Nod a q lk i l r)" by blast
  let ?s = "route_lock_node a s" and ?h = "head_addr (pre l @ pre r @ rpre c)"
  have na: "np (node_at ?s a) = q" "pfx_ok q"
    using t(2) entry_node(1) [OF t(1,3) c]
    by (simp_all add: c radix_plug route_lock_node_def set_node_def node_at_def)
  obtain q' where q': "prefix_copy (pause_prefix it) q = Some q'" "pbits q' = pbits q"
    using copy_bits [OF na(2) assms(6)] by blast
  have un: "route_unlock_node a ?s = Some s"
    using unlock_locked [OF t(1,3) assms(2)] assms(3) unfolding rep_dom [OF t(1)] by blast
  have nx: "route_next a ?s = Some (?h, locked_at ?h s)"
    using route_next_moves [OF t(1,3) assms(2) c] by (simp add: Let_def)
  have o: "in_order (lpre c @ (a, q, lk, i) # pre l @ pre r @ rpre c)"
    using radix_sorted [OF t(2)] by (simp add: c pre_plug)
  have "after q' (lpre c) = []" by (rule after_none) (use o q'(2) in \<open>auto simp: sorted_wrt_append\<close>)
  moreover have "after q' (pre l @ pre r @ rpre c) = pre l @ pre r @ rpre c"
    by (rule after_all) (use o q'(2) in \<open>auto simp: sorted_wrt_append\<close>)
  moreover have "after q' ((a, q, lk, i) # pre l @ pre r @ rpre c) = after q' (pre l @ pre r @ rpre c)"
    using q'(2) before_irrefl by (simp add: after_def)
  ultimately have "after q' (pre t) = pre l @ pre r @ rpre c"
    unfolding c pre_plug pre.simps after_append append_Cons append_assoc by simp
  then have gn: "route_table_get_next q' s = Some (?h, locked_at ?h s)"
    using get_next_finds [OF t(1,3,2) assms(2), of q'] by (simp add: Let_def)
  show ?thesis
    unfolding route_table_iter_pause_def route_table_iter_next_def using assms(4,5) na(1) q'(1) un nx gn
    by (simp add: Let_def)
qed

theorem pause_resume_same_witness:
  "\<exists>it1 it2 r s'. route_table_iter_pause (route_table_iter_init\<lparr>it_state := RT_ITER_STATE_ITERATING, it_current := Some 0\<rparr>)
      (route_lock_node 0 two_nets) = Some (it1, two_nets) \<and> it_state it1 = RT_ITER_STATE_PAUSED \<and>
    route_table_iter_next it1 two_nets = Some (r, it2, s')"
  using pause_resume_same [OF two_nets_map two_nets_locks, of 0
      "route_table_iter_init\<lparr>it_state := RT_ITER_STATE_ITERATING, it_current := Some 0\<rparr>"]
  by (auto simp: route_table_iter_init_def zero_prefix_def two_nets_def)

section \<open>Freeing a table\<close>

lemma free_leaf:
  assumes r: "rep s (plug (f # c) (Nod a q lk i Tip Tip))" and f: "f = (d, b, q', lk', i', u)"
  shows "\<exists>s'. rep s' (plug (f # c) Tip) \<and> free_walk (Some a) s = free_walk (Some b) s'"
proof -
  have ab: "a \<noteq> b" using r by (cases d) (auto simp: rep_plug f)
  let ?s = "cut_out a (Some b) None s"
  have "rep ?s (plug (f # c) Tip)" using cut_out_rep [OF r] by (simp add: f)
  moreover have "?s = set_node b (\<lambda>m. if l_left m = Some a then m\<lparr>l_left := None\<rparr> else m\<lparr>l_right := None\<rparr>)
      (route_node_free a (s\<lparr>rt_count := rt_count s - 1\<rparr>))"
    using ab by (simp add: cut_out_def set_node_def route_node_free_def node_at_def fun_upd_twist Let_def)
  ultimately show ?thesis
    using free_walk.simps [of "Some a" s]
    unfolding option.case Let_def node_at_frame [OF r] cell_sel by (auto simp: f)
qed

lemma free_child:
  assumes IH: "\<And>a q lk i l r. u = Nod a q lk i l r \<Longrightarrow>
      \<exists>s'. rep s' (plug (f # c) (Nod a q lk i Tip Tip)) \<and> free_walk (Some a) s = free_walk (Some a) s'"
    and u: "u \<noteq> Tip" and f: "f = (d, b, q', lk', i', w)"
  shows "\<exists>s'. rep s' (plug (f # c) Tip) \<and> free_walk (root u) s = free_walk (Some b) s'"
proof -
  obtain a q lk i l r where n: "u = Nod a q lk i l r" using u by (cases u) auto
  obtain s1 where s1: "rep s1 (plug (f # c) (Nod a q lk i Tip Tip))" "free_walk (Some a) s = free_walk (Some a) s1"
    using IH [OF n] by blast
  from free_leaf [OF s1(1) f] s1(2) show ?thesis by (simp add: n)
qed

lemma free_children:
  assumes "rep s (plug c t)" "t = Nod a q lk i l r"
  shows "\<exists>s'. rep s' (plug c (Nod a q lk i Tip Tip)) \<and> free_walk (Some a) s = free_walk (Some a) s'"
  using assms
proof (induction t arbitrary: s c a q lk i l r)
  case Tip
  then show ?case by simp
next
  case (Nod a' q'' lk'' i'' l' r')
  then have eq: "a' = a" "q'' = q" "lk'' = lk" "i'' = i" "l' = l" "r' = r" by simp_all
  note IH = Nod.IH [unfolded eq]
  have r0: "rep s (plug c (Nod a q lk i l r))" using Nod.prems by simp
  have "\<exists>s1. rep s1 (plug c (Nod a q lk i Tip r)) \<and> free_walk (Some a) s = free_walk (Some a) s1"
  proof (cases "l = Tip")
    case True
    then show ?thesis using r0 by blast
  next
    case False
    let ?f = "(False, a, q, lk, i, r)"
    have r1: "rep s (plug (?f # c) l)" using r0 by simp
    have "free_walk (Some a) s = free_walk (root l) s"
      using free_walk.simps [of "Some a" s] False
      unfolding option.case Let_def node_at_frame [OF r0] cell_sel by (cases l) simp_all
    then show ?thesis using free_child [of l ?f c s, OF IH(1) [OF r1] False refl] by simp
  qed
  then obtain s1 where s1: "rep s1 (plug c (Nod a q lk i Tip r))" "free_walk (Some a) s = free_walk (Some a) s1" by blast
  show ?case
  proof (cases "r = Tip")
    case True
    then show ?thesis using s1 by blast
  next
    case False
    let ?f = "(True, a, q, lk, i, Tip)"
    have r1: "rep s1 (plug (?f # c) r)" using s1(1) by simp
    have "free_walk (Some a) s1 = free_walk (root r) s1"
      using free_walk.simps [of "Some a" s1] False
      unfolding option.case Let_def node_at_frame [OF s1(1)] cell_sel by (cases r) simp_all
    then show ?thesis using free_child [of r ?f c s1, OF IH(2) [OF r1] False refl] s1(2) by simp
  qed
qed

text \<open>
  C35: \<open>route_table_free\<close> ends, leaves no node of the table allocated, whatever locks
  and information they still carry, and its final assertion on the counter holds.
\<close>

theorem table_free_complete:
  assumes "table_map s m"
  shows "\<exists>s'. free_walk (rt_top s) s = Some s' \<and> nodes s' = Map.empty \<and> route_table_free s = Some ()"
proof -
  obtain t where t: "rep s t" using assms by (auto simp: table_map_def)
  have "\<exists>s'. free_walk (rt_top s) s = Some s' \<and> nodes s' = Map.empty \<and> rt_count s' = 0"
  proof (cases t)
    case Tip
    then show ?thesis using t by (simp add: rep_def free_walk.simps)
  next
    case (Nod a q lk i l r)
    obtain s1 where s1: "rep s1 (plug [] (Nod a q lk i Tip Tip))" "free_walk (Some a) s = free_walk (Some a) s1"
      using free_children [of s "[]" t] t Nod by auto
    have "free_walk (Some a) s1 = Some (route_node_free a (s1\<lparr>rt_count := rt_count s1 - 1\<rparr>))"
      using free_walk.simps [of "Some a" s1]
      unfolding option.case Let_def node_at_frame [OF s1(1)] cell_sel by simp
    moreover have "(nodes s1)(a := None) = Map.empty" "rt_count s1 = 1"
      using s1(1) by (auto simp: rep_def fun_eq_iff dom_def)
    ultimately show ?thesis using s1(2) t Nod by (auto simp: rep_def route_node_free_def)
  qed
  then show ?thesis by (auto simp: route_table_free_def)
qed

theorem table_free_complete_witness: "route_table_free two_nets = Some ()"
  using table_free_complete [OF two_nets_map] by blast

end
