(* ===== verification/Stream.thy ===== *)
theory Stream
  imports Prefix
begin

text \<open>
  The byte buffers in which the routing daemons build and read their messages, \<open>lib/stream.c\<close>
  and \<open>lib/stream.h\<close>.  Positions are of type \<open>size_t\<close> and wrap around; the bytes of \<open>data\<close> are a
  list.  \<open>None\<close> is a failed assertion (every bound warning ends in one) or an access outside the
  buffer.  An IPv4 address is the list of its four bytes in memory.  What \<open>read\<close> and its
  relatives answer is given with the call.
\<close>

section \<open>Data\<close>

type_synonym size_t = "64 word"

record stream =
  snext :: nat
  putp :: size_t
  getp :: size_t
  endp :: size_t
  ssize :: size_t
  sdata :: "u8 list"

definition GETP_VALID :: "stream \<Rightarrow> size_t \<Rightarrow> bool" where "GETP_VALID s g \<longleftrightarrow> g \<le> endp s"
definition PUT_AT_VALID :: "stream \<Rightarrow> size_t \<Rightarrow> bool" where "PUT_AT_VALID s g \<longleftrightarrow> GETP_VALID s g"
definition ENDP_VALID :: "stream \<Rightarrow> size_t \<Rightarrow> bool" where "ENDP_VALID s e \<longleftrightarrow> e \<le> ssize s"

definition STREAM_SANE :: "stream \<Rightarrow> bool" where
  "STREAM_SANE s \<longleftrightarrow> GETP_VALID s (getp s) \<and> ENDP_VALID s (endp s)"

definition STREAM_WRITEABLE :: "stream \<Rightarrow> size_t" where "STREAM_WRITEABLE s = ssize s - endp s"
definition STREAM_READABLE :: "stream \<Rightarrow> size_t" where "STREAM_READABLE s = endp s - getp s"

definition CHECK_SIZE :: "stream \<Rightarrow> size_t \<Rightarrow> size_t" where
  "CHECK_SIZE s z = (if endp s + z > ssize s then ssize s - endp s else z)"

text \<open>
  The checks compute with \<open>size_t\<close>, so an offset near its end passes them; the access itself is
  inside the buffer only if this holds.
\<close>

definition IN_DATA :: "stream \<Rightarrow> size_t \<Rightarrow> nat \<Rightarrow> bool" where
  "IN_DATA s i n \<longleftrightarrow> unat i + n \<le> length (sdata s)"

text \<open>One byte, and several bytes from an address on (the loop of \<open>memcpy\<close>).\<close>

definition byte_at :: "stream \<Rightarrow> size_t \<Rightarrow> u8" where
  "byte_at s i = sdata s ! unat i"

fun store :: "size_t \<Rightarrow> u8 list \<Rightarrow> stream \<Rightarrow> stream" where
  "store i [] s = s"
| "store i (b # bs) s = store (i + 1) bs (s\<lparr>sdata := (sdata s)[unat i := b]\<rparr>)"

text \<open>\<open>s->data[s->endp++] = b\<close> and \<open>s->data[s->getp++]\<close>, repeated.\<close>

fun put_bytes :: "u8 list \<Rightarrow> stream \<Rightarrow> stream" where
  "put_bytes [] s = s"
| "put_bytes (b # bs) s = put_bytes bs (s\<lparr>sdata := (sdata s)[unat (endp s) := b], endp := endp s + 1\<rparr>)"

fun get_bytes :: "nat \<Rightarrow> stream \<Rightarrow> u8 list \<times> stream" where
  "get_bytes 0 s = ([], s)"
| "get_bytes (Suc n) s = (case get_bytes n (s\<lparr>getp := getp s + 1\<rparr>) of (bs, z) \<Rightarrow> (byte_at s (getp s) # bs, z))"

fun bytes_from :: "nat \<Rightarrow> size_t \<Rightarrow> stream \<Rightarrow> u8 list" where
  "bytes_from 0 i s = []"
| "bytes_from (Suc n) i s = byte_at s i # bytes_from n (i + 1) s"

section \<open>Life of a stream\<close>

text \<open>
  The result \<open>Some None\<close> is NULL.  \<open>XMALLOC\<close> returns memory or ends the process, so the loop around
  it makes one round; its argument is an \<open>int\<close>, and a size that is none would be cut off.
\<close>

definition alloc_fits :: "size_t \<Rightarrow> bool" where "alloc_fits sz \<longleftrightarrow> unat sz < 2 ^ 31"

definition stream_new :: "size_t \<Rightarrow> stream option option" where
  "stream_new sz =
     (if sz = 0 then Some None
      else if \<not> alloc_fits sz then None
      else Some (Some \<lparr>snext = 0, putp = 0, getp = 0, endp = 0, ssize = sz, sdata = replicate (unat sz) 0\<rparr>))"

definition stream_copy :: "stream \<Rightarrow> stream \<Rightarrow> stream option" where
  "stream_copy new src =
     (if \<not> STREAM_SANE src \<or> \<not> ssize new \<ge> endp src then None
      else Some (store 0 (bytes_from (unat (endp src)) 0 src) (new\<lparr>endp := endp src, getp := getp src\<rparr>)))"

definition stream_dup :: "stream \<Rightarrow> stream option option" where
  "stream_dup s =
     (if \<not> STREAM_SANE s then None
      else case stream_new (endp s) of
        None \<Rightarrow> None
      | Some None \<Rightarrow> Some None
      | Some (Some new) \<Rightarrow> map_option Some (stream_copy new s))"

text \<open>An offset behind the data of \<open>s1\<close> makes the third copy run over its buffer.\<close>

definition stream_dupcat_offset :: "stream \<Rightarrow> stream \<Rightarrow> size_t \<Rightarrow> stream option option" where
  "stream_dupcat_offset s1 s2 offset =
     (if \<not> STREAM_SANE s1 \<or> \<not> STREAM_SANE s2 then None
      else case stream_new (endp s1 + endp s2) of
        None \<Rightarrow> None
      | Some None \<Rightarrow> Some None
      | Some (Some new) \<Rightarrow>
          if offset > endp s1 \<or> ssize new < endp s1 then None
          else
            let new = store 0 (bytes_from (unat offset) 0 s1) new;
                new = store offset (bytes_from (unat (endp s2)) 0 s2) new;
                new = store (offset + endp s2) (bytes_from (unat (endp s1 - offset)) offset s1) new
            in Some (Some (new\<lparr>endp := endp s1 + endp s2\<rparr>)))"

definition stream_dupcat :: "stream \<Rightarrow> stream \<Rightarrow> stream option option" where
  "stream_dupcat s1 s2 =
     (if \<not> STREAM_SANE s1 \<or> \<not> STREAM_SANE s2 then None
      else case stream_new (endp s1 + endp s2) of
        None \<Rightarrow> None
      | Some None \<Rightarrow> Some None
      | Some (Some new) \<Rightarrow>
          if ssize new < endp s1 then None
          else
            let new = store 0 (bytes_from (unat (endp s1)) 0 s1) new;
                new = store (endp s1) (bytes_from (unat (endp s2)) 0 s2) new
            in Some (Some (new\<lparr>endp := endp s1 + endp s2\<rparr>)))"

text \<open>
  \<open>junk\<close> is what lies in memory that \<open>XREALLOC\<close> adds.  To give all memory back with it ends the
  process, as does a size it cannot be told.
\<close>

definition stream_resize :: "u8 list \<Rightarrow> stream \<Rightarrow> size_t \<Rightarrow> (size_t \<times> stream) option" where
  "stream_resize junk s newsize =
     (if \<not> STREAM_SANE s \<or> newsize = 0 \<or> \<not> alloc_fits newsize then None
      else
        let s = s\<lparr>sdata := take (unat newsize) (sdata s @ junk), ssize := newsize\<rparr>;
            s = (if endp s > ssize s then s\<lparr>endp := ssize s\<rparr> else s);
            s = (if getp s > endp s then s\<lparr>getp := endp s\<rparr> else s)
        in if \<not> STREAM_SANE s then None else Some (ssize s, s))"

definition stream_reset :: "stream \<Rightarrow> stream option" where
  "stream_reset s = (if \<not> STREAM_SANE s then None else Some (s\<lparr>getp := 0, endp := 0\<rparr>))"

section \<open>Positions\<close>

definition stream_get_putp :: "stream \<Rightarrow> size_t" where "stream_get_putp s = putp s"

definition stream_set_putp :: "stream \<Rightarrow> size_t \<Rightarrow> stream" where "stream_set_putp s pos = s\<lparr>putp := pos\<rparr>"

definition stream_forward :: "stream \<Rightarrow> 32 word \<Rightarrow> stream" where
  "stream_forward s sz = s\<lparr>getp := getp s + scast sz\<rparr>"

definition stream_get_getp :: "stream \<Rightarrow> size_t option" where
  "stream_get_getp s = (if \<not> STREAM_SANE s then None else Some (getp s))"

definition stream_get_endp :: "stream \<Rightarrow> size_t option" where
  "stream_get_endp s = (if \<not> STREAM_SANE s then None else Some (endp s))"

definition stream_get_size :: "stream \<Rightarrow> size_t option" where
  "stream_get_size s = (if \<not> STREAM_SANE s then None else Some (ssize s))"

definition stream_set_getp :: "stream \<Rightarrow> size_t \<Rightarrow> stream option" where
  "stream_set_getp s pos =
     (if \<not> STREAM_SANE s then None else if \<not> GETP_VALID s pos then None else Some (s\<lparr>getp := pos\<rparr>))"

definition stream_set_endp :: "stream \<Rightarrow> size_t \<Rightarrow> stream option" where
  "stream_set_endp s pos =
     (if \<not> STREAM_SANE s then None
      else if \<not> ENDP_VALID s pos then None
      else if getp s > pos then None
      else let s = s\<lparr>endp := pos\<rparr> in if \<not> STREAM_SANE s then None else Some s)"

definition stream_forward_getp :: "stream \<Rightarrow> size_t \<Rightarrow> stream option" where
  "stream_forward_getp s sz =
     (if \<not> STREAM_SANE s then None
      else if \<not> GETP_VALID s (getp s + sz) then None else Some (s\<lparr>getp := getp s + sz\<rparr>))"

definition stream_forward_endp :: "stream \<Rightarrow> size_t \<Rightarrow> stream option" where
  "stream_forward_endp s sz =
     (if \<not> STREAM_SANE s then None
      else if \<not> ENDP_VALID s (endp s + sz) then None else Some (s\<lparr>endp := endp s + sz\<rparr>))"

definition stream_pnt :: "stream \<Rightarrow> u8 list option" where
  "stream_pnt s = (if \<not> STREAM_SANE s then None else Some (drop (unat (getp s)) (sdata s)))"

definition stream_empty :: "stream \<Rightarrow> bool option" where
  "stream_empty s = (if \<not> STREAM_SANE s then None else Some (endp s = 0))"

section \<open>Reading\<close>

definition stream_get :: "stream \<Rightarrow> size_t \<Rightarrow> (u8 list \<times> stream) option" where
  "stream_get s sz =
     (if \<not> STREAM_SANE s then None
      else if STREAM_READABLE s < sz then None
      else Some (bytes_from (unat sz) (getp s) s, s\<lparr>getp := getp s + sz\<rparr>))"

definition stream_getc :: "stream \<Rightarrow> (u8 \<times> stream) option" where
  "stream_getc s =
     (if \<not> STREAM_SANE s then None
      else if STREAM_READABLE s < 1 then None
      else Some (byte_at s (getp s), s\<lparr>getp := getp s + 1\<rparr>))"

definition stream_getc_from :: "stream \<Rightarrow> size_t \<Rightarrow> u8 option" where
  "stream_getc_from s from =
     (if \<not> STREAM_SANE s then None else if \<not> GETP_VALID s (from + 1) then None
      else if \<not> IN_DATA s from 1 then None else Some (byte_at s from))"

text \<open>The shifts and disjunctions that put the bytes together.\<close>

definition join16 :: "u8 list \<Rightarrow> u16" where
  "join16 bs = push_bit 8 (ucast (bs ! 0)) OR ucast (bs ! 1)"

definition join32 :: "u8 list \<Rightarrow> u32" where
  "join32 bs = push_bit 24 (ucast (bs ! 0)) OR push_bit 16 (ucast (bs ! 1)) OR push_bit 8 (ucast (bs ! 2)) OR ucast (bs ! 3)"

definition join64 :: "u8 list \<Rightarrow> 64 word" where
  "join64 bs = push_bit 56 (ucast (bs ! 0)) OR push_bit 48 (ucast (bs ! 1)) OR push_bit 40 (ucast (bs ! 2)) OR
     push_bit 32 (ucast (bs ! 3)) OR push_bit 24 (ucast (bs ! 4)) OR push_bit 16 (ucast (bs ! 5)) OR
     push_bit 8 (ucast (bs ! 6)) OR ucast (bs ! 7)"

definition stream_getw :: "stream \<Rightarrow> (u16 \<times> stream) option" where
  "stream_getw s =
     (if \<not> STREAM_SANE s then None
      else if STREAM_READABLE s < 2 then None
      else case get_bytes 2 s of (bs, s) \<Rightarrow> Some (join16 bs, s))"

definition stream_getw_from :: "stream \<Rightarrow> size_t \<Rightarrow> u16 option" where
  "stream_getw_from s from =
     (if \<not> STREAM_SANE s then None else if \<not> GETP_VALID s (from + 2) then None
      else if \<not> IN_DATA s from 2 then None else Some (join16 (bytes_from 2 from s)))"

definition stream_getl_from :: "stream \<Rightarrow> size_t \<Rightarrow> u32 option" where
  "stream_getl_from s from =
     (if \<not> STREAM_SANE s then None else if \<not> GETP_VALID s (from + 4) then None
      else if \<not> IN_DATA s from 4 then None else Some (join32 (bytes_from 4 from s)))"

definition stream_getl :: "stream \<Rightarrow> (u32 \<times> stream) option" where
  "stream_getl s =
     (if \<not> STREAM_SANE s then None
      else if STREAM_READABLE s < 4 then None
      else case get_bytes 4 s of (bs, s) \<Rightarrow> Some (join32 bs, s))"

definition stream_getq_from :: "stream \<Rightarrow> size_t \<Rightarrow> 64 word option" where
  "stream_getq_from s from =
     (if \<not> STREAM_SANE s then None else if \<not> GETP_VALID s (from + 8) then None
      else if \<not> IN_DATA s from 8 then None else Some (join64 (bytes_from 8 from s)))"

definition stream_getq :: "stream \<Rightarrow> (64 word \<times> stream) option" where
  "stream_getq s =
     (if \<not> STREAM_SANE s then None
      else if STREAM_READABLE s < 8 then None
      else case get_bytes 8 s of (bs, s) \<Rightarrow> Some (join64 bs, s))"

definition stream_get_ipv4 :: "stream \<Rightarrow> (u8 list \<times> stream) option" where
  "stream_get_ipv4 s =
     (if \<not> STREAM_SANE s then None
      else if STREAM_READABLE s < 4 then None
      else Some (bytes_from 4 (getp s) s, s\<lparr>getp := getp s + 4\<rparr>))"

section \<open>Writing\<close>

text \<open>Without a source, zeros are written.\<close>

definition stream_put :: "stream \<Rightarrow> u8 list option \<Rightarrow> size_t \<Rightarrow> stream option" where
  "stream_put s src sz =
     (let sz = CHECK_SIZE s sz in
      if \<not> STREAM_SANE s then None
      else if STREAM_WRITEABLE s < sz then None
      else
        let bytes = (case src of Some bs \<Rightarrow> take (unat sz) bs | None \<Rightarrow> replicate (unat sz) 0)
        in Some ((store (endp s) bytes s)\<lparr>endp := endp s + sz\<rparr>))"

definition stream_write :: "stream \<Rightarrow> u8 list \<Rightarrow> size_t \<Rightarrow> (size_t \<times> stream) option" where
  "stream_write s ptr sz =
     (let sz = CHECK_SIZE s sz in
      if \<not> STREAM_SANE s then None
      else if STREAM_WRITEABLE s < sz then None
      else Some (sz, (store (endp s) (take (unat sz) ptr) s)\<lparr>endp := endp s + sz\<rparr>))"

text \<open>The casts that take a number apart.\<close>

definition split16 :: "u16 \<Rightarrow> u8 list" where
  "split16 w = [ucast (drop_bit 8 w), ucast w]"

definition split32 :: "u32 \<Rightarrow> u8 list" where
  "split32 l = [ucast (drop_bit 24 l), ucast (drop_bit 16 l), ucast (drop_bit 8 l), ucast l]"

definition split64 :: "64 word \<Rightarrow> u8 list" where
  "split64 q = [ucast (drop_bit 56 q), ucast (drop_bit 48 q), ucast (drop_bit 40 q), ucast (drop_bit 32 q),
     ucast (drop_bit 24 q), ucast (drop_bit 16 q), ucast (drop_bit 8 q), ucast q]"

definition stream_putc :: "stream \<Rightarrow> u8 \<Rightarrow> (int \<times> stream) option" where
  "stream_putc s c =
     (if \<not> STREAM_SANE s then None else if STREAM_WRITEABLE s < 1 then None else Some (1, put_bytes [c] s))"

definition stream_putw :: "stream \<Rightarrow> u16 \<Rightarrow> (int \<times> stream) option" where
  "stream_putw s w =
     (if \<not> STREAM_SANE s then None else if STREAM_WRITEABLE s < 2 then None else Some (2, put_bytes (split16 w) s))"

definition stream_putl :: "stream \<Rightarrow> u32 \<Rightarrow> (int \<times> stream) option" where
  "stream_putl s l =
     (if \<not> STREAM_SANE s then None else if STREAM_WRITEABLE s < 4 then None else Some (4, put_bytes (split32 l) s))"

definition stream_putq :: "stream \<Rightarrow> 64 word \<Rightarrow> (int \<times> stream) option" where
  "stream_putq s q =
     (if \<not> STREAM_SANE s then None else if STREAM_WRITEABLE s < 8 then None else Some (8, put_bytes (split64 q) s))"

definition stream_putc_at :: "stream \<Rightarrow> size_t \<Rightarrow> u8 \<Rightarrow> (int \<times> stream) option" where
  "stream_putc_at s pos c =
     (if \<not> STREAM_SANE s then None else if \<not> PUT_AT_VALID s (pos + 1) then None
      else if \<not> IN_DATA s pos 1 then None else Some (1, store pos [c] s))"

definition stream_putw_at :: "stream \<Rightarrow> size_t \<Rightarrow> u16 \<Rightarrow> (int \<times> stream) option" where
  "stream_putw_at s pos w =
     (if \<not> STREAM_SANE s then None else if \<not> PUT_AT_VALID s (pos + 2) then None
      else if \<not> IN_DATA s pos 2 then None else Some (2, store pos (split16 w) s))"

definition stream_putl_at :: "stream \<Rightarrow> size_t \<Rightarrow> u32 \<Rightarrow> (int \<times> stream) option" where
  "stream_putl_at s pos l =
     (if \<not> STREAM_SANE s then None else if \<not> PUT_AT_VALID s (pos + 4) then None
      else if \<not> IN_DATA s pos 4 then None else Some (4, store pos (split32 l) s))"

definition stream_putq_at :: "stream \<Rightarrow> size_t \<Rightarrow> 64 word \<Rightarrow> (int \<times> stream) option" where
  "stream_putq_at s pos q =
     (if \<not> STREAM_SANE s then None else if \<not> PUT_AT_VALID s (pos + 8) then None
      else if \<not> IN_DATA s pos 8 then None else Some (8, store pos (split64 q) s))"

definition stream_put_ipv4 :: "stream \<Rightarrow> u8 list \<Rightarrow> (int \<times> stream) option" where
  "stream_put_ipv4 s l =
     (if \<not> STREAM_SANE s then None
      else if STREAM_WRITEABLE s < 4 then None
      else Some (4, (store (endp s) (take 4 l) s)\<lparr>endp := endp s + 4\<rparr>))"

definition stream_put_in_addr :: "stream \<Rightarrow> u8 list \<Rightarrow> (int \<times> stream) option" where
  "stream_put_in_addr s addr =
     (if \<not> STREAM_SANE s then None
      else if STREAM_WRITEABLE s < 4 then None
      else Some (4, (store (endp s) (take 4 addr) s)\<lparr>endp := endp s + 4\<rparr>))"

text \<open>\<open>PSIZE\<close> of \<open>lib/prefix.h\<close>.  A prefix of more than 128 bits lies beyond the union.\<close>

definition PSIZE :: "u8 \<Rightarrow> size_t" where
  "PSIZE a = of_nat ((unat a + 7) div 8)"

definition stream_put_prefix :: "stream \<Rightarrow> ip_prefix \<Rightarrow> (int \<times> stream) option" where
  "stream_put_prefix s p =
     (if \<not> STREAM_SANE s then None
      else
        let psize = PSIZE (prefixlen p) in
        if STREAM_WRITEABLE s < psize + 1 then None
        else if unat psize > length (pbytes p) then None
        else
          let s = put_bytes [prefixlen p] s
          in Some (uint psize, (store (endp s) (take (unat psize) (pbytes p)) s)\<lparr>endp := endp s + psize\<rparr>))"

section \<open>Input and output\<close>

text \<open>
  What a call that reads from a descriptor answers: its result, the bytes it has put into
  the buffer it was given, and whether \<open>errno\<close> says that it may be tried again.
\<close>

record io_answer =
  io_ret :: int
  io_bytes :: "u8 list"
  io_retry :: bool

text \<open>The kernel stores no more than it was asked for, and what it counts.\<close>

definition io_ok :: "io_answer \<Rightarrow> size_t \<Rightarrow> bool" where
  "io_ok a sz \<longleftrightarrow> length (io_bytes a) \<le> unat sz \<and> (io_ret a \<ge> 0 \<longrightarrow> io_ret a = int (length (io_bytes a)))"

definition stream_read_unblock :: "io_answer \<Rightarrow> stream \<Rightarrow> (int \<times> stream) option" where
  "stream_read_unblock a s =
     (if unat (putp s) + length (io_bytes a) > length (sdata s) then None
      else
        let s = store (putp s) (io_bytes a) s;
            s = (if io_ret a > 0 then s\<lparr>putp := putp s + of_int (io_ret a), endp := endp s + of_int (io_ret a)\<rparr> else s)
        in Some (io_ret a, s))"

definition stream_read :: "io_answer \<Rightarrow> stream \<Rightarrow> size_t \<Rightarrow> (int \<times> stream) option" where
  "stream_read a s sz =
     (if \<not> STREAM_SANE s then None
      else if STREAM_WRITEABLE s < sz then None
      else
        let s = store (endp s) (io_bytes a) s
        in Some (io_ret a, if io_ret a > 0 then s\<lparr>endp := endp s + of_int (io_ret a)\<rparr> else s))"

definition stream_read_try :: "io_answer \<Rightarrow> stream \<Rightarrow> size_t \<Rightarrow> (int \<times> stream) option" where
  "stream_read_try a s sz =
     (if \<not> STREAM_SANE s then None
      else if STREAM_WRITEABLE s < sz then None
      else
        let s = store (endp s) (io_bytes a) s in
        if io_ret a \<ge> 0 then Some (io_ret a, s\<lparr>endp := endp s + of_int (io_ret a)\<rparr>)
        else if io_retry a then Some (- 2, s)
        else Some (- 1, s))"

text \<open>\<open>stream_recvfrom\<close> differs in the call it makes only; \<open>iovlen\<close> is \<open>msgh->msg_iovlen\<close>.\<close>

definition stream_recvfrom :: "io_answer \<Rightarrow> stream \<Rightarrow> size_t \<Rightarrow> (int \<times> stream) option" where
  "stream_recvfrom a s sz =
     (if \<not> STREAM_SANE s then None
      else if STREAM_WRITEABLE s < sz then None
      else
        let s = store (endp s) (io_bytes a) s in
        if io_ret a \<ge> 0 then Some (io_ret a, s\<lparr>endp := endp s + of_int (io_ret a)\<rparr>)
        else if io_retry a then Some (- 2, s)
        else Some (- 1, s))"

definition stream_recvmsg :: "io_answer \<Rightarrow> nat \<Rightarrow> stream \<Rightarrow> size_t \<Rightarrow> (int \<times> stream) option" where
  "stream_recvmsg a iovlen s sz =
     (if \<not> STREAM_SANE s then None
      else if iovlen = 0 then None
      else if STREAM_WRITEABLE s < sz then None
      else
        let s = store (endp s) (io_bytes a) s
        in Some (io_ret a, if io_ret a > 0 then s\<lparr>endp := endp s + of_int (io_ret a)\<rparr> else s))"

text \<open>The bytes handed to \<open>write\<close>.\<close>

definition stream_flush :: "stream \<Rightarrow> u8 list option" where
  "stream_flush s = (if \<not> STREAM_SANE s then None else Some (bytes_from (unat (endp s - getp s)) (getp s) s))"

section \<open>Queues of streams\<close>

text \<open>Streams at addresses, linked by \<open>snext\<close>; \<open>0\<close> is NULL.\<close>

type_synonym stream_heap = "nat \<Rightarrow> stream option"

record stream_fifo =
  fcount :: size_t
  fhead :: nat
  ftail :: nat

definition stream_fifo_new :: stream_fifo where
  "stream_fifo_new = \<lparr>fcount = 0, fhead = 0, ftail = 0\<rparr>"

definition stream_fifo_push :: "nat \<Rightarrow> stream_fifo \<times> stream_heap \<Rightarrow> stream_fifo \<times> stream_heap" where
  "stream_fifo_push s = (\<lambda>(f, h).
     let (f, h) = (if ftail f \<noteq> 0 then (f, h(ftail f := Some ((the (h (ftail f)))\<lparr>snext := s\<rparr>))) else (f\<lparr>fhead := s\<rparr>, h))
     in (f\<lparr>ftail := s, fcount := fcount f + 1\<rparr>, h))"

definition stream_fifo_pop :: "stream_fifo \<times> stream_heap \<Rightarrow> nat \<times> stream_fifo \<times> stream_heap" where
  "stream_fifo_pop = (\<lambda>(f, h).
     let s = fhead f in
     if s \<noteq> 0 then
       let f = f\<lparr>fhead := snext (the (h s))\<rparr>;
           f = (if fhead f = 0 then f\<lparr>ftail := 0\<rparr> else f)
       in (s, f\<lparr>fcount := fcount f - 1\<rparr>, h)
     else (s, f, h))"

definition stream_fifo_head :: "stream_fifo \<times> stream_heap \<Rightarrow> nat" where
  "stream_fifo_head = (\<lambda>(f, h). fhead f)"

text \<open>Freeing NULL does nothing.\<close>

definition stream_free :: "nat \<Rightarrow> stream_heap \<Rightarrow> stream_heap" where
  "stream_free s h = (if s = 0 then h else h(s := None))"

partial_function (option) clean_loop :: "nat \<Rightarrow> stream_heap \<Rightarrow> stream_heap option" where
  "clean_loop s h =
     (if s = 0 then Some h
      else case h s of None \<Rightarrow> None | Some n \<Rightarrow> clean_loop (snext n) (stream_free s h))"

declare clean_loop.simps [code]

definition stream_fifo_clean :: "stream_fifo \<times> stream_heap \<Rightarrow> (stream_fifo \<times> stream_heap) option" where
  "stream_fifo_clean = (\<lambda>(f, h). case clean_loop (fhead f) h of None \<Rightarrow> None
     | Some h \<Rightarrow> Some (f\<lparr>fhead := 0, ftail := 0, fcount := 0\<rparr>, h))"

definition stream_fifo_free :: "stream_fifo \<times> stream_heap \<Rightarrow> stream_heap option" where
  "stream_fifo_free fh = map_option snd (stream_fifo_clean fh)"

end
