(* ===== verification/StreamProps.thy ===== *)
theory StreamProps
  imports Stream
begin

text \<open>
  A stream as a queue of bytes: \<open>written\<close> are the bytes put so far, \<open>unread\<close> those still to be
  read.  The fixed-width fields share the contract \<open>wire_field\<close>; messages made of fields come
  back as they were written; every legal call stays within the buffer; queues of streams are
  lists.
\<close>

section \<open>Bytes in the buffer\<close>

definition wf_stream :: "stream \<Rightarrow> bool" where
  "wf_stream s \<longleftrightarrow> STREAM_SANE s \<and> length (sdata s) = unat (ssize s)"

definition written :: "stream \<Rightarrow> u8 list" where
  "written s = take (unat (endp s)) (sdata s)"

definition unread :: "stream \<Rightarrow> u8 list" where
  "unread s = drop (unat (getp s)) (written s)"

lemma wf_streamD:
  assumes "wf_stream s"
  shows "unat (getp s) \<le> unat (endp s)" "unat (endp s) \<le> unat (ssize s)" "length (sdata s) = unat (ssize s)"
    "getp s \<le> endp s" "endp s \<le> ssize s" "STREAM_SANE s" "length (written s) = unat (endp s)"
    "length (unread s) = unat (endp s) - unat (getp s)"
  using assms by (simp_all add: wf_stream_def STREAM_SANE_def GETP_VALID_def ENDP_VALID_def word_le_nat_alt written_def unread_def)

lemma wf_streamI:
  "unat (getp s) \<le> unat (endp s) \<Longrightarrow> unat (endp s) \<le> unat (ssize s) \<Longrightarrow> length (sdata s) = unat (ssize s) \<Longrightarrow> wf_stream s"
  by (simp add: wf_stream_def STREAM_SANE_def GETP_VALID_def ENDP_VALID_def word_le_nat_alt)

lemma room:
  assumes "wf_stream s"
  shows "unat (STREAM_WRITEABLE s) = unat (ssize s) - unat (endp s)" "unat (STREAM_READABLE s) = unat (endp s) - unat (getp s)"
  using wf_streamD(4,5) [OF assms] by (simp_all add: STREAM_WRITEABLE_def STREAM_READABLE_def unat_sub)

lemma unat_add_small:
  fixes a b :: "'a::len word"
  assumes "unat a + n \<le> unat b"
  shows "unat (a + of_nat n) = unat a + n"
proof -
  have b: "unat b < 2 ^ LENGTH('a)" by (rule unsigned_less)
  have "n \<le> unat b" using assms by simp
  then have "n < 2 ^ LENGTH('a)" using b by (rule le_less_trans)
  then have n: "unat (of_nat n :: 'a word) = n"
    by (subst unat_of_nat) simp
  have "unat a + n < 2 ^ LENGTH('a)" using assms b by (rule le_less_trans)
  then show ?thesis using n by (subst unat_word_ariths(1)) simp
qed

lemma unat_word_of_nat_less: "n < 2 ^ 64 \<Longrightarrow> unat (of_nat n :: size_t) = n"
  by (subst unat_of_nat) (simp add: take_bit_nat_eq_self)

text \<open>Replacing a segment of a list.\<close>

definition poke :: "nat \<Rightarrow> 'a list \<Rightarrow> 'a list \<Rightarrow> 'a list" where
  "poke i bs xs = take i xs @ bs @ drop (i + length bs) xs"

lemma poke_Cons: "i < length xs \<Longrightarrow> poke i (b # bs) xs = poke (Suc i) bs (xs[i := b])"
  by (simp add: poke_def take_Suc_conv_app_nth)

lemma length_poke: "i + length bs \<le> length xs \<Longrightarrow> length (poke i bs xs) = length xs"
  by (simp add: poke_def)

lemma poke_Nil [simp]: "poke i [] xs = xs"
  by (simp add: poke_def)

lemma take_poke: "i \<le> length xs \<Longrightarrow> take (i + length bs) (poke i bs xs) = take i xs @ bs"
  by (simp add: poke_def)

text \<open>What the loops do, as long as they stay inside.\<close>

definition inside :: "size_t \<Rightarrow> nat \<Rightarrow> stream \<Rightarrow> bool" where
  "inside i n s \<longleftrightarrow> unat i + n \<le> unat (ssize s) \<and> length (sdata s) = unat (ssize s)"

lemma inside_Suc: "inside i (Suc n) s \<Longrightarrow> unat (i + 1) = Suc (unat i) \<and> unat i < length (sdata s)"
  using unat_add_small [of i 1 "ssize s"] by (simp add: inside_def)

lemma store_pokes: "inside i (length bs) s \<Longrightarrow> store i bs s = s\<lparr>sdata := poke (unat i) bs (sdata s)\<rparr>"
proof (induction bs arbitrary: i s)
  case (Cons b bs)
  have i: "unat (i + 1) = Suc (unat i)" "unat i < length (sdata s)" using inside_Suc Cons.prems by auto
  have "inside (i + 1) (length bs) (s\<lparr>sdata := (sdata s)[unat i := b]\<rparr>)" using Cons.prems i by (simp add: inside_def)
  from Cons.IH [OF this] i show ?case by (simp add: poke_Cons)
qed simp

lemma put_bytes_store: "inside (endp s) (length bs) s \<Longrightarrow> put_bytes bs s = (store (endp s) bs s)\<lparr>endp := endp s + of_nat (length bs)\<rparr>"
proof (induction bs arbitrary: s)
  case (Cons b bs)
  let ?s = "s\<lparr>sdata := (sdata s)[unat (endp s) := b], endp := endp s + 1\<rparr>"
  have i: "unat (endp s + 1) = Suc (unat (endp s))" using inside_Suc Cons.prems by auto
  have "inside (endp ?s) (length bs) ?s" using Cons.prems i by (simp add: inside_def)
  from Cons.IH [OF this] have "put_bytes (b # bs) s = (store (endp s + 1) bs ?s)\<lparr>endp := endp s + 1 + of_nat (length bs)\<rparr>" by simp
  moreover have c: "z\<lparr>endp := e, sdata := d\<rparr> = z\<lparr>sdata := d, endp := e\<rparr>" for z :: stream and e d by (cases z) simp
  have "store i bs (z\<lparr>endp := e\<rparr>) = (store i bs z)\<lparr>endp := e\<rparr>" for i z e
    by (induction bs arbitrary: i z) (simp_all add: c)
  ultimately show ?case by (simp add: algebra_simps)
qed simp

lemma bytes_from_take: "inside i n s \<Longrightarrow> bytes_from n i s = take n (drop (unat i) (sdata s))"
proof (induction n arbitrary: i)
  case (Suc n)
  have i: "unat (i + 1) = Suc (unat i)" "unat i < length (sdata s)" using inside_Suc Suc.prems by auto
  have "inside (i + 1) n s" using Suc.prems i by (simp add: inside_def)
  from Suc.IH [OF this] i show ?case by (simp add: byte_at_def Cons_nth_drop_Suc [symmetric])
qed simp

lemma get_bytes_from: "get_bytes n s = (bytes_from n (getp s) s, s\<lparr>getp := getp s + of_nat n\<rparr>)"
proof (induction n arbitrary: s)
  case (Suc n)
  have "bytes_from n i (s\<lparr>getp := g\<rparr>) = bytes_from n i s" for i g
    by (induction n arbitrary: i) (simp_all add: byte_at_def)
  then show ?case using Suc by (simp add: algebra_simps)
qed simp

section \<open>Putting and getting\<close>

definition appended :: "u8 list \<Rightarrow> stream \<Rightarrow> stream \<Rightarrow> bool" where
  "appended bs s s' \<longleftrightarrow> wf_stream s' \<and> written s' = written s @ bs \<and> getp s' = getp s \<and> ssize s' = ssize s"

definition consumed :: "u8 list \<Rightarrow> stream \<Rightarrow> stream \<Rightarrow> bool" where
  "consumed bs s s' \<longleftrightarrow> wf_stream s' \<and> unread s = bs @ unread s' \<and> written s' = written s \<and> endp s' = endp s \<and> ssize s' = ssize s"

lemma store_appends:
  assumes s: "wf_stream s" and n: "unat (endp s) + length bs \<le> unat (ssize s)"
  shows "appended bs s ((store (endp s) bs s)\<lparr>endp := endp s + of_nat (length bs)\<rparr>)"
proof -
  note d = wf_streamD [OF s]
  have "inside (endp s) (length bs) s" using n d(3) by (simp add: inside_def)
  then have e: "store (endp s) bs s = s\<lparr>sdata := poke (unat (endp s)) bs (sdata s)\<rparr>" by (rule store_pokes)
  have u: "unat (endp s + of_nat (length bs)) = unat (endp s) + length bs" by (rule unat_add_small [OF n])
  have l: "length (poke (unat (endp s)) bs (sdata s)) = length (sdata s)" using n d(3) by (intro length_poke) simp
  have "wf_stream (s\<lparr>sdata := poke (unat (endp s)) bs (sdata s), endp := endp s + of_nat (length bs)\<rparr>)"
    using d n u l by (intro wf_streamI) simp_all
  moreover have "take (unat (endp s) + length bs) (poke (unat (endp s)) bs (sdata s)) = take (unat (endp s)) (sdata s) @ bs"
    using d by (intro take_poke) simp
  ultimately show ?thesis by (simp add: e appended_def written_def u)
qed

lemma get_consumes:
  assumes s: "wf_stream s" and n: "n \<le> length (unread s)"
  shows "bytes_from n (getp s) s = take n (unread s)" "consumed (take n (unread s)) s (s\<lparr>getp := getp s + of_nat n\<rparr>)"
proof -
  note d = wf_streamD [OF s]
  have n': "unat (getp s) + n \<le> unat (endp s)" using n d(1,8) by simp
  have "inside (getp s) n s" using n' d(2,3) by (simp add: inside_def)
  then show b: "bytes_from n (getp s) s = take n (unread s)"
    using n' by (simp add: bytes_from_take unread_def written_def drop_take)
  have u: "unat (getp s + of_nat n) = unat (getp s) + n" by (rule unat_add_small [OF n'])
  have "wf_stream (s\<lparr>getp := getp s + of_nat n\<rparr>)" using d n' u by (intro wf_streamI) simp_all
  moreover have "unread (s\<lparr>getp := getp s + of_nat n\<rparr>) = drop n (unread s)"
    using u by (simp add: unread_def written_def add.commute [of n])
  ultimately show "consumed (take n (unread s)) s (s\<lparr>getp := getp s + of_nat n\<rparr>)"
    by (simp add: consumed_def written_def)
qed

text \<open>What the fixed-width fields have in common: a number is put as its bytes.\<close>

locale wire_field =
  fixes enc :: "'a \<Rightarrow> u8 list" and dec :: "u8 list \<Rightarrow> 'a" and width :: nat
    and put :: "stream \<Rightarrow> 'a \<Rightarrow> (int \<times> stream) option" and get :: "stream \<Rightarrow> ('a \<times> stream) option"
  assumes dec_enc: "dec (enc x) = x" and length_enc: "length (enc x) = width" and width: "width < 2 ^ 64"
    and put: "put s x = (if \<not> STREAM_SANE s then None else if STREAM_WRITEABLE s < of_nat width then None
        else Some (int width, put_bytes (enc x) s))"
    and get: "get s = (if \<not> STREAM_SANE s then None else if STREAM_READABLE s < of_nat width then None
        else case get_bytes width s of (bs, z) \<Rightarrow> Some (dec bs, z))"
begin

lemma put_ok:
  assumes s: "wf_stream s"
  shows "(if unat (endp s) + width \<le> unat (ssize s) then \<exists>s'. put s x = Some (int width, s') \<and> appended (enc x) s s' else put s x = None)"
proof -
  note d = wf_streamD [OF s]
  have w: "STREAM_WRITEABLE s < of_nat width \<longleftrightarrow> \<not> unat (endp s) + width \<le> unat (ssize s)"
    using room(1) [OF s] unat_word_of_nat_less [OF width] d(2) by (auto simp: word_less_nat_alt)
  have "put_bytes (enc x) s = (store (endp s) (enc x) s)\<lparr>endp := endp s + of_nat (length (enc x))\<rparr>"
    if "unat (endp s) + width \<le> unat (ssize s)"
    using that d(3) by (intro put_bytes_store) (simp add: inside_def length_enc)
  then show ?thesis using store_appends [OF s, of "enc x"] d(6) w by (simp add: put length_enc)
qed

lemma get_ok:
  assumes s: "wf_stream s"
  shows "(if width \<le> length (unread s) then \<exists>s'. get s = Some (dec (take width (unread s)), s') \<and> consumed (take width (unread s)) s s'
    else get s = None)"
proof -
  have "STREAM_READABLE s < of_nat width \<longleftrightarrow> \<not> width \<le> length (unread s)"
    using room(2) [OF s] unat_word_of_nat_less [OF width] wf_streamD(8) [OF s] by (auto simp: word_less_nat_alt)
  then show ?thesis using get_consumes [OF s, of width] wf_streamD(6) [OF s] by (simp add: get get_bytes_from)
qed

text \<open>What was put first comes out first.\<close>

lemma get_put:
  assumes s: "wf_stream s" and u: "unread s = enc x @ rest"
  shows "\<exists>s'. get s = Some (x, s') \<and> consumed (enc x) s s' \<and> unread s' = rest"
  using get_ok [OF s] u by (auto simp: dec_enc length_enc consumed_def)

end

text \<open>Each byte is a part of the number, and the parts make it up.\<close>

lemma low_part:
  fixes w :: "'a::len word"
  shows "ucast (ucast w :: u8) = w AND mask 8"
  by (rule bit_word_eqI) (auto simp: bit_simps)

lemma byte_part:
  fixes w :: "'a::len word"
  shows "push_bit k (drop_bit k w AND mask 8) = w AND push_bit k (mask 8)"
  by (rule bit_word_eqI) (auto simp: bit_simps)

lemma join_split16: "join16 (split16 w) = w"
proof -
  have "join16 (split16 w) = w AND (push_bit 8 (mask 8) OR mask 8)"
    by (simp only: join16_def split16_def nth_Cons_0 nth_Cons_Suc One_nat_def low_part byte_part bit.conj_disj_distrib)
  moreover have "push_bit 8 (mask 8) OR mask 8 = (- 1 :: u16)" by code_simp
  ultimately show ?thesis by simp
qed

lemma nth_4: "[a, b, c, d] ! 2 = c" "[a, b, c, d] ! 3 = d"
  by simp_all

lemma join_split32: "join32 (split32 l) = l"
proof -
  have "join32 (split32 l) = l AND (push_bit 24 (mask 8) OR push_bit 16 (mask 8) OR push_bit 8 (mask 8) OR mask 8)"
    by (simp only: join32_def split32_def nth_Cons_0 nth_Cons_Suc One_nat_def nth_4 low_part byte_part bit.conj_disj_distrib)
  moreover have "push_bit 24 (mask 8) OR push_bit 16 (mask 8) OR push_bit 8 (mask 8) OR mask 8 = (- 1 :: u32)" by code_simp
  ultimately show ?thesis by simp
qed

lemma nth_8: "[a, b, c, d, e, f, g, h] ! 2 = c" "[a, b, c, d, e, f, g, h] ! 3 = d" "[a, b, c, d, e, f, g, h] ! 4 = e"
  "[a, b, c, d, e, f, g, h] ! 5 = f" "[a, b, c, d, e, f, g, h] ! 6 = g" "[a, b, c, d, e, f, g, h] ! 7 = h"
  by simp_all

lemma join_split64: "join64 (split64 q) = q"
proof -
  have "join64 (split64 q) = q AND (push_bit 56 (mask 8) OR push_bit 48 (mask 8) OR push_bit 40 (mask 8) OR push_bit 32 (mask 8) OR
      push_bit 24 (mask 8) OR push_bit 16 (mask 8) OR push_bit 8 (mask 8) OR mask 8)"
    by (simp only: join64_def split64_def nth_Cons_0 nth_Cons_Suc One_nat_def nth_8 low_part byte_part bit.conj_disj_distrib)
  moreover have "push_bit 56 (mask 8) OR push_bit 48 (mask 8) OR push_bit 40 (mask 8) OR push_bit 32 (mask 8) OR
      push_bit 24 (mask 8) OR push_bit 16 (mask 8) OR push_bit 8 (mask 8) OR mask 8 = (- 1 :: 64 word)" by code_simp
  ultimately show ?thesis by simp
qed

lemma length_split [simp]: "length (split16 w) = 2" "length (split32 l) = 4" "length (split64 q) = 8"
  by (simp_all add: split16_def split32_def split64_def)

interpretation c: wire_field "\<lambda>c. [c]" "\<lambda>bs. bs ! 0" 1 stream_putc stream_getc
  by unfold_locales (simp_all add: stream_putc_def stream_getc_def)

interpretation w: wire_field split16 join16 2 stream_putw stream_getw
  by unfold_locales (simp_all add: stream_putw_def stream_getw_def join_split16)

interpretation l: wire_field split32 join32 4 stream_putl stream_getl
  by unfold_locales (simp_all add: stream_putl_def stream_getl_def join_split32)

interpretation q: wire_field split64 join64 8 stream_putq stream_getq
  by unfold_locales (simp_all add: stream_putq_def stream_getq_def join_split64)

section \<open>Blocks of bytes\<close>

lemma clip_size:
  assumes s: "wf_stream s" and n: "unat (endp s) + unat n \<le> unat (ssize s)"
  shows "CHECK_SIZE s n = n" "\<not> STREAM_WRITEABLE s < n"
proof -
  have u: "unat (endp s + n) = unat (endp s) + unat n" using unat_add_small [OF n] by simp
  show "CHECK_SIZE s n = n" using n u by (simp add: CHECK_SIZE_def word_less_nat_alt)
  show "\<not> STREAM_WRITEABLE s < n" using n room(1) [OF s] by (simp add: word_less_nat_alt)
qed

lemma stream_put_ok:
  assumes s: "wf_stream s" and n: "unat (endp s) + length bs \<le> unat (ssize s)"
  shows "\<exists>s'. stream_put s (Some bs) (of_nat (length bs)) = Some s' \<and> appended bs s s'"
proof -
  have "length bs < 2 ^ 64"
    using n unsigned_less [of "ssize s"] by (intro le_less_trans [of "length bs" "unat (ssize s)"]) simp_all
  then have u: "unat (of_nat (length bs) :: size_t) = length bs" by (rule unat_word_of_nat_less)
  have "CHECK_SIZE s (of_nat (length bs)) = of_nat (length bs)" "\<not> STREAM_WRITEABLE s < of_nat (length bs)"
    using clip_size [OF s, of "of_nat (length bs)"] n u by simp_all
  then show ?thesis
    using store_appends [OF s n] wf_streamD(6) [OF s] u by (simp add: stream_put_def Let_def)
qed

lemma stream_get_ok:
  assumes s: "wf_stream s" and n: "unat n \<le> length (unread s)"
  shows "\<exists>s'. stream_get s n = Some (take (unat n) (unread s), s') \<and> consumed (take (unat n) (unread s)) s s'"
  using get_consumes [OF s n] room(2) [OF s] n wf_streamD(6,8) [OF s]
  by (simp add: stream_get_def word_less_nat_alt)

lemma put_ipv4_ok:
  assumes s: "wf_stream s" and n: "unat (endp s) + 4 \<le> unat (ssize s)" and a: "length a = 4"
  shows "\<exists>s'. stream_put_ipv4 s a = Some (4, s') \<and> appended a s s'"
proof -
  have "\<not> STREAM_WRITEABLE s < 4" using clip_size(2) [OF s, of 4] n by simp
  moreover have "appended a s ((store (endp s) a s)\<lparr>endp := endp s + 4\<rparr>)"
    using store_appends [OF s, of a] n a by simp
  ultimately show ?thesis using a wf_streamD(6) [OF s] by (simp add: stream_put_ipv4_def)
qed

lemma get_ipv4_ok:
  assumes s: "wf_stream s" and n: "4 \<le> length (unread s)"
  shows "\<exists>s'. stream_get_ipv4 s = Some (take 4 (unread s), s') \<and> consumed (take 4 (unread s)) s s'"
  using get_consumes [OF s n] room(2) [OF s] n wf_streamD(6,8) [OF s]
  by (simp add: stream_get_ipv4_def word_less_nat_alt)

section \<open>Messages\<close>

text \<open>
  A message is a sequence of fields: numbers of one to eight bytes, IPv4 addresses (their four
  bytes in the order of memory) and blocks of bytes.  Its reader knows the widths, as the daemons do.
\<close>

datatype field = Fc u8 | Fw u16 | Fl u32 | Fq "64 word" | Fa u8 u8 u8 u8 | Fb "u8 list"
datatype format = Kc | Kw | Kl | Kq | Ka | Kb size_t

fun format_of :: "field \<Rightarrow> format" where
  "format_of (Fc c) = Kc"
| "format_of (Fw w) = Kw"
| "format_of (Fl l) = Kl"
| "format_of (Fq q) = Kq"
| "format_of (Fa a b c d) = Ka"
| "format_of (Fb bs) = Kb (of_nat (length bs))"

fun encode :: "field \<Rightarrow> u8 list" where
  "encode (Fc c) = [c]"
| "encode (Fw w) = split16 w"
| "encode (Fl l) = split32 l"
| "encode (Fq q) = split64 q"
| "encode (Fa a b c d) = [a, b, c, d]"
| "encode (Fb bs) = bs"

definition address :: "u8 list \<Rightarrow> field" where
  "address bs = Fa (bs ! 0) (bs ! 1) (bs ! 2) (bs ! 3)"

fun put_field :: "field \<Rightarrow> stream \<Rightarrow> stream option" where
  "put_field (Fc c) s = map_option snd (stream_putc s c)"
| "put_field (Fw w) s = map_option snd (stream_putw s w)"
| "put_field (Fl l) s = map_option snd (stream_putl s l)"
| "put_field (Fq q) s = map_option snd (stream_putq s q)"
| "put_field (Fa a b c d) s = map_option snd (stream_put_ipv4 s [a, b, c, d])"
| "put_field (Fb bs) s = stream_put s (Some bs) (of_nat (length bs))"

fun get_field :: "format \<Rightarrow> stream \<Rightarrow> (field \<times> stream) option" where
  "get_field Kc s = map_option (map_prod Fc id) (stream_getc s)"
| "get_field Kw s = map_option (map_prod Fw id) (stream_getw s)"
| "get_field Kl s = map_option (map_prod Fl id) (stream_getl s)"
| "get_field Kq s = map_option (map_prod Fq id) (stream_getq s)"
| "get_field Ka s = map_option (map_prod address id) (stream_get_ipv4 s)"
| "get_field (Kb n) s = map_option (map_prod Fb id) (stream_get s n)"

fun put_fields :: "field list \<Rightarrow> stream \<Rightarrow> stream option" where
  "put_fields [] s = Some s"
| "put_fields (f # fs) s = (case put_field f s of None \<Rightarrow> None | Some s \<Rightarrow> put_fields fs s)"

fun get_fields :: "format list \<Rightarrow> stream \<Rightarrow> (field list \<times> stream) option" where
  "get_fields [] s = Some ([], s)"
| "get_fields (k # ks) s =
     (case get_field k s of None \<Rightarrow> None | Some (f, s) \<Rightarrow> map_option (map_prod ((#) f) id) (get_fields ks s))"

lemma put_field_ok:
  assumes s: "wf_stream s" and n: "unat (endp s) + length (encode f) \<le> unat (ssize s)"
  shows "\<exists>s'. put_field f s = Some s' \<and> appended (encode f) s s'"
proof (cases f)
  case (Fc x) then show ?thesis using c.put_ok [OF s, of x] n by auto
next
  case (Fw x) then show ?thesis using w.put_ok [OF s, of x] n by auto
next
  case (Fl x) then show ?thesis using l.put_ok [OF s, of x] n by auto
next
  case (Fq x) then show ?thesis using q.put_ok [OF s, of x] n by auto
next
  case (Fa a b c d) then show ?thesis using put_ipv4_ok [OF s, of "[a, b, c, d]"] n by auto
next
  case (Fb bs) then show ?thesis using stream_put_ok [OF s, of bs] n by simp
qed

lemma get_field_ok:
  assumes s: "wf_stream s" and u: "unread s = encode f @ rest"
  shows "\<exists>s'. get_field (format_of f) s = Some (f, s') \<and> consumed (encode f) s s' \<and> unread s' = rest"
proof (cases f)
  case (Fc x) then show ?thesis using c.get_put [OF s, of x rest] u by auto
next
  case (Fw x) then show ?thesis using w.get_put [OF s, of x rest] u by auto
next
  case (Fl x) then show ?thesis using l.get_put [OF s, of x rest] u by auto
next
  case (Fq x) then show ?thesis using q.get_put [OF s, of x rest] u by auto
next
  case (Fa a b c d)
  then show ?thesis using get_ipv4_ok [OF s] u by (auto simp: address_def consumed_def nth_4)
next
  case (Fb bs)
  have "length bs \<le> length (unread s)" using u Fb by simp
  also have "\<dots> \<le> unat (endp s)" using wf_streamD(8) [OF s] by simp
  also have "\<dots> < 2 ^ 64" using unsigned_less [of "endp s"] by simp
  finally have n: "unat (of_nat (length bs) :: size_t) = length bs" by (rule unat_word_of_nat_less)
  have "unat (of_nat (length bs) :: size_t) \<le> length (unread s)" "take (length bs) (unread s) = bs" using n u Fb by simp_all
  then show ?thesis using stream_get_ok [OF s, of "of_nat (length bs)"] Fb n u by (auto simp: consumed_def)
qed

lemma put_fields_ok:
  assumes "wf_stream s" "unat (endp s) + length (concat (map encode fs)) \<le> unat (ssize s)"
  shows "\<exists>s'. put_fields fs s = Some s' \<and> appended (concat (map encode fs)) s s'"
  using assms
proof (induction fs arbitrary: s)
  case Nil
  then show ?case by (simp add: appended_def)
next
  case (Cons f fs)
  obtain s1 where s1: "put_field f s = Some s1" "appended (encode f) s s1"
    using put_field_ok [OF Cons.prems(1), of f] Cons.prems(2) by auto
  have e: "unat (endp s1) = unat (endp s) + length (encode f)"
    using s1(2) wf_streamD(7) [OF Cons.prems(1)] wf_streamD(7) [of s1] by (simp add: appended_def)
  have "wf_stream s1" "unat (endp s1) + length (concat (map encode fs)) \<le> unat (ssize s1)"
    using s1(2) e Cons.prems(2) by (simp_all add: appended_def)
  from Cons.IH [OF this] show ?case using s1 by (auto simp: appended_def)
qed

lemma get_fields_ok:
  assumes "wf_stream s" "unread s = concat (map encode fs) @ rest"
  shows "\<exists>s'. get_fields (map format_of fs) s = Some (fs, s') \<and> wf_stream s' \<and> unread s' = rest \<and> written s' = written s"
  using assms
proof (induction fs arbitrary: s)
  case (Cons f fs)
  obtain s1 where s1: "get_field (format_of f) s = Some (f, s1)" "consumed (encode f) s s1" "unread s1 = concat (map encode fs) @ rest"
    using get_field_ok [OF Cons.prems(1), of f] Cons.prems(2) by auto
  have "wf_stream s1" using s1(2) by (simp add: consumed_def)
  from Cons.IH [OF this s1(3)] show ?case using s1 by (auto simp: consumed_def)
qed simp

section \<open>Staying inside\<close>

lemma store_simps [simp]: "endp (store i bs s) = endp s" "getp (store i bs s) = getp s" "ssize (store i bs s) = ssize s"
  "length (sdata (store i bs s)) = length (sdata s)"
  by (induction bs arbitrary: i s) simp_all

lemma store_wf [simp]: "wf_stream (store i bs s) = wf_stream s"
  by (simp add: wf_stream_def STREAM_SANE_def GETP_VALID_def ENDP_VALID_def)

lemma wf_endp:
  assumes s: "wf_stream s" and n: "\<not> STREAM_WRITEABLE s < n"
  shows "wf_stream (s\<lparr>endp := endp s + n\<rparr>)"
proof -
  have "unat (endp s) + unat n \<le> unat (ssize s)"
    using n room(1) [OF s] wf_streamD(2) [OF s] by (simp add: word_less_nat_alt)
  then show ?thesis using wf_streamD [OF s] unat_add_small [of "endp s" "unat n" "ssize s"] by (intro wf_streamI) simp_all
qed

lemma wf_getp:
  assumes s: "wf_stream s" and g: "g \<le> endp s"
  shows "wf_stream (s\<lparr>getp := g\<rparr>)"
  using wf_streamD [OF s] g by (intro wf_streamI) (simp_all add: word_le_nat_alt)

lemma put_bytes_wf:
  assumes s: "wf_stream s" and n: "\<not> STREAM_WRITEABLE s < of_nat (length bs)" "length bs < 2 ^ 64"
  shows "wf_stream (put_bytes bs s)"
proof -
  have "unat (endp s) + length bs \<le> unat (ssize s)"
    using n room(1) [OF s] wf_streamD(2) [OF s] unat_word_of_nat_less [OF n(2)] by (simp add: word_less_nat_alt)
  then show ?thesis
    using store_appends [OF s, of bs] put_bytes_store [of s bs] wf_streamD(3) [OF s] by (simp add: inside_def appended_def)
qed

text \<open>The calls that change a stream.\<close>

datatype stream_op =
    Put field | Put_zeros size_t | Write "u8 list" size_t | Put_at size_t field | Put_addr "u8 list" | Put_prefix ip_prefix
  | Get format | Get_addr | Set_getp size_t | Set_endp size_t | Forward_getp size_t | Forward_endp size_t
  | Set_putp size_t | Read io_answer size_t | Read_try io_answer size_t | Recvfrom io_answer size_t
  | Recvmsg io_answer nat size_t | Resize "u8 list" size_t | Reset
  | Advance "32 word" | Read_unblock io_answer

fun put_field_at :: "stream \<Rightarrow> size_t \<Rightarrow> field \<Rightarrow> stream option" where
  "put_field_at s pos (Fc c) = map_option snd (stream_putc_at s pos c)"
| "put_field_at s pos (Fw w) = map_option snd (stream_putw_at s pos w)"
| "put_field_at s pos (Fl l) = map_option snd (stream_putl_at s pos l)"
| "put_field_at s pos (Fq q) = map_option snd (stream_putq_at s pos q)"
| "put_field_at s pos (Fa a b c d) = None"
| "put_field_at s pos (Fb bs) = None"

fun stream_call :: "stream_op \<Rightarrow> stream \<Rightarrow> stream option" where
  "stream_call (Put f) s = put_field f s"
| "stream_call (Put_zeros n) s = stream_put s None n"
| "stream_call (Write bs n) s = map_option snd (stream_write s bs n)"
| "stream_call (Put_at pos f) s = put_field_at s pos f"
| "stream_call (Put_addr a) s = map_option snd (stream_put_ipv4 s a)"
| "stream_call (Put_prefix p) s = map_option snd (stream_put_prefix s p)"
| "stream_call (Get k) s = map_option snd (get_field k s)"
| "stream_call Get_addr s = map_option snd (stream_get_ipv4 s)"
| "stream_call (Set_getp n) s = stream_set_getp s n"
| "stream_call (Set_endp n) s = stream_set_endp s n"
| "stream_call (Forward_getp n) s = stream_forward_getp s n"
| "stream_call (Forward_endp n) s = stream_forward_endp s n"
| "stream_call (Set_putp n) s = Some (stream_set_putp s n)"
| "stream_call (Read a n) s = map_option snd (stream_read a s n)"
| "stream_call (Read_try a n) s = map_option snd (stream_read_try a s n)"
| "stream_call (Recvfrom a n) s = map_option snd (stream_recvfrom a s n)"
| "stream_call (Recvmsg a i n) s = map_option snd (stream_recvmsg a i s n)"
| "stream_call (Resize junk n) s = map_option snd (stream_resize junk s n)"
| "stream_call Reset s = stream_reset s"
| "stream_call (Advance n) s = Some (stream_forward s n)"
| "stream_call (Read_unblock a) s = map_option snd (stream_read_unblock a s)"

text \<open>
  What is asked of the caller: buffers as long as he says, no end that wraps around, and a kernel
  that keeps to its word.  The two calls without a check of their own, \<open>stream_forward\<close> and
  \<open>stream_read_unblock\<close>, must not move \<open>getp\<close> out of what is written, nor read more than fits.
\<close>

fun stream_legal :: "stream_op \<Rightarrow> stream \<Rightarrow> bool" where
  "stream_legal (Put (Fb bs)) s \<longleftrightarrow> length bs < 2 ^ 64"
| "stream_legal (Write bs n) s \<longleftrightarrow> unat n \<le> length bs"
| "stream_legal (Read a n) s \<longleftrightarrow> io_ok a n"
| "stream_legal (Read_try a n) s \<longleftrightarrow> io_ok a n"
| "stream_legal (Recvfrom a n) s \<longleftrightarrow> io_ok a n"
| "stream_legal (Recvmsg a i n) s \<longleftrightarrow> io_ok a n"
| "stream_legal (Forward_endp n) s \<longleftrightarrow> unat (endp s) + unat n < 2 ^ 64"
| "stream_legal (Resize junk n) s \<longleftrightarrow> unat n \<le> length (sdata s) + length junk"
| "stream_legal (Advance n) s \<longleftrightarrow> 0 \<le> int (unat (getp s)) + sint n \<and> int (unat (getp s)) + sint n \<le> int (unat (endp s))"
| "stream_legal (Read_unblock a) s \<longleftrightarrow> (io_ret a \<ge> 0 \<longrightarrow> io_ret a = int (length (io_bytes a))) \<and>
     unat (endp s) + length (io_bytes a) \<le> unat (ssize s)"
| "stream_legal _ s \<longleftrightarrow> True"

lemma check_size_fits:
  assumes "wf_stream s"
  shows "STREAM_WRITEABLE s < CHECK_SIZE s n \<or> wf_stream (s\<lparr>endp := endp s + CHECK_SIZE s n\<rparr>)"
  using wf_endp [OF assms] by blast

lemma io_endp:
  assumes s: "wf_stream s" and n: "\<not> STREAM_WRITEABLE s < n" and a: "io_ok a n" "io_ret a \<ge> 0"
  shows "wf_stream (s\<lparr>endp := endp s + of_int (io_ret a)\<rparr>)"
proof -
  have r: "io_ret a = int (length (io_bytes a))" "length (io_bytes a) \<le> unat n" using a by (simp_all add: io_ok_def)
  have "unat n < 2 ^ 64" using unsigned_less [of n] by simp
  then have "length (io_bytes a) < 2 ^ 64" using r(2) by simp
  then have "unat (of_nat (length (io_bytes a)) :: size_t) = length (io_bytes a)" by (rule unat_word_of_nat_less)
  then have "\<not> STREAM_WRITEABLE s < of_nat (length (io_bytes a))" using n r(2) by (simp add: word_less_nat_alt)
  then show ?thesis using wf_endp [OF s] r(1) by simp
qed

lemma endp_store [simp]: "wf_stream ((store i bs s)\<lparr>endp := e\<rparr>) = wf_stream (s\<lparr>endp := e\<rparr>)"
  by (simp add: wf_stream_def STREAM_SANE_def GETP_VALID_def ENDP_VALID_def)

lemma unat_PSIZE: "unat (PSIZE a + 1) = unat (PSIZE a) + 1"
proof -
  have "unat a < 256" using unsigned_less [where 'a = nat, of a] by simp
  then have "(unat a + 7) div 8 < 100" by simp
  then have "unat (PSIZE a) < 100" unfolding PSIZE_def by (subst unat_word_of_nat_less) simp_all
  then have "unat (PSIZE a) + 1 \<le> unat (1000 :: size_t)" by simp
  from unat_add_small [OF this] show ?thesis by simp
qed

lemma put_field_wf:
  assumes s: "wf_stream s" and r: "put_field f s = Some s'"
  shows "wf_stream s'"
proof (cases f)
  case (Fb bs)
  then show ?thesis using r wf_endp [OF s] by (auto simp: stream_put_def Let_def split: if_splits)
next
  case (Fa a b c d)
  then show ?thesis using r wf_endp [OF s] by (auto simp: stream_put_ipv4_def simp del: store.simps split: if_splits)
next
  case (Fc x) then show ?thesis using r c.put_ok [OF s, of x] by (auto simp: appended_def simp del: put_bytes.simps split: if_splits)
next
  case (Fw x) then show ?thesis using r w.put_ok [OF s, of x] by (auto simp: appended_def split: if_splits)
next
  case (Fl x) then show ?thesis using r l.put_ok [OF s, of x] by (auto simp: appended_def split: if_splits)
next
  case (Fq x) then show ?thesis using r q.put_ok [OF s, of x] by (auto simp: appended_def split: if_splits)
qed

lemma get_field_wf:
  assumes s: "wf_stream s" and r: "get_field k s = Some (f, s')"
  shows "wf_stream s'"
proof (cases k)
  case (Kb n)
  then have "unat n \<le> length (unread s)"
    using r room(2) [OF s] wf_streamD(8) [OF s] by (auto simp: stream_get_def word_less_nat_alt split: if_splits)
  then show ?thesis using stream_get_ok [OF s, of n] r Kb by (auto simp: consumed_def)
next
  case Ka
  then have "4 \<le> length (unread s)"
    using r room(2) [OF s] wf_streamD(8) [OF s] by (auto simp: stream_get_ipv4_def word_less_nat_alt split: if_splits)
  then show ?thesis using get_ipv4_ok [OF s] r Ka by (auto simp: consumed_def)
next
  case Kc then show ?thesis using r c.get_ok [OF s] by (auto simp: consumed_def split: if_splits)
next
  case Kw then show ?thesis using r w.get_ok [OF s] by (auto simp: consumed_def split: if_splits)
next
  case Kl then show ?thesis using r l.get_ok [OF s] by (auto simp: consumed_def split: if_splits)
next
  case Kq then show ?thesis using r q.get_ok [OF s] by (auto simp: consumed_def split: if_splits)
qed

lemma put_prefix_wf:
  assumes s: "wf_stream s" and r: "stream_put_prefix s p = Some (n, s')"
  shows "wf_stream s'"
proof -
  let ?n = "PSIZE (prefixlen p)" and ?s = "put_bytes [prefixlen p] s"
  have fits: "\<not> STREAM_WRITEABLE s < ?n + 1" and s': "s' = (store (endp ?s) (take (unat ?n) (pbytes p)) ?s)\<lparr>endp := endp ?s + ?n\<rparr>"
    using r by (auto simp: stream_put_prefix_def Let_def split: if_splits)
  have u: "unat (?n + 1) = unat ?n + 1" by (rule unat_PSIZE)
  then have e: "unat (endp s) + (unat ?n + 1) \<le> unat (ssize s)"
    using fits room(1) [OF s] wf_streamD(2) [OF s] by (simp add: word_less_nat_alt)
  then have "appended [prefixlen p] s ?s"
    using c.put_ok [OF s, of "prefixlen p"] wf_streamD(6) [OF s] by (auto simp: stream_putc_def split: if_splits)
  then have z: "wf_stream ?s" "ssize ?s = ssize s" "unat (endp ?s) = unat (endp s) + 1"
    using wf_streamD(7) [of ?s] wf_streamD(7) [OF s] by (simp_all add: appended_def)
  have "\<not> STREAM_WRITEABLE ?s < ?n" using room(1) [OF z(1)] z(2,3) e by (simp add: word_less_nat_alt)
  then show ?thesis using wf_endp [OF z(1)] s' by simp
qed

lemmas stream_io_defs = stream_read_def stream_read_try_def stream_recvfrom_def stream_recvmsg_def

lemma io_wf:
  assumes s: "wf_stream s" and a: "io_ok a n"
    and r: "stream_read a s n = Some (k, s') \<or> stream_read_try a s n = Some (k, s') \<or> stream_recvfrom a s n = Some (k, s') \<or>
      stream_recvmsg a i s n = Some (k, s')"
  shows "wf_stream s'"
proof (cases "STREAM_WRITEABLE s < n")
  case False
  have e: "io_ret a \<ge> 0 \<Longrightarrow> wf_stream (s\<lparr>endp := endp s + of_int (io_ret a)\<rparr>)" by (rule io_endp [OF s False a])
  let ?z = "store (endp s) (io_bytes a) s"
  have "s' = ?z \<or> (io_ret a \<ge> 0 \<and> s' = ?z\<lparr>endp := endp s + of_int (io_ret a)\<rparr>)"
    using r unfolding stream_io_defs Let_def by (auto split: if_splits)
  then show ?thesis using e s by auto
qed (use r in \<open>auto simp: stream_io_defs split: if_splits\<close>)

lemma position_wf:
  assumes s: "wf_stream s"
    and r: "stream_set_getp s n = Some s' \<or> stream_set_endp s n = Some s' \<or> stream_forward_getp s n = Some s' \<or>
      stream_reset s = Some s'"
  shows "wf_stream s'"
  using r s unfolding stream_set_getp_def stream_set_endp_def stream_forward_getp_def stream_reset_def Let_def
  by (auto simp: wf_stream_def STREAM_SANE_def GETP_VALID_def ENDP_VALID_def split: if_splits)

lemma forward_endp_wf:
  assumes s: "wf_stream s" and small: "unat (endp s) + unat n < 2 ^ 64" and r: "stream_forward_endp s n = Some s'"
  shows "wf_stream s'"
proof -
  have n: "endp s + n \<le> ssize s" "s' = s\<lparr>endp := endp s + n\<rparr>"
    using r by (auto simp: stream_forward_endp_def ENDP_VALID_def split: if_splits)
  have "endp s \<le> endp s + n" using small by (simp add: word_le_nat_alt unat_word_ariths)
  then show ?thesis using n wf_streamD [OF s] by (intro wf_streamI) (simp_all add: word_le_nat_alt)
qed

lemma forward_wf:
  assumes s: "wf_stream s" and n: "0 \<le> int (unat (getp s)) + sint n" "int (unat (getp s)) + sint n \<le> int (unat (endp s))"
  shows "wf_stream (stream_forward s n)"
proof -
  have "getp s + scast n = word_of_int (int (unat (getp s)) + sint n)"
    by (simp add: uint_nat [symmetric])
  moreover have "int (unat (getp s)) + sint n < 2 ^ 64"
    using n(2) unsigned_less [where 'a = int, of "endp s"] by simp
  ultimately have "int (unat (getp s + scast n)) = int (unat (getp s)) + sint n"
    using n(1) by (simp add: uint_nat [symmetric] word_of_int_inverse)
  then have "getp s + scast n \<le> endp s" using n(2) by (simp add: word_le_def uint_nat [symmetric])
  then show ?thesis unfolding stream_forward_def by (rule wf_getp [OF s])
qed

lemma read_unblock_wf:
  assumes s: "wf_stream s" and a: "io_ret a \<ge> 0 \<longrightarrow> io_ret a = int (length (io_bytes a))"
    and n: "unat (endp s) + length (io_bytes a) \<le> unat (ssize s)" and r: "stream_read_unblock a s = Some (k, s')"
  shows "wf_stream s'"
proof -
  have "length (io_bytes a) < 2 ^ 64"
    using n unsigned_less [of "ssize s"] by (intro le_less_trans [of "length (io_bytes a)" "unat (ssize s)"]) simp_all
  then have u: "unat (of_nat (length (io_bytes a)) :: size_t) = length (io_bytes a)" by (rule unat_word_of_nat_less)
  then have "wf_stream (s\<lparr>endp := endp s + of_nat (length (io_bytes a))\<rparr>)"
    using wf_endp [OF s clip_size(2) [OF s]] n by simp
  then have "wf_stream (z\<lparr>putp := q, endp := endp s + of_nat (length (io_bytes a))\<rparr>)"
    if "z = store i bs s" for z i bs q
    using that by (simp add: wf_stream_def STREAM_SANE_def GETP_VALID_def ENDP_VALID_def)
  then show ?thesis using r a s by (auto simp: stream_read_unblock_def Let_def split: if_splits)
qed

lemma call_stays_within:
  assumes s: "wf_stream s" and l: "stream_legal op s" and r: "stream_call op s = Some s'"
  shows "wf_stream s'"
proof (cases op)
  case (Put f)
  then show ?thesis using r put_field_wf [OF s] by simp
next
  case (Get k)
  then show ?thesis using r get_field_wf [OF s] by auto
next
  case (Put_at pos f)
  then show ?thesis
    using r s by (cases f) (auto simp: stream_putc_at_def stream_putw_at_def stream_putl_at_def stream_putq_at_def
        simp del: store.simps split: if_splits)
next
  case (Put_prefix p)
  then show ?thesis using r put_prefix_wf [OF s] by auto
next
  case (Put_zeros n)
  then show ?thesis using r wf_endp [OF s] by (auto simp: stream_put_def Let_def split: if_splits)
next
  case (Write bs n)
  then show ?thesis using r wf_endp [OF s] by (auto simp: stream_write_def Let_def split: if_splits)
next
  case (Put_addr a)
  then show ?thesis using r wf_endp [OF s] by (auto simp: stream_put_ipv4_def split: if_splits)
next
  case Get_addr
  then have "4 \<le> length (unread s)" "s' = s\<lparr>getp := getp s + 4\<rparr>"
    using r room(2) [OF s] wf_streamD(8) [OF s] by (auto simp: stream_get_ipv4_def word_less_nat_alt split: if_splits)
  then show ?thesis using get_consumes(2) [OF s, of 4] by (simp add: consumed_def)
next
  case (Resize junk n)
  then show ?thesis
    using r l wf_streamD(3) [OF s] by (auto simp: stream_resize_def Let_def wf_stream_def split: if_splits)
next
  case (Set_putp n)
  then show ?thesis
    using r s by (auto simp: stream_set_putp_def wf_stream_def STREAM_SANE_def GETP_VALID_def ENDP_VALID_def)
next
  case (Read a n)
  then show ?thesis using r l io_wf [OF s, of a n _ s' 0] by auto
next
  case (Read_try a n)
  then show ?thesis using r l io_wf [OF s, of a n _ s' 0] by auto
next
  case (Recvfrom a n)
  then show ?thesis using r l io_wf [OF s, of a n _ s' 0] by auto
next
  case (Recvmsg a i n)
  then show ?thesis using r l io_wf [OF s, of a n _ s' i] by auto
next
  case (Advance n)
  then show ?thesis using r l forward_wf [OF s] by auto
next
  case (Read_unblock a)
  then show ?thesis using r l read_unblock_wf [OF s, of a _ s'] by auto
qed (use r l position_wf [OF s] forward_endp_wf [OF s] in auto)

text \<open>Any sequence of calls.\<close>

fun stream_calls :: "stream_op list \<Rightarrow> stream \<Rightarrow> stream option" where
  "stream_calls [] s = Some s"
| "stream_calls (op # ops) s =
     (if stream_legal op s then (case stream_call op s of None \<Rightarrow> None | Some s \<Rightarrow> stream_calls ops s) else None)"

text \<open>
  C5: from any stream with \<open>getp <= endp <= size\<close> and a buffer of that size, every sequence of legal
  calls that does not fail an assertion leads to such a stream again.  The calls are all those that change
  a stream.  Legal is what \<open>stream_legal\<close> asks: buffers are as long as the caller says, the
  kernel stores what it counts and no more than it was asked for, the end is not moved forward by an
  amount that wraps around, and the two calls without a check of their own move \<open>getp\<close>
  within what is written (\<open>stream_forward\<close>) or read no more than fits (\<open>stream_read_unblock\<close>).
\<close>

theorem stream_stays_inside:
  assumes "wf_stream s" "stream_calls ops s = Some s'"
  shows "wf_stream s'"
  using assms
proof (induction ops arbitrary: s)
  case (Cons op ops)
  then show ?case using call_stays_within [OF Cons.prems(1)] by (auto split: if_splits option.splits)
qed simp

text \<open>A new stream is one.\<close>

lemma stream_new_wf: "stream_new n = Some (Some s) \<Longrightarrow> wf_stream s"
  by (auto simp: stream_new_def intro!: wf_streamI split: if_splits)

definition small_stream :: stream where
  "small_stream = \<lparr>snext = 0, putp = 0, getp = 0, endp = 0, ssize = 8, sdata = [0, 0, 0, 0, 0, 0, 0, 0]\<rparr>"

lemma replicate_8: "replicate 8 x = [x, x, x, x, x, x, x, x]"
  by (simp add: numeral_eq_Suc)

lemma small_stream_new: "stream_new 8 = Some (Some small_stream)"
  by (simp add: stream_new_def alloc_fits_def small_stream_def replicate_8)

lemmas stream_compute = small_stream_def STREAM_SANE_def GETP_VALID_def PUT_AT_VALID_def ENDP_VALID_def STREAM_WRITEABLE_def
  STREAM_READABLE_def CHECK_SIZE_def byte_at_def IN_DATA_def stream_putc_def stream_putw_def stream_putl_def stream_getc_def
  stream_getw_def stream_getl_def stream_set_getp_def stream_forward_getp_def stream_forward_endp_def stream_forward_def
  stream_getw_from_def stream_put_def stream_get_def Let_def split16_def split32_def join16_def join32_def

theorem stream_stays_inside_witness:
  "wf_stream (small_stream\<lparr>sdata := [7, 0, 0, 0, 0, 0, 0, 0], endp := 1, getp := 1\<rparr>)"
proof (rule stream_stays_inside [OF stream_new_wf [OF small_stream_new]])
  show "stream_calls [Put (Fc 7), Get Kc] small_stream = Some (small_stream\<lparr>sdata := [7, 0, 0, 0, 0, 0, 0, 0], endp := 1, getp := 1\<rparr>)"
    by (simp add: stream_compute)
qed

text \<open>
  C6: a message comes back: any sequence of bytes, words, long words, quad words, IPv4 addresses and
  blocks that fits behind what has been written is put without a failure.  What was unread before is then
  read first and unchanged, and reading behind it with the same widths returns the very values
  and leaves nothing.
\<close>

theorem message_comes_back:
  assumes "wf_stream s" "unat (endp s) + length (concat (map encode fs)) \<le> unat (ssize s)"
  shows "\<exists>s1 s2 s3. put_fields fs s = Some s1 \<and> stream_get s1 (of_nat (length (unread s))) = Some (unread s, s2) \<and>
    get_fields (map format_of fs) s2 = Some (fs, s3) \<and> unread s3 = [] \<and> written s3 = written s @ concat (map encode fs)"
proof -
  obtain s1 where s1: "put_fields fs s = Some s1" "appended (concat (map encode fs)) s s1"
    using put_fields_ok [OF assms] by blast
  have w: "wf_stream s1" and u: "unread s1 = unread s @ concat (map encode fs)"
    using s1(2) wf_streamD(1,7,8) [OF assms(1)] by (simp_all add: appended_def unread_def)
  have "length (unread s) < 2 ^ 64"
    using wf_streamD(8) [OF assms(1)] unsigned_less [where 'a = nat, of "endp s"] by (simp add: less_imp_diff_less)
  then have "unat (of_nat (length (unread s)) :: size_t) = length (unread s)" by (rule unat_word_of_nat_less)
  then obtain s2 where s2: "stream_get s1 (of_nat (length (unread s))) = Some (unread s, s2)" "consumed (unread s) s1 s2"
    using stream_get_ok [OF w, of "of_nat (length (unread s))"] u by auto
  with get_fields_ok [of s2 fs "[]"] s1 u show ?thesis by (auto simp: appended_def consumed_def)
qed

definition example_message :: "field list" where
  "example_message = [Fw 0x1234, Fa 10 0 0 1]"

theorem message_comes_back_witness:
  "\<exists>s1 s2 s3. put_fields example_message (small_stream\<lparr>sdata := [7, 5, 0, 0, 0, 0, 0, 0], endp := 2, getp := 1\<rparr>) = Some s1 \<and>
    stream_get s1 1 = Some ([5], s2) \<and> get_fields [Kw, Ka] s2 = Some (example_message, s3) \<and> unread s3 = [] \<and>
    written s3 = [7, 5, 0x12, 0x34, 10, 0, 0, 1]"
proof -
  let ?s = "small_stream\<lparr>sdata := [7, 5, 0, 0, 0, 0, 0, 0], endp := 2, getp := 1\<rparr>"
  have "wf_stream ?s" by (rule wf_streamI) (simp_all add: small_stream_def)
  moreover have "unat (endp ?s) + length (concat (map encode example_message)) \<le> unat (ssize ?s)"
    by (simp add: small_stream_def example_message_def)
  moreover have "unread ?s = [5]" "written ?s = [7, 5]"
    by (simp_all add: small_stream_def unread_def written_def)
  moreover have one: "(of_nat (length [x :: u8]) :: size_t) = 1" for x by simp
  moreover have "map format_of example_message = [Kw, Ka]"
    "[7, 5] @ concat (map encode example_message) = [7, 5, 0x12, 0x34, 10, 0, 0, 1]"
    by (simp_all add: example_message_def split16_def)
  ultimately show ?thesis
    using message_comes_back [of ?s example_message] by (simp only: one)
qed

text \<open>
  C23: a field that does not fit is refused, one that does is written: putting a number fails
  its assertion exactly when fewer bytes are free than it has.
\<close>

theorem put_fails_iff_full:
  assumes "wf_stream s"
  shows "(stream_putc s c = None \<longleftrightarrow> unat (ssize s) < unat (endp s) + 1) \<and> (stream_putw s w = None \<longleftrightarrow> unat (ssize s) < unat (endp s) + 2) \<and>
    (stream_putl s l = None \<longleftrightarrow> unat (ssize s) < unat (endp s) + 4) \<and> (stream_putq s q = None \<longleftrightarrow> unat (ssize s) < unat (endp s) + 8)"
  using c.put_ok [OF assms, of c] w.put_ok [OF assms, of w] l.put_ok [OF assms, of l] q.put_ok [OF assms, of q]
  by (auto split: if_splits)

theorem put_fails_iff_full_witness: "stream_putq (small_stream\<lparr>endp := 1\<rparr>) 5 = None"
proof -
  have "wf_stream (small_stream\<lparr>endp := 1\<rparr>)" by (rule wf_streamI) (simp_all add: small_stream_def)
  from put_fails_iff_full [OF this, where q = 5] show ?thesis by (simp add: small_stream_def)
qed

section \<open>Copies\<close>

lemma bytes_written:
  assumes s: "wf_stream s" and n: "unat i + n \<le> unat (endp s)"
  shows "bytes_from n i s = take n (drop (unat i) (written s))"
proof -
  have "inside i n s" using n wf_streamD(2,3) [OF s] by (simp add: inside_def)
  then show ?thesis using n by (simp add: bytes_from_take written_def drop_take)
qed

text \<open>Filling a fresh buffer from the front.\<close>

definition filled :: "u8 list \<Rightarrow> stream \<Rightarrow> bool" where
  "filled bs s \<longleftrightarrow> length (sdata s) = unat (ssize s) \<and> length bs \<le> unat (ssize s) \<and> take (length bs) (sdata s) = bs"

lemma store_fills:
  assumes s: "filled bs s" and n: "unat i = length bs" "length bs + length cs \<le> unat (ssize s)"
  shows "filled (bs @ cs) (store i cs s)"
proof -
  have i: "inside i (length cs) s" using s n by (simp add: inside_def filled_def)
  have "take (length bs + length cs) (poke (length bs) cs (sdata s)) = bs @ cs"
    using s by (subst take_poke) (simp_all add: filled_def)
  then show ?thesis using s n length_poke [of "length bs" cs "sdata s"] by (simp add: store_pokes [OF i] filled_def)
qed

text \<open>
  C24: \<open>stream_dupcat_offset\<close> inserts: for an offset within the first stream the new stream holds
  its bytes up to the offset, all of the second stream, and the rest of the first.
\<close>

theorem dupcat_offset_inserts:
  assumes "wf_stream s1" "wf_stream s2" "offset \<le> endp s1" "endp s1 \<noteq> 0 \<or> endp s2 \<noteq> 0" "unat (endp s1) + unat (endp s2) < 2 ^ 31"
  shows "\<exists>new. stream_dupcat_offset s1 s2 offset = Some (Some new) \<and> wf_stream new \<and> unread new = written new \<and>
    written new = take (unat offset) (written s1) @ written s2 @ drop (unat offset) (written s1)"
proof -
  let ?n = "endp s1 + endp s2"
  have u: "unat ?n = unat (endp s1) + unat (endp s2)" using assms(5) by (simp add: unat_word_ariths)
  have o: "unat offset \<le> unat (endp s1)" using assms(3) by (simp add: word_le_nat_alt)
  then have u2: "unat (offset + endp s2) = unat offset + unat (endp s2)" using assms(5) by (simp add: unat_word_ariths)
  have u3: "unat (endp s1 - offset) = unat (endp s1) - unat offset" using assms(3) by (rule unat_sub)
  have nz: "?n \<noteq> 0" using u assms(4) by (metis add_is_0 unat_eq_zero)
  let ?z = "\<lparr>snext = 0, putp = 0, getp = 0, endp = 0, ssize = ?n, sdata = replicate (unat ?n) 0\<rparr>"
  have new: "stream_new ?n = Some (Some ?z)" using nz u assms(5) by (simp add: stream_new_def alloc_fits_def)
  define a where "a = take (unat offset) (written s1)"
  define b where "b = written s2"
  define c where "c = drop (unat offset) (written s1)"
  note w = wf_streamD(7) [OF assms(1)] wf_streamD(7) [OF assms(2)]
  have l: "length a = unat offset" "length b = unat (endp s2)" "length c = unat (endp s1) - unat offset"
    using w o by (simp_all add: a_def b_def c_def)
  have bf: "bytes_from (unat offset) 0 s1 = a" "bytes_from (unat (endp s2)) 0 s2 = b" "bytes_from (unat (endp s1 - offset)) offset s1 = c"
    using bytes_written [OF assms(1), of 0 "unat offset"] bytes_written [OF assms(2), of 0 "unat (endp s2)"]
      bytes_written [OF assms(1), of offset "unat (endp s1 - offset)"] o u3 w l by (simp_all add: a_def b_def c_def)
  let ?r = "store (offset + endp s2) c (store offset b (store 0 a ?z))"
  have "filled [] ?z" by (simp add: filled_def)
  then have "filled a (store 0 a ?z)" using store_fills [of "[]" ?z 0 a] l o u by simp
  then have "filled (a @ b) (store offset b (store 0 a ?z))" using store_fills [of a _ offset b] l o u by simp
  then have f: "filled (a @ b @ c) ?r" using store_fills [of "a @ b" _ "offset + endp s2" c] l o u u2 by simp
  have "\<not> (offset > endp s1 \<or> ssize ?z < endp s1)" using assms(3) o u by (auto simp: word_less_nat_alt)
  then have r: "stream_dupcat_offset s1 s2 offset = Some (Some (?r\<lparr>endp := ?n\<rparr>))"
    using wf_streamD(6) [OF assms(1)] wf_streamD(6) [OF assms(2)]
    by (simp add: stream_dupcat_offset_def new bf Let_def del: store.simps)
  have "length (a @ b @ c) = unat ?n" using l o u by simp
  then have "written (?r\<lparr>endp := ?n\<rparr>) = a @ b @ c" using f by (simp add: written_def filled_def)
  moreover have "wf_stream (?r\<lparr>endp := ?n\<rparr>)" using f by (intro wf_streamI) (simp_all add: filled_def)
  moreover have "unread (?r\<lparr>endp := ?n\<rparr>) = written (?r\<lparr>endp := ?n\<rparr>)" by (simp add: unread_def)
  ultimately show ?thesis using r unfolding a_def b_def c_def by blast
qed

definition stream_of :: "u8 list \<Rightarrow> stream" where
  "stream_of bs = \<lparr>snext = 0, putp = 0, getp = 0, endp = of_nat (length bs), ssize = of_nat (length bs), sdata = bs\<rparr>"

theorem dupcat_offset_inserts_witness:
  "\<exists>new. stream_dupcat_offset (stream_of [1, 2, 3]) (stream_of [7, 8]) 1 = Some (Some new) \<and> wf_stream new \<and>
    unread new = written new \<and> written new = [1, 7, 8, 2, 3]"
proof -
  have "wf_stream (stream_of [1, 2, 3])" "wf_stream (stream_of [7, 8])"
    by (rule wf_streamI; simp add: stream_of_def)+
  from dupcat_offset_inserts [OF this, of 1] show ?thesis
    by (simp add: stream_of_def written_def word_le_nat_alt)
qed

text \<open>Resizing keeps what fits.\<close>

lemma resize_keeps:
  assumes s: "wf_stream s" and n: "newsize \<noteq> 0" "alloc_fits newsize" "unat newsize \<le> length (sdata s) + length junk"
  shows "\<exists>s'. stream_resize junk s newsize = Some (newsize, s') \<and> wf_stream s' \<and> written s' = take (unat newsize) (written s)"
proof -
  note d = wf_streamD [OF s]
  let ?d = "take (unat newsize) (sdata s @ junk)"
  have "take (min (unat (endp s)) (unat newsize)) ?d = take (unat newsize) (take (unat (endp s)) (sdata s))"
    using d(2,3) by (simp add: min_def)
  then show ?thesis
    using d n by (auto simp: stream_resize_def Let_def wf_stream_def STREAM_SANE_def GETP_VALID_def ENDP_VALID_def written_def
        word_less_nat_alt word_le_nat_alt min_def)
qed

section \<open>Positions that wrap around\<close>

text \<open>The checks add before they compare, so a huge distance moves backwards.\<close>

lemma forward_getp_backwards: "\<exists>s s'. wf_stream s \<and> stream_forward_getp s (- 1) = Some s' \<and> getp s' < getp s"
proof (intro exI conjI)
  let ?s = "(stream_of [1, 2])\<lparr>getp := 2\<rparr>"
  show "wf_stream ?s" by (rule wf_streamI) (simp_all add: stream_of_def)
  show "stream_forward_getp ?s (- 1) = Some (?s\<lparr>getp := 1\<rparr>)"
    by (simp add: stream_forward_getp_def STREAM_SANE_def GETP_VALID_def ENDP_VALID_def stream_of_def word_le_nat_alt)
  show "getp (?s\<lparr>getp := 1\<rparr>) < getp ?s" by (simp add: word_less_nat_alt)
qed

text \<open>With the end it leaves a stream that every further call rejects.\<close>

lemma forward_endp_breaks: "\<exists>s s'. wf_stream s \<and> stream_forward_endp s (- 1) = Some s' \<and> \<not> wf_stream s'"
proof (intro exI conjI)
  let ?s = "(stream_of [1, 2])\<lparr>getp := 2\<rparr>"
  show "wf_stream ?s" by (rule wf_streamI) (simp_all add: stream_of_def)
  show "stream_forward_endp ?s (- 1) = Some (?s\<lparr>endp := 1\<rparr>)"
    by (simp add: stream_forward_endp_def STREAM_SANE_def GETP_VALID_def ENDP_VALID_def stream_of_def word_le_nat_alt)
  show "\<not> wf_stream (?s\<lparr>endp := 1\<rparr>)" by (simp add: wf_stream_def STREAM_SANE_def GETP_VALID_def word_le_nat_alt)
qed

text \<open>\<open>stream_forward\<close> does not check at all.\<close>

lemma forward_breaks: "\<exists>s. wf_stream s \<and> \<not> wf_stream (stream_forward s 1)"
proof (intro exI conjI)
  let ?s = "(stream_of [1, 2])\<lparr>getp := 2\<rparr>"
  show "wf_stream ?s" by (rule wf_streamI) (simp_all add: stream_of_def)
  show "\<not> wf_stream (stream_forward ?s 1)"
    by (simp add: wf_stream_def STREAM_SANE_def GETP_VALID_def stream_forward_def stream_of_def word_le_nat_alt)
qed

text \<open>The last offset passes the check of a word, whose bytes would lie outside the buffer.\<close>

lemma last_offset_passes: "\<exists>s. wf_stream s \<and> GETP_VALID s (- 1 + 2) \<and> stream_getw_from s (- 1) = None"
proof (intro exI conjI)
  let ?s = "stream_of [1, 2]"
  show "wf_stream ?s" by (rule wf_streamI) (simp_all add: stream_of_def)
  show "GETP_VALID ?s (- 1 + 2)" by (simp add: GETP_VALID_def stream_of_def word_le_nat_alt)
  show "stream_getw_from ?s (- 1) = None"
    by (simp add: stream_getw_from_def IN_DATA_def stream_of_def unsigned_minus_1_eq_mask mask_eq_exp_minus_1)
qed

text \<open>
  \<open>stream_reset\<close> leaves \<open>putp\<close> as it is, so bytes read with \<open>stream_read_unblock\<close> after it do not lie
  where the stream says they are.
\<close>

lemma reset_forgets_putp:
  "\<exists>s s' s''. wf_stream s \<and> stream_reset s = Some s' \<and> stream_read_unblock \<lparr>io_ret = 1, io_bytes = [9], io_retry = False\<rparr> s' = Some (1, s'') \<and>
    unread s'' \<noteq> [9]"
proof (intro exI conjI)
  let ?s = "(stream_of [1, 2])\<lparr>endp := 1, putp := 1\<rparr>"
  show "wf_stream ?s" by (rule wf_streamI) (simp_all add: stream_of_def)
  show "stream_reset ?s = Some (?s\<lparr>endp := 0\<rparr>)"
    by (simp add: stream_reset_def STREAM_SANE_def GETP_VALID_def ENDP_VALID_def stream_of_def word_le_nat_alt)
  show "stream_read_unblock \<lparr>io_ret = 1, io_bytes = [9], io_retry = False\<rparr> (?s\<lparr>endp := 0\<rparr>) =
      Some (1, ?s\<lparr>endp := 1, putp := 2, sdata := [1, 9]\<rparr>)"
    by (simp add: stream_read_unblock_def stream_of_def)
  show "unread (?s\<lparr>endp := 1, putp := 2, sdata := [1, 9]\<rparr>) \<noteq> [9]"
    by (simp add: unread_def written_def stream_of_def)
qed

section \<open>Queues of streams\<close>

text \<open>The streams \<open>xs\<close> hang behind each other from \<open>p\<close> on, and the last one has no successor.\<close>

fun chain :: "stream_heap \<Rightarrow> nat \<Rightarrow> nat list \<Rightarrow> bool" where
  "chain h p [] \<longleftrightarrow> p = 0"
| "chain h p (x # xs) \<longleftrightarrow> p = x \<and> x \<noteq> 0 \<and> (\<exists>s. h x = Some s \<and> chain h (snext s) xs)"

definition fifo_list :: "stream_fifo \<times> stream_heap \<Rightarrow> nat list \<Rightarrow> bool" where
  "fifo_list = (\<lambda>(f, h) xs. chain h (fhead f) xs \<and> distinct xs \<and> ftail f = (if xs = [] then 0 else last xs) \<and>
     unat (fcount f) = length xs)"

lemma chain_frame: "chain h p xs \<Longrightarrow> x \<notin> set xs \<Longrightarrow> chain (h(x := v)) p xs"
  by (induction xs arbitrary: p) auto

lemma chain_nonnull: "chain h p xs \<Longrightarrow> x \<in> set xs \<Longrightarrow> x \<noteq> 0"
  by (induction xs arbitrary: p) auto

lemma chain_append:
  assumes "chain h p (ys @ [y])" "x \<notin> set (ys @ [y])" "x \<noteq> 0" "h x = Some s" "snext s = 0" "distinct (ys @ [y])"
  shows "chain (h(y := Some ((the (h y))\<lparr>snext := x\<rparr>))) p (ys @ [y, x])"
  using assms
proof (induction ys arbitrary: p)
  case Nil
  then show ?case by auto
next
  case (Cons a ys)
  then obtain t where t: "p = a" "a \<noteq> 0" "h a = Some t" "chain h (snext t) (ys @ [y])" by auto
  with Cons show ?case by auto
qed

lemma push_fifo_list:
  assumes f: "fifo_list (f, h) xs" and x: "x \<noteq> 0" "x \<notin> set xs" "h x = Some s" "snext s = 0" and n: "length xs < 2 ^ 64 - 1"
  shows "fifo_list (stream_fifo_push x (f, h)) (xs @ [x])"
proof -
  have c: "unat (fcount f + 1) = length xs + 1" using f n by (simp add: fifo_list_def unat_word_ariths)
  show ?thesis
  proof (cases xs rule: rev_cases)
    case Nil
    then show ?thesis using f x c by (simp add: fifo_list_def stream_fifo_push_def)
  next
    case (snoc ys y)
    have y: "y \<noteq> 0" using f snoc by (auto simp: fifo_list_def dest: chain_nonnull)
    have "chain (h(y := Some ((the (h y))\<lparr>snext := x\<rparr>))) (fhead f) (ys @ [y, x])"
      using f snoc x by (intro chain_append) (auto simp: fifo_list_def)
    then show ?thesis using f x c y snoc by (simp add: fifo_list_def stream_fifo_push_def)
  qed
qed

lemma pop_fifo_list:
  assumes "fifo_list (f, h) (x # xs)"
  shows "case stream_fifo_pop (f, h) of (y, f', h') \<Rightarrow> y = x \<and> h' = h \<and> fifo_list (f', h') xs"
proof -
  obtain s where s: "fhead f = x" "x \<noteq> 0" "h x = Some s" "chain h (snext s) xs" using assms by (auto simp: fifo_list_def)
  have e: "snext s = 0 \<longleftrightarrow> xs = []" using s(4) by (cases xs) auto
  have u: "unat (fcount f) = Suc (length xs)" using assms by (simp add: fifo_list_def)
  then have "fcount f \<noteq> 0" by auto
  then have c: "unat (fcount f - 1) = length xs" using u by (simp add: unat_minus_one)
  show ?thesis using assms s e c by (auto simp: fifo_list_def stream_fifo_pop_def Let_def)
qed

lemma pop_empty: "fifo_list (f, h) [] \<Longrightarrow> stream_fifo_pop (f, h) = (0, f, h)"
  by (simp add: fifo_list_def stream_fifo_pop_def)

lemma clean_loop_chain: "chain h p xs \<Longrightarrow> distinct xs \<Longrightarrow> clean_loop p h = Some (h |` (- set xs))"
proof (induction xs arbitrary: h p)
  case Nil
  then show ?case by (subst clean_loop.simps) (simp add: restrict_map_def)
next
  case (Cons x xs)
  then obtain s where s: "p = x" "x \<noteq> 0" "h x = Some s" "chain h (snext s) xs" by auto
  have ch: "chain (h(x := None)) (snext s) xs" using s(4) Cons.prems(2) by (simp add: chain_frame)
  have "distinct xs" using Cons.prems(2) by simp
  then have "clean_loop (snext s) (h(x := None)) = Some ((h(x := None)) |` (- set xs))"
    by (rule Cons.IH [OF ch])
  moreover have "(h(x := None)) |` (- set xs) = h |` (- set (x # xs))" by (auto simp: restrict_map_def fun_eq_iff)
  ultimately show ?case using s by (subst clean_loop.simps) (simp add: stream_free_def)
qed

text \<open>
  Calls on a queue, and what they do to the list of queued streams.  A stream is a spare one while
  it is in no queue and has no successor: \<open>stream_fifo_pop\<close> does not clear \<open>next\<close>, so only the last
  one to leave can be queued again.
\<close>

datatype fifo_call = Push nat | Pop | Head | Clean

fun do_call :: "fifo_call \<Rightarrow> stream_fifo \<times> stream_heap \<Rightarrow> (nat \<times> stream_fifo \<times> stream_heap) option" where
  "do_call (Push x) q = Some (0, stream_fifo_push x q)"
| "do_call Pop q = Some (stream_fifo_pop q)"
| "do_call Head q = Some (stream_fifo_head q, q)"
| "do_call Clean q = map_option (Pair 0) (stream_fifo_clean q)"

fun fifo_calls :: "fifo_call list \<Rightarrow> stream_fifo \<times> stream_heap \<Rightarrow> nat list option" where
  "fifo_calls [] q = Some []"
| "fifo_calls (c # cs) q = (case do_call c q of None \<Rightarrow> None | Some (r, q) \<Rightarrow> map_option ((#) r) (fifo_calls cs q))"

fun queue_call :: "fifo_call \<Rightarrow> nat list \<times> nat set \<Rightarrow> nat \<times> nat list \<times> nat set" where
  "queue_call (Push x) (xs, spare) = (0, xs @ [x], spare - {x})"
| "queue_call Pop (xs, spare) = (case xs of [] \<Rightarrow> (0, [], spare) | x # ys \<Rightarrow> (x, ys, if ys = [] then insert x spare else spare))"
| "queue_call Head (xs, spare) = ((case xs of [] \<Rightarrow> 0 | x # _ \<Rightarrow> x), xs, spare)"
| "queue_call Clean (xs, spare) = (0, [], spare)"

fun queue_calls :: "fifo_call list \<Rightarrow> nat list \<times> nat set \<Rightarrow> nat list" where
  "queue_calls [] q = []"
| "queue_calls (c # cs) q = (case queue_call c q of (r, q) \<Rightarrow> r # queue_calls cs q)"

fun calls_legal :: "fifo_call list \<Rightarrow> nat list \<times> nat set \<Rightarrow> bool" where
  "calls_legal [] q \<longleftrightarrow> True"
| "calls_legal (c # cs) q \<longleftrightarrow> (case c of Push x \<Rightarrow> x \<in> snd q | _ \<Rightarrow> True) \<and> calls_legal cs (snd (queue_call c q))"

definition spare_ok :: "stream_heap \<Rightarrow> nat list \<Rightarrow> nat set \<Rightarrow> bool" where
  "spare_ok h xs spare \<longleftrightarrow> (\<forall>x\<in>spare. x \<noteq> 0 \<and> x \<notin> set xs \<and> (\<exists>s. h x = Some s \<and> snext s = 0))"

definition represents :: "nat list \<times> nat set \<Rightarrow> stream_fifo \<times> stream_heap \<Rightarrow> bool" where
  "represents = (\<lambda>(xs, spare) q. fifo_list q xs \<and> spare_ok (snd q) xs spare)"

lemma represents_push:
  assumes "represents (xs, spare) q" "x \<in> spare" "length xs < 2 ^ 64 - 1"
  shows "represents (xs @ [x], spare - {x}) (stream_fifo_push x q)"
proof -
  obtain f h where q: "q = (f, h)" by (cases q)
  note r = assms(1) [unfolded represents_def q prod.case snd_conv]
  obtain s where s: "x \<noteq> 0" "x \<notin> set xs" "h x = Some s" "snext s = 0"
    using r assms(2) by (auto simp: spare_ok_def)
  have "fifo_list (stream_fifo_push x (f, h)) (xs @ [x])"
    using push_fifo_list [of f h xs x s] r s assms(3) by simp
  moreover have "ftail f \<notin> spare"
    using r last_in_set [of xs] by (auto simp: fifo_list_def spare_ok_def split: if_splits)
  then have "spare_ok (snd (stream_fifo_push x (f, h))) (xs @ [x]) (spare - {x})"
    using r by (auto simp: spare_ok_def stream_fifo_push_def)
  ultimately show ?thesis by (simp add: represents_def q)
qed

lemma represents_pop:
  assumes "represents (xs, spare) q"
  shows "fst (stream_fifo_pop q) = fst (queue_call Pop (xs, spare)) \<and>
    represents (snd (queue_call Pop (xs, spare))) (snd (stream_fifo_pop q))"
proof -
  obtain f h where q: "q = (f, h)" by (cases q)
  note r = assms [unfolded represents_def q prod.case snd_conv]
  show ?thesis
  proof (cases xs)
    case Nil
    then show ?thesis using r pop_empty [of f h] by (simp add: represents_def q)
  next
    case (Cons x ys)
    obtain f' where f': "stream_fifo_pop (f, h) = (x, f', h)" "fifo_list (f', h) ys"
      using pop_fifo_list [of f h x ys] r Cons by (auto split: prod.splits)
    have "x \<noteq> 0" "x \<notin> set ys" "ys = [] \<longrightarrow> (\<exists>s. h x = Some s \<and> snext s = 0)"
      using r Cons by (auto simp: fifo_list_def)
    then have "spare_ok h ys (if ys = [] then insert x spare else spare)"
      using r Cons by (auto simp: spare_ok_def)
    then show ?thesis using f' Cons by (simp add: represents_def q)
  qed
qed

lemma represents_clean:
  assumes "represents (xs, spare) q"
  shows "\<exists>q'. stream_fifo_clean q = Some q' \<and> represents ([], spare) q'"
proof -
  obtain f h where q: "q = (f, h)" by (cases q)
  note r = assms [unfolded represents_def q prod.case snd_conv]
  have "clean_loop (fhead f) h = Some (h |` (- set xs))" using r by (intro clean_loop_chain) (auto simp: fifo_list_def)
  then have "stream_fifo_clean q = Some (f\<lparr>fhead := 0, ftail := 0, fcount := 0\<rparr>, h |` (- set xs))"
    by (simp add: q stream_fifo_clean_def)
  moreover have "represents ([], spare) (f\<lparr>fhead := 0, ftail := 0, fcount := 0\<rparr>, h |` (- set xs))"
    using r by (auto simp: represents_def fifo_list_def spare_ok_def)
  ultimately show ?thesis by blast
qed

lemma represents_head: "represents (xs, spare) q \<Longrightarrow> stream_fifo_head q = (case xs of [] \<Rightarrow> 0 | x # _ \<Rightarrow> x)"
  by (cases q; cases xs) (auto simp: represents_def fifo_list_def stream_fifo_head_def)

lemma do_call_refines:
  assumes "represents (xs, spare) q" "case c of Push x \<Rightarrow> x \<in> spare | _ \<Rightarrow> True" "length xs < 2 ^ 64 - 1"
  shows "\<exists>q'. do_call c q = Some (fst (queue_call c (xs, spare)), q') \<and> represents (snd (queue_call c (xs, spare))) q'"
proof (cases c)
  case (Push x)
  then show ?thesis using represents_push [OF assms(1)] assms(2,3) by simp
next
  case Pop
  then show ?thesis using represents_pop [OF assms(1)] by (metis do_call.simps(2) prod.collapse)
next
  case Head
  then show ?thesis using represents_head [OF assms(1)] assms(1) by simp
next
  case Clean
  then show ?thesis using represents_clean [OF assms(1)] by auto
qed

lemma queue_call_length: "length (fst (snd (queue_call c (xs, spare)))) \<le> Suc (length xs)"
  by (cases c; cases xs) simp_all

lemma fifo_calls_refine:
  "represents (xs, spare) q \<Longrightarrow> calls_legal cs (xs, spare) \<Longrightarrow> length xs + length cs < 2 ^ 64 - 1 \<Longrightarrow>
     fifo_calls cs q = Some (queue_calls cs (xs, spare))"
proof (induction cs arbitrary: xs spare q)
  case Nil
  then show ?case by simp
next
  case (Cons c cs)
  obtain r ys sp where o: "queue_call c (xs, spare) = (r, ys, sp)" by (metis prod.collapse)
  have "case c of Push x \<Rightarrow> x \<in> spare | _ \<Rightarrow> True" using Cons.prems(2) by (simp split: fifo_call.splits)
  from do_call_refines [OF Cons.prems(1) this] Cons.prems(3) o
  obtain q' where q': "do_call c q = Some (r, q')" "represents (ys, sp) q'" by auto
  have "length ys \<le> Suc (length xs)" using queue_call_length [of c xs spare] o by simp
  then have "fifo_calls cs q' = Some (queue_calls cs (ys, sp))"
    using Cons.prems(2,3) o by (intro Cons.IH [OF q'(2)]) simp_all
  then show ?case using q'(1) o by simp
qed

text \<open>
  C25: a new queue answers every sequence of calls like a list: streams leave in the order in which
  they were put, \<open>stream_fifo_clean\<close> always ends and empties it, provided that each stream put is
  a live one that is in no queue and has no successor.
\<close>

theorem fifo_is_a_queue:
  assumes "\<forall>x\<in>spare. x \<noteq> 0 \<and> (\<exists>s. h x = Some s \<and> snext s = 0)" "calls_legal cs ([], spare)" "length cs < 2 ^ 64 - 1"
  shows "fifo_calls cs (stream_fifo_new, h) = Some (queue_calls cs ([], spare))"
proof -
  have "represents ([], spare) (stream_fifo_new, h)"
    using assms(1) by (simp add: represents_def fifo_list_def stream_fifo_new_def spare_ok_def)
  then show ?thesis using assms(2,3) by (intro fifo_calls_refine) simp_all
qed

definition two_streams :: stream_heap where
  "two_streams = [1 \<mapsto> small_stream, 2 \<mapsto> small_stream]"

theorem fifo_is_a_queue_witness:
  "fifo_calls [Push 1, Push 2, Pop, Head, Pop, Pop, Push 2, Clean, Head] (stream_fifo_new, two_streams) = Some [0, 0, 1, 2, 2, 0, 0, 0, 0]"
  using fifo_is_a_queue [of "{1, 2}" two_streams "[Push 1, Push 2, Pop, Head, Pop, Pop, Push 2, Clean, Head]"]
  by (simp add: two_streams_def small_stream_def)

text \<open>
  A stream that is put again while it still points to its old successor makes the queue a
  circle: every \<open>stream_fifo_pop\<close> then finds a stream.
\<close>

lemma put_again_makes_a_circle:
  "fifo_calls [Push 1, Push 2, Pop, Push 1, Pop, Pop, Pop, Pop] (stream_fifo_new, two_streams) = Some [0, 0, 1, 0, 2, 1, 2, 1]"
  by (simp add: two_streams_def small_stream_def stream_fifo_new_def stream_fifo_push_def stream_fifo_pop_def Let_def)

end
