(* ===== verification/L2Common.thy ===== *)
theory L2Common
  imports HashTable HPTimer
begin

text \<open>
  What the two protection protocols of \<open>l2\<close>, on rings (\<open>raps/\<close>) and on lines (\<open>aps/\<close>), share:
  codes of the messages to the hardware layer and the meaning of its answers, CFM sessions as
  they see them, and the vlan bitmaps.
\<close>

section \<open>Messages\<close>

datatype failback_e = FAILBACK_ENABLE | FAILBACK_DISABLE

datatype ipc_opcode =
    IPC_OPCODE_ADD | IPC_OPCODE_DELETE | IPC_OPCODE_UPDATE
  | IPC_OPCODE_ACK | IPC_OPCODE_NACK | IPC_OPCODE_REPLY | IPC_OPCODE_OTHER

abbreviation (input) NET_FAILED :: int where "NET_FAILED \<equiv> 1"

text \<open>
  What can happen at a synchronous exchange: whether the message could be allocated, what
  \<open>ipc_sync_send_n1\<close> returned, and the operation code and first integer of the answer.  The reply
  queue is tried three times; a frame is handed to \<open>ipc_send_msg_n1\<close>.
\<close>

datatype sync_out = No_memory | Sync_ret int "(ipc_opcode \<times> int) option"

datatype reply_out = Reply_no_queue | Reply_no_memory | Reply_tries bool bool bool

datatype pkt_out = Pkt_no_memory | Pkt_ret int

text \<open>\<open>l2_msg_send_hal_wait_ack\<close> of \<open>l2_msg.c\<close>: the code the caller gets for an exchange.\<close>

definition hal_answer :: "sync_out \<Rightarrow> int" where
  "hal_answer out =
     (case out of
        No_memory \<Rightarrow> -1
      | Sync_ret ret msg \<Rightarrow>
          if ret = -1 then -1
          else if ret = -2 then -1
          else if ret = 0 then
            (case msg of
               None \<Rightarrow> -1
             | Some (opc, code) \<Rightarrow>
                 if opc = IPC_OPCODE_NACK then code
                 else if opc = IPC_OPCODE_ACK then 0
                 else -1)
          else -1)"

definition reply_code :: "reply_out \<Rightarrow> int" where
  "reply_code out =
     (case out of
        Reply_no_queue \<Rightarrow> -1
      | Reply_no_memory \<Rightarrow> -1
      | Reply_tries a b c \<Rightarrow> if a \<or> b \<or> c then 0 else -1)"

definition pkt_code :: "pkt_out \<Rightarrow> int" where
  "pkt_code out = (case out of Pkt_no_memory \<Rightarrow> 0 | Pkt_ret r \<Rightarrow> if r \<noteq> 0 then NET_FAILED else 0)"

section \<open>CFM sessions\<close>

text \<open>What is read and written of a CFM session; \<open>cfm_down\<close> is \<open>state == OAM_STATUS_DOWN\<close>.\<close>

record cfm_sess =
  cfm_ifindex :: u32
  cfm_down :: bool
  elps_bind :: u16
  md_index :: u8
  ma_index :: u16

section \<open>Vlan bitmaps\<close>

text \<open>
  The loops run from \<open>vlan_start\<close> to \<open>vlan_end\<close> inclusive.  \<open>None\<close> is an access outside the
  bitmap; the loop that never ends, with 65535 as the end, leaves the bitmap first.
\<close>

definition vlan_range :: "u16 \<Rightarrow> u16 \<Rightarrow> nat list" where
  "vlan_range vlan_start vlan_end = [unat vlan_start..<unat vlan_end + 1]"

definition vlan_bit :: "nat \<Rightarrow> u8" where
  "vlan_bit v = push_bit (v mod 8) 1"

definition vlan_test :: "u8 list \<Rightarrow> nat \<Rightarrow> bool" where
  "vlan_test m v \<longleftrightarrow> m ! (v div 8) AND vlan_bit v \<noteq> 0"

fun vlan_loop :: "(u8 \<Rightarrow> u8 \<Rightarrow> u8) \<Rightarrow> nat list \<Rightarrow> u8 list \<Rightarrow> u8 list option" where
  "vlan_loop f [] m = Some m"
| "vlan_loop f (v # vs) m =
     (if v div 8 < length m then vlan_loop f vs (m[v div 8 := f (m ! (v div 8)) (vlan_bit v)]) else None)"

fun vlan_first :: "nat list \<Rightarrow> u8 list \<Rightarrow> nat option" where
  "vlan_first [] m = Some 0"
| "vlan_first (v # vs) m =
     (if v div 8 < length m then if vlan_test m v then Some v else vlan_first vs m else None)"

end
