(* ===== verification/ErpsModel.thy ===== *)
theory ErpsModel
  imports L2Common
begin

text \<open>
  Data and primitive effects of the Ethernet ring protection (G.8032) module
  \<open>l2/raps\<close>.  A \<open>struct erps_sess *\<close> is an address into \<open>heap\<close> (\<open>0\<close> is NULL); the
  session table maps session numbers to addresses, so a ring attached to another one and the
  session being worked on may be the same object.  What leaves the process is recorded in
  order: \<open>hal_log\<close> holds every message to the hardware abstraction layer with the copy of
  the session it carries and the code the caller got back, \<open>pkt_log\<close> every R-APS frame.
  The answers of the hardware, of the packet layer and of \<open>malloc\<close> are an environment.
\<close>

section \<open>Enumerations of \<open>erps.h\<close>\<close>

datatype session_status = SESSION_STATUS_DISABLE | SESSION_STATUS_ENABLE

datatype erps_role = ERPS_ROLE_INVALID | ERPS_ROLE_NONOWNER | ERPS_ROLE_OWNER | ERPS_ROLE_NEIGHBOUR

datatype erps_status =
    ERPS_STATE_INIT | ERPS_STATE_IDLE | ERPS_STATE_PROTECTION | ERPS_STATE_MS | ERPS_STATE_FS
  | ERPS_STATE_PENDING | ERPS_STATE_PROTECTION_REMOTE | ERPS_INVALID_STATE

datatype erps_event =
    ERPS_INVALID_EVENT | ERPS_EVENT_ADMIN_CLEAR | ERPS_EVENT_ADMIN_FS | ERPS_EVENT_RAPS_FS
  | ERPS_EVENT_LOCAL_SF | ERPS_EVENT_LOCAL_CLEAR_SF | ERPS_EVENT_RAPS_SF | ERPS_EVENT_RAPS_MS
  | ERPS_EVENT_ADMIN_MS | ERPS_EVENT_WTR_RUN | ERPS_EVENT_WTR_EXP | ERPS_EVENT_WTB_RUN
  | ERPS_EVENT_WTB_EXP | ERPS_EVENT_RAPS_NR_RB | ERPS_EVENT_RAPS_NR

datatype erps_port_event =
  ERPS_PORT_DOWN | ERPS_PORT_UP | ERPS_CC_DOWN | ERPS_CC_UP | ERPS_CC_DELETE | ERPS_PORT_EVENT_MAX

text \<open>\<open>enum ERPS_RAPS_STATUS\<close>: the values of the 4-bit request field.\<close>

abbreviation (input) ERPS_NO_REQUEST :: "4 word" where "ERPS_NO_REQUEST \<equiv> 0"
abbreviation (input) ERPS_MANUAL_SWITCH :: "4 word" where "ERPS_MANUAL_SWITCH \<equiv> 7"
abbreviation (input) ERPS_SIGNAL_FAIL :: "4 word" where "ERPS_SIGNAL_FAIL \<equiv> 11"
abbreviation (input) ERPS_FORCED_SWITCH :: "4 word" where "ERPS_FORCED_SWITCH \<equiv> 13"
abbreviation (input) ERPS_EVENT :: "4 word" where "ERPS_EVENT \<equiv> 14"

text \<open>Message subtypes of \<open>lib/oam_common.h\<close> and operation codes of \<open>lib/msg_ipc_n.h\<close>.\<close>

abbreviation (input) OAM_SUBTYPE_SESSION :: u8 where "OAM_SUBTYPE_SESSION \<equiv> 1"
abbreviation (input) OAM_SUBTYPE_ERPS_BLOCK_EAST :: u8 where "OAM_SUBTYPE_ERPS_BLOCK_EAST \<equiv> 16"
abbreviation (input) OAM_SUBTYPE_ERPS_BLOCK_WEST :: u8 where "OAM_SUBTYPE_ERPS_BLOCK_WEST \<equiv> 17"
abbreviation (input) OAM_SUBTYPE_ERPS_FOWARD_EAST :: u8 where "OAM_SUBTYPE_ERPS_FOWARD_EAST \<equiv> 18"
abbreviation (input) OAM_SUBTYPE_ERPS_FOWARD_WEST :: u8 where "OAM_SUBTYPE_ERPS_FOWARD_WEST \<equiv> 19"

abbreviation (input) ERPS_NUM :: u16 where "ERPS_NUM \<equiv> 255"

section \<open>Records\<close>

record erps_global =
  pkt_recv :: u32
  pkt_send_cnt :: u32
  pkt_err :: u32
  sess_total :: u16
  sess_enable :: u16
  debug_packet :: u8

record erps_info =
  sess_id :: u16
  pvlan :: u16
  data_vlan_map :: "u8 list"
  dataVlanMapIsSet :: u8
  sendMsgRapsNRRB :: u8
  east_interface :: u32
  east_interface_flag :: u8
  eastInterfaceMac :: "u8 list"
  west_interface :: u32
  west_interface_flag :: u8
  westInterfaceMac :: "u8 list"
  rpl_interface :: u32
  block_interface :: u32
  event_block :: u32
  guardtimer :: u16
  holdoff :: u16
  wtr :: u16
  wtb :: u16
  ring_id :: u16
  sub_ring :: u16
  attach_sess_id :: u16
  east_cfm_session_id :: u16
  west_cfm_session_id :: u16
  level :: u8
  priority :: u8
  keepalive :: u16
  role :: erps_role
  current_status :: erps_status
  current_event :: erps_event
  status :: session_status
  failback :: failback_e
  node_id :: "u8 list"

text \<open>The R-APS frame body; bit fields keep their width, one-bit fields are booleans.\<close>

record raps_pkt =
  pkt_level :: "3 word"
  version :: "5 word"
  pkt_opcode :: u8
  flag :: u8
  tlv_offset :: u8
  request_state :: "4 word"
  sub_code :: "4 word"
  rb :: bool
  dnf :: bool
  bpr :: bool
  status_reserved :: "5 word"
  pkt_node_id :: "u8 list"
  reserved :: "u8 list"
  end_tlv :: u8

record erps_sess =
  info :: erps_info
  r_aps :: raps_pkt
  attach_to_sess :: nat
  east_cfm_session :: nat
  west_cfm_session :: nat
  holdoff_timer :: nat
  wtr_timer :: nat
  wtb_timer :: nat
  guard_timer :: nat
  keepalive_timer :: nat

text \<open>The timer callbacks of \<open>erps_timer.c\<close> with their argument.\<close>

datatype erps_cb = Wtr_expiry nat | Wtb_expiry nat | Guard_expiry nat | Holdoff_expiry nat | Msg_expiry nat

record hal_msg =
  msg_subtype :: u8
  msg_opcode :: ipc_opcode
  payload :: erps_sess
  wait_ack :: bool
  answer :: int

record sent_pkt =
  out_ifindex :: u32
  dmac :: "u8 list"
  svlan :: u16
  cos :: u8
  pdu :: raps_pkt
  send_result :: int

record erps_state =
  heap :: "nat \<Rightarrow> erps_sess"
  erps_session_table :: "(u32, nat) hash_table"
  gerps :: erps_global
  timers :: "erps_cb hp_lists"
  timer_allocs :: nat
  hal_log :: "hal_msg list"
  pkt_log :: "sent_pkt list"
  l2ifs :: "u32 \<Rightarrow> bool option"
  cfm_heap :: "nat \<Rightarrow> cfm_sess"
  cfm_sess_table :: "u16 \<Rightarrow> nat"
  md_bind :: "u8 \<Rightarrow> u16 option"
  ma_bind :: "u16 \<Rightarrow> u16 option"

text \<open>
  The environment: what happens at the n-th synchronous exchange with the hardware layer, the
  n-th message through the reply queue, the n-th frame, and what \<open>malloc\<close> returns for the
  n-th timer.  Of a synchronous exchange, \<open>sync_out\<close> says whether the message could be
  allocated, what \<open>ipc_sync_send_n1\<close> returned, and the operation code and first integer of
  the answer; the reply queue is tried three times; a frame is handed to \<open>ipc_send_msg_n1\<close>.
\<close>

record erps_env =
  sync_answer :: "nat \<Rightarrow> sync_out"
  reply_answer :: "nat \<Rightarrow> reply_out"
  pkt_answer :: "nat \<Rightarrow> pkt_out"
  timer_malloc :: "nat \<Rightarrow> nat"

type_synonym 'a erps = "(erps_state, 'a) state"

section \<open>Primitive effects\<close>

definition sess :: "nat \<Rightarrow> erps_sess erps" where
  "sess p = gets (\<lambda>s. heap s p)"

definition info_of :: "nat \<Rightarrow> erps_info erps" where
  "info_of p = gets (\<lambda>s. info (heap s p))"

definition upd_sess :: "nat \<Rightarrow> (erps_sess \<Rightarrow> erps_sess) \<Rightarrow> unit erps" where
  "upd_sess p f = modify (\<lambda>s. s\<lparr>heap := (heap s)(p := f (heap s p))\<rparr>)"

definition upd_info :: "nat \<Rightarrow> (erps_info \<Rightarrow> erps_info) \<Rightarrow> unit erps" where
  "upd_info p f = upd_sess p (\<lambda>x. x\<lparr>info := f (info x)\<rparr>)"

definition set_status :: "nat \<Rightarrow> erps_status \<Rightarrow> unit erps" where
  "set_status p st = upd_info p (\<lambda>i. i\<lparr>current_status := st\<rparr>)"

definition set_event :: "nat \<Rightarrow> erps_event \<Rightarrow> unit erps" where
  "set_event p ev = upd_info p (\<lambda>i. i\<lparr>current_event := ev\<rparr>)"

definition set_block :: "nat \<Rightarrow> u32 \<Rightarrow> unit erps" where
  "set_block p b = upd_info p (\<lambda>i. i\<lparr>block_interface := b\<rparr>)"

definition set_event_block :: "nat \<Rightarrow> u32 \<Rightarrow> unit erps" where
  "set_event_block p b = upd_info p (\<lambda>i. i\<lparr>event_block := b\<rparr>)"

definition set_nrrb :: "nat \<Rightarrow> u8 \<Rightarrow> unit erps" where
  "set_nrrb p b = upd_info p (\<lambda>i. i\<lparr>sendMsgRapsNRRB := b\<rparr>)"

text \<open>The three assignments to \<open>r_aps\<close> that precede every transmission.\<close>

definition set_raps :: "nat \<Rightarrow> 4 word \<Rightarrow> bool \<Rightarrow> bool \<Rightarrow> unit erps" where
  "set_raps p req b d = upd_sess p (\<lambda>x. x\<lparr>r_aps := (r_aps x)\<lparr>request_state := req, rb := b, dnf := d\<rparr>\<rparr>)"

definition l2_msg_send_hal_wait_ack :: "erps_env \<Rightarrow> nat \<Rightarrow> u8 \<Rightarrow> ipc_opcode \<Rightarrow> int erps" where
  "l2_msg_send_hal_wait_ack E p subtype opc = State (\<lambda>s.
     let r = hal_answer (sync_answer E (length (hal_log s)))
     in (r, s\<lparr>hal_log := hal_log s @
           [\<lparr>msg_subtype = subtype, msg_opcode = opc, payload = heap s p, wait_ack = True, answer = r\<rparr>]\<rparr>))"

definition ipc_send_reply_n2 :: "erps_env \<Rightarrow> nat \<Rightarrow> u8 \<Rightarrow> ipc_opcode \<Rightarrow> int erps" where
  "ipc_send_reply_n2 E p subtype opc = State (\<lambda>s.
     let r = reply_code (reply_answer E (length (hal_log s)))
     in (r, s\<lparr>hal_log := hal_log s @
           [\<lparr>msg_subtype = subtype, msg_opcode = opc, payload = heap s p, wait_ack = False, answer = r\<rparr>]\<rparr>))"

text \<open>The update message every handler sends, when it has one to send.\<close>

definition hal_update :: "erps_env \<Rightarrow> nat \<Rightarrow> u8 \<Rightarrow> int erps" where
  "hal_update E p subtype = l2_msg_send_hal_wait_ack E p subtype IPC_OPCODE_UPDATE"

definition hal_if :: "erps_env \<Rightarrow> nat \<Rightarrow> u8 \<Rightarrow> int erps" where
  "hal_if E p subtype = (if subtype \<noteq> 0 then hal_update E p subtype else State_Monad.return 0)"

definition pkt_send :: "erps_env \<Rightarrow> u32 \<Rightarrow> u8 list \<Rightarrow> u16 \<Rightarrow> u8 \<Rightarrow> raps_pkt \<Rightarrow> int erps" where
  "pkt_send E ifindex mac vlan c pkt = State (\<lambda>s.
     let r = pkt_code (pkt_answer E (length (pkt_log s)))
     in (r, s\<lparr>pkt_log := pkt_log s @
           [\<lparr>out_ifindex = ifindex, dmac = mac, svlan = vlan, cos = c, pdu = pkt, send_result = r\<rparr>]\<rparr>))"

definition upd_gerps :: "(erps_global \<Rightarrow> erps_global) \<Rightarrow> unit erps" where
  "upd_gerps f = modify (\<lambda>s. s\<lparr>gerps := f (gerps s)\<rparr>)"

definition timer_add :: "erps_env \<Rightarrow> bool \<Rightarrow> erps_cb \<Rightarrow> int \<Rightarrow> nat erps" where
  "timer_add E loop cb ms = State (\<lambda>s.
     case high_pre_timer_add (timer_malloc E (timer_allocs s)) loop (Some cb) ms (timers s) of
       (i, h) \<Rightarrow> (i, s\<lparr>timers := h, timer_allocs := timer_allocs s + 1\<rparr>))"

definition timer_delete :: "nat \<Rightarrow> unit erps" where
  "timer_delete i = modify (\<lambda>s. s\<lparr>timers := snd (high_pre_timer_delete i (timers s))\<rparr>)"

definition l2if_lookup :: "u32 \<Rightarrow> bool option erps" where
  "l2if_lookup ifindex = gets (\<lambda>s. l2ifs s ifindex)"

definition cfm_session_lookup_new :: "u16 \<Rightarrow> nat erps" where
  "cfm_session_lookup_new i = gets (\<lambda>s. cfm_sess_table s i)"

definition cfm_at :: "nat \<Rightarrow> cfm_sess erps" where
  "cfm_at c = gets (\<lambda>s. cfm_heap s c)"

end
