(* ===== verification/ErpsPkt.thy ===== *)
theory ErpsPkt
  imports ErpsModel
begin

text \<open>
  Timers and frames of the ring protection: the start and stop functions of
  \<open>raps/erps_timer.c\<close>, session lookup of \<open>raps/erps.c\<close>, and sending, forwarding and
  checking R-APS frames of \<open>raps/erps_pkt.c\<close>.  The timer callbacks that run the state
  machine are in \<open>ErpsFsm\<close>.
\<close>

section \<open>Timers of a session\<close>

text \<open>The body shared by the stop functions: delete the timer of a field and clear the field.\<close>

definition stop_timer ::
  "(erps_sess \<Rightarrow> nat) \<Rightarrow> ((nat \<Rightarrow> nat) \<Rightarrow> erps_sess \<Rightarrow> erps_sess) \<Rightarrow> nat \<Rightarrow> unit erps" where
  "stop_timer fld fld_update p =
     (if p = 0 then State_Monad.return ()
      else do {
        x \<leftarrow> sess p;
        when_m (fld x \<noteq> 0) (do {
          timer_delete (fld x);
          upd_sess p (fld_update (\<lambda>_. 0))
        })
      })"

definition start_timer ::
  "erps_env \<Rightarrow> (erps_sess \<Rightarrow> nat) \<Rightarrow> ((nat \<Rightarrow> nat) \<Rightarrow> erps_sess \<Rightarrow> erps_sess) \<Rightarrow>
   bool \<Rightarrow> erps_cb \<Rightarrow> (erps_info \<Rightarrow> int) \<Rightarrow> nat \<Rightarrow> unit erps" where
  "start_timer E fld fld_update loop cb ms p =
     (if p = 0 then State_Monad.return ()
      else do {
        stop_timer fld fld_update p;
        i \<leftarrow> info_of p;
        t \<leftarrow> timer_add E loop cb (ms i);
        upd_sess p (fld_update (\<lambda>_. t))
      })"

definition erps_stop_wtr_timer :: "nat \<Rightarrow> unit erps" where
  "erps_stop_wtr_timer p = stop_timer wtr_timer wtr_timer_update p"

definition erps_stop_wtb_timer :: "nat \<Rightarrow> unit erps" where
  "erps_stop_wtb_timer p = stop_timer wtb_timer wtb_timer_update p"

definition erps_stop_guard_timer :: "nat \<Rightarrow> unit erps" where
  "erps_stop_guard_timer p = stop_timer guard_timer guard_timer_update p"

definition erps_stop_msg_timer :: "nat \<Rightarrow> unit erps" where
  "erps_stop_msg_timer p = stop_timer keepalive_timer keepalive_timer_update p"

text \<open>\<open>wtr\<close> is in minutes: the product with 60 is stored in a 16-bit variable.\<close>

definition wtr_ms :: "erps_info \<Rightarrow> int" where
  "wtr_ms i = uint (wtr i * 60) * 1000"

definition erps_start_wtr_timer :: "erps_env \<Rightarrow> nat \<Rightarrow> unit erps" where
  "erps_start_wtr_timer E p = start_timer E wtr_timer wtr_timer_update False (Wtr_expiry p) wtr_ms p"

definition erps_start_wtb_timer :: "erps_env \<Rightarrow> nat \<Rightarrow> unit erps" where
  "erps_start_wtb_timer E p =
     start_timer E wtb_timer wtb_timer_update False (Wtb_expiry p) (\<lambda>i. uint (wtb i)) p"

definition erps_start_guard_timer :: "erps_env \<Rightarrow> nat \<Rightarrow> unit erps" where
  "erps_start_guard_timer E p =
     start_timer E guard_timer guard_timer_update False (Guard_expiry p) (\<lambda>i. uint (guardtimer i)) p"

definition erps_start_holdoff_timer :: "erps_env \<Rightarrow> nat \<Rightarrow> unit erps" where
  "erps_start_holdoff_timer E p =
     start_timer E holdoff_timer holdoff_timer_update False (Holdoff_expiry p) (\<lambda>i. uint (holdoff i)) p"

definition erps_start_msg_timer :: "erps_env \<Rightarrow> nat \<Rightarrow> unit erps" where
  "erps_start_msg_timer E p =
     start_timer E keepalive_timer keepalive_timer_update True (Msg_expiry p) (\<lambda>i. uint (keepalive i) * 1000) p"

definition erps_clear_timer :: "nat \<Rightarrow> int erps" where
  "erps_clear_timer p =
     (if p = 0 then State_Monad.return 0
      else do {
        stop_timer holdoff_timer holdoff_timer_update p;
        stop_timer wtr_timer wtr_timer_update p;
        stop_timer wtb_timer wtb_timer_update p;
        stop_timer guard_timer guard_timer_update p;
        stop_timer keepalive_timer keepalive_timer_update p;
        State_Monad.return 0
      })"

section \<open>Looking a session up\<close>

definition erps_compute_sess :: "u32 \<Rightarrow> u32" where
  "erps_compute_sess k = (if k = 0 then 10 else k)"

definition erps_compare_sess :: "(u32, nat) hash_bucket \<Rightarrow> u32 \<Rightarrow> int" where
  "erps_compare_sess b k =
     (if k = 0 then ERRNO_PARAM_ILLEGAL else if hash_key b = k then 0 else 1)"

definition erps_sess_lookup :: "u16 \<Rightarrow> nat erps" where
  "erps_sess_lookup sid =
     (if sid < 1 \<or> sid > ERPS_NUM then State_Monad.return 0
      else gets (\<lambda>s. case hios_hash_find (erps_session_table s) (ucast sid) of
          None \<Rightarrow> 0
        | Some b \<Rightarrow> data b))"

text \<open>The refresh of \<open>attach_to_sess\<close> that precedes its uses.\<close>

definition refresh_attach :: "nat \<Rightarrow> nat erps" where
  "refresh_attach p = do {
     i \<leftarrow> info_of p;
     a \<leftarrow> (if attach_sess_id i \<noteq> 0 then erps_sess_lookup (attach_sess_id i) else State_Monad.return 0);
     upd_sess p (\<lambda>x. x\<lparr>attach_to_sess := a\<rparr>);
     State_Monad.return a
   }"

section \<open>Comparing node identifiers\<close>

fun node_cmp :: "u8 list \<Rightarrow> u8 list \<Rightarrow> int" where
  "node_cmp (a # as) (b # bs) = (if a > b then 1 else if a < b then 2 else node_cmp as bs)"
| "node_cmp _ _ = 0"

definition erps_node_id_higher :: "u8 list \<Rightarrow> u8 list \<Rightarrow> int" where
  "erps_node_id_higher aps_node session_node = node_cmp (take 6 aps_node) (take 6 session_node)"

section \<open>Sending\<close>

definition raps_mac :: "u16 \<Rightarrow> u8 list" where
  "raps_mac ring = [0x01, 0x19, 0xA7, 0x00, 0x00, ucast ring]"

text \<open>One frame of \<open>raps_send\<close> to a port, with the level and ring of the session \<open>q\<close>.\<close>

definition raps_out :: "erps_env \<Rightarrow> nat \<Rightarrow> nat \<Rightarrow> u32 \<Rightarrow> int erps" where
  "raps_out E p q ifindex = do {
     x \<leftarrow> sess p;
     i \<leftarrow> info_of q;
     pkt_send E ifindex (raps_mac (ring_id i)) (pvlan (info x)) (priority (info x)) (r_aps x)
   }"

definition set_pkt_level :: "nat \<Rightarrow> u8 \<Rightarrow> unit erps" where
  "set_pkt_level p l = upd_sess p (\<lambda>x. x\<lparr>r_aps := (r_aps x)\<lparr>pkt_level := ucast l\<rparr>\<rparr>)"

text \<open>Frames over the attached ring: used for each side that has no port of its own.\<close>

definition raps_send_attached :: "erps_env \<Rightarrow> nat \<Rightarrow> int erps" where
  "raps_send_attached E p = do {
     a \<leftarrow> refresh_attach p;
     (if a \<noteq> 0 then do {
        i \<leftarrow> info_of a;
        set_pkt_level p (level i);
        r \<leftarrow> (if east_interface i \<noteq> 0 then raps_out E p a (east_interface i) else State_Monad.return 0);
        (if r = NET_FAILED then State_Monad.return ERRNO_FAIL
         else do {
           r \<leftarrow> (if west_interface i \<noteq> 0 then raps_out E p a (west_interface i) else State_Monad.return 0);
           State_Monad.return (if r = NET_FAILED then ERRNO_FAIL else ERRNO_SUCCESS)
         })
      }
      else State_Monad.return ERRNO_SUCCESS)
   }"

definition raps_send_side :: "erps_env \<Rightarrow> nat \<Rightarrow> (erps_info \<Rightarrow> u32) \<Rightarrow> int erps" where
  "raps_send_side E p port = do {
     i \<leftarrow> info_of p;
     (if port i \<noteq> 0 then do {
        set_pkt_level p (level i);
        r \<leftarrow> raps_out E p p (port i);
        State_Monad.return (if r = NET_FAILED then ERRNO_FAIL else ERRNO_SUCCESS)
      }
      else raps_send_attached E p)
   }"

definition raps_send :: "erps_env \<Rightarrow> nat \<Rightarrow> int erps" where
  "raps_send E p = do {
     r \<leftarrow> raps_send_side E p west_interface;
     (if r \<noteq> ERRNO_SUCCESS then State_Monad.return ERRNO_FAIL
      else do {
        r \<leftarrow> raps_send_side E p east_interface;
        (if r \<noteq> ERRNO_SUCCESS then State_Monad.return ERRNO_FAIL
         else do {
           upd_gerps (\<lambda>g. g\<lparr>pkt_send_cnt := pkt_send_cnt g + 1\<rparr>);
           State_Monad.return ERRNO_SUCCESS
         })
      })
   }"

definition mark_bpr :: "nat \<Rightarrow> unit erps" where
  "mark_bpr p = do {
     i \<leftarrow> info_of p;
     when_m (block_interface i \<noteq> 0 \<and> block_interface i = east_interface i)
       (upd_sess p (\<lambda>x. x\<lparr>r_aps := (r_aps x)\<lparr>bpr := True\<rparr>\<rparr>))
   }"

definition raps_send_burst :: "erps_env \<Rightarrow> nat \<Rightarrow> int erps" where
  "raps_send_burst E p =
     (if p = 0 then State_Monad.return ERRNO_FAIL
      else do {
        mark_bpr p;
        erps_stop_msg_timer p;
        _ \<leftarrow> raps_send E p;
        _ \<leftarrow> raps_send E p;
        _ \<leftarrow> raps_send E p;
        erps_start_msg_timer E p;
        State_Monad.return ERRNO_SUCCESS
      })"

definition raps_stop :: "nat \<Rightarrow> unit erps" where
  "raps_stop p = erps_stop_msg_timer p"

section \<open>Receiving\<close>

definition raps_validity_check :: "nat \<Rightarrow> raps_pkt option \<Rightarrow> int erps" where
  "raps_validity_check p raps_pdu =
     (case raps_pdu of
        None \<Rightarrow> State_Monad.return ERRNO_FAIL
      | Some pkt \<Rightarrow>
          if p = 0 then State_Monad.return ERRNO_FAIL
          else do {
            x \<leftarrow> sess p;
            (if erps_node_id_higher (pkt_node_id pkt) (node_id (info x)) = 0 then do {
               upd_gerps (\<lambda>g. g\<lparr>pkt_err := pkt_err g + 1\<rparr>);
               State_Monad.return ERRNO_FAIL
             }
             else State_Monad.return
               (if request_state pkt = ERPS_FORCED_SWITCH \<or> request_state pkt = ERPS_EVENT \<or>
                   request_state pkt = ERPS_SIGNAL_FAIL \<or> request_state pkt = ERPS_MANUAL_SWITCH \<or>
                   request_state pkt = ERPS_NO_REQUEST
                then if request_state pkt = ERPS_EVENT \<and> sub_code pkt = 0 \<and> status_reserved pkt = 0
                     then ERRNO_SUCCESS
                     else if guard_timer x = 0 then ERRNO_SUCCESS else ERRNO_FAIL
                else ERRNO_FAIL))
          })"

datatype forward_direction = VIRTUAL_TUNNEL_2_INTERFACE | INTERFACE_2_VIRTUAL_TUNNEL

definition raps_forward_to ::
  "erps_env \<Rightarrow> erps_info \<Rightarrow> u16 \<Rightarrow> raps_pkt \<Rightarrow> u32 \<Rightarrow> u32 \<Rightarrow> int erps" where
  "raps_forward_to E i ring pkt ifindex port =
     (if port \<noteq> 0 \<and> port \<noteq> ifindex
      then pkt_send E port (raps_mac ring) (pvlan i) (priority i) pkt
      else State_Monad.return 0)"

definition raps_forward :: "erps_env \<Rightarrow> nat \<Rightarrow> raps_pkt \<Rightarrow> u32 \<Rightarrow> forward_direction \<Rightarrow> int erps" where
  "raps_forward E p recv_aps ifindex direc =
     (if p = 0 then State_Monad.return 0
      else do {
        i \<leftarrow> info_of p;
        (if sub_ring i \<noteq> 1 then State_Monad.return 0
         else if role i = ERPS_ROLE_OWNER \<and> block_interface i = east_interface i then State_Monad.return 0
         else case direc of
           VIRTUAL_TUNNEL_2_INTERFACE \<Rightarrow> do {
             ret \<leftarrow> raps_forward_to E i (ring_id i) (recv_aps\<lparr>pkt_level := ucast (level i)\<rparr>) ifindex (east_interface i);
             (if ret = NET_FAILED then State_Monad.return ERRNO_FAIL
              else do {
                upd_gerps (\<lambda>g. g\<lparr>pkt_send_cnt := pkt_send_cnt g + 1\<rparr>);
                State_Monad.return ERRNO_SUCCESS
              })
           }
         | INTERFACE_2_VIRTUAL_TUNNEL \<Rightarrow> do {
             a \<leftarrow> refresh_attach p;
             (if a = 0 then State_Monad.return ERRNO_FAIL
              else do {
                ai \<leftarrow> info_of a;
                ret \<leftarrow> raps_forward_to E i (ring_id ai) (recv_aps\<lparr>pkt_level := ucast (level ai)\<rparr>) ifindex (east_interface ai);
                (if ret = NET_FAILED then State_Monad.return ERRNO_FAIL
                 else do {
                   ret \<leftarrow> raps_forward_to E i (ring_id ai) (recv_aps\<lparr>pkt_level := ucast (level ai)\<rparr>) ifindex (west_interface ai);
                   (if ret = NET_FAILED then State_Monad.return ERRNO_FAIL
                    else do {
                      upd_gerps (\<lambda>g. g\<lparr>pkt_send_cnt := pkt_send_cnt g + 1\<rparr>);
                      State_Monad.return ERRNO_SUCCESS
                    })
                 })
              })
           })
      })"

end
