(* ===== verification/ErpsAction.thy ===== *)
theory ErpsAction
  imports ErpsPkt
begin

text \<open>
  The action functions of \<open>raps/erps_fsm_action.c\<close>, one per event and group of states.
  Every one takes the address of the session, returns an error code, and on its way blocks
  and unblocks ring ports through the hardware layer, sends R-APS frames and starts and
  stops timers.  The fragments the source repeats (which port to block or to forward) are
  pure functions of the session's \<open>info\<close>.
\<close>

section \<open>Which port to block and which to forward\<close>

text \<open>The message that unblocks the port named by \<open>block_interface\<close>.\<close>

definition foward_blocked :: "erps_info \<Rightarrow> u8" where
  "foward_blocked i =
     (if east_interface i \<noteq> 0 \<and> block_interface i = east_interface i then OAM_SUBTYPE_ERPS_FOWARD_EAST
      else if west_interface i \<noteq> 0 \<and> block_interface i = west_interface i then OAM_SUBTYPE_ERPS_FOWARD_WEST
      else 0)"

text \<open>Blocking the port \<open>x\<close> of the ring, and forwarding the port at the other side of \<open>x\<close>.\<close>

definition block_port :: "erps_info \<Rightarrow> u32 \<Rightarrow> u8" where
  "block_port i x =
     (if east_interface i \<noteq> 0 \<and> x = east_interface i then OAM_SUBTYPE_ERPS_BLOCK_EAST
      else if west_interface i \<noteq> 0 \<and> x = west_interface i then OAM_SUBTYPE_ERPS_BLOCK_WEST
      else 0)"

definition foward_other :: "erps_info \<Rightarrow> u32 \<Rightarrow> u8" where
  "foward_other i x =
     (if east_interface i \<noteq> 0 \<and> x = east_interface i
      then if west_interface i \<noteq> 0 then OAM_SUBTYPE_ERPS_FOWARD_WEST else 0
      else if west_interface i \<noteq> 0 \<and> x = west_interface i
      then if east_interface i \<noteq> 0 then OAM_SUBTYPE_ERPS_FOWARD_EAST else 0
      else 0)"

text \<open>
  The variants of the last function whose tests come in the other order: they look at the
  far port first and do not ask whether the port \<open>x\<close> itself exists.
\<close>

definition foward_east_west :: "erps_info \<Rightarrow> u32 \<Rightarrow> u8" where
  "foward_east_west i x =
     (if east_interface i \<noteq> 0 \<and> x = west_interface i then OAM_SUBTYPE_ERPS_FOWARD_EAST
      else if west_interface i \<noteq> 0 \<and> x = east_interface i then OAM_SUBTYPE_ERPS_FOWARD_WEST
      else 0)"

definition foward_west_east :: "erps_info \<Rightarrow> u32 \<Rightarrow> u8" where
  "foward_west_east i x =
     (if west_interface i \<noteq> 0 \<and> x = east_interface i then OAM_SUBTYPE_ERPS_FOWARD_WEST
      else if east_interface i \<noteq> 0 \<and> x = west_interface i then OAM_SUBTYPE_ERPS_FOWARD_EAST
      else 0)"

text \<open>
  Unblocking whatever is blocked: \<open>block_interface\<close> is cleared before the message leaves.
\<close>

definition release_blocked :: "erps_env \<Rightarrow> nat \<Rightarrow> u8 \<Rightarrow> int erps" where
  "release_blocked E p subtype =
     (if subtype \<noteq> 0 then do { set_block p 0; hal_update E p subtype } else State_Monad.return 0)"

text \<open>The reversion timers an owner stops.\<close>

definition owner_stop_timers :: "nat \<Rightarrow> unit erps" where
  "owner_stop_timers p = do {
     i \<leftarrow> info_of p;
     when_m (role i = ERPS_ROLE_OWNER) (do { erps_stop_wtr_timer p; erps_stop_wtb_timer p })
   }"

section \<open>Initialization\<close>

definition rpl_block_subtype :: "erps_info \<Rightarrow> u8" where
  "rpl_block_subtype i =
     (if rpl_interface i = east_interface i then OAM_SUBTYPE_ERPS_BLOCK_EAST
      else if rpl_interface i = west_interface i then OAM_SUBTYPE_ERPS_BLOCK_WEST
      else 0)"

definition init_announce :: "erps_env \<Rightarrow> nat \<Rightarrow> int erps" where
  "init_announce E p = do {
     set_raps p ERPS_NO_REQUEST False False;
     raps_send_burst E p
   }"

definition init_finish :: "nat \<Rightarrow> int erps" where
  "init_finish p = do { set_status p ERPS_STATE_PENDING; State_Monad.return ERRNO_SUCCESS }"

definition init_owner :: "erps_env \<Rightarrow> nat \<Rightarrow> int erps" where
  "init_owner E p = do {
     i \<leftarrow> info_of p;
     ret \<leftarrow> hal_update E p (rpl_block_subtype i);
     (if ret \<noteq> ERRNO_SUCCESS then State_Monad.return ERRNO_IPC
      else do {
        set_block p (rpl_interface i);
        ret \<leftarrow> init_announce E p;
        (if ret \<noteq> ERRNO_SUCCESS then State_Monad.return ERRNO_FAIL
         else do {
           when_m (failback i = FAILBACK_ENABLE) (erps_start_wtr_timer E p);
           init_finish p
         })
      })
   }"

definition init_neighbour :: "erps_env \<Rightarrow> nat \<Rightarrow> int erps" where
  "init_neighbour E p = do {
     i \<leftarrow> info_of p;
     set_block p (rpl_interface i);
     ret \<leftarrow> hal_update E p (rpl_block_subtype i);
     (if ret \<noteq> ERRNO_SUCCESS then State_Monad.return ERRNO_IPC
      else do {
        ret \<leftarrow> init_announce E p;
        (if ret \<noteq> ERRNO_SUCCESS then State_Monad.return ERRNO_FAIL else init_finish p)
      })
   }"

definition init_nonowner :: "erps_env \<Rightarrow> nat \<Rightarrow> int erps" where
  "init_nonowner E p = do {
     i \<leftarrow> info_of p;
     ret \<leftarrow> hal_update E p (if west_interface i \<noteq> 0 then OAM_SUBTYPE_ERPS_BLOCK_WEST
                            else OAM_SUBTYPE_ERPS_BLOCK_EAST);
     set_block p (if west_interface i \<noteq> 0 then west_interface i else east_interface i);
     (if ret \<noteq> ERRNO_SUCCESS then State_Monad.return ERRNO_IPC
      else do {
        ret \<leftarrow> init_announce E p;
        (if ret \<noteq> ERRNO_SUCCESS then State_Monad.return ERRNO_FAIL else init_finish p)
      })
   }"

definition erps_init_handle_initialization :: "erps_env \<Rightarrow> nat \<Rightarrow> int erps" where
  "erps_init_handle_initialization E p =
     (if p = 0 then State_Monad.return ERRNO_FAIL
      else do {
        erps_stop_guard_timer p;
        erps_stop_wtr_timer p;
        erps_stop_wtb_timer p;
        i \<leftarrow> info_of p;
        (if role i = ERPS_ROLE_OWNER then init_owner E p
         else if role i = ERPS_ROLE_NEIGHBOUR then init_neighbour E p
         else init_nonowner E p)
      })"

section \<open>Unblocking handlers\<close>

text \<open>
  Six handlers unblock the blocked port, stop sending and move to a state; they differ in
  the state, in whether the owner's timers are stopped, and in one that sends its message
  through the reply queue, with the operation code of a reply.
\<close>

definition release_and_move :: "erps_env \<Rightarrow> nat \<Rightarrow> bool \<Rightarrow> erps_status \<Rightarrow> int erps" where
  "release_and_move E p stop_owner st =
     (if p = 0 then State_Monad.return ERRNO_FAIL
      else do {
        i \<leftarrow> info_of p;
        ret \<leftarrow> release_blocked E p (foward_blocked i);
        (if ret \<noteq> ERRNO_SUCCESS then State_Monad.return ERRNO_IPC
         else do {
           raps_stop p;
           when_m stop_owner (owner_stop_timers p);
           set_status p st;
           State_Monad.return ERRNO_SUCCESS
         })
      })"

definition erps_idlems_handle_raps_sf :: "erps_env \<Rightarrow> nat \<Rightarrow> int erps" where
  "erps_idlems_handle_raps_sf E p = release_and_move E p False ERPS_STATE_PROTECTION_REMOTE"

definition erps_idle_handle_raps_ms :: "erps_env \<Rightarrow> nat \<Rightarrow> int erps" where
  "erps_idle_handle_raps_ms E p = release_and_move E p False ERPS_STATE_MS"

definition erps_x_handle_raps_fs :: "erps_env \<Rightarrow> nat \<Rightarrow> int erps" where
  "erps_x_handle_raps_fs E p = release_and_move E p False ERPS_STATE_FS"

definition erps_pending_handle_raps_fs :: "erps_env \<Rightarrow> nat \<Rightarrow> int erps" where
  "erps_pending_handle_raps_fs E p = release_and_move E p True ERPS_STATE_FS"

definition erps_pending_handle_raps_sf :: "erps_env \<Rightarrow> nat \<Rightarrow> int erps" where
  "erps_pending_handle_raps_sf E p = release_and_move E p True ERPS_STATE_PROTECTION_REMOTE"

definition erps_pending_handle_raps_ms :: "erps_env \<Rightarrow> nat \<Rightarrow> int erps" where
  "erps_pending_handle_raps_ms E p =
     (if p = 0 then State_Monad.return ERRNO_FAIL
      else do {
        i \<leftarrow> info_of p;
        ret \<leftarrow> (if foward_blocked i \<noteq> 0 then do {
                  set_block p 0;
                  ipc_send_reply_n2 E p (foward_blocked i) IPC_OPCODE_REPLY
                } else State_Monad.return 0);
        (if ret \<noteq> ERRNO_SUCCESS then State_Monad.return ERRNO_IPC
         else do {
           raps_stop p;
           owner_stop_timers p;
           set_status p ERPS_STATE_MS;
           State_Monad.return ERRNO_SUCCESS
         })
      })"

section \<open>Idle\<close>

text \<open>Block, announce, forward: the sequence of the handlers that move the blocked port.\<close>

definition switch_block :: "erps_env \<Rightarrow> nat \<Rightarrow> u8 \<Rightarrow> u8 \<Rightarrow> 4 word \<Rightarrow> int erps \<Rightarrow> int erps" where
  "switch_block E p subtype_block subtype_foward req finish = do {
     ret \<leftarrow> hal_if E p subtype_block;
     (if ret \<noteq> ERRNO_SUCCESS then State_Monad.return ERRNO_IPC
      else do {
        i \<leftarrow> info_of p;
        set_block p (event_block i);
        set_raps p req False False;
        ret \<leftarrow> raps_send_burst E p;
        (if ret \<noteq> ERRNO_SUCCESS then State_Monad.return ERRNO_FAIL
         else do {
           ret \<leftarrow> hal_if E p subtype_foward;
           (if ret \<noteq> ERRNO_SUCCESS then State_Monad.return ERRNO_IPC else finish)
         })
      })
   }"

text \<open>The requested port is the blocked one already: announce with DNF, forward the other.\<close>

definition keep_block :: "erps_env \<Rightarrow> nat \<Rightarrow> u8 \<Rightarrow> 4 word \<Rightarrow> int erps \<Rightarrow> int erps" where
  "keep_block E p subtype_foward req finish = do {
     set_raps p req False True;
     ret \<leftarrow> raps_send_burst E p;
     (if ret \<noteq> ERRNO_SUCCESS then State_Monad.return ERRNO_FAIL
      else do {
        ret \<leftarrow> hal_if E p subtype_foward;
        (if ret \<noteq> ERRNO_SUCCESS then State_Monad.return ERRNO_IPC else finish)
      })
   }"

definition move_to :: "nat \<Rightarrow> erps_status \<Rightarrow> int erps" where
  "move_to p st = do { set_status p st; State_Monad.return ERRNO_SUCCESS }"

definition erps_idle_handle_admin_ms :: "erps_env \<Rightarrow> nat \<Rightarrow> int erps" where
  "erps_idle_handle_admin_ms E p =
     (if p = 0 then State_Monad.return ERRNO_FAIL
      else do {
        i \<leftarrow> info_of p;
        (if event_block i \<noteq> 0 \<and> event_block i = block_interface i
         then keep_block E p 0 ERPS_MANUAL_SWITCH (move_to p ERPS_STATE_MS)
         else switch_block E p (block_port i (event_block i)) (foward_other i (event_block i))
                ERPS_MANUAL_SWITCH (move_to p ERPS_STATE_MS))
      })"

definition erps_idle_handle_raps_nrrb :: "erps_env \<Rightarrow> nat \<Rightarrow> int erps" where
  "erps_idle_handle_raps_nrrb E p =
     (if p = 0 then State_Monad.return ERRNO_FAIL
      else do {
        i \<leftarrow> info_of p;
        (if block_interface i = rpl_interface i then State_Monad.return ERRNO_EXISTED
         else do {
           let subtype = foward_west_east i (rpl_interface i);
           ret \<leftarrow> (if subtype \<noteq> 0 then do { set_block p (rpl_interface i); hal_update E p subtype }
                    else State_Monad.return 0);
           (if ret \<noteq> ERRNO_SUCCESS then State_Monad.return ERRNO_IPC
            else do {
              when_m (role i \<noteq> ERPS_ROLE_OWNER) (raps_stop p);
              move_to p ERPS_STATE_IDLE
            })
         })
      })"

text \<open>
  The frame's node outranks this one: release the blocked port unless a ring port is
  down.  The result tells whether there was a port to release.
\<close>

definition yield_to_node :: "erps_env \<Rightarrow> nat \<Rightarrow> raps_pkt \<Rightarrow> (int \<times> u8) erps" where
  "yield_to_node E p pkt = do {
     i \<leftarrow> info_of p;
     (if erps_node_id_higher (pkt_node_id pkt) (node_id i) = 1 then do {
        let subtype = (if east_interface_flag i = 0 \<and> west_interface_flag i = 0 then foward_blocked i else 0);
        ret \<leftarrow> release_blocked E p subtype;
        (if ret \<noteq> ERRNO_SUCCESS then State_Monad.return (ERRNO_IPC, subtype)
         else do { raps_stop p; State_Monad.return (ERRNO_SUCCESS, subtype) })
      }
      else State_Monad.return (ERRNO_SUCCESS, 0))
   }"

definition erps_idle_handle_raps_nr :: "erps_env \<Rightarrow> nat \<Rightarrow> raps_pkt option \<Rightarrow> int erps" where
  "erps_idle_handle_raps_nr E p raps_pdu =
     (case raps_pdu of
        None \<Rightarrow> State_Monad.return ERRNO_FAIL
      | Some pkt \<Rightarrow>
          if p = 0 then State_Monad.return ERRNO_FAIL
          else do {
            i \<leftarrow> info_of p;
            (ret, subtype) \<leftarrow> (if role i = ERPS_ROLE_NONOWNER then yield_to_node E p pkt
                               else State_Monad.return (ERRNO_SUCCESS, 0));
            State_Monad.return (if ret \<noteq> ERRNO_SUCCESS then ret
                                else if subtype = 0 then ERRNO_EXISTED else ERRNO_SUCCESS)
          })"

section \<open>Protection, manual and forced switch\<close>

definition announce_clear :: "erps_env \<Rightarrow> nat \<Rightarrow> int erps" where
  "announce_clear E p = do {
     erps_start_guard_timer E p;
     set_raps p ERPS_NO_REQUEST False False;
     raps_send_burst E p
   }"

definition owner_reverts :: "erps_info \<Rightarrow> bool" where
  "owner_reverts i \<longleftrightarrow> role i = ERPS_ROLE_OWNER \<and> failback i = FAILBACK_ENABLE"

definition erps_protection_handle_clear_sf :: "erps_env \<Rightarrow> nat \<Rightarrow> int erps" where
  "erps_protection_handle_clear_sf E p =
     (if p = 0 then State_Monad.return ERRNO_FAIL
      else do {
        ret \<leftarrow> announce_clear E p;
        (if ret \<noteq> ERRNO_SUCCESS then State_Monad.return ERRNO_FAIL
         else do {
           i \<leftarrow> info_of p;
           when_m (owner_reverts i) (erps_start_wtr_timer E p);
           move_to p ERPS_STATE_PENDING
         })
      })"

definition erps_ms_handle_raps_ms :: "erps_env \<Rightarrow> nat \<Rightarrow> int erps" where
  "erps_ms_handle_raps_ms E p =
     (if p = 0 then State_Monad.return ERRNO_FAIL
      else do {
        i \<leftarrow> info_of p;
        (if block_interface i \<noteq> 0 then do {
           ret \<leftarrow> announce_clear E p;
           (if ret \<noteq> ERRNO_SUCCESS then State_Monad.return ERRNO_FAIL
            else do {
              when_m (owner_reverts i) (erps_start_wtb_timer E p);
              move_to p ERPS_STATE_PENDING
            })
         }
         else do { set_status p ERPS_STATE_MS; State_Monad.return ERRNO_EXISTED })
      })"

definition erps_fsms_handle_admin_clear :: "erps_env \<Rightarrow> nat \<Rightarrow> int erps" where
  "erps_fsms_handle_admin_clear E p =
     (if p = 0 then State_Monad.return ERRNO_FAIL
      else do {
        i \<leftarrow> info_of p;
        (if block_interface i \<noteq> 0 then do {
           ret \<leftarrow> announce_clear E p;
           (if ret \<noteq> ERRNO_SUCCESS then State_Monad.return ERRNO_FAIL
            else do {
              when_m (owner_reverts i) (erps_start_wtb_timer E p);
              move_to p ERPS_STATE_PENDING
            })
         }
         else move_to p ERPS_STATE_PENDING)
      })"

definition erps_fs_handle_admin_fs :: "erps_env \<Rightarrow> nat \<Rightarrow> int erps" where
  "erps_fs_handle_admin_fs E p =
     (if p = 0 then State_Monad.return ERRNO_FAIL
      else do {
        i \<leftarrow> info_of p;
        switch_block E p (block_port i (event_block i)) (foward_other i (event_block i))
          ERPS_FORCED_SWITCH (move_to p ERPS_STATE_FS)
      })"


section \<open>Pending\<close>

text \<open>
  The owner's reversion, shared by the clear command and the two timers.  The flag
  \<open>sendMsgRapsNRRB\<close> is set while a message is under way, and a failure of the hardware is
  only logged.
\<close>

definition hal_nrrb :: "erps_env \<Rightarrow> nat \<Rightarrow> u8 \<Rightarrow> unit erps" where
  "hal_nrrb E p subtype =
     when_m (subtype \<noteq> 0) (do {
       set_nrrb p 1;
       _ \<leftarrow> hal_update E p subtype;
       set_nrrb p 0
     })"

definition burst_then_idle :: "erps_env \<Rightarrow> nat \<Rightarrow> int erps" where
  "burst_then_idle E p = do {
     ret \<leftarrow> raps_send_burst E p;
     (if ret \<noteq> ERRNO_SUCCESS then State_Monad.return ERRNO_FAIL else move_to p ERPS_STATE_IDLE)
   }"

definition revert_moving :: "erps_env \<Rightarrow> nat \<Rightarrow> int erps" where
  "revert_moving E p = do {
     i \<leftarrow> info_of p;
     hal_nrrb E p (block_port i (rpl_interface i));
     set_block p (rpl_interface i);
     set_raps p ERPS_NO_REQUEST True False;
     hal_nrrb E p (foward_other i (rpl_interface i));
     burst_then_idle E p
   }"

definition erps_pending_handle_admin_clear :: "erps_env \<Rightarrow> nat \<Rightarrow> int erps" where
  "erps_pending_handle_admin_clear E p =
     (if p = 0 then State_Monad.return ERRNO_FAIL
      else do {
        i \<leftarrow> info_of p;
        (if role i = ERPS_ROLE_OWNER then do {
           erps_stop_wtr_timer p;
           erps_stop_wtb_timer p;
           (if block_interface i \<noteq> 0 \<and> block_interface i = rpl_interface i then do {
              set_raps p ERPS_NO_REQUEST True True;
              hal_nrrb E p (foward_west_east i (rpl_interface i));
              burst_then_idle E p
            }
            else revert_moving E p)
         }
         else move_to p ERPS_STATE_IDLE)
      })"

text \<open>The bodies of \<open>erps_pending_handle_wtre\<close> and \<open>erps_pending_handle_wtbe\<close> for the owner.\<close>

definition timer_revert :: "erps_env \<Rightarrow> nat \<Rightarrow> int erps" where
  "timer_revert E p = do {
     i \<leftarrow> info_of p;
     (if rpl_interface i = block_interface i then do {
        set_raps p ERPS_NO_REQUEST True True;
        let subtype = foward_east_west i (rpl_interface i);
        when_m (subtype \<noteq> 0) (set_block p (rpl_interface i));
        hal_nrrb E p subtype;
        burst_then_idle E p
      }
      else revert_moving E p)
   }"

definition erps_pending_handle_wtre :: "erps_env \<Rightarrow> nat \<Rightarrow> int erps" where
  "erps_pending_handle_wtre E p =
     (if p = 0 then State_Monad.return ERRNO_FAIL
      else do {
        i \<leftarrow> info_of p;
        (if role i = ERPS_ROLE_OWNER then do { erps_stop_wtb_timer p; timer_revert E p }
         else move_to p ERPS_STATE_IDLE)
      })"

definition erps_pending_handle_wtbe :: "erps_env \<Rightarrow> nat \<Rightarrow> int erps" where
  "erps_pending_handle_wtbe E p =
     (if p = 0 then State_Monad.return ERRNO_FAIL
      else do {
        i \<leftarrow> info_of p;
        (if role i = ERPS_ROLE_OWNER then do { erps_stop_wtr_timer p; timer_revert E p }
         else move_to p ERPS_STATE_IDLE)
      })"

definition stop_and_move :: "nat \<Rightarrow> erps_status \<Rightarrow> int erps" where
  "stop_and_move p st = do { owner_stop_timers p; move_to p st }"

definition erps_pending_handle_admin_fs :: "erps_env \<Rightarrow> nat \<Rightarrow> int erps" where
  "erps_pending_handle_admin_fs E p =
     (if p = 0 then State_Monad.return ERRNO_FAIL
      else do {
        i \<leftarrow> info_of p;
        (if event_block i \<noteq> 0 \<and> event_block i = block_interface i
         then keep_block E p (foward_east_west i (event_block i)) ERPS_FORCED_SWITCH
                (stop_and_move p ERPS_STATE_FS)
         else do {
           let subtype_block = block_port i (event_block i);
           when_m (subtype_block \<noteq> 0) (set_block p (event_block i));
           ret \<leftarrow> hal_if E p subtype_block;
           (if ret \<noteq> ERRNO_SUCCESS then State_Monad.return ERRNO_IPC
            else do {
              set_raps p ERPS_FORCED_SWITCH False False;
              ret \<leftarrow> raps_send_burst E p;
              (if ret \<noteq> ERRNO_SUCCESS then State_Monad.return ERRNO_FAIL
               else do {
                 ret \<leftarrow> hal_if E p (foward_other i (event_block i));
                 (if ret \<noteq> ERRNO_SUCCESS then State_Monad.return ERRNO_IPC
                  else stop_and_move p ERPS_STATE_FS)
               })
            })
         })
      })"

text \<open>
  In the next two handlers, keeping the block writes \<open>block_interface\<close> once more when
  there is a port to forward.
\<close>

definition keep_block_store :: "erps_env \<Rightarrow> nat \<Rightarrow> (erps_info \<Rightarrow> u8) \<Rightarrow> 4 word \<Rightarrow> int erps \<Rightarrow> int erps" where
  "keep_block_store E p sel req finish = do {
     set_raps p req False True;
     ret \<leftarrow> raps_send_burst E p;
     (if ret \<noteq> ERRNO_SUCCESS then State_Monad.return ERRNO_FAIL
      else do {
        i \<leftarrow> info_of p;
        ret \<leftarrow> (if sel i \<noteq> 0 then do { set_block p (event_block i); hal_update E p (sel i) }
                else State_Monad.return 0);
        (if ret \<noteq> ERRNO_SUCCESS then State_Monad.return ERRNO_IPC else finish)
      })
   }"

definition erps_pending_handle_local_sf :: "erps_env \<Rightarrow> nat \<Rightarrow> int erps" where
  "erps_pending_handle_local_sf E p =
     (if p = 0 then State_Monad.return ERRNO_FAIL
      else do {
        i \<leftarrow> info_of p;
        (if event_block i \<noteq> 0 \<and> event_block i = block_interface i
         then keep_block_store E p (\<lambda>i. foward_west_east i (block_interface i)) ERPS_SIGNAL_FAIL
                (stop_and_move p ERPS_STATE_PROTECTION)
         else switch_block E p (block_port i (event_block i)) (foward_other i (event_block i))
                ERPS_SIGNAL_FAIL (stop_and_move p ERPS_STATE_PROTECTION))
      })"

text \<open>
  The second test of \<open>erps_pending_handle_admin_ms\<close> compares the two ring ports with each
  other, not the requested port with the west port.
\<close>

definition admin_ms_block :: "erps_info \<Rightarrow> u8 \<times> u8" where
  "admin_ms_block i =
     (if east_interface i \<noteq> 0 \<and> event_block i = east_interface i
      then (OAM_SUBTYPE_ERPS_BLOCK_EAST, if west_interface i \<noteq> 0 then OAM_SUBTYPE_ERPS_FOWARD_WEST else 0)
      else if west_interface i \<noteq> 0 \<and> east_interface i = west_interface i
      then (OAM_SUBTYPE_ERPS_BLOCK_WEST, if east_interface i \<noteq> 0 then OAM_SUBTYPE_ERPS_FOWARD_EAST else 0)
      else (0, 0))"

definition erps_pending_handle_admin_ms :: "erps_env \<Rightarrow> nat \<Rightarrow> int erps" where
  "erps_pending_handle_admin_ms E p =
     (if p = 0 then State_Monad.return ERRNO_FAIL
      else do {
        owner_stop_timers p;
        i \<leftarrow> info_of p;
        (if event_block i \<noteq> 0 \<and> event_block i = block_interface i
         then keep_block_store E p (\<lambda>i. foward_east_west i (event_block i)) ERPS_MANUAL_SWITCH
                (move_to p ERPS_STATE_MS)
         else switch_block E p (fst (admin_ms_block i)) (snd (admin_ms_block i))
                ERPS_MANUAL_SWITCH (move_to p ERPS_STATE_MS))
      })"

definition nrrb_nonowner :: "erps_env \<Rightarrow> nat \<Rightarrow> int erps" where
  "nrrb_nonowner E p = do {
     i \<leftarrow> info_of p;
     let subtype = foward_blocked i;
     ret \<leftarrow> hal_if E p subtype;
     (if ret \<noteq> ERRNO_SUCCESS then State_Monad.return ERRNO_IPC
      else do {
        when_m (subtype \<noteq> 0) (set_block p (rpl_interface i));
        raps_stop p;
        move_to p ERPS_STATE_IDLE
      })
   }"

definition nrrb_neighbour :: "erps_env \<Rightarrow> nat \<Rightarrow> int erps" where
  "nrrb_neighbour E p = do {
     i \<leftarrow> info_of p;
     ret \<leftarrow> hal_if E p (block_port i (rpl_interface i));
     (if ret \<noteq> ERRNO_SUCCESS then State_Monad.return ERRNO_IPC
      else do {
        set_block p (rpl_interface i);
        ret \<leftarrow> hal_if E p (foward_other i (rpl_interface i));
        (if ret \<noteq> ERRNO_SUCCESS then State_Monad.return ERRNO_IPC
         else do { raps_stop p; move_to p ERPS_STATE_IDLE })
      })
   }"

definition erps_pending_handle_nrrb :: "erps_env \<Rightarrow> nat \<Rightarrow> int erps" where
  "erps_pending_handle_nrrb E p =
     (if p = 0 then State_Monad.return ERRNO_FAIL
      else do {
        i \<leftarrow> info_of p;
        (case role i of
           ERPS_ROLE_OWNER \<Rightarrow> stop_and_move p ERPS_STATE_IDLE
         | ERPS_ROLE_NONOWNER \<Rightarrow> nrrb_nonowner E p
         | ERPS_ROLE_NEIGHBOUR \<Rightarrow> nrrb_neighbour E p
         | ERPS_ROLE_INVALID \<Rightarrow> move_to p ERPS_STATE_IDLE)
      })"

definition erps_pending_handle_nr :: "erps_env \<Rightarrow> nat \<Rightarrow> raps_pkt option \<Rightarrow> int erps" where
  "erps_pending_handle_nr E p raps_pdu =
     (case raps_pdu of
        None \<Rightarrow> State_Monad.return ERRNO_FAIL
      | Some pkt \<Rightarrow>
          if p = 0 then State_Monad.return ERRNO_FAIL
          else do {
            (ret, subtype) \<leftarrow> yield_to_node E p pkt;
            (if ret \<noteq> ERRNO_SUCCESS then State_Monad.return ret
             else do {
               set_status p ERPS_STATE_PENDING;
               State_Monad.return (if subtype = 0 then ERRNO_EXISTED else ERRNO_SUCCESS)
             })
          })"

section \<open>Handlers of several states\<close>

definition erps_x_handle_admin_fs :: "erps_env \<Rightarrow> nat \<Rightarrow> int erps" where
  "erps_x_handle_admin_fs E p =
     (if p = 0 then State_Monad.return ERRNO_FAIL
      else do {
        i \<leftarrow> info_of p;
        (if event_block i \<noteq> 0 \<and> event_block i = block_interface i
         then keep_block_store E p (\<lambda>i. foward_east_west i (event_block i)) ERPS_FORCED_SWITCH
                (move_to p ERPS_STATE_FS)
         else switch_block E p (block_port i (event_block i)) (foward_other i (event_block i))
                ERPS_FORCED_SWITCH (move_to p ERPS_STATE_FS))
      })"

definition erps_x_handle_local_sf :: "erps_env \<Rightarrow> nat \<Rightarrow> int erps" where
  "erps_x_handle_local_sf E p =
     (if p = 0 then State_Monad.return ERRNO_FAIL
      else do {
        i \<leftarrow> info_of p;
        (if event_block i \<noteq> 0 \<and> event_block i = block_interface i
         then keep_block_store E p (\<lambda>i. foward_east_west i (event_block i)) ERPS_SIGNAL_FAIL
                (move_to p ERPS_STATE_PROTECTION)
         else switch_block E p (block_port i (event_block i)) (foward_other i (event_block i))
                ERPS_SIGNAL_FAIL (move_to p ERPS_STATE_PROTECTION))
      })"

definition erps_x_handle_raps_nr :: "erps_env \<Rightarrow> nat \<Rightarrow> int erps" where
  "erps_x_handle_raps_nr E p =
     (if p = 0 then State_Monad.return ERRNO_FAIL
      else do {
        i \<leftarrow> info_of p;
        when_m (owner_reverts i)
          (if current_status i = ERPS_STATE_PROTECTION_REMOTE then erps_start_wtr_timer E p
           else when_m (current_status i = ERPS_STATE_MS \<or> current_status i = ERPS_STATE_FS)
             (erps_start_wtb_timer E p));
        move_to p ERPS_STATE_PENDING
      })"

end
