(* ===== verification/ErpsSession.thy ===== *)
theory ErpsSession
  imports ErpsPkt
begin

text \<open>
  Session management of \<open>raps/erps.c\<close>: the vlan bitmap, creating, storing, deleting,
  enabling and disabling a session, the message that updates the hardware layer's copy, and
  the bulk query of the configuration tools.
\<close>

section \<open>The vlan bitmap\<close>

definition erps_vlan_map_set :: "u8 list \<Rightarrow> u16 \<Rightarrow> u16 \<Rightarrow> u8 list option" where
  "erps_vlan_map_set bitmap vlan_start vlan_end =
     vlan_loop (\<lambda>b x. b OR x) (vlan_range vlan_start vlan_end) bitmap"

definition erps_vlan_map_unset :: "u8 list \<Rightarrow> u16 \<Rightarrow> u16 \<Rightarrow> u8 list option" where
  "erps_vlan_map_unset bitmap vlan_start vlan_end =
     vlan_loop (\<lambda>b x. b AND NOT x) (vlan_range vlan_start vlan_end) bitmap"

definition erps_vlan_map_isset :: "u8 list \<Rightarrow> u16 \<Rightarrow> u16 \<Rightarrow> nat option" where
  "erps_vlan_map_isset bitmap vlan_start vlan_end = vlan_first (vlan_range vlan_start vlan_end) bitmap"

section \<open>The life of a session\<close>

definition zero_info :: erps_info where
  "zero_info = \<lparr>sess_id = 0, pvlan = 0, data_vlan_map = replicate 512 0, dataVlanMapIsSet = 0,
     sendMsgRapsNRRB = 0, east_interface = 0, east_interface_flag = 0, eastInterfaceMac = replicate 6 0,
     west_interface = 0, west_interface_flag = 0, westInterfaceMac = replicate 6 0, rpl_interface = 0,
     block_interface = 0, event_block = 0, guardtimer = 0, holdoff = 0, wtr = 0, wtb = 0, ring_id = 0,
     sub_ring = 0, attach_sess_id = 0, east_cfm_session_id = 0, west_cfm_session_id = 0, level = 0,
     priority = 0, keepalive = 0, role = ERPS_ROLE_INVALID, current_status = ERPS_STATE_INIT,
     current_event = ERPS_INVALID_EVENT, status = SESSION_STATUS_DISABLE, failback = FAILBACK_ENABLE,
     node_id = replicate 6 0\<rparr>"

definition zero_pkt :: raps_pkt where
  "zero_pkt = \<lparr>pkt_level = 0, version = 0, pkt_opcode = 0, flag = 0, tlv_offset = 0, request_state = 0,
     sub_code = 0, rb = False, dnf = False, bpr = False, status_reserved = 0, pkt_node_id = replicate 6 0,
     reserved = replicate 24 0, end_tlv = 0\<rparr>"

definition zero_sess :: erps_sess where
  "zero_sess = \<lparr>info = zero_info, r_aps = zero_pkt, attach_to_sess = 0, east_cfm_session = 0,
     west_cfm_session = 0, holdoff_timer = 0, wtr_timer = 0, wtb_timer = 0, guard_timer = 0,
     keepalive_timer = 0\<rparr>"

text \<open>\<open>a\<close> is what \<open>XMALLOC\<close> returns.\<close>

definition erps_sess_create :: "nat \<Rightarrow> u16 \<Rightarrow> nat erps" where
  "erps_sess_create a sid =
     (if a = 0 then State_Monad.return 0
      else do {
        upd_sess a (\<lambda>_. zero_sess\<lparr>info := zero_info\<lparr>sess_id := sid, priority := 6, wtr := 5,
          guardtimer := 500, wtb := 5500, keepalive := 5, failback := FAILBACK_ENABLE,
          current_status := ERPS_STATE_INIT, level := 7\<rparr>\<rparr>);
        State_Monad.return a
      })"

definition erps_sess_table_init :: "u32 \<Rightarrow> unit erps" where
  "erps_sess_table_init n =
     (if n = 0 then State_Monad.return ()
      else modify (\<lambda>s. s\<lparr>erps_session_table := hios_hash_init n erps_compute_sess erps_compare_sess\<rparr>))"

definition erps_sess_add :: "nat \<Rightarrow> nat \<Rightarrow> int erps" where
  "erps_sess_add item_addr p =
     (if p = 0 then State_Monad.return ERRNO_FAIL
      else if item_addr = 0 then State_Monad.return ERRNO_MALLOC
      else do {
        i \<leftarrow> info_of p;
        s \<leftarrow> State_Monad.get;
        let (ret, tab) = hios_hash_add (erps_session_table s)
               \<lparr>addr = item_addr, hashval = 0, hash_key = ucast (sess_id i), data = p\<rparr>;
        State_Monad.set (s\<lparr>erps_session_table := tab\<rparr>);
        State_Monad.return (if ret \<noteq> 0 then ERRNO_OVERSIZE else ERRNO_SUCCESS)
      })"

text \<open>
  \<open>cfm_session_unbind_elps\<close> of \<open>cfm/cfm_session.c\<close>: the bind counts of the CFM session and
  of its maintenance domain and association go down.
\<close>

definition cfm_session_unbind_elps :: "u16 \<Rightarrow> nat erps" where
  "cfm_session_unbind_elps sid = State (\<lambda>s.
     let c = cfm_sess_table s sid in
     if c = 0 then (0, s)
     else
       let x = cfm_heap s c
       in (c, s\<lparr>cfm_heap := (cfm_heap s)(c := x\<lparr>elps_bind := elps_bind x - 1\<rparr>),
                md_bind := (md_bind s)(md_index x := map_option (\<lambda>n. n - 1) (md_bind s (md_index x))),
                ma_bind := (ma_bind s)(ma_index x := map_option (\<lambda>n. n - 1) (ma_bind s (ma_index x)))\<rparr>))"

definition erps_sess_delete :: "u16 \<Rightarrow> int erps" where
  "erps_sess_delete sid = do {
     s \<leftarrow> State_Monad.get;
     (case hios_hash_find (erps_session_table s) (ucast sid) of
        None \<Rightarrow> State_Monad.return ERRNO_SUCCESS
      | Some item \<Rightarrow> do {
          i \<leftarrow> info_of (data item);
          e \<leftarrow> (if data item \<noteq> 0 \<and> east_cfm_session_id i \<noteq> 0
                then cfm_session_unbind_elps (east_cfm_session_id i) else State_Monad.return 1);
          (if e = 0 then State_Monad.return ERRNO_FAIL
           else do {
             w \<leftarrow> (if data item \<noteq> 0 \<and> west_cfm_session_id i \<noteq> 0
                   then cfm_session_unbind_elps (west_cfm_session_id i) else State_Monad.return 1);
             (if w = 0 then State_Monad.return ERRNO_FAIL
              else do {
                modify (\<lambda>s. s\<lparr>erps_session_table := hios_hash_delete (erps_session_table s) item\<rparr>);
                State_Monad.return ERRNO_SUCCESS
              })
           })
        })
   }"

text \<open>The messages that tell the hardware layer of a session.\<close>

definition set_sess_status :: "nat \<Rightarrow> session_status \<Rightarrow> unit erps" where
  "set_sess_status p st = upd_info p (\<lambda>i. i\<lparr>status := st\<rparr>)"

definition erps_sess_update :: "erps_env \<Rightarrow> nat \<Rightarrow> int erps" where
  "erps_sess_update E p =
     (if p = 0 then State_Monad.return ERRNO_FAIL
      else do {
        ret \<leftarrow> l2_msg_send_hal_wait_ack E p OAM_SUBTYPE_SESSION IPC_OPCODE_UPDATE;
        (if ret \<noteq> ERRNO_SUCCESS then do {
           set_sess_status p SESSION_STATUS_DISABLE;
           State_Monad.return ERRNO_IPC
         }
         else State_Monad.return ret)
      })"

definition erps_sess_enable :: "erps_env \<Rightarrow> nat \<Rightarrow> int erps" where
  "erps_sess_enable E p =
     (if p = 0 then State_Monad.return ERRNO_FAIL
      else do {
        i \<leftarrow> info_of p;
        (if status i = SESSION_STATUS_ENABLE then State_Monad.return ERRNO_FAIL
         else do {
           set_sess_status p SESSION_STATUS_ENABLE;
           ret \<leftarrow> l2_msg_send_hal_wait_ack E p OAM_SUBTYPE_SESSION IPC_OPCODE_ADD;
           (if ret \<noteq> ERRNO_SUCCESS then do {
              set_sess_status p SESSION_STATUS_DISABLE;
              State_Monad.return ERRNO_IPC
            }
            else State_Monad.return ERRNO_SUCCESS)
         })
      })"

definition erps_sess_disable :: "erps_env \<Rightarrow> nat \<Rightarrow> int erps" where
  "erps_sess_disable E p =
     (if p = 0 then State_Monad.return ERRNO_FAIL
      else do {
        i \<leftarrow> info_of p;
        (if status i = SESSION_STATUS_DISABLE then State_Monad.return ERRNO_SUCCESS
         else do {
           ret \<leftarrow> l2_msg_send_hal_wait_ack E p OAM_SUBTYPE_SESSION IPC_OPCODE_DELETE;
           (if ret \<noteq> ERRNO_SUCCESS then State_Monad.return ERRNO_IPC
            else do {
              upd_info p (\<lambda>i. i\<lparr>current_status := ERPS_STATE_INIT\<rparr>);
              set_sess_status p SESSION_STATUS_DISABLE;
              State_Monad.return ERRNO_SUCCESS
            })
         })
      })"

section \<open>The bulk query\<close>

text \<open>
  Copies the sessions in table order, the first ones or those after a given one, and stops
  when the buffer is full; \<open>erps_max\<close> is compared after each copy, so \<open>0\<close> is no limit.
\<close>

fun bulk_copy :: "(nat \<Rightarrow> erps_info) \<Rightarrow> nat \<Rightarrow> nat list \<Rightarrow> erps_info list \<Rightarrow> erps_info list" where
  "bulk_copy get mx [] buf = buf"
| "bulk_copy get mx (p # ps) buf =
     (if p = 0 then bulk_copy get mx ps buf
      else let buf' = buf @ [get p] in if length buf' = mx then buf' else bulk_copy get mx ps buf')"

fun after_session :: "(nat \<Rightarrow> erps_info) \<Rightarrow> u32 \<Rightarrow> nat list \<Rightarrow> nat list" where
  "after_session get sid [] = []"
| "after_session get sid (p # ps) =
     (if p \<noteq> 0 \<and> sid = ucast (sess_id (get p)) then ps else after_session get sid ps)"

definition erps_get_bulk :: "u32 \<Rightarrow> nat \<Rightarrow> erps_state \<Rightarrow> erps_info list" where
  "erps_get_bulk session_id erps_max s =
     (let ps = map data (hash_bucket_loop (erps_session_table s));
          get = (\<lambda>p. info (heap s p))
      in bulk_copy get erps_max (if session_id = 0 then ps else after_session get session_id ps) [])"

end
