(* ===== verification/ErpsFsm.thy ===== *)
theory ErpsFsm
  imports ErpsAction ErpsSession
begin

text \<open>
  The protection state machine: \<open>erps_fsm\<close> dispatches the session's event by its status,
  \<open>erps_state_update\<close> turns port and CFM events into machine events, \<open>raps_recv\<close> does so
  for received frames, and the timer callbacks for expired timers.
\<close>

section \<open>The dispatcher\<close>

text \<open>\<open>None\<close> is the default branch of the switch, which does not update the hardware layer.\<close>

definition fsm_dispatch :: "erps_env \<Rightarrow> nat \<Rightarrow> raps_pkt option \<Rightarrow> erps_info \<Rightarrow> int erps option" where
  "fsm_dispatch E p raps_pdu i =
     (let st = current_status i; nothing = State_Monad.return ERRNO_FAIL in
      case current_event i of
        ERPS_EVENT_ADMIN_CLEAR \<Rightarrow> Some
          (if st = ERPS_STATE_PENDING then erps_pending_handle_admin_clear E p
           else if st = ERPS_STATE_MS \<or> st = ERPS_STATE_FS then erps_fsms_handle_admin_clear E p
           else nothing)
      | ERPS_EVENT_ADMIN_FS \<Rightarrow> Some
          (if st = ERPS_STATE_PENDING then erps_pending_handle_admin_fs E p
           else if st = ERPS_STATE_FS then erps_fs_handle_admin_fs E p
           else erps_x_handle_admin_fs E p)
      | ERPS_EVENT_RAPS_FS \<Rightarrow> Some
          (if st = ERPS_STATE_PENDING then erps_pending_handle_raps_fs E p
           else if st \<noteq> ERPS_STATE_FS then erps_x_handle_raps_fs E p
           else nothing)
      | ERPS_EVENT_LOCAL_SF \<Rightarrow> Some
          (if st = ERPS_STATE_PENDING then erps_pending_handle_local_sf E p
           else if st \<noteq> ERPS_STATE_FS then erps_x_handle_local_sf E p
           else nothing)
      | ERPS_EVENT_LOCAL_CLEAR_SF \<Rightarrow> Some
          (if st = ERPS_STATE_PROTECTION then erps_protection_handle_clear_sf E p else nothing)
      | ERPS_EVENT_RAPS_SF \<Rightarrow> Some
          (if st = ERPS_STATE_PENDING then erps_pending_handle_raps_sf E p
           else if st = ERPS_STATE_IDLE \<or> st = ERPS_STATE_MS then erps_idlems_handle_raps_sf E p
           else nothing)
      | ERPS_EVENT_RAPS_MS \<Rightarrow> Some
          (if st = ERPS_STATE_IDLE then erps_idle_handle_raps_ms E p
           else if st = ERPS_STATE_MS then erps_ms_handle_raps_ms E p
           else if st = ERPS_STATE_PENDING then erps_pending_handle_raps_ms E p
           else nothing)
      | ERPS_EVENT_ADMIN_MS \<Rightarrow> Some
          (if st = ERPS_STATE_IDLE then erps_idle_handle_admin_ms E p
           else if st = ERPS_STATE_PENDING then erps_pending_handle_admin_ms E p
           else nothing)
      | ERPS_EVENT_WTR_EXP \<Rightarrow> Some
          (if st = ERPS_STATE_PENDING then erps_pending_handle_wtre E p else nothing)
      | ERPS_EVENT_WTB_EXP \<Rightarrow> Some
          (if st = ERPS_STATE_PENDING then erps_pending_handle_wtbe E p else nothing)
      | ERPS_EVENT_RAPS_NR_RB \<Rightarrow> Some
          (if st = ERPS_STATE_IDLE then erps_idle_handle_raps_nrrb E p
           else if st = ERPS_STATE_PENDING then erps_pending_handle_nrrb E p
           else nothing)
      | ERPS_EVENT_RAPS_NR \<Rightarrow> Some
          (if st = ERPS_STATE_IDLE then erps_idle_handle_raps_nr E p raps_pdu
           else if st = ERPS_STATE_PENDING then erps_pending_handle_nr E p raps_pdu
           else if st = ERPS_STATE_PROTECTION_REMOTE \<or> st = ERPS_STATE_MS \<or> st = ERPS_STATE_FS
           then erps_x_handle_raps_nr E p
           else nothing)
      | _ \<Rightarrow> None)"

definition erps_fsm :: "erps_env \<Rightarrow> nat \<Rightarrow> raps_pkt option \<Rightarrow> int erps" where
  "erps_fsm E p raps_pdu =
     (if p = 0 then State_Monad.return ERRNO_FAIL
      else do {
        i \<leftarrow> info_of p;
        (case fsm_dispatch E p raps_pdu i of
           None \<Rightarrow> State_Monad.return ERRNO_SUCCESS
         | Some m \<Rightarrow> do {
             ret \<leftarrow> m;
             (if ret = ERRNO_SUCCESS then erps_sess_update E p else State_Monad.return ret)
           })
      })"

section \<open>Link state\<close>

text \<open>A ring port is down when its link is, or when the CFM session bound to it is.\<close>

definition port_down :: "bool \<Rightarrow> nat \<Rightarrow> bool erps" where
  "port_down link_down c =
     (if link_down then State_Monad.return True
      else if c \<noteq> 0 then gets (\<lambda>s. cfm_down (cfm_heap s c))
      else State_Monad.return False)"

text \<open>
  \<open>erps_link_down_handler\<close>: the west CFM session down makes the \<open>east\<close> port the one to
  block, as in the source.
\<close>

definition erps_link_down_handler :: "erps_env \<Rightarrow> nat \<Rightarrow> unit erps" where
  "erps_link_down_handler E p =
     (if p = 0 then State_Monad.return ()
      else do {
        x \<leftarrow> sess p;
        let i = info x;
        pe \<leftarrow> l2if_lookup (east_interface i);
        (if east_interface i \<noteq> 0 \<and> pe = None then State_Monad.return ()
         else do {
           e \<leftarrow> (if east_interface i \<noteq> 0 then port_down (the pe) (east_cfm_session x) else State_Monad.return False);
           when_m e (do { set_event p ERPS_EVENT_LOCAL_SF; set_event_block p (east_interface i) });
           pw \<leftarrow> l2if_lookup (west_interface i);
           (if west_interface i \<noteq> 0 \<and> pw = None then State_Monad.return ()
            else do {
              w \<leftarrow> (if west_interface i \<noteq> 0 then port_down (the pw) (west_cfm_session x) else State_Monad.return False);
              when_m w (do {
                set_event p ERPS_EVENT_LOCAL_SF;
                set_event_block p (if the pw then west_interface i else east_interface i)
              });
              when_m (e \<or> w) (do { _ \<leftarrow> erps_fsm E p None; State_Monad.return () })
            })
         })
      })"

definition erps_find_cfm :: "u32 \<Rightarrow> u16 \<Rightarrow> nat erps" where
  "erps_find_cfm ifindex sid = do {
     c \<leftarrow> cfm_session_lookup_new sid;
     (if c \<noteq> 0 then do {
        x \<leftarrow> cfm_at c;
        State_Monad.return (if cfm_ifindex x = ifindex then c else 0)
      }
      else State_Monad.return 0)
   }"

text \<open>
  The code for the east and for the west port is the same up to the fields it uses; a side
  selects them.
\<close>

datatype ring_side = East | West

fun other_side :: "ring_side \<Rightarrow> ring_side" where
  "other_side East = West"
| "other_side West = East"

fun side_port :: "ring_side \<Rightarrow> erps_info \<Rightarrow> u32" where
  "side_port East i = east_interface i"
| "side_port West i = west_interface i"

fun side_flag :: "ring_side \<Rightarrow> erps_info \<Rightarrow> u8" where
  "side_flag East i = east_interface_flag i"
| "side_flag West i = west_interface_flag i"

fun side_cfm :: "ring_side \<Rightarrow> erps_sess \<Rightarrow> nat" where
  "side_cfm East x = east_cfm_session x"
| "side_cfm West x = west_cfm_session x"

fun side_cfm_id :: "ring_side \<Rightarrow> erps_info \<Rightarrow> u16" where
  "side_cfm_id East i = east_cfm_session_id i"
| "side_cfm_id West i = west_cfm_session_id i"

definition set_side_flag :: "ring_side \<Rightarrow> nat \<Rightarrow> u8 \<Rightarrow> unit erps" where
  "set_side_flag sd p v = upd_info p (\<lambda>i. case sd of
     East \<Rightarrow> i\<lparr>east_interface_flag := v\<rparr> | West \<Rightarrow> i\<lparr>west_interface_flag := v\<rparr>)"

definition clear_side_cfm :: "ring_side \<Rightarrow> nat \<Rightarrow> unit erps" where
  "clear_side_cfm sd p = upd_sess p (\<lambda>x. case sd of
     East \<Rightarrow> x\<lparr>east_cfm_session := 0\<rparr> | West \<Rightarrow> x\<lparr>west_cfm_session := 0\<rparr>)"

text \<open>
  One side of \<open>erps_init_session\<close>: \<open>None\<close> ends the function with \<open>ERRNO_FAIL\<close>, otherwise
  the value of \<open>ret\<close> so far is passed on.
\<close>

definition init_side :: "erps_env \<Rightarrow> nat \<Rightarrow> ring_side \<Rightarrow> int \<Rightarrow> int option erps" where
  "init_side E p sd ret = do {
     x \<leftarrow> sess p;
     let port = side_port sd (info x);
     (if port = 0 then State_Monad.return (Some ret)
      else do {
        pif \<leftarrow> l2if_lookup port;
        (case pif of
           None \<Rightarrow> State_Monad.return None
         | Some link_down \<Rightarrow> do {
             d \<leftarrow> port_down link_down (side_cfm sd x);
             (if d then do {
                set_event p ERPS_EVENT_LOCAL_SF;
                set_side_flag sd p 1;
                set_event_block p port;
                ret \<leftarrow> erps_fsm E p None;
                State_Monad.return (if ret \<noteq> 0 then None else Some ret)
              }
              else State_Monad.return (Some ret))
           })
      })
   }"

definition erps_init_session :: "erps_env \<Rightarrow> nat \<Rightarrow> int erps" where
  "erps_init_session E p =
     (if p = 0 then State_Monad.return ERRNO_FAIL
      else do {
        set_event p ERPS_EVENT_RAPS_NR;
        set_side_flag East p 0;
        set_side_flag West p 0;
        r \<leftarrow> init_side E p East ERRNO_FAIL;
        (case r of
           None \<Rightarrow> State_Monad.return ERRNO_FAIL
         | Some ret \<Rightarrow> do {
             r \<leftarrow> init_side E p West ret;
             State_Monad.return (case r of None \<Rightarrow> ERRNO_FAIL | Some ret \<Rightarrow> ret)
           })
      })"

section \<open>Port and CFM events\<close>

text \<open>What the branches of \<open>erps_state_update\<close> do next: the loop's \<open>continue\<close>, \<open>return\<close>, or go on.\<close>

datatype port_outcome = Continue | Abort | Go

definition port_failed :: "nat \<Rightarrow> ring_side \<Rightarrow> port_outcome erps" where
  "port_failed p sd = do {
     i \<leftarrow> info_of p;
     set_event_block p (side_port sd i);
     set_event p ERPS_EVENT_LOCAL_SF;
     set_side_flag sd p 1;
     State_Monad.return Go
   }"

definition port_recovered :: "nat \<Rightarrow> ring_side \<Rightarrow> port_outcome erps" where
  "port_recovered p sd = do {
     i \<leftarrow> info_of p;
     (if current_status i = ERPS_STATE_PROTECTION \<and> event_block i = side_port sd i then do {
        (if side_flag (other_side sd) i \<noteq> 0 then do {
           set_event_block p (side_port (other_side sd) i);
           set_event p ERPS_EVENT_LOCAL_SF
         }
         else do {
           set_event_block p 0;
           set_event p ERPS_EVENT_LOCAL_CLEAR_SF
         });
        State_Monad.return Go
      }
      else State_Monad.return Continue)
   }"

definition port_event :: "nat \<Rightarrow> ring_side \<Rightarrow> u16 \<Rightarrow> erps_port_event \<Rightarrow> port_outcome erps" where
  "port_event p sd sid ev = do {
     x \<leftarrow> sess p;
     let bound = (side_cfm sd x \<noteq> 0 \<or> side_cfm_id sd (info x) = sid);
     (case ev of
        ERPS_PORT_DOWN \<Rightarrow> port_failed p sd
      | ERPS_PORT_UP \<Rightarrow> do {
          d \<leftarrow> (if side_cfm sd x \<noteq> 0 then gets (\<lambda>s. cfm_down (cfm_heap s (side_cfm sd x)))
               else State_Monad.return False);
          (if d then port_failed p sd
           else do { set_side_flag sd p 0; port_recovered p sd })
        }
      | ERPS_CC_DOWN \<Rightarrow> (if bound then port_failed p sd else State_Monad.return Continue)
      | ERPS_CC_UP \<Rightarrow>
          (if bound then do { set_side_flag sd p 0; port_recovered p sd }
           else State_Monad.return Continue)
      | ERPS_CC_DELETE \<Rightarrow>
          (if bound then do { set_side_flag sd p 0; clear_side_cfm sd p; port_recovered p sd }
           else State_Monad.return Continue)
      | ERPS_PORT_EVENT_MAX \<Rightarrow> State_Monad.return Abort)
   }"

text \<open>The hold-off timer delays a failure; everything else runs the machine at once.\<close>

definition port_react :: "erps_env \<Rightarrow> nat \<Rightarrow> erps_port_event \<Rightarrow> unit erps" where
  "port_react E p ev = do {
     x \<leftarrow> sess p;
     (if holdoff (info x) \<noteq> 0 \<and> (ev = ERPS_PORT_DOWN \<or> ev = ERPS_CC_DOWN)
      then when_m (holdoff_timer x = 0) (erps_start_holdoff_timer E p)
      else do { _ \<leftarrow> erps_fsm E p None; State_Monad.return () })
   }"

definition state_update_one :: "erps_env \<Rightarrow> u32 \<Rightarrow> u16 \<Rightarrow> erps_port_event \<Rightarrow> nat \<Rightarrow> port_outcome erps" where
  "state_update_one E ifindex sid ev p = do {
     i \<leftarrow> info_of p;
     (if ifindex = east_interface i \<or> ifindex = west_interface i then do {
        r \<leftarrow> port_event p (if ifindex = east_interface i then East else West) sid ev;
        when_m (r = Go) (port_react E p ev);
        State_Monad.return r
      }
      else State_Monad.return Continue)
   }"

fun state_update_loop :: "erps_env \<Rightarrow> u32 \<Rightarrow> u16 \<Rightarrow> erps_port_event \<Rightarrow> nat list \<Rightarrow> int erps" where
  "state_update_loop E ifindex sid ev [] = State_Monad.return ERRNO_SUCCESS"
| "state_update_loop E ifindex sid ev (p # ps) = do {
     r \<leftarrow> state_update_one E ifindex sid ev p;
     (if r = Abort then State_Monad.return ERRNO_FAIL else state_update_loop E ifindex sid ev ps)
   }"

definition table_sessions :: "nat list erps" where
  "table_sessions = gets (\<lambda>s. map data (hash_bucket_loop (erps_session_table s)))"

definition erps_state_update :: "erps_env \<Rightarrow> u32 \<Rightarrow> u16 \<Rightarrow> erps_port_event \<Rightarrow> int erps" where
  "erps_state_update E ifindex sid ev =
     (if ifindex = 0 then State_Monad.return ERRNO_FAIL
      else do { ps \<leftarrow> table_sessions; state_update_loop E ifindex sid ev ps })"

section \<open>Received frames\<close>

record recv_pkt =
  in_ifindex :: u32
  recv_ring :: u8
  recv_vlan :: u16
  recv_aps :: raps_pkt

definition count_err :: "unit erps" where
  "count_err = upd_gerps (\<lambda>g. g\<lparr>pkt_err := pkt_err g + 1\<rparr>)"

definition request_event :: "raps_pkt \<Rightarrow> erps_event" where
  "request_event pkt =
     (if request_state pkt = ERPS_FORCED_SWITCH then ERPS_EVENT_RAPS_FS
      else if request_state pkt = ERPS_SIGNAL_FAIL then ERPS_EVENT_RAPS_SF
      else if request_state pkt = ERPS_MANUAL_SWITCH then ERPS_EVENT_RAPS_MS
      else if request_state pkt = ERPS_NO_REQUEST
      then if rb pkt then ERPS_EVENT_RAPS_NR_RB else ERPS_EVENT_RAPS_NR
      else ERPS_INVALID_EVENT)"

text \<open>Level and ring of the frame against those of the ring it came in on, then its validity.\<close>

definition recv_check :: "nat \<Rightarrow> erps_info \<Rightarrow> recv_pkt \<Rightarrow> bool erps" where
  "recv_check p ring pkt =
     (if ucast (pkt_level (recv_aps pkt)) \<noteq> level ring \<or> ring_id ring \<noteq> ucast (recv_ring pkt)
      then State_Monad.return False
      else do {
        ret \<leftarrow> raps_validity_check p (Some (recv_aps pkt));
        State_Monad.return (ret = ERRNO_SUCCESS)
      })"

definition on_port :: "erps_info \<Rightarrow> u32 \<Rightarrow> bool" where
  "on_port i ifindex \<longleftrightarrow> west_interface i = ifindex \<or> east_interface i = ifindex"

definition recv_accept :: "erps_env \<Rightarrow> nat \<Rightarrow> nat \<Rightarrow> recv_pkt \<Rightarrow> bool erps" where
  "recv_accept E p a pkt = do {
     i \<leftarrow> info_of p;
     ai \<leftarrow> info_of a;
     (if a = 0 then (if on_port i (in_ifindex pkt) then recv_check p i pkt else State_Monad.return False)
      else if on_port i (in_ifindex pkt) then do {
        ok \<leftarrow> recv_check p i pkt;
        when_m ok (do {
          _ \<leftarrow> raps_forward E p (recv_aps pkt) (in_ifindex pkt) INTERFACE_2_VIRTUAL_TUNNEL;
          State_Monad.return () });
        State_Monad.return ok
      }
      else if on_port ai (in_ifindex pkt) then do {
        ok \<leftarrow> recv_check p ai pkt;
        when_m ok (do {
          _ \<leftarrow> raps_forward E p (recv_aps pkt) (in_ifindex pkt) VIRTUAL_TUNNEL_2_INTERFACE;
          State_Monad.return () });
        State_Monad.return ok
      }
      else State_Monad.return False)
   }"

definition raps_recv_one :: "erps_env \<Rightarrow> recv_pkt \<Rightarrow> nat \<Rightarrow> unit erps" where
  "raps_recv_one E pkt p = do {
     i \<leftarrow> info_of p;
     (if status i \<noteq> SESSION_STATUS_ENABLE then State_Monad.return ()
      else if recv_vlan pkt \<noteq> pvlan i then count_err
      else do {
        a \<leftarrow> refresh_attach p;
        ok \<leftarrow> recv_accept E p a pkt;
        (if \<not> ok then count_err
         else do {
           set_event p (request_event (recv_aps pkt));
           (if request_event (recv_aps pkt) = ERPS_INVALID_EVENT then count_err
            else do {
              ret \<leftarrow> erps_fsm E p (Some (recv_aps pkt));
              when_m (ret \<noteq> 0) count_err
            })
         })
      })
   }"

fun raps_recv_loop :: "erps_env \<Rightarrow> recv_pkt \<Rightarrow> nat list \<Rightarrow> unit erps" where
  "raps_recv_loop E pkt [] = State_Monad.return ()"
| "raps_recv_loop E pkt (p # ps) = do { raps_recv_one E pkt p; raps_recv_loop E pkt ps }"

definition raps_recv :: "erps_env \<Rightarrow> recv_pkt option \<Rightarrow> int erps" where
  "raps_recv E ppkt =
     (case ppkt of
        None \<Rightarrow> State_Monad.return ERRNO_FAIL
      | Some pkt \<Rightarrow> do {
          upd_gerps (\<lambda>g. g\<lparr>pkt_recv := pkt_recv g + 1\<rparr>);
          ps \<leftarrow> table_sessions;
          raps_recv_loop E pkt ps;
          State_Monad.return ERRNO_SUCCESS
        })"

section \<open>Expired timers\<close>

definition erps_wtr_expiry :: "erps_env \<Rightarrow> nat \<Rightarrow> int erps" where
  "erps_wtr_expiry E p = do {
     upd_sess p (\<lambda>x. x\<lparr>wtr_timer := 0\<rparr>);
     set_event p ERPS_EVENT_WTR_EXP;
     erps_fsm E p None
   }"

definition erps_wtb_expiry :: "erps_env \<Rightarrow> nat \<Rightarrow> int erps" where
  "erps_wtb_expiry E p = do {
     upd_sess p (\<lambda>x. x\<lparr>wtb_timer := 0\<rparr>);
     set_event p ERPS_EVENT_WTB_EXP;
     erps_fsm E p None
   }"

definition erps_guard_expiry :: "nat \<Rightarrow> int erps" where
  "erps_guard_expiry p = do {
     upd_sess p (\<lambda>x. x\<lparr>guard_timer := 0\<rparr>);
     State_Monad.return 0
   }"

definition erps_holdoff_expiry :: "erps_env \<Rightarrow> nat \<Rightarrow> int erps" where
  "erps_holdoff_expiry E p = do {
     upd_sess p (\<lambda>x. x\<lparr>holdoff_timer := 0\<rparr>);
     erps_link_down_handler E p;
     State_Monad.return 0
   }"

definition erps_msg_expiry :: "erps_env \<Rightarrow> nat \<Rightarrow> int erps" where
  "erps_msg_expiry E p = do {
     i \<leftarrow> info_of p;
     (if status i = SESSION_STATUS_ENABLE then do { mark_bpr p; raps_send E p }
      else State_Monad.return 1)
   }"

definition run_callback :: "erps_env \<Rightarrow> erps_cb \<Rightarrow> int erps" where
  "run_callback E cb =
     (case cb of
        Wtr_expiry p \<Rightarrow> erps_wtr_expiry E p
      | Wtb_expiry p \<Rightarrow> erps_wtb_expiry E p
      | Guard_expiry p \<Rightarrow> erps_guard_expiry p
      | Holdoff_expiry p \<Rightarrow> erps_holdoff_expiry E p
      | Msg_expiry p \<Rightarrow> erps_msg_expiry E p)"

text \<open>One tick of the process's timer: \<open>high_pre_timer_dotick\<close> with the callbacks above.\<close>

definition erps_tick :: "erps_env \<Rightarrow> erps_state \<Rightarrow> erps_state option" where
  "erps_tick E s =
     high_pre_timer_dotick timers (\<lambda>h s. s\<lparr>timers := h\<rparr>) (\<lambda>cb s. snd (run_state (run_callback E cb) s)) s"

section \<open>Commands\<close>

text \<open>The commands of \<open>raps/erps_cmd.c\<close> that drive the machine; \<open>False\<close> is \<open>CMD_WARNING\<close>.\<close>

definition erps_session_enable :: "erps_env \<Rightarrow> bool \<Rightarrow> nat \<Rightarrow> bool erps" where
  "erps_session_enable E enable p = do {
     i \<leftarrow> info_of p;
     (if enable then
        if status i = SESSION_STATUS_ENABLE then State_Monad.return False
        else if west_interface i = 0 \<and> east_interface i = 0 then State_Monad.return False
        else if pvlan i = 0 then State_Monad.return False
        else if ring_id i = 0 then State_Monad.return False
        else if role i = ERPS_ROLE_INVALID then State_Monad.return False
        else if level i > 7 then State_Monad.return False
        else do {
          upd_sess p (\<lambda>x. x\<lparr>r_aps := (r_aps x)\<lparr>pkt_level := ucast (level i), version := 1,
            pkt_opcode := 40, tlv_offset := 0x20\<rparr>\<rparr>);
          upd_gerps (\<lambda>g. g\<lparr>sess_enable := sess_enable g + 1\<rparr>);
          ret \<leftarrow> erps_sess_enable E p;
          (if ret \<noteq> ERRNO_SUCCESS then State_Monad.return False
           else do {
             _ \<leftarrow> erps_init_handle_initialization E p;
             _ \<leftarrow> erps_init_session E p;
             State_Monad.return True
           })
        }
      else if status i = SESSION_STATUS_DISABLE then State_Monad.return False
      else do {
        ret \<leftarrow> erps_sess_disable E p;
        (if ret \<noteq> ERRNO_SUCCESS then State_Monad.return False
         else do {
           _ \<leftarrow> erps_clear_timer p;
           upd_gerps (\<lambda>g. g\<lparr>sess_enable := sess_enable g - 1\<rparr>);
           State_Monad.return True
         })
      })
   }"

definition erps_admin_force :: "erps_env \<Rightarrow> bool \<Rightarrow> ring_side \<Rightarrow> nat \<Rightarrow> bool erps" where
  "erps_admin_force E force sd p = do {
     i \<leftarrow> info_of p;
     (if status i = SESSION_STATUS_DISABLE then State_Monad.return False
      else if side_port sd i = 0 then State_Monad.return False
      else do {
        set_event_block p (side_port sd i);
        set_event p (if force then ERPS_EVENT_ADMIN_FS else ERPS_EVENT_ADMIN_MS);
        _ \<leftarrow> erps_fsm E p None;
        State_Monad.return True
      })
   }"

definition erps_admin_clear :: "erps_env \<Rightarrow> nat \<Rightarrow> bool erps" where
  "erps_admin_clear E p = do {
     i \<leftarrow> info_of p;
     (if status i = SESSION_STATUS_DISABLE then State_Monad.return False
      else do {
        set_event p ERPS_EVENT_ADMIN_CLEAR;
        set_event_block p 0;
        _ \<leftarrow> erps_fsm E p None;
        i \<leftarrow> info_of p;
        when_m (east_interface_flag i \<noteq> 0)
          (do { _ \<leftarrow> erps_state_update E (east_interface i) 0 ERPS_PORT_DOWN; State_Monad.return () });
        i \<leftarrow> info_of p;
        when_m (west_interface_flag i \<noteq> 0)
          (do { _ \<leftarrow> erps_state_update E (west_interface i) 0 ERPS_PORT_DOWN; State_Monad.return () });
        State_Monad.return True
      })
   }"

end
