(* ===== verification/ErpsLogic.thy ===== *)
theory ErpsLogic
  imports ErpsFsm
begin

text \<open>
  Reasoning about the ring protection code: rules for the primitive effects, and the frame
  of everything that only sends frames or handles timers (\<open>quiet\<close>).  The two interfaces
  through which the properties of the whole machine are proved are locales: \<open>erps_frame\<close>
  (a relation kept by every primitive is kept by every operation) and its instances.
\<close>

section \<open>Rules for the primitives\<close>

lemma wp_sess [wp_simps]: "wp (sess p) Q s = Q (heap s p) s"
  by (simp add: sess_def wp_simps)

lemma wp_info_of [wp_simps]: "wp (info_of p) Q s = Q (info (heap s p)) s"
  by (simp add: info_of_def wp_simps)

lemma wp_upd_sess [wp_simps]: "wp (upd_sess p f) Q s = Q () (s\<lparr>heap := (heap s)(p := f (heap s p))\<rparr>)"
  by (simp add: upd_sess_def wp_simps)

lemma wp_upd_info [wp_simps]:
  "wp (upd_info p f) Q s = Q () (s\<lparr>heap := (heap s)(p := (heap s p)\<lparr>info := f (info (heap s p))\<rparr>)\<rparr>)"
  by (simp add: upd_info_def wp_simps)

lemmas wp_setters [wp_simps] =
  set_status_def [THEN arg_cong [where f = "\<lambda>m. wp m Q s" for Q s], unfolded wp_upd_info]
  set_event_def [THEN arg_cong [where f = "\<lambda>m. wp m Q s" for Q s], unfolded wp_upd_info]
  set_block_def [THEN arg_cong [where f = "\<lambda>m. wp m Q s" for Q s], unfolded wp_upd_info]
  set_event_block_def [THEN arg_cong [where f = "\<lambda>m. wp m Q s" for Q s], unfolded wp_upd_info]
  set_nrrb_def [THEN arg_cong [where f = "\<lambda>m. wp m Q s" for Q s], unfolded wp_upd_info]
  set_sess_status_def [THEN arg_cong [where f = "\<lambda>m. wp m Q s" for Q s], unfolded wp_upd_info]
  set_raps_def [THEN arg_cong [where f = "\<lambda>m. wp m Q s" for Q s], unfolded wp_upd_sess]

text \<open>The message sent, the answer to it, and the log extended by it.\<close>

definition hal_msg_at :: "erps_env \<Rightarrow> nat \<Rightarrow> u8 \<Rightarrow> ipc_opcode \<Rightarrow> erps_state \<Rightarrow> hal_msg" where
  "hal_msg_at E p subtype opc s =
     \<lparr>msg_subtype = subtype, msg_opcode = opc, payload = heap s p, wait_ack = True,
      answer = hal_answer (sync_answer E (length (hal_log s)))\<rparr>"

lemma wp_hal [wp_simps]:
  "wp (l2_msg_send_hal_wait_ack E p subtype opc) Q s =
   Q (hal_answer (sync_answer E (length (hal_log s)))) (s\<lparr>hal_log := hal_log s @ [hal_msg_at E p subtype opc s]\<rparr>)"
  by (simp add: l2_msg_send_hal_wait_ack_def wp_def Let_def hal_msg_at_def)

lemma wp_hal_update [wp_simps]:
  "wp (hal_update E p subtype) Q s =
   Q (hal_answer (sync_answer E (length (hal_log s))))
     (s\<lparr>hal_log := hal_log s @ [hal_msg_at E p subtype IPC_OPCODE_UPDATE s]\<rparr>)"
  by (simp add: hal_update_def wp_simps)

lemma wp_hal_if [wp_simps]:
  "wp (hal_if E p subtype) Q s = (if subtype \<noteq> 0 then wp (hal_update E p subtype) Q s else Q 0 s)"
  by (simp add: hal_if_def wp_simps)

lemma wp_upd_gerps [wp_simps]: "wp (upd_gerps f) Q s = Q () (s\<lparr>gerps := f (gerps s)\<rparr>)"
  by (simp add: upd_gerps_def wp_simps)

lemma wp_l2if_lookup [wp_simps]: "wp (l2if_lookup i) Q s = Q (l2ifs s i) s"
  by (simp add: l2if_lookup_def wp_simps)

section \<open>Frame rules\<close>

text \<open>
  \<open>erps_quiet\<close>: a preorder on states that sending frames and handling the timers of the
  session \<open>p\<close> respects.
\<close>

locale erps_quiet =
  fixes E :: erps_env and R :: "erps_state \<Rightarrow> erps_state \<Rightarrow> bool" and p :: nat
  assumes R_preorder: "preorder_rel R"
    and R_level: "\<And>l. keeps R (set_pkt_level p l)"
    and R_bpr: "keeps R (upd_sess p (\<lambda>x. x\<lparr>r_aps := (r_aps x)\<lparr>bpr := True\<rparr>\<rparr>))"
    and R_attach: "\<And>a. keeps R (upd_sess p (\<lambda>x. x\<lparr>attach_to_sess := a\<rparr>))"
    and R_timer_field: "\<And>t. keeps R (upd_sess p (wtr_timer_update (\<lambda>_. t)))"
      "\<And>t. keeps R (upd_sess p (wtb_timer_update (\<lambda>_. t)))"
      "\<And>t. keeps R (upd_sess p (guard_timer_update (\<lambda>_. t)))"
      "\<And>t. keeps R (upd_sess p (holdoff_timer_update (\<lambda>_. t)))"
      "\<And>t. keeps R (upd_sess p (keepalive_timer_update (\<lambda>_. t)))"
    and R_pkt: "\<And>i m v c k. keeps R (pkt_send E i m v c k)"
    and R_gerps: "\<And>f. keeps R (upd_gerps f)"
    and R_timer_add: "\<And>l cb ms. keeps R (timer_add E l cb ms)"
    and R_timer_delete: "\<And>i. keeps R (timer_delete i)"
begin

lemmas prims = R_level R_bpr R_attach R_timer_field R_pkt R_gerps R_timer_add R_timer_delete

lemmas intros = keeps_return [OF R_preorder] keeps_bind [OF R_preorder] keeps_if
  keeps_when_m [OF R_preorder] keeps_gets [OF R_preorder] keeps_get [OF R_preorder] keeps_let
  keeps_case_option keeps_case_prod

lemma reads: "keeps R (sess q)" "keeps R (info_of q)" "keeps R (l2if_lookup n)"
  "keeps R (cfm_session_lookup_new c)" "keeps R (cfm_at q)" "keeps R table_sessions"
  by (simp_all add: sess_def info_of_def l2if_lookup_def cfm_session_lookup_new_def cfm_at_def
      table_sessions_def keeps_gets R_preorder)

lemma stops: "keeps R (stop_timer wtr_timer wtr_timer_update p)"
  "keeps R (stop_timer wtb_timer wtb_timer_update p)"
  "keeps R (stop_timer guard_timer guard_timer_update p)"
  "keeps R (stop_timer holdoff_timer holdoff_timer_update p)"
  "keeps R (stop_timer keepalive_timer keepalive_timer_update p)"
  unfolding stop_timer_def by (intro intros reads prims)+

lemma named_stops: "keeps R (erps_stop_wtr_timer p)" "keeps R (erps_stop_wtb_timer p)"
  "keeps R (erps_stop_guard_timer p)" "keeps R (erps_stop_msg_timer p)" "keeps R (raps_stop p)"
  unfolding erps_stop_wtr_timer_def erps_stop_wtb_timer_def erps_stop_guard_timer_def
    raps_stop_def erps_stop_msg_timer_def
  by (rule stops)+

lemma starts: "keeps R (erps_start_wtr_timer E p)" "keeps R (erps_start_wtb_timer E p)"
  "keeps R (erps_start_guard_timer E p)" "keeps R (erps_start_msg_timer E p)"
  "keeps R (erps_start_holdoff_timer E p)"
  unfolding erps_start_wtr_timer_def erps_start_wtb_timer_def erps_start_guard_timer_def
    erps_start_msg_timer_def erps_start_holdoff_timer_def start_timer_def
  by (intro intros reads prims stops)+

lemma clear_timers: "keeps R (erps_clear_timer p)"
  unfolding erps_clear_timer_def by (intro intros stops)

lemma lookup: "keeps R (erps_sess_lookup sid)"
  unfolding erps_sess_lookup_def by (intro intros)

lemma attach: "keeps R (refresh_attach p)"
  unfolding refresh_attach_def by (intro intros reads prims lookup)

lemma sending: "keeps R (raps_send E p)"
  unfolding raps_send_def raps_send_side_def raps_send_attached_def raps_out_def
  by (intro intros reads prims attach)

lemma marking: "keeps R (mark_bpr p)"
  unfolding mark_bpr_def by (intro intros reads prims)

lemma burst: "keeps R (raps_send_burst E p)"
  unfolding raps_send_burst_def by (intro intros reads named_stops starts sending marking)

lemma stop_owner: "keeps R (owner_stop_timers p)"
  unfolding owner_stop_timers_def by (intro intros reads named_stops)

lemma counting: "keeps R count_err"
  unfolding count_err_def by (rule R_gerps)

lemma check_keeps: "keeps R (recv_check p i pkt)"
  unfolding recv_check_def raps_validity_check_def by (intro intros reads prims)

lemma forwarding: "keeps R (raps_forward E p k n d)"
proof -
  have "keeps R (raps_forward_to E i r k n q)" for i r k n q
    unfolding raps_forward_to_def by (intro intros prims)
  then show ?thesis
    unfolding raps_forward_def by (cases d) (auto intro!: intros reads prims attach)
qed

lemma accepting: "keeps R (recv_accept E p a k)"
  unfolding recv_accept_def by (intro intros reads check_keeps forwarding)

lemmas quiet_ops = intros reads prims stops named_stops starts attach sending marking burst stop_owner

end

text \<open>
  \<open>erps_frame\<close>: a preorder that all primitive effects on the session respect; every action
  function and the dispatcher then respect it.
\<close>

locale erps_frame = erps_quiet +
  assumes R_status: "\<And>st. keeps R (set_status p st)"
    and R_event: "\<And>ev. keeps R (set_event p ev)"
    and R_block: "\<And>b. keeps R (set_block p b)"
    and R_event_block: "\<And>b. keeps R (set_event_block p b)"
    and R_nrrb: "\<And>b. keeps R (set_nrrb p b)"
    and R_sess_status: "\<And>st. keeps R (set_sess_status p st)"
    and R_side_flag: "\<And>sd v. keeps R (set_side_flag sd p v)"
    and R_init_status: "keeps R (upd_info p (\<lambda>i. i\<lparr>current_status := ERPS_STATE_INIT\<rparr>))"
    and R_cfm: "\<And>sd. keeps R (clear_side_cfm sd p)"
    and R_raps: "\<And>f. keeps R (upd_sess p (\<lambda>x. x\<lparr>r_aps := f (r_aps x)\<rparr>))"
    and R_hal: "\<And>st opc. keeps R (l2_msg_send_hal_wait_ack E p st opc)"
    and R_reply: "\<And>st opc. keeps R (ipc_send_reply_n2 E p st opc)"
begin

lemmas frame_prims = R_status R_event R_block R_event_block R_nrrb R_sess_status R_side_flag R_init_status
  R_cfm R_raps R_hal R_reply

lemma raps_fields: "keeps R (set_raps p rs b d)"
  using R_raps [of "\<lambda>r. r\<lparr>request_state := rs, rb := b, dnf := d\<rparr>"] by (simp add: set_raps_def)

lemma hal_ops: "keeps R (hal_update E p st)" "keeps R (hal_if E p st)" "keeps R (hal_nrrb E p st)"
  unfolding hal_update_def hal_if_def hal_nrrb_def by (intro intros frame_prims)+

lemmas basics = quiet_ops frame_prims raps_fields hal_ops

lemma finishing: "keeps R (move_to p st)" "keeps R (stop_and_move p st)"
  unfolding move_to_def stop_and_move_def by (intro basics)+

lemma sequences: "keeps R m \<Longrightarrow> keeps R (switch_block E p a b rs m)"
  "keeps R m \<Longrightarrow> keeps R (keep_block E p b rs m)"
  "keeps R m \<Longrightarrow> keeps R (keep_block_store E p sel rs m)"
  "keeps R (release_blocked E p st)" "keeps R (release_and_move E p c stt)"
  "keeps R (announce_clear E p)" "keeps R (yield_to_node E p pkt)" "keeps R (revert_moving E p)"
  "keeps R (timer_revert E p)" "keeps R (nrrb_nonowner E p)" "keeps R (nrrb_neighbour E p)"
  unfolding switch_block_def keep_block_def keep_block_store_def release_blocked_def
    release_and_move_def announce_clear_def yield_to_node_def revert_moving_def timer_revert_def
    burst_then_idle_def nrrb_nonowner_def nrrb_neighbour_def
  by (intro basics finishing, assumption?)+

lemma handlers:
  "keeps R (erps_pending_handle_admin_clear E p)" "keeps R (erps_fsms_handle_admin_clear E p)"
  "keeps R (erps_pending_handle_admin_fs E p)" "keeps R (erps_fs_handle_admin_fs E p)"
  "keeps R (erps_x_handle_admin_fs E p)" "keeps R (erps_pending_handle_raps_fs E p)"
  "keeps R (erps_x_handle_raps_fs E p)" "keeps R (erps_pending_handle_local_sf E p)"
  "keeps R (erps_x_handle_local_sf E p)" "keeps R (erps_protection_handle_clear_sf E p)"
  "keeps R (erps_pending_handle_raps_sf E p)" "keeps R (erps_idlems_handle_raps_sf E p)"
  "keeps R (erps_idle_handle_raps_ms E p)" "keeps R (erps_ms_handle_raps_ms E p)"
  "keeps R (erps_pending_handle_raps_ms E p)" "keeps R (erps_idle_handle_admin_ms E p)"
  "keeps R (erps_pending_handle_admin_ms E p)" "keeps R (erps_pending_handle_wtre E p)"
  "keeps R (erps_pending_handle_wtbe E p)" "keeps R (erps_idle_handle_raps_nrrb E p)"
  "keeps R (erps_idle_handle_raps_nr E p rp)"
  "keeps R (erps_pending_handle_nr E p rp)" "keeps R (erps_x_handle_raps_nr E p)"
  unfolding erps_pending_handle_admin_clear_def erps_fsms_handle_admin_clear_def
    erps_pending_handle_admin_fs_def erps_fs_handle_admin_fs_def erps_x_handle_admin_fs_def
    erps_pending_handle_raps_fs_def erps_x_handle_raps_fs_def erps_pending_handle_local_sf_def
    erps_x_handle_local_sf_def erps_protection_handle_clear_sf_def erps_pending_handle_raps_sf_def
    erps_idlems_handle_raps_sf_def erps_idle_handle_raps_ms_def erps_ms_handle_raps_ms_def
    erps_pending_handle_raps_ms_def erps_idle_handle_admin_ms_def erps_pending_handle_admin_ms_def
    erps_pending_handle_wtre_def erps_pending_handle_wtbe_def erps_idle_handle_raps_nrrb_def
    erps_idle_handle_raps_nr_def erps_pending_handle_nr_def erps_x_handle_raps_nr_def burst_then_idle_def
  by (intro basics finishing sequences)+

lemma nrrb: "keeps R (erps_pending_handle_nrrb E p)"
  unfolding erps_pending_handle_nrrb_def
  by (intro basics) (auto split: erps_role.split intro: sequences finishing)

lemma sess_ops: "keeps R (erps_sess_update E p)" "keeps R (erps_sess_enable E p)"
  "keeps R (erps_sess_disable E p)" "keeps R (erps_clear_timer p)"
proof -
  show "keeps R (erps_sess_update E p)" unfolding erps_sess_update_def by (intro basics)
  show "keeps R (erps_sess_enable E p)" unfolding erps_sess_enable_def by (intro basics)
  show "keeps R (erps_sess_disable E p)" unfolding erps_sess_disable_def by (intro basics)
  show "keeps R (erps_clear_timer p)" by (rule clear_timers)
qed

lemma dispatch: "fsm_dispatch E p rp i = Some m \<Longrightarrow> keeps R m"
  unfolding fsm_dispatch_def Let_def
  by (cases "current_event i") (auto split: if_splits intro: handlers nrrb intros)

lemma fsm: "keeps R (erps_fsm E p rp)"
  unfolding erps_fsm_def by (intro basics sess_ops) (erule dispatch)

lemma down: "keeps R (port_down b c)"
  unfolding port_down_def by (intro basics)

lemma initialization: "keeps R (erps_init_handle_initialization E p)" "keeps R (erps_init_session E p)"
proof -
  show "keeps R (erps_init_handle_initialization E p)"
    unfolding erps_init_handle_initialization_def init_owner_def init_neighbour_def init_nonowner_def
      init_announce_def init_finish_def
    by (intro basics)
  have "keeps R (init_side E p sd r)" for sd r
    unfolding init_side_def by (intro basics fsm down)
  then show "keeps R (erps_init_session E p)"
    unfolding erps_init_session_def by (intro basics)
qed

lemma link_down: "keeps R (erps_link_down_handler E p)"
  unfolding erps_link_down_handler_def by (intro basics fsm down)

lemma port_ops: "keeps R (port_event p sd sid ev)" "keeps R (port_react E p ev)"
proof -
  have "keeps R (port_failed p sd)" "keeps R (port_recovered p sd)"
    unfolding port_failed_def port_recovered_def by (intro basics)+
  then show "keeps R (port_event p sd sid ev)"
    unfolding port_event_def Let_def
    by (cases ev) (auto intro!: basics split: if_splits)
  show "keeps R (port_react E p ev)"
    unfolding port_react_def by (intro basics fsm)
qed

lemma update_one: "keeps R (state_update_one E ifindex sid ev p)"
  unfolding state_update_one_def by (intro basics port_ops)

lemma receive_one: "keeps R (raps_recv_one E k p)"
  unfolding raps_recv_one_def by (intro basics counting accepting fsm)

lemma callback_ops: "keeps R (erps_wtr_expiry E p)" "keeps R (erps_wtb_expiry E p)" "keeps R (erps_guard_expiry p)"
  "keeps R (erps_holdoff_expiry E p)" "keeps R (erps_msg_expiry E p)"
  unfolding erps_wtr_expiry_def erps_wtb_expiry_def erps_guard_expiry_def
    erps_holdoff_expiry_def erps_msg_expiry_def
  by (intro basics fsm link_down)+

lemma enabling: "keeps R (erps_session_enable E on p)" "keeps R (erps_admin_force E f sd p)"
proof -
  have "keeps R (upd_sess p (\<lambda>x. x\<lparr>r_aps := (r_aps x)\<lparr>pkt_level := l, version := 1, pkt_opcode := 40,
      tlv_offset := 0x20\<rparr>\<rparr>))" for l
    using R_raps [of "\<lambda>r. r\<lparr>pkt_level := l, version := 1, pkt_opcode := 40, tlv_offset := 0x20\<rparr>"] by simp
  then show "keeps R (erps_session_enable E on p)"
    unfolding erps_session_enable_def by (intro basics sess_ops initialization)
  show "keeps R (erps_admin_force E f sd p)"
    unfolding erps_admin_force_def by (intro basics fsm)
qed

end

text \<open>When it holds for all sessions, the operations that walk the session table respect it, too.\<close>

locale erps_frame_all =
  fixes E :: erps_env and R :: "erps_state \<Rightarrow> erps_state \<Rightarrow> bool"
  assumes each: "\<And>p. erps_frame E R p"
begin

lemma each_quiet: "erps_quiet E R p"
  by (rule erps_frame.axioms(1) [OF each])

lemma R_pre: "preorder_rel R"
  by (rule erps_quiet.R_preorder [OF each_quiet])

lemmas ints = erps_quiet.intros [OF each_quiet] erps_quiet.reads [OF each_quiet]
  erps_frame.basics [OF each]

lemma state_update: "keeps R (erps_state_update E ifindex sid ev)"
proof -
  have "keeps R (state_update_loop E ifindex sid ev ps)" for ps
    by (induction ps) (auto intro!: ints erps_frame.update_one [OF each])
  then show ?thesis unfolding erps_state_update_def by (intro ints)
qed

lemma receiving: "keeps R (raps_recv E pkt)"
proof -
  have "keeps R (raps_recv_loop E k ps)" for k ps
    by (induction ps) (auto intro!: ints erps_frame.receive_one [OF each])
  then show ?thesis unfolding raps_recv_def by (intro ints)
qed

lemma callbacks: "keeps R (run_callback E cb)"
  unfolding run_callback_def by (cases cb) (simp_all add: erps_frame.callback_ops [OF each])

lemma clearing: "keeps R (erps_admin_clear E p)"
  unfolding erps_admin_clear_def by (intro ints erps_frame.fsm [OF each] state_update)

end

section \<open>The operations of the module\<close>

text \<open>The entry points other parts of the process call once the sessions are configured.\<close>

datatype erps_op =
    Op_fsm nat "raps_pkt option"
  | Op_port u32 u16 erps_port_event
  | Op_recv "recv_pkt option"
  | Op_timer erps_cb
  | Op_enable bool nat
  | Op_force bool ring_side nat
  | Op_clear nat

definition exec_op :: "erps_env \<Rightarrow> erps_op \<Rightarrow> erps_state \<Rightarrow> erps_state" where
  "exec_op E oper s =
     (case oper of
        Op_fsm p rp \<Rightarrow> post (erps_fsm E p rp) s
      | Op_port i c ev \<Rightarrow> post (erps_state_update E i c ev) s
      | Op_recv pkt \<Rightarrow> post (raps_recv E pkt) s
      | Op_timer cb \<Rightarrow> post (run_callback E cb) s
      | Op_enable on p \<Rightarrow> post (erps_session_enable E on p) s
      | Op_force f sd p \<Rightarrow> post (erps_admin_force E f sd p) s
      | Op_clear p \<Rightarrow> post (erps_admin_clear E p) s)"

context erps_frame_all
begin

lemma op_respects: "R s (exec_op E oper s)"
  unfolding exec_op_def
  by (cases oper) (simp_all add: keepsD state_update receiving callbacks clearing erps_frame.fsm [OF each]
      erps_frame.enabling [OF each])

lemma run_respects: "R s (fold (exec_op E) ops s)"
proof (induction ops arbitrary: s)
  case Nil
  then show ?case using R_pre by (simp add: preorder_rel_def)
next
  case (Cons oper ops)
  then show ?case using R_pre op_respects unfolding preorder_rel_def by (metis fold_simps(2))
qed

end

end
