(* ===== verification/ErpsRules.thy ===== *)
theory ErpsRules
  imports ErpsLogic
begin

text \<open>
  The instances of \<open>erps_quiet\<close> and the rewrite rules they give: sending frames and handling
  timers changes nothing the action functions decide on, so that the weakest precondition of
  an action function is found by rewriting.
\<close>

section \<open>What sending and timers leave alone\<close>

definition request_bits :: "erps_sess \<Rightarrow> 4 word \<times> bool \<times> bool" where
  "request_bits x = (request_state (r_aps x), rb (r_aps x), dnf (r_aps x))"

definition cfm_sides :: "erps_sess \<Rightarrow> nat \<times> nat" where
  "cfm_sides x = (east_cfm_session x, west_cfm_session x)"

definition quiet :: "erps_state \<Rightarrow> erps_state \<Rightarrow> bool" where
  "quiet s t \<longleftrightarrow>
     (\<forall>q. info (heap t q) = info (heap s q) \<and> request_bits (heap t q) = request_bits (heap s q) \<and>
          cfm_sides (heap t q) = cfm_sides (heap s q)) \<and>
     hal_log t = hal_log s \<and> erps_session_table t = erps_session_table s \<and> l2ifs t = l2ifs s \<and>
     cfm_heap t = cfm_heap s \<and> cfm_sess_table t = cfm_sess_table s"

lemma quiet_preorder: "preorder_rel quiet"
  unfolding preorder_rel_def quiet_def by simp

interpretation silent: erps_quiet E quiet p for E p
proof
  show "preorder_rel quiet" by (rule quiet_preorder)
qed (simp_all add: upd_sess_def set_pkt_level_def pkt_send_def upd_gerps_def timer_add_def timer_delete_def
      keeps_def post_def quiet_def request_bits_def cfm_sides_def Let_def split: prod.split)

lemma quiet_post:
  assumes "keeps quiet m"
  shows "info (heap (post m s) q) = info (heap s q)"
    "request_bits (heap (post m s) q) = request_bits (heap s q)"
    "east_cfm_session (heap (post m s) q) = east_cfm_session (heap s q)"
    "west_cfm_session (heap (post m s) q) = west_cfm_session (heap s q)"
    "hal_log (post m s) = hal_log s" "erps_session_table (post m s) = erps_session_table s"
    "l2ifs (post m s) = l2ifs s" "cfm_heap (post m s) = cfm_heap s"
    "cfm_sess_table (post m s) = cfm_sess_table s"
  using keepsD [OF assms, of s] by (simp_all add: quiet_def cfm_sides_def)

lemmas quiet_facts [simp] =
  silent.stops [THEN quiet_post(1)] silent.stops [THEN quiet_post(2)]
  silent.stops [THEN quiet_post(5)]
  silent.named_stops [THEN quiet_post(1)] silent.named_stops [THEN quiet_post(2)]
  silent.named_stops [THEN quiet_post(5)]
  silent.starts [THEN quiet_post(1)] silent.starts [THEN quiet_post(2)]
  silent.starts [THEN quiet_post(5)]
  silent.stop_owner [THEN quiet_post(1)] silent.stop_owner [THEN quiet_post(2)]
  silent.stop_owner [THEN quiet_post(5)]
  silent.burst [THEN quiet_post(1)] silent.burst [THEN quiet_post(2)]
  silent.burst [THEN quiet_post(5)]

lemma burst_result: "fst (run_state (raps_send_burst E p) s) = (if p = 0 then ERRNO_FAIL else ERRNO_SUCCESS)"
  by (simp add: raps_send_burst_def split_def)

lemma wp_burst [wp_simps]:
  "wp (raps_send_burst E p) Q s
   = Q (if p = 0 then ERRNO_FAIL else ERRNO_SUCCESS) (post (raps_send_burst E p) s)"
  by (simp only: wp_post burst_result)

lemma wp_unit: "wp m Q s = Q () (post m s)" for m :: "unit erps"
  by (simp add: wp_post)

text \<open>The message of \<open>erps_pending_handle_raps_ms\<close> through the reply queue.\<close>

definition reply_msg_at :: "erps_env \<Rightarrow> nat \<Rightarrow> u8 \<Rightarrow> ipc_opcode \<Rightarrow> erps_state \<Rightarrow> hal_msg" where
  "reply_msg_at E p subtype opc s =
     \<lparr>msg_subtype = subtype, msg_opcode = opc, payload = heap s p, wait_ack = False,
      answer = reply_code (reply_answer E (length (hal_log s)))\<rparr>"

lemma wp_reply [wp_simps]:
  "wp (ipc_send_reply_n2 E p subtype opc) Q s =
   Q (reply_code (reply_answer E (length (hal_log s)))) (s\<lparr>hal_log := hal_log s @ [reply_msg_at E p subtype opc s]\<rparr>)"
  by (simp add: ipc_send_reply_n2_def wp_def Let_def reply_msg_at_def)

lemmas wp_silent [wp_simps] =
  wp_unit [of "raps_stop p" for p] wp_unit [of "owner_stop_timers p" for p]
  wp_unit [of "erps_stop_wtr_timer p" for p] wp_unit [of "erps_stop_wtb_timer p" for p]
  wp_unit [of "erps_stop_guard_timer p" for p]
  wp_unit [of "erps_start_wtr_timer E p" for E p] wp_unit [of "erps_start_wtb_timer E p" for E p]
  wp_unit [of "erps_start_guard_timer E p" for E p] wp_unit [of "erps_start_holdoff_timer E p" for E p]


section \<open>An environment and states for the examples\<close>

text \<open>Every exchange succeeds.\<close>

definition answering :: erps_env where
  "answering = \<lparr>sync_answer = (\<lambda>_. Sync_ret 0 (Some (IPC_OPCODE_ACK, 0))),
     reply_answer = (\<lambda>_. Reply_tries True False False), pkt_answer = (\<lambda>_. Pkt_ret 0),
     timer_malloc = (\<lambda>n. n + 1)\<rparr>"

text \<open>The hardware layer refuses every message with code 1.\<close>

definition refusing :: erps_env where
  "refusing = answering\<lparr>sync_answer := (\<lambda>_. Sync_ret 0 (Some (IPC_OPCODE_NACK, 1)))\<rparr>"

lemma answering_acks [simp]: "hal_answer (sync_answer answering n) = 0" "timer_malloc answering n = n + 1"
  "reply_code (reply_answer answering n) = 0" "pkt_code (pkt_answer answering n) = 0"
  by (simp_all add: answering_def hal_answer_def reply_code_def pkt_code_def)

lemma refusing_nacks [simp]: "hal_answer (sync_answer refusing n) = 1"
  by (simp add: refusing_def answering_def hal_answer_def)

text \<open>One session, at address 1, with the given \<open>info\<close>; \<open>log\<close> is what was sent before.\<close>

definition one_session :: "erps_info \<Rightarrow> hal_msg list \<Rightarrow> erps_state" where
  "one_session i log = \<lparr>heap = (\<lambda>_. zero_sess)(1 := zero_sess\<lparr>info := i\<rparr>),
     erps_session_table = hios_hash_init 10 erps_compute_sess erps_compare_sess,
     gerps = \<lparr>pkt_recv = 0, pkt_send_cnt = 0, pkt_err = 0, sess_total = 1, sess_enable = 1, debug_packet = 0\<rparr>,
     timers = high_pre_timer_init 10, timer_allocs = 0, hal_log = log, pkt_log = [],
     l2ifs = (\<lambda>_. Some False),
     cfm_heap = (\<lambda>_. \<lparr>cfm_ifindex = 0, cfm_down = False, elps_bind = 0, md_index = 0, ma_index = 0\<rparr>),
     cfm_sess_table = (\<lambda>_. 0), md_bind = (\<lambda>_. None), ma_bind = (\<lambda>_. None)\<rparr>"

lemma one_session_sel [simp]: "heap (one_session i log) 1 = zero_sess\<lparr>info := i\<rparr>"
  "heap (one_session i log) (Suc 0) = zero_sess\<lparr>info := i\<rparr>" "hal_log (one_session i log) = log"
  by (simp_all add: one_session_def)

text \<open>An owner of ring 1 with the ports 101 and 102, the RPL at the east port.\<close>

definition owner_info :: "erps_status \<Rightarrow> erps_event \<Rightarrow> erps_info" where
  "owner_info st ev = zero_info\<lparr>sess_id := 1, pvlan := 100, ring_id := 1, east_interface := 101,
     west_interface := 102, rpl_interface := 101, level := 7, role := ERPS_ROLE_OWNER,
     status := SESSION_STATUS_ENABLE, current_status := st, current_event := ev\<rparr>"

end
