(* ===== verification/ErpsStates.thy ===== *)
theory ErpsStates
  imports ErpsRules "HOL-Library.Sublist"
begin

text \<open>
  What every operation of the ring protection keeps, whatever the hardware answers: the
  configuration of all sessions, the history of messages, the end of a tick; and the
  protection states a run of the machine can move between.
\<close>

section \<open>Configuration and history\<close>

text \<open>The fields of a session that only the configuration commands write.\<close>

definition config :: "erps_info \<Rightarrow> erps_info" where
  "config i = i\<lparr>east_interface_flag := 0, west_interface_flag := 0, sendMsgRapsNRRB := 0,
     block_interface := 0, event_block := 0, current_status := ERPS_STATE_INIT,
     current_event := ERPS_INVALID_EVENT, status := SESSION_STATUS_DISABLE\<rparr>"

definition config_kept :: "erps_state \<Rightarrow> erps_state \<Rightarrow> bool" where
  "config_kept s t \<longleftrightarrow>
     (\<forall>q. config (info (heap t q)) = config (info (heap s q))) \<and>
     erps_session_table t = erps_session_table s \<and> l2ifs t = l2ifs s \<and>
     cfm_heap t = cfm_heap s \<and> cfm_sess_table t = cfm_sess_table s \<and>
     prefix (hal_log s) (hal_log t) \<and> prefix (pkt_log s) (pkt_log t)"

lemma config_kept_preorder: "preorder_rel config_kept"
  unfolding preorder_rel_def config_kept_def by (auto intro: prefix_order.trans)

interpretation keeping: erps_frame_all E config_kept for E
proof
  fix p show "preorder_rel config_kept" by (rule config_kept_preorder)
qed (auto simp: upd_sess_def upd_info_def set_pkt_level_def pkt_send_def upd_gerps_def timer_add_def
      timer_delete_def set_status_def set_event_def set_block_def set_event_block_def set_nrrb_def
      set_sess_status_def set_side_flag_def clear_side_cfm_def l2_msg_send_hal_wait_ack_def
      ipc_send_reply_n2_def keeps_def post_def config_kept_def config_def Let_def
      split: prod.split ring_side.split)

text \<open>
  No operation of the running protocol changes the configuration of any session, the
  session table or what it knows of ports and CFM sessions, and the messages sent so far to
  the hardware layer and to the ring stay what they are, whatever the answers are and
  however many operations run.
\<close>

theorem operations_keep_configuration:
  "config (info (heap (fold (exec_op E) ops s) q)) = config (info (heap s q)) \<and>
   erps_session_table (fold (exec_op E) ops s) = erps_session_table s \<and>
   l2ifs (fold (exec_op E) ops s) = l2ifs s \<and>
   cfm_heap (fold (exec_op E) ops s) = cfm_heap s \<and>
   prefix (hal_log s) (hal_log (fold (exec_op E) ops s)) \<and>
   prefix (pkt_log s) (pkt_log (fold (exec_op E) ops s))"
  using keeping.run_respects [of s E ops] by (simp add: config_kept_def)

section \<open>A tick ends\<close>

definition fewer_expired :: "erps_state \<Rightarrow> erps_state \<Rightarrow> bool" where
  "fewer_expired s t \<longleftrightarrow> length (tempHead (timers t)) \<le> length (tempHead (timers s))"

lemma fewer_expired_preorder: "preorder_rel fewer_expired"
  unfolding preorder_rel_def fewer_expired_def by auto

interpretation shrinking: erps_frame_all E fewer_expired for E
proof
  fix p show "preorder_rel fewer_expired" by (rule fewer_expired_preorder)
  show "keeps fewer_expired (timer_delete i)" for i
    by (simp add: timer_delete_def keeps_def post_def fewer_expired_def delete_shorter)
  show "keeps fewer_expired (timer_add E l cb ms)" for l cb ms
    by (auto simp: timer_add_def keeps_def post_def fewer_expired_def dest: add_same_temp split: prod.split)
qed (auto simp: upd_sess_def upd_info_def set_pkt_level_def pkt_send_def upd_gerps_def
      set_status_def set_event_def set_block_def set_event_block_def set_nrrb_def
      set_sess_status_def set_side_flag_def clear_side_cfm_def l2_msg_send_hal_wait_ack_def
      ipc_send_reply_n2_def keeps_def post_def fewer_expired_def Let_def
      split: ring_side.split)

text \<open>
  C19: A tick of the process timer returns: the callbacks of the ring protection, which
  delete and add timers and may run the whole state machine, never make the list of
  expired timers longer, so the loop that pops it ends.
\<close>

theorem tick_returns: "\<exists>t. erps_tick E s = Some t"
  unfolding erps_tick_def
proof (rule dotick_terminates)
  show "length (tempHead (timers (snd (run_state (run_callback E cb) s)))) \<le> length (tempHead (timers s))" for cb s
    using keepsD [OF shrinking.callbacks, of s E cb] by (simp add: fewer_expired_def post_def)
qed simp

section \<open>Protection states\<close>

text \<open>The moves of the machine, event by event.\<close>

inductive erps_edge :: "erps_status \<Rightarrow> erps_event \<Rightarrow> erps_status \<Rightarrow> bool" where
  clear_pending: "erps_edge ERPS_STATE_PENDING ERPS_EVENT_ADMIN_CLEAR ERPS_STATE_IDLE"
| clear_switch: "st \<in> {ERPS_STATE_MS, ERPS_STATE_FS} \<Longrightarrow> erps_edge st ERPS_EVENT_ADMIN_CLEAR ERPS_STATE_PENDING"
| admin_fs: "erps_edge st ERPS_EVENT_ADMIN_FS ERPS_STATE_FS"
| raps_fs: "st \<noteq> ERPS_STATE_FS \<Longrightarrow> erps_edge st ERPS_EVENT_RAPS_FS ERPS_STATE_FS"
| local_sf: "st \<noteq> ERPS_STATE_FS \<Longrightarrow> erps_edge st ERPS_EVENT_LOCAL_SF ERPS_STATE_PROTECTION"
| clear_sf: "erps_edge ERPS_STATE_PROTECTION ERPS_EVENT_LOCAL_CLEAR_SF ERPS_STATE_PENDING"
| raps_sf: "st \<in> {ERPS_STATE_PENDING, ERPS_STATE_IDLE, ERPS_STATE_MS} \<Longrightarrow>
    erps_edge st ERPS_EVENT_RAPS_SF ERPS_STATE_PROTECTION_REMOTE"
| raps_ms: "st \<in> {ERPS_STATE_PENDING, ERPS_STATE_IDLE, ERPS_STATE_MS} \<Longrightarrow>
    erps_edge st ERPS_EVENT_RAPS_MS ERPS_STATE_MS"
| raps_ms_clash: "erps_edge ERPS_STATE_MS ERPS_EVENT_RAPS_MS ERPS_STATE_PENDING"
| admin_ms: "st \<in> {ERPS_STATE_PENDING, ERPS_STATE_IDLE} \<Longrightarrow> erps_edge st ERPS_EVENT_ADMIN_MS ERPS_STATE_MS"
| reverted: "ev \<in> {ERPS_EVENT_WTR_EXP, ERPS_EVENT_WTB_EXP, ERPS_EVENT_RAPS_NR_RB} \<Longrightarrow>
    erps_edge ERPS_STATE_PENDING ev ERPS_STATE_IDLE"
| idle_nrrb: "erps_edge ERPS_STATE_IDLE ERPS_EVENT_RAPS_NR_RB ERPS_STATE_IDLE"
| idle_nr: "erps_edge ERPS_STATE_IDLE ERPS_EVENT_RAPS_NR ERPS_STATE_IDLE"
| no_request: "st \<in> {ERPS_STATE_PENDING, ERPS_STATE_PROTECTION_REMOTE, ERPS_STATE_MS, ERPS_STATE_FS} \<Longrightarrow>
    erps_edge st ERPS_EVENT_RAPS_NR ERPS_STATE_PENDING"

code_pred erps_edge .

inductive_simps edge_simps:
  "erps_edge st ERPS_EVENT_ADMIN_CLEAR st'" "erps_edge st ERPS_EVENT_ADMIN_FS st'"
  "erps_edge st ERPS_EVENT_RAPS_FS st'" "erps_edge st ERPS_EVENT_LOCAL_SF st'"
  "erps_edge st ERPS_EVENT_LOCAL_CLEAR_SF st'" "erps_edge st ERPS_EVENT_RAPS_SF st'"
  "erps_edge st ERPS_EVENT_RAPS_MS st'" "erps_edge st ERPS_EVENT_ADMIN_MS st'"
  "erps_edge st ERPS_EVENT_WTR_EXP st'" "erps_edge st ERPS_EVENT_WTB_EXP st'"
  "erps_edge st ERPS_EVENT_RAPS_NR_RB st'" "erps_edge st ERPS_EVENT_RAPS_NR st'"
  "erps_edge st ERPS_INVALID_EVENT st'" "erps_edge st ERPS_EVENT_WTR_RUN st'"
  "erps_edge st ERPS_EVENT_WTB_RUN st'"

definition status_of :: "erps_state \<Rightarrow> nat \<Rightarrow> erps_status" where
  "status_of s p = current_status (info (heap s p))"

text \<open>\<open>m\<close> touches the session \<open>p\<close> only, and leaves its status or moves it into \<open>T\<close>, at success always.\<close>

definition lands :: "nat \<Rightarrow> erps_status set \<Rightarrow> int erps \<Rightarrow> erps_state \<Rightarrow> bool" where
  "lands p T m s \<longleftrightarrow> wp m (\<lambda>r t. (\<forall>q. q \<noteq> p \<longrightarrow> info (heap t q) = info (heap s q)) \<and>
     (if r = ERRNO_SUCCESS then status_of t p \<in> T else status_of t p \<in> insert (status_of s p) T)) s"

lemmas land_simps = lands_def wp_simps status_of_def release_and_move_def release_blocked_def
  move_to_def stop_and_move_def switch_block_def keep_block_def keep_block_store_def
  announce_clear_def burst_then_idle_def revert_moving_def timer_revert_def hal_nrrb_def
  yield_to_node_def set_event_def

lemma landing_release: "p \<noteq> 0 \<Longrightarrow> lands p {st} (release_and_move E p c st) s"
  by (simp add: land_simps)

lemma landing_switch: "p \<noteq> 0 \<Longrightarrow> lands p {st} (switch_block E p a b rs (stop_and_move p st)) s"
  "p \<noteq> 0 \<Longrightarrow> lands p {st} (switch_block E p a b rs (move_to p st)) s"
  by (simp_all add: land_simps)


lemma landing_pending:
  assumes "p \<noteq> 0"
  shows "lands p {ERPS_STATE_IDLE} (erps_pending_handle_admin_clear E p) s"
    "lands p {ERPS_STATE_FS} (erps_pending_handle_admin_fs E p) s"
    "lands p {ERPS_STATE_PROTECTION} (erps_pending_handle_local_sf E p) s"
    "lands p {ERPS_STATE_MS} (erps_pending_handle_admin_ms E p) s"
    "lands p {ERPS_STATE_MS} (erps_pending_handle_raps_ms E p) s"
    "lands p {ERPS_STATE_IDLE} (erps_pending_handle_wtre E p) s"
    "lands p {ERPS_STATE_IDLE} (erps_pending_handle_wtbe E p) s"
  using assms
  by (simp_all add: land_simps erps_pending_handle_admin_clear_def erps_pending_handle_admin_fs_def
      erps_pending_handle_local_sf_def erps_pending_handle_admin_ms_def erps_pending_handle_raps_ms_def
      erps_pending_handle_wtre_def erps_pending_handle_wtbe_def Let_def)

lemma landing_nrrb: "p \<noteq> 0 \<Longrightarrow> lands p {ERPS_STATE_IDLE} (erps_pending_handle_nrrb E p) s"
  by (cases "role (info (heap s p))")
    (simp_all add: land_simps erps_pending_handle_nrrb_def nrrb_nonowner_def nrrb_neighbour_def)

lemma landing_others:
  assumes "p \<noteq> 0"
  shows "lands p {ERPS_STATE_PENDING} (erps_fsms_handle_admin_clear E p) s"
    "lands p {ERPS_STATE_FS} (erps_fs_handle_admin_fs E p) s"
    "lands p {ERPS_STATE_FS} (erps_x_handle_admin_fs E p) s"
    "lands p {ERPS_STATE_PROTECTION} (erps_x_handle_local_sf E p) s"
    "lands p {ERPS_STATE_PENDING} (erps_protection_handle_clear_sf E p) s"
    "lands p {ERPS_STATE_MS, ERPS_STATE_PENDING} (erps_ms_handle_raps_ms E p) s"
    "lands p {ERPS_STATE_MS} (erps_idle_handle_admin_ms E p) s"
    "lands p {ERPS_STATE_PENDING} (erps_x_handle_raps_nr E p) s"
  using assms
  by (simp_all add: land_simps erps_fsms_handle_admin_clear_def erps_fs_handle_admin_fs_def
      erps_x_handle_admin_fs_def erps_x_handle_local_sf_def erps_protection_handle_clear_sf_def
      erps_ms_handle_raps_ms_def erps_idle_handle_admin_ms_def erps_x_handle_raps_nr_def)

lemma landing_idle:
  assumes "p \<noteq> 0" "status_of s p = ERPS_STATE_IDLE"
  shows "lands p {ERPS_STATE_IDLE} (erps_idle_handle_raps_nrrb E p) s"
    "lands p {ERPS_STATE_IDLE} (erps_idle_handle_raps_nr E p rp) s"
  using assms
  by (simp_all add: land_simps erps_idle_handle_raps_nrrb_def erps_idle_handle_raps_nr_def split: option.split)

lemma landing_nr:
  "p \<noteq> 0 \<Longrightarrow> status_of s p = ERPS_STATE_PENDING \<Longrightarrow> lands p {ERPS_STATE_PENDING} (erps_pending_handle_nr E p rp) s"
  by (simp add: land_simps erps_pending_handle_nr_def split: option.split)

lemma landing_nothing: "lands p T (State_Monad.return ERRNO_FAIL) s"
  by (simp add: land_simps)

lemmas landings = landing_pending landing_nrrb landing_others landing_idle landing_nr landing_nothing
  landing_release

lemmas release_handlers = erps_idlems_handle_raps_sf_def erps_idle_handle_raps_ms_def
  erps_x_handle_raps_fs_def erps_pending_handle_raps_fs_def erps_pending_handle_raps_sf_def

lemma lands_mono: "lands p T m s \<Longrightarrow> T \<subseteq> T' \<Longrightarrow> lands p T' m s"
  unfolding lands_def by (erule wp_mono) (auto split: if_splits)

lemmas landings_within = landings [THEN lands_mono]

lemma dispatch_lands:
  assumes p: "p \<noteq> 0" and m: "fsm_dispatch E p rp (info (heap s p)) = Some m"
  shows "lands p {st. erps_edge (status_of s p) (current_event (info (heap s p))) st} m s"
proof -
  have st: "current_status (info (heap s p)) = status_of s p" by (simp add: status_of_def)
  show ?thesis
    using m p unfolding fsm_dispatch_def Let_def st release_handlers
    by (cases "current_event (info (heap s p))")
      (auto split: if_splits simp: edge_simps intro!: landings_within
)
qed

text \<open>
  C18: One run of the state machine leaves the record of every other session as it is and either leaves
  the protection status or moves it along an edge of the machine; when it returns success
  on an event the machine reacts to, it has moved along an edge.
\<close>

theorem fsm_follows_edges:
  assumes "p \<noteq> 0"
  shows "let i = info (heap s p); (ret, t) = run_state (erps_fsm E p rp) s in
     (\<forall>q. q \<noteq> p \<longrightarrow> info (heap t q) = info (heap s q)) \<and>
     (status_of t p = current_status i \<or> erps_edge (current_status i) (current_event i) (status_of t p)) \<and>
     (ret = ERRNO_SUCCESS \<and> fsm_dispatch E p rp i \<noteq> None \<longrightarrow>
        erps_edge (current_status i) (current_event i) (status_of t p))"
proof -
  let ?i = "info (heap s p)"
  let ?T = "{st. erps_edge (current_status ?i) (current_event ?i) st}"
  have upd: "wp (erps_sess_update E p) (\<lambda>r t. (\<forall>q. q \<noteq> p \<longrightarrow> info (heap t q) = info (heap u q)) \<and>
      status_of t p = status_of u p) u" for u
    by (simp add: erps_sess_update_def wp_simps status_of_def)
  have "wp (erps_fsm E p rp) (\<lambda>ret t. (\<forall>q. q \<noteq> p \<longrightarrow> info (heap t q) = info (heap s q)) \<and>
     (status_of t p = current_status ?i \<or> status_of t p \<in> ?T) \<and>
     (ret = ERRNO_SUCCESS \<and> fsm_dispatch E p rp ?i \<noteq> None \<longrightarrow> status_of t p \<in> ?T)) s"
  proof (cases "fsm_dispatch E p rp ?i")
    case None
    then show ?thesis using assms by (simp add: erps_fsm_def wp_simps status_of_def)
  next
    case (Some m)
    have "wp m (\<lambda>r t. (\<forall>q. q \<noteq> p \<longrightarrow> info (heap t q) = info (heap s q)) \<and>
        (if r = ERRNO_SUCCESS then status_of t p \<in> ?T else status_of t p \<in> insert (status_of s p) ?T)) s"
      using dispatch_lands [OF assms Some] by (simp add: lands_def status_of_def)
    then show ?thesis
      using assms Some
      by (auto simp: erps_fsm_def wp_simps status_of_def intro!: wp_mono [OF upd] elim!: wp_mono)
  qed
  then show ?thesis by (simp add: wp_def Let_def split_def)
qed


lemma fsm_follows_edges_witness:
  "let i = owner_info ERPS_STATE_IDLE ERPS_EVENT_RAPS_SF; s = one_session i [];
       (ret, t) = run_state (erps_fsm answering 1 None) s in
     (\<forall>q. q \<noteq> 1 \<longrightarrow> info (heap t q) = info (heap s q)) \<and>
     (status_of t 1 = current_status i \<or> erps_edge (current_status i) (current_event i) (status_of t 1)) \<and>
     (ret = ERRNO_SUCCESS \<and> fsm_dispatch answering 1 None i \<noteq> None \<longrightarrow>
        erps_edge (current_status i) (current_event i) (status_of t 1))"
  using fsm_follows_edges [of 1 "one_session (owner_info ERPS_STATE_IDLE ERPS_EVENT_RAPS_SF) []" answering None]
  by (simp add: zero_sess_def Let_def)

end
