(* ===== verification/ErpsSafety.thy ===== *)
theory ErpsSafety
  imports ErpsStates
begin

text \<open>
  Which ring ports the hardware blocks, replayed from the messages a session sent, and that
  the machine keeps this in step with the session's \<open>block_interface\<close> and never opens the
  ring when a port fails or a switch is forced.
\<close>

section \<open>The hardware, replayed\<close>

text \<open>
  The ports that are blocked for sure after a message: a block counts when it was
  acknowledged, an unblocking as soon as it is sent.
\<close>

definition sure_step :: "u16 \<Rightarrow> hal_msg \<Rightarrow> ring_side set \<Rightarrow> ring_side set" where
  "sure_step sid m B =
     (if sess_id (info (payload m)) \<noteq> sid \<or> msg_opcode m \<noteq> IPC_OPCODE_UPDATE then B
      else if msg_subtype m = OAM_SUBTYPE_ERPS_BLOCK_EAST then if answer m = 0 then insert East B else B
      else if msg_subtype m = OAM_SUBTYPE_ERPS_BLOCK_WEST then if answer m = 0 then insert West B else B
      else if msg_subtype m = OAM_SUBTYPE_ERPS_FOWARD_EAST then B - {East}
      else if msg_subtype m = OAM_SUBTYPE_ERPS_FOWARD_WEST then B - {West}
      else B)"

definition sure_blocked :: "u16 \<Rightarrow> hal_msg list \<Rightarrow> ring_side set" where
  "sure_blocked sid log = fold (sure_step sid) log {}"

lemma sure_blocked_append [simp]: "sure_blocked sid (log @ ms) = fold (sure_step sid) ms (sure_blocked sid log)"
  by (simp add: sure_blocked_def)

text \<open>The sides a port number stands for, and what the session says is blocked.\<close>

definition port_sides :: "erps_info \<Rightarrow> u32 \<Rightarrow> ring_side set" where
  "port_sides i x = {sd. x \<noteq> 0 \<and> side_port sd i = x}"

text \<open>
  A ring node: two different ports (one of them may be missing), the RPL at one of them, if
  the node has a role in protecting it.
\<close>

definition ring_node :: "erps_info \<Rightarrow> bool" where
  "ring_node i \<longleftrightarrow> east_interface i \<noteq> west_interface i \<and>
     (if role i = ERPS_ROLE_OWNER \<or> role i = ERPS_ROLE_NEIGHBOUR
      then rpl_interface i \<noteq> 0 \<and> rpl_interface i \<in> {east_interface i, west_interface i}
      else rpl_interface i = 0)"

text \<open>The port \<open>x\<close> is one of the node.\<close>

definition ring_port :: "erps_info \<Rightarrow> u32 \<Rightarrow> bool" where
  "ring_port i x \<longleftrightarrow> x \<noteq> 0 \<and> x \<in> {east_interface i, west_interface i}"

definition in_step :: "nat \<Rightarrow> erps_state \<Rightarrow> bool" where
  "in_step p s \<longleftrightarrow>
     (let i = info (heap s p) in sure_blocked (sess_id i) (hal_log s) = port_sides i (block_interface i))"

section \<open>The effect of one message\<close>

definition sub_step :: "u8 \<Rightarrow> ring_side set \<Rightarrow> ring_side set" where
  "sub_step st B =
     (if st = OAM_SUBTYPE_ERPS_BLOCK_EAST then insert East B
      else if st = OAM_SUBTYPE_ERPS_BLOCK_WEST then insert West B
      else if st = OAM_SUBTYPE_ERPS_FOWARD_EAST then B - {East}
      else if st = OAM_SUBTYPE_ERPS_FOWARD_WEST then B - {West}
      else B)"

definition acked :: "erps_env \<Rightarrow> bool" where
  "acked E \<longleftrightarrow> (\<forall>n. hal_answer (sync_answer E n) = 0)"

lemma acked_answer [simp]: "acked E \<Longrightarrow> hal_answer (sync_answer E n) = 0"
  by (simp add: acked_def)

lemma sub_step_0 [simp]: "sub_step 0 B = B" "sub_step 1 B = B"
  by (simp_all add: sub_step_def)

lemma sure_step_acked [simp]:
  "acked E \<Longrightarrow> sure_step sid (hal_msg_at E p st opc s) B =
     (if sess_id (info (heap s p)) = sid \<and> opc = IPC_OPCODE_UPDATE then sub_step st B else B)"
  by (simp add: sure_step_def hal_msg_at_def sub_step_def acked_def)

lemma sure_step_reply [simp]: "sure_step sid (reply_msg_at E p st IPC_OPCODE_REPLY s) B = B"
  by (simp add: sure_step_def reply_msg_at_def)

text \<open>With every message acknowledged, sending one that may be missing is one step.\<close>

definition maybe :: "u8 \<Rightarrow> hal_msg \<Rightarrow> hal_msg list" where
  "maybe st m = (if st = 0 then [] else [m])"

lemma wp_hal_if_acked:
  "acked E \<Longrightarrow> wp (hal_if E p st) Q s =
     Q 0 (s\<lparr>hal_log := hal_log s @ maybe st (hal_msg_at E p st IPC_OPCODE_UPDATE s)\<rparr>)"
  by (simp add: wp_hal_if wp_hal_update maybe_def acked_def)

lemma wp_hal_nrrb_acked:
  "acked E \<Longrightarrow> wp (hal_nrrb E p st) Q s =
     (if st = 0 then Q () s else
      wp (set_nrrb p 1) (\<lambda>_ s. wp (set_nrrb p 0) Q
        (s\<lparr>hal_log := hal_log s @ [hal_msg_at E p st IPC_OPCODE_UPDATE s]\<rparr>)) s)"
  by (simp add: hal_nrrb_def wp_simps acked_def)

lemma fold_maybe [simp]:
  "acked E \<Longrightarrow> sess_id (info (heap s p)) = sid \<Longrightarrow>
   fold (sure_step sid) (maybe st (hal_msg_at E p st IPC_OPCODE_UPDATE s)) B = sub_step st B"
  by (simp add: maybe_def)

lemma same_sides: "B = C \<longleftrightarrow> (East \<in> B \<longleftrightarrow> East \<in> C) \<and> (West \<in> B \<longleftrightarrow> West \<in> C)" for B C :: "ring_side set"
proof
  assume a: "(East \<in> B \<longleftrightarrow> East \<in> C) \<and> (West \<in> B \<longleftrightarrow> West \<in> C)"
  have "x \<in> B \<longleftrightarrow> x \<in> C" for x using a by (cases x) auto
  then show "B = C" by (rule set_eqI)
qed simp

text \<open>The port selections of the action functions.\<close>

lemma ring_nodeD:
  assumes "ring_node i"
  shows "east_interface i \<noteq> west_interface i"
    "role i = ERPS_ROLE_OWNER \<or> role i = ERPS_ROLE_NEIGHBOUR \<Longrightarrow> ring_port i (rpl_interface i)"
    "role i \<noteq> ERPS_ROLE_OWNER \<Longrightarrow> role i \<noteq> ERPS_ROLE_NEIGHBOUR \<Longrightarrow> rpl_interface i = 0"
  using assms by (auto simp: ring_node_def ring_port_def)

lemma ring_port_0 [simp]: "\<not> ring_port i 0"
  by (simp add: ring_port_def)

lemma block_ring_port: "ring_port i x \<Longrightarrow> block_port i x \<noteq> 0"
  by (auto simp: block_port_def ring_port_def)

lemma sub_step_release:
  "east_interface i \<noteq> west_interface i \<Longrightarrow> sub_step (foward_blocked i) (port_sides i (block_interface i)) = {}"
  unfolding same_sides by (auto simp: sub_step_def foward_blocked_def port_sides_def)

lemma no_release: "foward_blocked i = 0 \<Longrightarrow> port_sides i (block_interface i) = {}"
  unfolding same_sides by (auto simp: foward_blocked_def port_sides_def split: if_splits)

lemma sub_step_block:
  "east_interface i \<noteq> west_interface i \<Longrightarrow> sub_step (block_port i x) B = B \<union> port_sides i x"
  unfolding same_sides by (auto simp: sub_step_def block_port_def port_sides_def)

lemma sub_step_foward:
  "east_interface i \<noteq> west_interface i \<Longrightarrow> ring_port i x \<Longrightarrow>
   sub_step (foward_other i x) (port_sides i b \<union> port_sides i x) = port_sides i x"
  unfolding same_sides by (auto simp: sub_step_def foward_other_def port_sides_def ring_port_def)

lemma sub_step_foward_same:
  "east_interface i \<noteq> west_interface i \<Longrightarrow> ring_port i x \<Longrightarrow>
   sub_step (foward_other i x) (port_sides i x) = port_sides i x"
  unfolding same_sides by (auto simp: sub_step_def foward_other_def port_sides_def ring_port_def)

lemma no_other:
  "foward_other i x = 0 \<Longrightarrow> ring_port i x \<Longrightarrow> port_sides i b \<union> port_sides i x = port_sides i x"
  unfolding same_sides by (auto simp: foward_other_def port_sides_def ring_port_def split: if_splits)

lemma sub_step_keep:
  "east_interface i \<noteq> west_interface i \<Longrightarrow> sub_step (foward_east_west i x) (port_sides i x) = port_sides i x"
  "east_interface i \<noteq> west_interface i \<Longrightarrow> sub_step (foward_west_east i x) (port_sides i x) = port_sides i x"
  unfolding same_sides by (auto simp: sub_step_def foward_east_west_def foward_west_east_def port_sides_def)

lemma sub_step_no_rpl:
  "foward_west_east i 0 \<noteq> 0 \<Longrightarrow> sub_step (foward_west_east i 0) (port_sides i b) = {}"
  unfolding same_sides by (auto simp: sub_step_def foward_west_east_def port_sides_def split: if_splits)

lemma port_sides_0 [simp]: "port_sides i 0 = {}"
  by (simp add: port_sides_def)

lemma port_sides_cong:
  "east_interface j = east_interface i \<Longrightarrow> west_interface j = west_interface i \<Longrightarrow> port_sides j x = port_sides i x"
  unfolding same_sides by (simp add: port_sides_def)

lemma port_sides_upd [simp]:
  "port_sides (i\<lparr>block_interface := b\<rparr>) x = port_sides i x" "port_sides (i\<lparr>current_status := st\<rparr>) x = port_sides i x"
  "port_sides (i\<lparr>sendMsgRapsNRRB := v\<rparr>) x = port_sides i x" "port_sides (i\<lparr>status := w\<rparr>) x = port_sides i x"
  by (rule port_sides_cong, simp, simp)+

lemma selection_upd [simp]:
  "foward_other (i\<lparr>block_interface := b\<rparr>) x = foward_other i x" "foward_other (i\<lparr>sendMsgRapsNRRB := v\<rparr>) x = foward_other i x"
  "block_port (i\<lparr>block_interface := b\<rparr>) x = block_port i x"
  by (simp_all add: foward_other_def block_port_def)

text \<open>Each action function leaves the hardware and the session in step.\<close>

lemmas mirror_simps = in_step_def Let_def wp_simps wp_hal_if_acked wp_hal_nrrb_acked
  move_to_def stop_and_move_def switch_block_def keep_block_def keep_block_store_def
  announce_clear_def burst_then_idle_def revert_moving_def timer_revert_def
  yield_to_node_def release_and_move_def release_blocked_def

lemmas side_simps = sub_step_release sub_step_block sub_step_foward sub_step_foward_same sub_step_keep
  block_ring_port no_other no_release

lemma mirror_release:
  assumes "acked E" "p \<noteq> 0" "ring_node (info (heap s p))" "in_step p s"
  shows "wp (release_and_move E p c st) (\<lambda>_. in_step p) s"
  using assms(1,2,4) ring_nodeD [OF assms(3)] by (simp add: mirror_simps side_simps del: wp_hal_if)

lemma mirror_pending_clear:
  assumes "acked E" "p \<noteq> 0" "ring_node (info (heap s p))" "in_step p s"
  shows "wp (erps_pending_handle_admin_clear E p) (\<lambda>_. in_step p) s"
    "wp (erps_pending_handle_wtre E p) (\<lambda>_. in_step p) s"
    "wp (erps_pending_handle_wtbe E p) (\<lambda>_. in_step p) s"
  using assms(1,2,4) ring_nodeD [OF assms(3)]
  unfolding erps_pending_handle_admin_clear_def erps_pending_handle_wtre_def erps_pending_handle_wtbe_def
  by (simp_all add: mirror_simps side_simps del: wp_hal_if)


lemma mirror_request:
  assumes "acked E" "p \<noteq> 0" "ring_node (info (heap s p))" "in_step p s"
    and "ring_port (info (heap s p)) (event_block (info (heap s p)))"
  shows "wp (erps_pending_handle_admin_fs E p) (\<lambda>_. in_step p) s"
    "wp (erps_fs_handle_admin_fs E p) (\<lambda>_. in_step p) s"
    "wp (erps_x_handle_admin_fs E p) (\<lambda>_. in_step p) s"
    "wp (erps_pending_handle_local_sf E p) (\<lambda>_. in_step p) s"
    "wp (erps_x_handle_local_sf E p) (\<lambda>_. in_step p) s"
    "wp (erps_idle_handle_admin_ms E p) (\<lambda>_. in_step p) s"
  using assms(1,2,4,5) ring_nodeD [OF assms(3)]
  unfolding erps_pending_handle_admin_fs_def erps_fs_handle_admin_fs_def erps_x_handle_admin_fs_def
    erps_pending_handle_local_sf_def erps_x_handle_local_sf_def erps_idle_handle_admin_ms_def
  by (simp_all add: mirror_simps side_simps del: wp_hal_if)

lemma mirror_quiet_handlers:
  assumes "acked E" "p \<noteq> 0" "in_step p s"
  shows "wp (erps_protection_handle_clear_sf E p) (\<lambda>_. in_step p) s"
    "wp (erps_fsms_handle_admin_clear E p) (\<lambda>_. in_step p) s"
    "wp (erps_ms_handle_raps_ms E p) (\<lambda>_. in_step p) s"
    "wp (erps_x_handle_raps_nr E p) (\<lambda>_. in_step p) s"
  using assms
  unfolding erps_protection_handle_clear_sf_def erps_fsms_handle_admin_clear_def
    erps_ms_handle_raps_ms_def erps_x_handle_raps_nr_def
  by (simp_all add: mirror_simps del: wp_hal_if)

lemma mirror_remote:
  assumes "acked E" "p \<noteq> 0" "ring_node (info (heap s p))" "in_step p s"
  shows "wp (erps_pending_handle_nrrb E p) (\<lambda>_. in_step p) s"
    "wp (erps_pending_handle_nr E p rp) (\<lambda>_. in_step p) s"
    "wp (erps_idle_handle_raps_nr E p rp) (\<lambda>_. in_step p) s"
  using assms(1,2,4) ring_nodeD [OF assms(3)]
  unfolding erps_pending_handle_nrrb_def erps_pending_handle_nr_def erps_idle_handle_raps_nr_def
    nrrb_nonowner_def nrrb_neighbour_def
  by (cases "role (info (heap s p))"; cases rp; simp add: mirror_simps side_simps del: wp_hal_if)+

lemma mirror_idle_nrrb:
  assumes "acked E" "p \<noteq> 0" "ring_node (info (heap s p))" "in_step p s"
    and "rpl_interface (info (heap s p)) \<in> {0, block_interface (info (heap s p))}"
  shows "wp (erps_idle_handle_raps_nrrb E p) (\<lambda>_. in_step p) s"
  using assms(1,2,4,5) ring_nodeD [OF assms(3)]
  unfolding erps_idle_handle_raps_nrrb_def
  by (auto simp: mirror_simps sub_step_no_rpl simp del: wp_hal_if)

lemma admin_ms_east:
  "event_block i = east_interface i \<Longrightarrow> ring_port i (event_block i) \<Longrightarrow>
   admin_ms_block i = (block_port i (event_block i), foward_other i (event_block i))"
  by (simp add: admin_ms_block_def block_port_def foward_other_def ring_port_def)

lemma mirror_pending_ms:
  assumes "acked E" "p \<noteq> 0" "ring_node (info (heap s p))" "in_step p s"
    and "ring_port (info (heap s p)) (event_block (info (heap s p)))"
    and "event_block (info (heap s p)) \<in> {east_interface (info (heap s p)), block_interface (info (heap s p))}"
  shows "wp (erps_pending_handle_admin_ms E p) (\<lambda>_. in_step p) s"
  using assms(1,2,4,5,6) ring_nodeD [OF assms(3)] admin_ms_east [of "info (heap s p)"]
  unfolding erps_pending_handle_admin_ms_def
  by (auto simp: mirror_simps side_simps simp del: wp_hal_if)

lemma mirror_pending_raps_ms:
  assumes "acked E" "p \<noteq> 0" "in_step p s" "block_interface (info (heap s p)) = 0"
  shows "wp (erps_pending_handle_raps_ms E p) (\<lambda>_. in_step p) s"
  using assms unfolding erps_pending_handle_raps_ms_def
  by (simp add: mirror_simps foward_blocked_def del: wp_hal_if)


section \<open>The machine and the hardware stay in step\<close>

text \<open>
  Where the source does not keep them in step: a manual switch of another node that
  arrives while reversion is pending unblocks the port over the wrong message queue; a manual
  switch of the west port, requested then, is not sent at all; and an idle neighbour that lost
  its block records the RPL as blocked without blocking it.
\<close>

definition off_step :: "erps_info \<Rightarrow> bool" where
  "off_step i \<longleftrightarrow>
     (case current_event i of
        ERPS_EVENT_RAPS_MS \<Rightarrow> current_status i = ERPS_STATE_PENDING \<and> block_interface i \<noteq> 0
      | ERPS_EVENT_ADMIN_MS \<Rightarrow> current_status i = ERPS_STATE_PENDING \<and>
          event_block i \<notin> {east_interface i, block_interface i}
      | ERPS_EVENT_RAPS_NR_RB \<Rightarrow> current_status i = ERPS_STATE_IDLE \<and>
          rpl_interface i \<notin> {0, block_interface i}
      | _ \<Rightarrow> False)"

text \<open>The events that come with a port to block.\<close>

definition asks_block :: "erps_event \<Rightarrow> bool" where
  "asks_block ev \<longleftrightarrow> ev \<in> {ERPS_EVENT_ADMIN_FS, ERPS_EVENT_ADMIN_MS, ERPS_EVENT_LOCAL_SF}"

lemma mirror_dispatch:
  assumes "acked E" "p \<noteq> 0" "ring_node (info (heap s p))" "in_step p s"
    and port: "asks_block (current_event (info (heap s p))) \<Longrightarrow>
      ring_port (info (heap s p)) (event_block (info (heap s p)))"
    and on: "\<not> off_step (info (heap s p))"
    and m: "fsm_dispatch E p rp (info (heap s p)) = Some m"
  shows "wp m (\<lambda>_. in_step p) s"
  using m port on unfolding fsm_dispatch_def Let_def release_handlers
  by (cases "current_event (info (heap s p))")
    (auto simp: asks_block_def off_step_def wp_return assms(4) split: if_splits
      intro!: mirror_release [OF assms(1-4)] mirror_pending_clear [OF assms(1-4)]
        mirror_request [OF assms(1-4)] mirror_quiet_handlers [OF assms(1,2,4)] mirror_remote [OF assms(1-4)]
        mirror_idle_nrrb [OF assms(1-4)] mirror_pending_ms [OF assms(1-4)]
        mirror_pending_raps_ms [OF assms(1,2,4)])

text \<open>
  C9: With a hardware layer that acknowledges, the machine keeps the session's record and
  the hardware in step: when the ports blocked in the hardware are those the session names
  in \<open>block_interface\<close>, they are again after any event, whatever its frame, except in the
  three situations of \<open>off_step\<close>.
\<close>

theorem fsm_hardware_in_step:
  assumes "acked E" "p \<noteq> 0" "ring_node (info (heap s p))"
    and port: "asks_block (current_event (info (heap s p))) \<Longrightarrow>
      ring_port (info (heap s p)) (event_block (info (heap s p)))"
    and "\<not> off_step (info (heap s p))" and "in_step p s"
  shows "in_step p (post (erps_fsm E p rp) s)"
proof -
  have upd: "wp (erps_sess_update E p) (\<lambda>_. in_step p) t" if "in_step p t" for t
    using that assms(1,2) by (simp add: erps_sess_update_def wp_simps in_step_def Let_def)
  have "wp (erps_fsm E p rp) (\<lambda>_. in_step p) s"
  proof (cases "fsm_dispatch E p rp (info (heap s p))")
    case None
    then show ?thesis using assms(2,6) by (simp add: erps_fsm_def wp_simps)
  next
    case (Some m)
    from mirror_dispatch [OF assms(1,2,3,6,4,5) Some]
    have "wp m (\<lambda>_. in_step p) s" by simp
    then show ?thesis
      using assms(2) Some by (auto simp: erps_fsm_def wp_simps intro: upd elim!: wp_mono)
  qed
  then show ?thesis by (simp add: wp_post)
qed


text \<open>What is in the log when the hardware acknowledged blocking one port of an idle owner.\<close>

definition blocked_log :: "u8 \<Rightarrow> hal_msg list" where
  "blocked_log st = [\<lparr>msg_subtype = st, msg_opcode = IPC_OPCODE_UPDATE,
     payload = zero_sess\<lparr>info := owner_info ERPS_STATE_IDLE ERPS_INVALID_EVENT\<rparr>, wait_ack = True, answer = 0\<rparr>]"

text \<open>The idle owner whose west port fails, and the pending owner whose time to restore is over.\<close>

definition failing_west :: erps_state where
  "failing_west = one_session ((owner_info ERPS_STATE_IDLE ERPS_EVENT_LOCAL_SF)
     \<lparr>block_interface := 101, event_block := 102\<rparr>) (blocked_log OAM_SUBTYPE_ERPS_BLOCK_EAST)"

definition restoring :: erps_state where
  "restoring = one_session ((owner_info ERPS_STATE_PENDING ERPS_EVENT_WTR_EXP)\<lparr>block_interface := 102\<rparr>)
     (blocked_log OAM_SUBTYPE_ERPS_BLOCK_WEST)"

lemma example_log:
  "sure_blocked 1 (blocked_log OAM_SUBTYPE_ERPS_BLOCK_EAST) = {East}"
  "sure_blocked 1 (blocked_log OAM_SUBTYPE_ERPS_BLOCK_WEST) = {West}"
  by (simp_all add: blocked_log_def sure_blocked_def sure_step_def owner_info_def zero_info_def zero_sess_def)

lemma failing_west_ok:
  "ring_node (info (heap failing_west 1))" "in_step 1 failing_west"
  "ring_port (info (heap failing_west 1)) (event_block (info (heap failing_west 1)))"
  "current_event (info (heap failing_west 1)) = ERPS_EVENT_LOCAL_SF"
  unfolding in_step_def Let_def failing_west_def
  by (simp_all add: ring_node_def ring_port_def owner_info_def zero_sess_def zero_info_def example_log
      same_sides port_sides_def)

lemma answering_acked: "acked answering"
  by (simp add: acked_def)

lemma fsm_hardware_in_step_witness: "in_step 1 (post (erps_fsm answering 1 None) failing_west)"
  using failing_west_ok
  by (intro fsm_hardware_in_step [OF answering_acked]) (simp_all add: off_step_def)

section \<open>Initialization\<close>

lemma sub_step_rpl:
  "east_interface i \<noteq> west_interface i \<Longrightarrow> ring_port i (rpl_interface i) \<Longrightarrow>
   sub_step (rpl_block_subtype i) {} = port_sides i (rpl_interface i)"
  unfolding same_sides by (auto simp: sub_step_def rpl_block_subtype_def port_sides_def ring_port_def)

lemma sub_step_first:
  "east_interface i \<noteq> west_interface i \<Longrightarrow>
   sub_step (if west_interface i \<noteq> 0 then OAM_SUBTYPE_ERPS_BLOCK_WEST else OAM_SUBTYPE_ERPS_BLOCK_EAST) {}
     = port_sides i (if west_interface i \<noteq> 0 then west_interface i else east_interface i)"
  unfolding same_sides by (auto simp: sub_step_def port_sides_def)

text \<open>
  C20: Initialization puts a node into the pending state with exactly one of its ports blocked,
  in its record and in the hardware: the RPL port of an owner or neighbour, and for the other
  nodes the west port, if there is one.  (Nothing was blocked before, and the hardware
  acknowledges.)
\<close>

theorem init_blocks_one_port:
  assumes "acked E" "p \<noteq> 0" "ring_node (info (heap s p))"
    and "sure_blocked (sess_id (info (heap s p))) (hal_log s) = {}"
  shows "let i = info (heap s p); t = post (erps_init_handle_initialization E p) s in
    fst (run_state (erps_init_handle_initialization E p) s) = ERRNO_SUCCESS \<and>
    status_of t p = ERPS_STATE_PENDING \<and> in_step p t \<and>
    sure_blocked (sess_id i) (hal_log t) =
      (if role i = ERPS_ROLE_OWNER \<or> role i = ERPS_ROLE_NEIGHBOUR then port_sides i (rpl_interface i)
       else port_sides i (if west_interface i \<noteq> 0 then west_interface i else east_interface i))"
proof -
  let ?i = "info (heap s p)"
  have ne: "east_interface ?i \<noteq> west_interface ?i" by (rule ring_nodeD(1) [OF assms(3)])
  note first = sub_step_first [OF ne]
  have "wp (erps_init_handle_initialization E p) (\<lambda>r t. r = ERRNO_SUCCESS \<and>
      status_of t p = ERPS_STATE_PENDING \<and> in_step p t \<and> sure_blocked (sess_id ?i) (hal_log t) =
      (if role ?i = ERPS_ROLE_OWNER \<or> role ?i = ERPS_ROLE_NEIGHBOUR then port_sides ?i (rpl_interface ?i)
       else port_sides ?i (if west_interface ?i \<noteq> 0 then west_interface ?i else east_interface ?i))) s"
    using assms(1,2,4) ne ring_nodeD(2) [OF assms(3)] first
    by (cases "role ?i"; cases "west_interface ?i = 0")
      (simp_all add: erps_init_handle_initialization_def init_owner_def init_neighbour_def init_nonowner_def
        init_announce_def init_finish_def wp_simps status_of_def in_step_def Let_def sub_step_rpl)
  then show ?thesis by (simp add: wp_post Let_def)
qed

lemma init_blocks_one_port_witness:
  "let s = one_session (owner_info ERPS_STATE_INIT ERPS_INVALID_EVENT) [] in
   sure_blocked 1 (hal_log (post (erps_init_handle_initialization answering 1) s)) = {East}"
proof -
  let ?s = "one_session (owner_info ERPS_STATE_INIT ERPS_INVALID_EVENT) []"
  have "ring_node (info (heap ?s 1))"
    by (simp add: ring_node_def owner_info_def zero_sess_def zero_info_def)
  moreover have "sure_blocked (sess_id (info (heap ?s 1))) (hal_log ?s) = {}"
    by (simp add: sure_blocked_def)
  moreover have "port_sides (info (heap ?s 1)) (rpl_interface (info (heap ?s 1))) = {East}"
    unfolding same_sides by (simp add: port_sides_def owner_info_def zero_sess_def zero_info_def)
  ultimately show ?thesis
    using init_blocks_one_port [OF answering_acked, of 1 ?s]
    by (simp add: Let_def owner_info_def zero_sess_def zero_info_def)
qed

section \<open>No failure and no forced switch opens the ring\<close>

text \<open>Some port stays blocked from message to message.\<close>

fun guarded :: "u16 \<Rightarrow> ring_side set \<Rightarrow> hal_msg list \<Rightarrow> bool" where
  "guarded sid B [] \<longleftrightarrow> B \<noteq> {}"
| "guarded sid B (m # ms) \<longleftrightarrow> B \<noteq> {} \<and> guarded sid (sure_step sid m B) ms"

lemma guarded_prefix:
  "guarded sid B ms \<Longrightarrow> prefix ns ms \<Longrightarrow> fold (sure_step sid) ns B \<noteq> {}"
proof (induction ms arbitrary: B ns)
  case (Cons m ms)
  then show ?case by (cases ns) auto
qed simp

definition on_guard :: "nat \<Rightarrow> erps_state \<Rightarrow> erps_state \<Rightarrow> bool" where
  "on_guard p s t \<longleftrightarrow>
     (\<exists>ms. hal_log t = hal_log s @ ms \<and>
       guarded (sess_id (info (heap s p))) (sure_blocked (sess_id (info (heap s p))) (hal_log s)) ms)"

lemma step_block:
  "B \<noteq> {} \<Longrightarrow> sure_step sid (hal_msg_at E p (block_port i x) opc s) B \<noteq> {}"
  by (simp add: sure_step_def hal_msg_at_def block_port_def)

lemma step_blocked:
  "ring_port i x \<Longrightarrow> sess_id (info (heap s p)) = sid \<Longrightarrow> hal_answer (sync_answer E (length (hal_log s))) = 0 \<Longrightarrow>
   east_interface i \<noteq> west_interface i \<Longrightarrow>
   port_sides i x \<subseteq> sure_step sid (hal_msg_at E p (block_port i x) IPC_OPCODE_UPDATE s) B"
  by (auto simp: sure_step_def hal_msg_at_def block_port_def port_sides_def ring_port_def)
    (metis ring_side.exhaust side_port.simps)+

lemma step_foward:
  assumes "ring_port i x" "east_interface i \<noteq> west_interface i" "port_sides i x \<subseteq> B"
    and "st \<in> {foward_other i x, foward_east_west i x, foward_west_east i x}"
  shows "port_sides i x \<subseteq> sure_step sid (hal_msg_at E p st opc s) B"
proof
  fix sd assume "sd \<in> port_sides i x"
  with assms show "sd \<in> sure_step sid (hal_msg_at E p st opc s) B"
    by (cases sd) (auto simp: sure_step_def hal_msg_at_def foward_other_def foward_east_west_def
      foward_west_east_def port_sides_def ring_port_def split: if_splits)
qed

lemma ring_port_sides: "ring_port i x \<Longrightarrow> port_sides i x \<noteq> {}"
  unfolding same_sides by (auto simp: ring_port_def port_sides_def)


lemmas guard_simps = on_guard_def wp_simps move_to_def stop_and_move_def switch_block_def keep_block_def
  keep_block_store_def step_block ring_port_sides

lemma step_foward_left:
  assumes "ring_port i x" "east_interface i \<noteq> west_interface i" "port_sides i x \<subseteq> B"
    and "st \<in> {foward_other i x, foward_east_west i x, foward_west_east i x}"
  shows "sure_step sid (hal_msg_at E p st opc s) B \<noteq> {}"
  using step_foward [OF assms] ring_port_sides [OF assms(1)] by blast

lemma step_switched:
  assumes "ring_port i x" "east_interface i \<noteq> west_interface i" "sess_id (info (heap s p)) = sid"
    and "hal_answer (sync_answer E (length (hal_log s))) = 0"
  shows "sure_step sid (hal_msg_at E p (foward_other i x) opc' s')
    (sure_step sid (hal_msg_at E p (block_port i x) IPC_OPCODE_UPDATE s) B) \<noteq> {}"
  by (rule step_foward_left [OF assms(1,2) step_blocked [OF assms(1,3,4,2)]]) simp

text \<open>The blocked port that is requested again stays blocked while the other is unblocked.\<close>

lemma step_kept:
  assumes "port_sides i x \<subseteq> B" "ring_port i x" "east_interface i \<noteq> west_interface i"
  shows "sure_step sid (hal_msg_at E p (foward_east_west i x) opc s) B \<noteq> {}"
    "sure_step sid (hal_msg_at E p (foward_west_east i x) opc s) B \<noteq> {}"
  by (rule step_foward_left [OF assms(2,3,1)], simp)+

text \<open>Pending, a manual switch sends the messages of a switch to the east port, or none at all.\<close>

lemma admin_ms_messages:
  assumes "east_interface i \<noteq> west_interface i" "ring_port i x" "event_block i = x"
  shows "admin_ms_block i = (block_port i x, foward_other i x) \<or> admin_ms_block i = (0, 0)"
  using assms by (auto simp: admin_ms_block_def block_port_def foward_other_def ring_port_def)

lemma guard_request:
  assumes "p \<noteq> 0" "ring_port (info (heap s p)) (event_block (info (heap s p)))"
    and "east_interface (info (heap s p)) \<noteq> west_interface (info (heap s p))"
    and "sure_blocked (sess_id (info (heap s p))) (hal_log s) \<noteq> {}"
    and "port_sides (info (heap s p)) (block_interface (info (heap s p)))
      \<subseteq> sure_blocked (sess_id (info (heap s p))) (hal_log s)"
  shows "wp (erps_pending_handle_admin_fs E p) (\<lambda>_. on_guard p s) s"
    "wp (erps_fs_handle_admin_fs E p) (\<lambda>_. on_guard p s) s"
    "wp (erps_x_handle_admin_fs E p) (\<lambda>_. on_guard p s) s"
    "wp (erps_pending_handle_local_sf E p) (\<lambda>_. on_guard p s) s"
    "wp (erps_x_handle_local_sf E p) (\<lambda>_. on_guard p s) s"
    "wp (erps_idle_handle_admin_ms E p) (\<lambda>_. on_guard p s) s"
    "wp (erps_pending_handle_admin_ms E p) (\<lambda>_. on_guard p s) s"
  unfolding erps_pending_handle_admin_fs_def erps_fs_handle_admin_fs_def erps_x_handle_admin_fs_def
    erps_pending_handle_local_sf_def erps_x_handle_local_sf_def erps_idle_handle_admin_ms_def erps_pending_handle_admin_ms_def
proof (goal_cases)
  case 1 show ?case
  proof (cases "event_block (info (heap s p)) = block_interface (info (heap s p))")
    case True then show ?thesis using assms by (auto simp: guard_simps step_kept)
  next
    case False then show ?thesis using assms by (auto simp: guard_simps step_switched block_ring_port)
  qed
next
  case 7 show ?case
  proof (cases "event_block (info (heap s p)) = block_interface (info (heap s p))")
    case True then show ?thesis using assms by (auto simp: guard_simps step_kept)
  next
    case False
    from admin_ms_messages [OF assms(3,2) refl] show ?thesis
    proof
      assume "admin_ms_block (info (heap s p)) =
        (block_port (info (heap s p)) (event_block (info (heap s p))), foward_other (info (heap s p)) (event_block (info (heap s p))))"
      with False show ?thesis using assms by (auto simp: guard_simps step_switched block_ring_port)
    next
      assume "admin_ms_block (info (heap s p)) = (0, 0)"
      with False show ?thesis using assms by (auto simp: guard_simps)
    qed
  qed
qed (use assms in \<open>auto simp: guard_simps step_switched block_ring_port step_kept\<close>)

text \<open>
  C8: Whatever the hardware layer answers, whatever state the session is in and wherever the
  handling stops, a local failure, a forced switch or a manual switch for one of its ring ports
  never leaves the ring open at this node: when the two ring ports differ, some port is blocked
  for sure, and the port the session records as blocked is, then some port is after every single
  message sent.
\<close>

theorem switch_never_opens_ring:
  assumes "p \<noteq> 0" and "i = info (heap s p)" and "B = sure_blocked (sess_id i) (hal_log s)"
    and "current_event i \<in> {ERPS_EVENT_LOCAL_SF, ERPS_EVENT_ADMIN_FS, ERPS_EVENT_ADMIN_MS}"
    and "ring_port i (event_block i)" and "east_interface i \<noteq> west_interface i"
    and "B \<noteq> {}" and "port_sides i (block_interface i) \<subseteq> B"
    and "prefix (hal_log s) log" and "prefix log (hal_log (post (erps_fsm E p rp) s))"
  shows "sure_blocked (sess_id i) log \<noteq> {}"
proof -
  note pre = assms(1,5,6,7,8) [unfolded assms(2,3)]
  have upd: "wp (erps_sess_update E p) (\<lambda>_. on_guard p s) t" if g: "on_guard p s t" for t
  proof -
    have "guarded sid B (ms @ [hal_msg_at E p 1 IPC_OPCODE_UPDATE t])" if "guarded sid B ms" for sid B ms
      using that by (induction ms arbitrary: B) (simp_all add: sure_step_def hal_msg_at_def)
    with g show ?thesis
      using assms(1) by (auto simp: erps_sess_update_def wp_simps on_guard_def)
  qed
  have idle: "on_guard p s s"
    using pre by (simp add: on_guard_def)
  have "wp (erps_fsm E p rp) (\<lambda>_. on_guard p s) s"
  proof (cases "fsm_dispatch E p rp (info (heap s p))")
    case None
    then show ?thesis using assms(1) by (simp add: erps_fsm_def wp_simps) (rule idle)
  next
    case (Some m)
    have "wp m (\<lambda>_. on_guard p s) s"
      using Some assms(2,4) unfolding fsm_dispatch_def Let_def
      by (auto simp: wp_return idle split: if_splits intro!: guard_request [OF pre])
    then show ?thesis
      using assms(1) Some by (auto simp: erps_fsm_def wp_simps intro: upd elim!: wp_mono)
  qed
  then obtain ms where ms: "hal_log (post (erps_fsm E p rp) s) = hal_log s @ ms"
      "guarded (sess_id i) B ms"
    by (auto simp: wp_post on_guard_def assms(2,3))
  from assms(9) obtain ns where ns: "log = hal_log s @ ns" by (auto simp: prefix_def)
  with assms(10) ms(1) have "prefix ns ms" by simp
  from guarded_prefix [OF ms(2) this] show ?thesis by (simp add: ns assms(3))
qed


lemma switch_never_opens_ring_witness:
  "sure_blocked 1 (hal_log (post (erps_fsm refusing 1 None) failing_west)) \<noteq> {}"
proof -
  let ?i = "info (heap failing_west 1)"
  have id: "sess_id ?i = 1" "hal_log failing_west = blocked_log OAM_SUBTYPE_ERPS_BLOCK_EAST"
    by (simp_all add: failing_west_def owner_info_def)
  have b: "sure_blocked (sess_id ?i) (hal_log failing_west) = {East}"
    by (simp only: id example_log)
  have "prefix (hal_log failing_west) (hal_log (post (erps_fsm refusing 1 None) failing_west))"
    using keepsD [OF erps_frame.fsm [OF keeping.each], of failing_west refusing 1 None]
    by (simp add: config_kept_def)
  moreover have "port_sides ?i (block_interface ?i) \<subseteq> {East}"
    using failing_west_ok(2) b by (simp add: in_step_def Let_def)
  moreover have "east_interface ?i \<noteq> west_interface ?i"
    using failing_west_ok(1) by (rule ring_nodeD)
  ultimately have "sure_blocked (sess_id ?i) (hal_log (post (erps_fsm refusing 1 None) failing_west)) \<noteq> {}"
    using failing_west_ok(3,4) b
    by (intro switch_never_opens_ring [of 1 ?i failing_west "{East}" _ refusing None]) simp_all
  then show ?thesis by (simp only: id not_False_eq_True)
qed

section \<open>Where the ring does open\<close>

text \<open>
  Reversion only logs a refusal of the hardware: an owner whose wait-to-restore timer expires
  unblocks its port although blocking the RPL failed, and goes idle with no port blocked.
\<close>

lemma refused_reversion_opens_ring:
  "sure_blocked 1 (hal_log restoring) = {West}"
  "sure_blocked 1 (hal_log (post (erps_fsm refusing 1 None) restoring)) = {}"
  "status_of (post (erps_fsm refusing 1 None) restoring) 1 = ERPS_STATE_IDLE"
proof -
  show "sure_blocked 1 (hal_log restoring) = {West}"
    by (simp add: restoring_def example_log)
  have "wp (erps_fsm refusing 1 None) (\<lambda>_ t. sure_blocked 1 (hal_log t) = {} \<and> status_of t 1 = ERPS_STATE_IDLE) restoring"
    by (simp add: erps_fsm_def wp_simps fsm_dispatch_def Let_def restoring_def owner_info_def zero_sess_def
        erps_pending_handle_wtre_def timer_revert_def revert_moving_def hal_nrrb_def block_port_def foward_other_def
        burst_then_idle_def move_to_def erps_sess_update_def status_of_def example_log sure_step_def hal_msg_at_def)
  then show "sure_blocked 1 (hal_log (post (erps_fsm refusing 1 None) restoring)) = {}"
    "status_of (post (erps_fsm refusing 1 None) restoring) 1 = ERPS_STATE_IDLE"
    by (simp_all add: wp_post)
qed

text \<open>
  The message of \<open>erps_pending_handle_raps_ms\<close> is not an update: the session forgets its
  block, the hardware keeps it.
\<close>

lemma pending_raps_ms_forgets:
  assumes "acked E" "p \<noteq> 0" "in_step p s" "ring_port (info (heap s p)) (block_interface (info (heap s p)))"
    and "fst (run_state (erps_pending_handle_raps_ms E p) s) = ERRNO_SUCCESS"
  shows "\<not> in_step p (post (erps_pending_handle_raps_ms E p) s)"
proof -
  have nz: "foward_blocked (info (heap s p)) \<noteq> 0"
    using assms(4) by (auto simp: foward_blocked_def ring_port_def)
  have "wp (erps_pending_handle_raps_ms E p) (\<lambda>r t. r = ERRNO_SUCCESS \<longrightarrow> \<not> in_step p t) s"
    using assms(2,3) nz ring_port_sides [OF assms(4)]
    by (simp add: erps_pending_handle_raps_ms_def wp_simps in_step_def Let_def)
  then show ?thesis using assms(5) by (simp add: wp_post)
qed

text \<open>A manual switch of the west port while reversion is pending sends no message to block it.\<close>

lemma pending_west_switch_unsent:
  assumes "acked E" "p \<noteq> 0" "ring_node (info (heap s p))" "event_block (info (heap s p)) = west_interface (info (heap s p))"
    and "block_interface (info (heap s p)) \<noteq> west_interface (info (heap s p))"
  shows "hal_log (post (erps_pending_handle_admin_ms E p) s) = hal_log s"
    "block_interface (info (heap (post (erps_pending_handle_admin_ms E p) s) p)) = west_interface (info (heap s p))"
proof -
  have z: "admin_ms_block (info (heap s p)) = (0, 0)"
    using assms(4) ring_nodeD(1) [OF assms(3)] by (auto simp: admin_ms_block_def)
  have "wp (erps_pending_handle_admin_ms E p)
     (\<lambda>_ t. hal_log t = hal_log s \<and> block_interface (info (heap t p)) = west_interface (info (heap s p))) s"
    using assms z by (simp add: erps_pending_handle_admin_ms_def wp_simps switch_block_def move_to_def)
  then show "hal_log (post (erps_pending_handle_admin_ms E p) s) = hal_log s"
    "block_interface (info (heap (post (erps_pending_handle_admin_ms E p) s) p)) = west_interface (info (heap s p))"
    by (simp_all add: wp_post)
qed

end
