(* ===== verification/ErpsService.thy ===== *)
theory ErpsService
  imports ErpsStates
begin

text \<open>
  Functional behaviour of the parts around the state machine: what a burst puts on the
  ring, the order of node identifiers, which frames are ignored, the vlan bitmap, the
  session table, and the wait-to-restore time.
\<close>

section \<open>Bursts\<close>

text \<open>The frame \<open>raps_send\<close> sends to one port of the session's own ring.\<close>

definition ring_frame :: "erps_sess \<Rightarrow> bool \<Rightarrow> u32 \<Rightarrow> sent_pkt" where
  "ring_frame x b port =
     \<lparr>out_ifindex = port, dmac = raps_mac (ring_id (info x)), svlan = pvlan (info x), cos = priority (info x),
      pdu = (r_aps x)\<lparr>pkt_level := ucast (level (info x)), bpr := b\<rparr>, send_result = 0\<rparr>"

definition burst_frames :: "erps_sess \<Rightarrow> sent_pkt list" where
  "burst_frames x =
     (let b = bpr (r_aps x) \<or> block_interface (info x) \<noteq> 0 \<and> block_interface (info x) = east_interface (info x);
          once = [ring_frame x b (west_interface (info x)), ring_frame x b (east_interface (info x))]
      in once @ once @ once)"

lemma wp_pkt_send [wp_simps]:
  "wp (pkt_send E i m v c k) Q s =
   Q (pkt_code (pkt_answer E (length (pkt_log s))))
     (s\<lparr>pkt_log := pkt_log s @ [\<lparr>out_ifindex = i, dmac = m, svlan = v, cos = c, pdu = k,
        send_result = pkt_code (pkt_answer E (length (pkt_log s)))\<rparr>]\<rparr>)"
  by (simp add: pkt_send_def wp_def Let_def)

lemma wp_set_pkt_level [wp_simps]:
  "wp (set_pkt_level p l) Q s =
   Q () (s\<lparr>heap := (heap s)(p := (heap s p)\<lparr>r_aps := (r_aps (heap s p))\<lparr>pkt_level := ucast l\<rparr>\<rparr>)\<rparr>)"
  by (simp add: set_pkt_level_def wp_simps)

lemma wp_timer_delete [wp_simps]:
  "wp (timer_delete i) Q s = Q () (s\<lparr>timers := snd (high_pre_timer_delete i (timers s))\<rparr>)"
  by (simp add: timer_delete_def wp_simps)

lemma wp_timer_add [wp_simps]:
  "wp (timer_add E l cb ms) Q s =
   (let r = high_pre_timer_add (timer_malloc E (timer_allocs s)) l (Some cb) ms (timers s)
    in Q (fst r) (s\<lparr>timers := snd r, timer_allocs := timer_allocs s + 1\<rparr>))"
  by (simp add: timer_add_def wp_def Let_def split: prod.split)

text \<open>The session of the ring this one is attached to, and the ports its frames leave by.\<close>

definition attached_session :: "erps_state \<Rightarrow> nat \<Rightarrow> nat" where
  "attached_session s p =
     (let n = attach_sess_id (info (heap s p)) in if n \<noteq> 0 then fst (run_state (erps_sess_lookup n) s) else 0)"

lemma wp_erps_sess_lookup [wp_simps]:
  "wp (erps_sess_lookup n) Q s = Q (fst (run_state (erps_sess_lookup n) s)) s"
proof -
  have "snd (run_state (erps_sess_lookup n) s) = s" by (simp add: erps_sess_lookup_def gets_def)
  then show ?thesis by (simp only: wp_def split_def)
qed

fun ports_by :: "u32 \<Rightarrow> (u32 \<times> u32) option \<Rightarrow> u32 list" where
  "ports_by port ring =
     (if port \<noteq> 0 then [port]
      else case ring of None \<Rightarrow> [] | Some (e, w) \<Rightarrow> filter (\<lambda>x. x \<noteq> 0) [e, w])"

definition attached_ports :: "erps_state \<Rightarrow> nat \<Rightarrow> (u32 \<times> u32) option" where
  "attached_ports s p =
     (let a = attached_session s p
      in if a = 0 then None else Some (east_interface (info (heap s a)), west_interface (info (heap s a))))"

definition frame_route :: "erps_state \<Rightarrow> nat \<Rightarrow> u32 list" where
  "frame_route s p =
     ports_by (west_interface (info (heap s p))) (attached_ports s p) @
     ports_by (east_interface (info (heap s p))) (attached_ports s p)"

definition ring_links :: "erps_info \<Rightarrow> u32 \<times> u32 \<times> u16" where
  "ring_links i = (east_interface i, west_interface i, attach_sess_id i)"

lemma route_same:
  assumes "\<And>q. ring_links (info (heap t q)) = ring_links (info (heap s q))" "erps_session_table t = erps_session_table s"
  shows "attached_session t p = attached_session s p" "frame_route t p = frame_route s p"
proof -
  have l: "east_interface (info (heap t q)) = east_interface (info (heap s q))"
    "west_interface (info (heap t q)) = west_interface (info (heap s q))"
    "attach_sess_id (info (heap t q)) = attach_sess_id (info (heap s q))" for q
    using assms(1) [of q] by (simp_all add: ring_links_def)
  show a: "attached_session t p = attached_session s p"
    by (simp add: attached_session_def l Let_def erps_sess_lookup_def gets_def assms(2))
  show "frame_route t p = frame_route s p"
    by (simp add: frame_route_def attached_ports_def a l Let_def)
qed

lemma ring_links_upd [simp]: "ring_links (i\<lparr>block_interface := b\<rparr>) = ring_links i"
  "ring_links (i\<lparr>sendMsgRapsNRRB := n\<rparr>) = ring_links i" "ring_links (i\<lparr>current_status := st\<rparr>) = ring_links i"
  by (simp_all add: ring_links_def)

lemma route_upd [simp]:
  "(\<And>q. ring_links (info (h q)) = ring_links (info (heap s q))) \<Longrightarrow> frame_route (s\<lparr>heap := h\<rparr>) p = frame_route s p"
  "frame_route (s\<lparr>hal_log := l\<rparr>) p = frame_route s p" "frame_route (s\<lparr>pkt_log := k\<rparr>) p = frame_route s p"
  "frame_route (s\<lparr>gerps := g\<rparr>) p = frame_route s p" "frame_route (s\<lparr>timers := ts\<rparr>) p = frame_route s p"
  "frame_route (s\<lparr>timer_allocs := n\<rparr>) p = frame_route s p"
  by (rule route_same(2); simp)+

lemma quiet_route: "keeps quiet m \<Longrightarrow> frame_route (post m s) p = frame_route s p"
  by (rule route_same(2)) (use keepsD [of quiet m s] in \<open>simp_all add: quiet_def\<close>)

lemmas quiet_routes [simp] = silent.stops [THEN quiet_route] silent.named_stops [THEN quiet_route]
  silent.starts [THEN quiet_route] silent.stop_owner [THEN quiet_route] silent.burst [THEN quiet_route]

definition sends_well :: "erps_env \<Rightarrow> bool" where
  "sends_well E \<longleftrightarrow> (\<forall>n. pkt_code (pkt_answer E n) = 0)"

lemma sends_wellD [simp]: "sends_well E \<Longrightarrow> pkt_code (pkt_answer E n) = 0"
  by (simp add: sends_well_def)

lemma burst_log:
  assumes "p \<noteq> 0" "west_interface (info (heap s p)) \<noteq> 0" "east_interface (info (heap s p)) \<noteq> 0"
    and "sends_well E"
  shows "pkt_log (post (raps_send_burst E p) s) = pkt_log s @ burst_frames (heap s p)"
    "pkt_send_cnt (gerps (post (raps_send_burst E p) s)) = pkt_send_cnt (gerps s) + 3"
proof -
  have "wp (raps_send_burst E p) (\<lambda>r t. pkt_log t = pkt_log s @ burst_frames (heap s p) \<and>
     pkt_send_cnt (gerps t) = pkt_send_cnt (gerps s) + 3) s"
    using assms
    by (simp add: raps_send_burst_def mark_bpr_def erps_stop_msg_timer_def stop_timer_def raps_send_def
      raps_send_side_def raps_out_def erps_start_msg_timer_def start_timer_def wp_simps
      burst_frames_def ring_frame_def Let_def del: wp_burst)
  then show "pkt_log (post (raps_send_burst E p) s) = pkt_log s @ burst_frames (heap s p)"
    "pkt_send_cnt (gerps (post (raps_send_burst E p) s)) = pkt_send_cnt (gerps s) + 3"
    by (simp_all add: wp_post)
qed

text \<open>
  The burst that follows every change of the ring's state: three times a frame to the west
  and one to the east port, to the address of the ring, on its vlan and with its priority,
  carrying the session's current request at the level of the ring; and the session's record,
  apart from the frame it sends and the timer that repeats it, does not change.
\<close>

theorem burst_sends_request:
  assumes "p \<noteq> 0" "west_interface (info (heap s p)) \<noteq> 0" "east_interface (info (heap s p)) \<noteq> 0"
    and "sends_well E"
  shows "pkt_log (post (raps_send_burst E p) s) = pkt_log s @ burst_frames (heap s p) \<and>
    fst (run_state (raps_send_burst E p) s) = ERRNO_SUCCESS \<and>
    (\<forall>q. info (heap (post (raps_send_burst E p) s) q) = info (heap s q)) \<and>
    pkt_send_cnt (gerps (post (raps_send_burst E p) s)) = pkt_send_cnt (gerps s) + 3"
  using assms(1) by (simp add: burst_log [OF assms] burst_result)

lemma burst_sends_request_witness:
  "let s = one_session (owner_info ERPS_STATE_IDLE ERPS_EVENT_RAPS_NR) [] in
   pkt_log (post (raps_send_burst answering 1) s) = burst_frames (heap s 1)"
  using burst_sends_request [of 1 "one_session (owner_info ERPS_STATE_IDLE ERPS_EVENT_RAPS_NR) []" answering]
  by (simp add: owner_info_def zero_sess_def sends_well_def one_session_def)

section \<open>What the machine says to the ring\<close>

text \<open>The port to block is the blocked one.\<close>

definition asked_again :: "erps_info \<Rightarrow> bool" where
  "asked_again i \<longleftrightarrow> event_block i \<noteq> 0 \<and> event_block i = block_interface i"

text \<open>The request announced on an event: request state, RB and DNF; \<open>None\<close> is silence.\<close>

definition announced :: "erps_info \<Rightarrow> (4 word \<times> bool \<times> bool) option" where
  "announced i =
     (let st = current_status i; same = asked_again i in
      case current_event i of
        ERPS_EVENT_LOCAL_SF \<Rightarrow> if st = ERPS_STATE_FS then None else Some (ERPS_SIGNAL_FAIL, False, same)
      | ERPS_EVENT_ADMIN_FS \<Rightarrow> Some (ERPS_FORCED_SWITCH, False, st \<noteq> ERPS_STATE_FS \<and> same)
      | ERPS_EVENT_ADMIN_MS \<Rightarrow>
          if st = ERPS_STATE_IDLE \<or> st = ERPS_STATE_PENDING then Some (ERPS_MANUAL_SWITCH, False, same) else None
      | ERPS_EVENT_LOCAL_CLEAR_SF \<Rightarrow>
          if st = ERPS_STATE_PROTECTION then Some (ERPS_NO_REQUEST, False, False) else None
      | ERPS_EVENT_RAPS_MS \<Rightarrow>
          if st = ERPS_STATE_MS \<and> block_interface i \<noteq> 0 then Some (ERPS_NO_REQUEST, False, False) else None
      | ERPS_EVENT_ADMIN_CLEAR \<Rightarrow>
          if st = ERPS_STATE_PENDING
          then if role i = ERPS_ROLE_OWNER
               then Some (ERPS_NO_REQUEST, True, block_interface i \<noteq> 0 \<and> block_interface i = rpl_interface i)
               else None
          else if st = ERPS_STATE_MS \<or> st = ERPS_STATE_FS
          then if block_interface i \<noteq> 0 then Some (ERPS_NO_REQUEST, False, False) else None
          else None
      | ERPS_EVENT_WTR_EXP \<Rightarrow>
          if st = ERPS_STATE_PENDING \<and> role i = ERPS_ROLE_OWNER
          then Some (ERPS_NO_REQUEST, True, rpl_interface i = block_interface i) else None
      | ERPS_EVENT_WTB_EXP \<Rightarrow>
          if st = ERPS_STATE_PENDING \<and> role i = ERPS_ROLE_OWNER
          then Some (ERPS_NO_REQUEST, True, rpl_interface i = block_interface i) else None
      | _ \<Rightarrow> None)"

definition frame_request :: "sent_pkt \<Rightarrow> u32 \<times> 4 word \<times> bool \<times> bool" where
  "frame_request f = (out_ifindex f, request_state (pdu f), rb (pdu f), dnf (pdu f))"

definition requests :: "u32 list \<Rightarrow> (4 word \<times> bool \<times> bool) option \<Rightarrow> (u32 \<times> 4 word \<times> bool \<times> bool) list" where
  "requests route r =
     (case r of None \<Rightarrow> [] | Some b \<Rightarrow> let once = map (\<lambda>port. (port, b)) route in once @ once @ once)"

text \<open>\<open>m\<close> extends the frames sent by requests \<open>r\<close> when it succeeds.\<close>

definition says :: "nat \<Rightarrow> (4 word \<times> bool \<times> bool) option \<Rightarrow> int erps \<Rightarrow> erps_state \<Rightarrow> bool" where
  "says p r m s \<longleftrightarrow> wp m (\<lambda>ret t. ret = ERRNO_SUCCESS \<longrightarrow>
     map frame_request (pkt_log t) = map frame_request (pkt_log s) @ requests (frame_route s p) r \<and>
     (\<forall>b. r = Some b \<longrightarrow> request_bits (heap t p) = b)) s"

text \<open>Handling timers sends nothing.\<close>

definition same_frames :: "erps_state \<Rightarrow> erps_state \<Rightarrow> bool" where
  "same_frames s t \<longleftrightarrow> pkt_log t = pkt_log s"

lemma same_frames_preorder: "preorder_rel same_frames"
  by (simp add: preorder_rel_def same_frames_def)

lemmas same_intros = keeps_return [OF same_frames_preorder] keeps_bind [OF same_frames_preorder] keeps_if
  keeps_when_m [OF same_frames_preorder] keeps_gets [OF same_frames_preorder] keeps_modify

lemma timers_send_nothing:
  "keeps same_frames (stop_timer f u p)" "keeps same_frames (start_timer E f u l cb ms p)"
  "keeps same_frames (owner_stop_timers p)"
proof -
  have add: "keeps same_frames (timer_add E l cb n)" for n
    unfolding timer_add_def by (rule keeps_State) (simp add: same_frames_def split: prod.split)
  show stop: "keeps same_frames (stop_timer f u p)" for f u
    unfolding stop_timer_def sess_def timer_delete_def upd_sess_def
    by (intro same_intros) (simp_all add: same_frames_def)
  show "keeps same_frames (start_timer E f u l cb ms p)"
    unfolding start_timer_def info_of_def upd_sess_def
    by (intro same_intros stop add) (simp_all add: same_frames_def)
  show "keeps same_frames (owner_stop_timers p)"
    unfolding owner_stop_timers_def info_of_def erps_stop_wtr_timer_def erps_stop_wtb_timer_def
    by (intro same_intros stop)
qed

lemma timers_log [simp]: "pkt_log (post (stop_timer f u p) s) = pkt_log s"
  "pkt_log (post (start_timer E f u l cb ms p) s) = pkt_log s" "pkt_log (post (owner_stop_timers p) s) = pkt_log s"
  using timers_send_nothing [THEN keepsD, of s] by (simp_all add: same_frames_def)

lemma named_log [simp]: "pkt_log (post (erps_stop_wtr_timer p) s) = pkt_log s"
  "pkt_log (post (erps_stop_wtb_timer p) s) = pkt_log s" "pkt_log (post (raps_stop p) s) = pkt_log s"
  "pkt_log (post (erps_start_wtr_timer E p) s) = pkt_log s" "pkt_log (post (erps_start_wtb_timer E p) s) = pkt_log s"
  "pkt_log (post (erps_start_guard_timer E p) s) = pkt_log s"
  by (simp_all add: erps_stop_wtr_timer_def erps_stop_wtb_timer_def raps_stop_def erps_stop_msg_timer_def
      erps_start_wtr_timer_def erps_start_wtb_timer_def erps_start_guard_timer_def)

text \<open>The frames of one round, and of a burst.\<close>

definition said :: "nat \<Rightarrow> (u32 \<times> 4 word \<times> bool \<times> bool) list \<Rightarrow> erps_state \<Rightarrow> erps_state \<Rightarrow> bool" where
  "said p fs s t \<longleftrightarrow> map frame_request (pkt_log t) = map frame_request (pkt_log s) @ fs \<and> quiet s t"

lemma wp_refresh_attach [wp_simps]:
  "wp (refresh_attach p) Q s = Q (attached_session s p)
     (s\<lparr>heap := (heap s)(p := heap s p\<lparr>attach_to_sess := attached_session s p\<rparr>)\<rparr>)"
  by (simp add: refresh_attach_def wp_simps attached_session_def Let_def)

lemma side_said:
  assumes "sends_well E"
  shows "wp (raps_send_side E p port) (\<lambda>r. \<lambda>t. r = ERRNO_SUCCESS \<and>
    said p (map (\<lambda>x. (x, request_bits (heap s p))) (ports_by (port (info (heap s p))) (attached_ports s p))) s t) s"
  using assms
  by (cases "port (info (heap s p)) = 0"; cases "attached_session s p = 0")
    (simp_all add: raps_send_side_def raps_send_attached_def raps_out_def wp_simps said_def quiet_def cfm_sides_def
      attached_ports_def frame_request_def request_bits_def Let_def)

lemma said_same:
  assumes "said p fs s t"
  shows "info (heap t q) = info (heap s q)" "request_bits (heap t q) = request_bits (heap s q)"
    "attached_ports t p = attached_ports s p" "frame_route t p = frame_route s p"
proof -
  show i: "info (heap t q) = info (heap s q)" "request_bits (heap t q) = request_bits (heap s q)" for q
    using assms by (simp_all add: said_def quiet_def)
  have "attached_session t p = attached_session s p" "frame_route t p = frame_route s p"
    by (rule route_same; use assms in \<open>simp add: said_def quiet_def\<close>)+
  then show "attached_ports t p = attached_ports s p" "frame_route t p = frame_route s p"
    by (simp_all add: attached_ports_def i Let_def)
qed

lemma said_trans: "said p fs s t \<Longrightarrow> said p gs t u \<Longrightarrow> said p (fs @ gs) s u"
  by (simp add: said_def quiet_def)

lemma said_quiet: "keeps quiet m \<Longrightarrow> keeps same_frames m \<Longrightarrow> said p [] s (post m s)"
  using keepsD [of quiet m s] keepsD [of same_frames m s] by (simp add: said_def same_frames_def)

lemma send_said:
  assumes "sends_well E"
  shows "said p (map (\<lambda>x. (x, request_bits (heap s p))) (frame_route s p)) s (post (raps_send E p) s)"
proof -
  let ?f = "map (\<lambda>x. (x, request_bits (heap s p)))"
  let ?w = "ports_by (west_interface (info (heap s p))) (attached_ports s p)"
  let ?e = "ports_by (east_interface (info (heap s p))) (attached_ports s p)"
  let ?rest = "\<lambda>r. if r \<noteq> ERRNO_SUCCESS then State_Monad.return ERRNO_FAIL else do {
     upd_gerps (\<lambda>g. g\<lparr>pkt_send_cnt := pkt_send_cnt g + 1\<rparr>); State_Monad.return ERRNO_SUCCESS }"
  have g: "said p fs s (t\<lparr>gerps := g\<rparr>) = said p fs s t" for fs t g by (simp add: said_def quiet_def)
  have "wp (raps_send_side E p east_interface) (\<lambda>r. wp (?rest r) (\<lambda>_. said p (?f ?w @ ?f ?e) s)) t"
    if "said p (?f ?w) s t" for t
    using said_trans [OF that]
    by (auto simp: said_same [OF that] wp_simps g intro!: wp_mono [OF side_said [OF assms, of p _ t]])
  then have "wp (raps_send_side E p west_interface) (\<lambda>r. wp (if r \<noteq> ERRNO_SUCCESS then State_Monad.return ERRNO_FAIL
      else State_Monad.bind (raps_send_side E p east_interface) ?rest) (\<lambda>_. said p (?f ?w @ ?f ?e) s)) s"
    by (intro wp_mono [OF side_said [OF assms]]) (simp add: wp_bind)
  then have "wp (raps_send E p) (\<lambda>_. said p (?f ?w @ ?f ?e) s) s"
    by (simp only: raps_send_def wp_bind)
  then show ?thesis by (simp add: wp_post frame_route_def)
qed

lemma burst_said:
  assumes "p \<noteq> 0" "sends_well E"
  shows "said p (requests (frame_route s p) (Some (request_bits (heap s p)))) s (post (raps_send_burst E p) s)"
proof -
  let ?once = "map (\<lambda>x. (x, request_bits (heap s p))) (frame_route s p)"
  have round: "said p (fs @ ?once) s (post (raps_send E p) t)" if "said p fs s t" for fs t
    using said_trans [OF that send_said [OF assms(2)]] said_same [OF that] by simp
  have "keeps same_frames (mark_bpr p)"
    unfolding mark_bpr_def info_of_def upd_sess_def by (intro same_intros) (simp_all add: same_frames_def)
  then have marked: "said p [] s (post (mark_bpr p) s)" by (rule said_quiet [OF silent.marking])
  have "keeps same_frames (erps_stop_msg_timer p)" "keeps same_frames (erps_start_msg_timer E p)"
    by (simp_all add: erps_stop_msg_timer_def erps_start_msg_timer_def timers_send_nothing)
  then have timers: "said p fs s (post (erps_stop_msg_timer p) t)" "said p fs s (post (erps_start_msg_timer E p) t)"
    if "said p fs s t" for fs t
    using said_trans [OF that said_quiet [OF silent.named_stops(4)]] said_trans [OF that said_quiet [OF silent.starts(4)]]
    by simp_all
  have "wp (raps_send_burst E p) (\<lambda>_. said p (?once @ ?once @ ?once) s) s"
    using assms(1) timers(2) [OF round [OF round [OF round [OF timers(1) [OF marked]]]]]
    by (simp add: raps_send_burst_def wp_bind wp_post [of "raps_send E p"] wp_unit wp_return del: wp_burst)
  then show ?thesis by (simp add: wp_post requests_def Let_def)
qed

lemma burst_requests:
  assumes "p \<noteq> 0" "sends_well E"
  shows "map frame_request (pkt_log (post (raps_send_burst E p) s)) =
    map frame_request (pkt_log s) @ requests (frame_route s p) (Some (request_bits (heap s p)))"
  using burst_said [OF assms, of s] by (simp add: said_def)

lemma requests_None [simp]: "requests i None = []"
  by (simp add: requests_def)

lemma request_bits_set [simp]:
  "request_bits (x\<lparr>r_aps := k\<lparr>request_state := rs, rb := b, dnf := d\<rparr>\<rparr>) = (rs, b, d)"
  "request_bits (x\<lparr>info := i\<rparr>) = request_bits x"
  by (simp_all add: request_bits_def)

lemmas say_simps = says_def wp_simps burst_requests
  move_to_def stop_and_move_def switch_block_def keep_block_def keep_block_store_def
  announce_clear_def burst_then_idle_def revert_moving_def timer_revert_def hal_nrrb_def
  yield_to_node_def release_and_move_def release_blocked_def

text \<open>The handlers, with the request of \<open>announced\<close>.\<close>

lemma saying_block:
  assumes "p \<noteq> 0" "sends_well E"
  shows "says p (Some (ERPS_FORCED_SWITCH, False, asked_again (info (heap s p)))) (erps_pending_handle_admin_fs E p) s"
    "says p (Some (ERPS_FORCED_SWITCH, False, False)) (erps_fs_handle_admin_fs E p) s"
    "says p (Some (ERPS_FORCED_SWITCH, False, asked_again (info (heap s p)))) (erps_x_handle_admin_fs E p) s"
    "says p (Some (ERPS_SIGNAL_FAIL, False, asked_again (info (heap s p)))) (erps_pending_handle_local_sf E p) s"
    "says p (Some (ERPS_SIGNAL_FAIL, False, asked_again (info (heap s p)))) (erps_x_handle_local_sf E p) s"
    "says p (Some (ERPS_MANUAL_SWITCH, False, asked_again (info (heap s p)))) (erps_idle_handle_admin_ms E p) s"
    "says p (Some (ERPS_MANUAL_SWITCH, False, asked_again (info (heap s p)))) (erps_pending_handle_admin_ms E p) s"
  using assms
  unfolding erps_pending_handle_admin_fs_def erps_fs_handle_admin_fs_def
    erps_x_handle_admin_fs_def erps_pending_handle_local_sf_def erps_x_handle_local_sf_def
    erps_idle_handle_admin_ms_def erps_pending_handle_admin_ms_def asked_again_def [symmetric]
  by (cases "asked_again (info (heap s p))"; simp add: say_simps)+

lemma saying_clear:
  assumes "p \<noteq> 0" "sends_well E"
  shows "says p (Some (ERPS_NO_REQUEST, False, False)) (erps_protection_handle_clear_sf E p) s"
    "says p (if block_interface (info (heap s p)) \<noteq> 0 then Some (ERPS_NO_REQUEST, False, False) else None)
      (erps_ms_handle_raps_ms E p) s"
    "says p (if block_interface (info (heap s p)) \<noteq> 0 then Some (ERPS_NO_REQUEST, False, False) else None)
      (erps_fsms_handle_admin_clear E p) s"
  using assms unfolding erps_protection_handle_clear_sf_def erps_ms_handle_raps_ms_def
    erps_fsms_handle_admin_clear_def
  by (simp_all add: say_simps)

lemma saying_revert:
  assumes "p \<noteq> 0" "sends_well E"
  shows "says p (if role (info (heap s p)) = ERPS_ROLE_OWNER then Some (ERPS_NO_REQUEST, True,
        block_interface (info (heap s p)) \<noteq> 0 \<and> block_interface (info (heap s p)) = rpl_interface (info (heap s p)))
      else None) (erps_pending_handle_admin_clear E p) s"
    "says p (if role (info (heap s p)) = ERPS_ROLE_OWNER then Some (ERPS_NO_REQUEST, True,
        rpl_interface (info (heap s p)) = block_interface (info (heap s p))) else None) (erps_pending_handle_wtre E p) s"
    "says p (if role (info (heap s p)) = ERPS_ROLE_OWNER then Some (ERPS_NO_REQUEST, True,
        rpl_interface (info (heap s p)) = block_interface (info (heap s p))) else None) (erps_pending_handle_wtbe E p) s"
  using assms unfolding erps_pending_handle_admin_clear_def erps_pending_handle_wtre_def
    erps_pending_handle_wtbe_def
  by (cases "block_interface (info (heap s p)) = rpl_interface (info (heap s p))"; simp add: say_simps)+

lemma saying_nothing:
  assumes "p \<noteq> 0"
  shows "says p None (release_and_move E p c st) s"
    "says p None (erps_pending_handle_raps_ms E p) s" "says p None (erps_idle_handle_raps_nrrb E p) s"
    "says p None (erps_idle_handle_raps_nr E p rp) s" "says p None (erps_pending_handle_nr E p rp) s"
    "says p None (erps_x_handle_raps_nr E p) s" "says p None (State_Monad.return ERRNO_FAIL) s"
  using assms unfolding erps_pending_handle_raps_ms_def erps_idle_handle_raps_nrrb_def
    erps_idle_handle_raps_nr_def erps_pending_handle_nr_def erps_x_handle_raps_nr_def
  by (simp_all add: say_simps split: option.split)

lemma saying_nrrb: "p \<noteq> 0 \<Longrightarrow> says p None (erps_pending_handle_nrrb E p) s"
  unfolding erps_pending_handle_nrrb_def nrrb_nonowner_def nrrb_neighbour_def
  by (cases "role (info (heap s p))") (simp_all add: say_simps)

lemma saying_fail: "says p r (State_Monad.return ERRNO_FAIL) s"
  by (simp add: say_simps)

lemma saying_dispatch:
  assumes "p \<noteq> 0" "sends_well E"
    and "fsm_dispatch E p rp (info (heap s p)) = Some m"
  shows "says p (announced (info (heap s p))) m s"
proof -
  note facts = saying_block [OF assms(1,2)] saying_clear [OF assms(1,2)] saying_revert [OF assms(1,2)]
    saying_nothing [OF assms(1)] saying_nrrb [OF assms(1)] saying_fail
  have "case fsm_dispatch E p rp (info (heap s p)) of None \<Rightarrow> True
    | Some m \<Rightarrow> says p (announced (info (heap s p))) m s"
    unfolding fsm_dispatch_def announced_def Let_def release_handlers
    by (cases "current_event (info (heap s p))"; cases "current_status (info (heap s p))")
      (simp_all add: facts split del: if_split)
  then show ?thesis using assms(3) by simp
qed

text \<open>
  C17: What a node tells the ring is a function of its record, by the table
  \<open>announced\<close>: when the machine handles an event with success and no frame fails to be sent, it
  sends with that request, RB and DNF bit three times a frame to each port of \<open>frame_route\<close> and
  keeps the request for the repetition, or, where the table says so, it sends nothing at all.
  The route of a node with two ring ports is its west and its east port; the side without a
  port uses the ports of the attached ring's session, if there is one.
\<close>

theorem fsm_announces:
  assumes "p \<noteq> 0" "sends_well E"
    and "run_state (erps_fsm E p rp) s = (ERRNO_SUCCESS, t)"
  shows "map frame_request (pkt_log t) =
      map frame_request (pkt_log s) @ requests (frame_route s p) (announced (info (heap s p))) \<and>
    (\<forall>b. announced (info (heap s p)) = Some b \<longrightarrow> request_bits (heap t p) = b)"
proof -
  let ?i = "info (heap s p)"
  let ?Q = "\<lambda>t. map frame_request (pkt_log t) = map frame_request (pkt_log s) @ requests (frame_route s p) (announced ?i) \<and>
    (\<forall>b. announced ?i = Some b \<longrightarrow> request_bits (heap t p) = b)"
  have upd: "wp (erps_sess_update E p) (\<lambda>_. ?Q) u" if "?Q u" for u
    using that assms(1) by (simp add: erps_sess_update_def wp_simps)
  have "wp (erps_fsm E p rp) (\<lambda>ret t. ret = ERRNO_SUCCESS \<longrightarrow> ?Q t) s"
  proof (cases "fsm_dispatch E p rp ?i")
    case None
    then have "announced ?i = None"
      unfolding fsm_dispatch_def announced_def Let_def by (cases "current_event ?i") auto
    then show ?thesis using assms(1) None by (simp add: erps_fsm_def wp_simps)
  next
    case (Some m)
    have "wp m (\<lambda>ret t. ret = ERRNO_SUCCESS \<longrightarrow> ?Q t) s"
      using saying_dispatch [OF assms(1,2) Some] by (simp add: says_def)
    then show ?thesis
      using assms(1) Some by (auto simp: erps_fsm_def wp_simps intro!: wp_mono [OF upd] elim!: wp_mono)
  qed
  then show ?thesis using assms(3) by (simp add: wp_def)
qed


definition failing_owner :: erps_state where
  "failing_owner = one_session ((owner_info ERPS_STATE_IDLE ERPS_EVENT_LOCAL_SF)\<lparr>event_block := 102\<rparr>) []"

lemma failing_owner_run:
  "run_state (erps_fsm answering 1 None) failing_owner = (ERRNO_SUCCESS, post (erps_fsm answering 1 None) failing_owner)"
proof -
  have "wp (erps_fsm answering 1 None) (\<lambda>r _. r = ERRNO_SUCCESS) failing_owner"
    by (simp add: erps_fsm_def wp_simps fsm_dispatch_def Let_def failing_owner_def owner_info_def zero_sess_def
        zero_info_def erps_x_handle_local_sf_def switch_block_def move_to_def erps_sess_update_def)
  then show ?thesis by (simp add: wp_post post_def prod_eq_iff)
qed

lemma fsm_announces_witness:
  "map frame_request (pkt_log (post (erps_fsm answering 1 None) failing_owner)) =
     requests [102, 101] (Some (ERPS_SIGNAL_FAIL, False, False))"
proof -
  have "frame_route failing_owner 1 = [102, 101]" "pkt_log failing_owner = []"
    "announced (info (heap failing_owner 1)) = Some (ERPS_SIGNAL_FAIL, False, False)"
    by (simp_all add: frame_route_def failing_owner_def owner_info_def zero_sess_def zero_info_def announced_def
        asked_again_def Let_def one_session_def)
  then show ?thesis
    using fsm_announces [OF _ _ failing_owner_run] by (simp add: sends_well_def)
qed

section \<open>Comparing node identifiers\<close>

text \<open>The number a node identifier stands for, in network order.\<close>

fun node_number :: "u8 list \<Rightarrow> nat" where
  "node_number [] = 0"
| "node_number (a # as) = unat a * 256 ^ length as + node_number as"

lemma node_number_bound: "node_number as < 256 ^ length as"
proof (induction as)
  case (Cons a as)
  have "unat a < 256" using unsigned_less [of a] by simp
  then have "unat a * 256 ^ length as + 256 ^ length as \<le> 256 * 256 ^ length as"
    using mult_le_mono1 [of "unat a + 1" 256 "256 ^ length as"] by (simp only: add_mult_distrib mult_1)
  with Cons show ?case by (simp only: node_number.simps length_Cons power_Suc)
qed simp

lemma node_number_first:
  assumes "a < b" "length as = length bs"
  shows "node_number (a # as) < node_number (b # bs)"
proof -
  have "unat a + 1 \<le> unat b" using assms(1) by (simp add: word_less_nat_alt)
  then have "unat a * 256 ^ length as + 256 ^ length as \<le> unat b * 256 ^ length bs"
    using assms(2) mult_le_mono1 [of "unat a + 1" "unat b" "256 ^ length as"] by (simp only: add_mult_distrib mult_1)
  then show ?thesis using node_number_bound [of as] by (simp only: node_number.simps)
qed

lemma node_cmp_number:
  "length as = length bs \<Longrightarrow>
   node_cmp as bs = (if node_number as > node_number bs then 1 else if node_number as < node_number bs then 2 else 0)"
proof (induction as bs rule: node_cmp.induct)
  case (1 a as b bs)
  then have l: "length as = length bs" by simp
  consider "a < b" | "a = b" | "b < a" by (rule linorder_cases)
  then show ?case
  proof cases
    case 1
    then show ?thesis using node_number_first [OF 1 l] by simp
  next
    case 2
    then show ?thesis using "1.IH" l by simp
  next
    case 3
    then show ?thesis using node_number_first [OF 3 l [symmetric]] by simp
  qed
qed auto

lemma node_number_inj: "length as = length bs \<Longrightarrow> node_number as = node_number bs \<longleftrightarrow> as = bs"
proof (induction as bs rule: list_induct2)
  case (Cons a as b bs)
  then show ?case
    using node_number_first [of a b as bs] node_number_first [of b a bs as] by (cases a b rule: linorder_cases) auto
qed simp

text \<open>
  The comparison of node identifiers that decides which of two nodes gives way: for two
  addresses of six bytes it returns 1 when the first is the larger number in network order, 2
  when the second is, and 0 exactly when they are the same address.
\<close>

theorem node_id_higher_compares_numbers:
  assumes "length a = 6" "length b = 6"
  shows "erps_node_id_higher a b =
      (if node_number a > node_number b then 1 else if node_number a < node_number b then 2 else 0) \<and>
    (erps_node_id_higher a b = 0 \<longleftrightarrow> a = b)"
  using node_cmp_number [of a b] node_number_inj [of a b] assms
  by (auto simp: erps_node_id_higher_def)

lemma node_id_higher_compares_numbers_witness:
  "erps_node_id_higher [0, 1, 2, 3, 4, 5] [0, 1, 2, 3, 3, 255] = 1 \<and>
   node_number [0, 1, 2, 3, 4, 5] > node_number [0, 1, 2, 3, 3, 255]"
  using node_id_higher_compares_numbers [of "[0, 1, 2, 3, 4, 5]" "[0, 1, 2, 3, 3, 255]"]
  by (simp add: erps_node_id_higher_def)

section \<open>Frames that are ignored\<close>

text \<open>
  What a frame that is dropped may change: the counters, and the session's pointer to the session of
  the ring it is attached to, which reception looks up again.
\<close>

definition only_counted :: "nat \<Rightarrow> erps_state \<Rightarrow> erps_state \<Rightarrow> bool" where
  "only_counted p s t \<longleftrightarrow>
     (\<exists>g a. a \<in> {attach_to_sess (heap s p), attached_session s p} \<and>
       t = s\<lparr>gerps := g, heap := (heap s)(p := (heap s p)\<lparr>attach_to_sess := a\<rparr>)\<rparr>)"

text \<open>A frame a session must not act on.\<close>

definition unacceptable :: "erps_sess \<Rightarrow> recv_pkt \<Rightarrow> bool" where
  "unacceptable x k \<longleftrightarrow>
     status (info x) \<noteq> SESSION_STATUS_ENABLE \<or> recv_vlan k \<noteq> pvlan (info x) \<or>
     erps_node_id_higher (pkt_node_id (recv_aps k)) (node_id (info x)) = 0 \<or>
     guard_timer x \<noteq> 0 \<and> \<not> (request_state (recv_aps k) = ERPS_EVENT \<and> sub_code (recv_aps k) = 0 \<and>
       status_reserved (recv_aps k) = 0) \<or>
     request_state (recv_aps k) \<notin> {ERPS_FORCED_SWITCH, ERPS_EVENT, ERPS_SIGNAL_FAIL, ERPS_MANUAL_SWITCH, ERPS_NO_REQUEST}"

lemma check_refuses:
  assumes "p \<noteq> 0" "unacceptable (heap s p) k" "status (info (heap s p)) = SESSION_STATUS_ENABLE"
    and "recv_vlan k = pvlan (info (heap s p))"
  shows "wp (recv_check p i k) (\<lambda>ok t. \<not> ok \<and> (\<exists>g. t = s\<lparr>gerps := g\<rparr>)) s"
proof -
  have eq: "\<exists>g. s = s\<lparr>gerps := g\<rparr>" by (rule exI [of _ "gerps s"]) simp
  then show ?thesis
    using assms by (auto simp: recv_check_def wp_simps raps_validity_check_def unacceptable_def)
qed

lemma accept_refuses:
  assumes "p \<noteq> 0" "unacceptable (heap s p) k" "status (info (heap s p)) = SESSION_STATUS_ENABLE"
    and "recv_vlan k = pvlan (info (heap s p))"
  shows "wp (recv_accept E p a k) (\<lambda>ok t. \<not> ok \<and> (\<exists>g. t = s\<lparr>gerps := g\<rparr>)) s"
proof -
  have eq: "\<exists>g. s = s\<lparr>gerps := g\<rparr>" by (rule exI [of _ "gerps s"]) simp
  show ?thesis
    by (auto simp: recv_accept_def wp_simps eq intro!: wp_mono [OF check_refuses [OF assms]] check_refuses [OF assms])
qed

lemma only_counted_steps:
  "only_counted p s (s\<lparr>gerps := g\<rparr>)" "only_counted p s s"
  "a = attached_session s p \<Longrightarrow> only_counted p s (s\<lparr>heap := (heap s)(p := (heap s p)\<lparr>attach_to_sess := a\<rparr>), gerps := g\<rparr>)"
proof -
  have same: "s = s\<lparr>gerps := gerps s, heap := (heap s)(p := (heap s p)\<lparr>attach_to_sess := attach_to_sess (heap s p)\<rparr>)\<rparr>" by simp
  show "only_counted p s (s\<lparr>gerps := g\<rparr>)" unfolding only_counted_def
    by (rule exI [of _ g], rule exI [of _ "attach_to_sess (heap s p)"]) simp
  show "only_counted p s s" unfolding only_counted_def
    by (rule exI [of _ "gerps s"], rule exI [of _ "attach_to_sess (heap s p)"]) (use same in simp)
  show "a = attached_session s p \<Longrightarrow> only_counted p s (s\<lparr>heap := (heap s)(p := (heap s p)\<lparr>attach_to_sess := a\<rparr>), gerps := g\<rparr>)"
    unfolding only_counted_def by (rule exI [of _ g], rule exI [of _ a]) simp
qed

text \<open>
  C22: Frames are filtered before they can drive the machine: a disabled session, the
  wrong vlan, the node's own frame come back round the ring, an unknown request, or a running guard
  timer, which only an event frame (a flush) with subcode and status 0 passes.  Such a frame changes
  the global counters and no more, but that reception looks up the session of the attached ring
  again and stores the pointer: records, timers, tables, the hardware and the ring stay as they are.
\<close>

theorem unacceptable_frame_ignored:
  assumes "p \<noteq> 0" "unacceptable (heap s p) k"
  shows "only_counted p s (post (raps_recv_one E k p) s)"
proof -
  have "wp (raps_recv_one E k p) (\<lambda>_ t. only_counted p s t) s"
  proof (cases "status (info (heap s p)) = SESSION_STATUS_ENABLE \<and> recv_vlan k = pvlan (info (heap s p))")
    case False
    then show ?thesis by (auto simp: raps_recv_one_def wp_simps count_err_def only_counted_steps)
  next
    case True
    have refused: "wp (do { ok \<leftarrow> recv_accept E p a k; (if \<not> ok then count_err else m) }) (\<lambda>_ t. only_counted p s t)
        (s\<lparr>heap := (heap s)(p := heap s p\<lparr>attach_to_sess := a\<rparr>)\<rparr>)" if "a = attached_session s p" for a m
      using assms True that
      by (auto simp: wp_simps count_err_def only_counted_steps unacceptable_def
          intro!: wp_mono [OF accept_refuses])
    show ?thesis
      using True refused by (simp add: raps_recv_one_def wp_simps)
  qed
  then show ?thesis by (simp add: wp_post)
qed


lemma unacceptable_frame_ignored_witness:
  "let s = one_session (owner_info ERPS_STATE_PENDING ERPS_EVENT_RAPS_NR) [];
       k = \<lparr>in_ifindex = 101, recv_ring = 1, recv_vlan = 100, recv_aps = zero_pkt\<lparr>request_state := ERPS_SIGNAL_FAIL\<rparr>\<rparr> in
   only_counted 1 s (post (raps_recv_one answering k 1) s)"
  unfolding Let_def
  by (rule unacceptable_frame_ignored)
    (simp_all add: unacceptable_def owner_info_def zero_sess_def zero_info_def zero_pkt_def erps_node_id_higher_def
      eval_nat_numeral)

section \<open>The wait-to-restore time\<close>

text \<open>
  The wait-to-restore time is the configured number of minutes in milliseconds exactly
  up to 1092 minutes; from 1093 on the product with 60 wraps in its 16-bit variable, and the
  ring reverts too early.
\<close>

theorem wtr_time_wraps:
  "(wtr_ms i = uint (wtr i) * 60000 \<longleftrightarrow> wtr i \<le> 1092) \<and> wtr_ms i \<le> uint (wtr i) * 60000"
proof -
  have u: "uint (wtr i * 60) = uint (wtr i) * 60 mod 65536"
    by (simp add: uint_word_ariths)
  have r: "0 \<le> uint (wtr i)" by simp
  have "wtr_ms i = (uint (wtr i) * 60 mod 65536) * 1000" by (simp only: wtr_ms_def u)
  moreover have "uint (wtr i) * 60 mod 65536 = uint (wtr i) * 60 \<longleftrightarrow> uint (wtr i) \<le> 1092"
    using r by (auto simp: zmod_trivial_iff)
  moreover have "wtr i \<le> 1092 \<longleftrightarrow> uint (wtr i) \<le> 1092" by (simp add: word_le_def)
  moreover have "uint (wtr i) * 60 mod 65536 \<le> uint (wtr i) * 60" using r by (intro zmod_le_nonneg_dividend) simp
  ultimately show ?thesis by auto
qed

end
