(* ===== verification/ErpsTable.thy ===== *)
theory ErpsTable
  imports ErpsRules
begin

text \<open>
  The session table and the vlan bitmap of a session: adding, looking up and deleting sessions
  rest on the laws of the hash table; the three loops over a range of vlans on one lemma each.
\<close>

section \<open>The vlan bitmap\<close>

lemma vlan_bit_test: "b AND vlan_bit v \<noteq> 0 \<longleftrightarrow> bit b (v mod 8)"
proof
  assume "b AND vlan_bit v \<noteq> 0"
  show "bit b (v mod 8)"
  proof (rule ccontr)
    assume "\<not> bit b (v mod 8)"
    then have "b AND vlan_bit v = 0"
      by (intro bit_word_eqI) (auto simp: vlan_bit_def bit_simps)
    with \<open>b AND vlan_bit v \<noteq> 0\<close> show False by simp
  qed
next
  assume "bit b (v mod 8)"
  then have "bit (b AND vlan_bit v) (v mod 8)" by (simp add: vlan_bit_def bit_simps)
  then show "b AND vlan_bit v \<noteq> 0" by auto
qed

lemma vlan_test_bit: "vlan_test m v \<longleftrightarrow> bit (m ! (v div 8)) (v mod 8)"
  by (simp only: vlan_test_def vlan_bit_test)

text \<open>A step of the loop at \<open>v\<close> concerns \<open>v\<close> only.\<close>

lemma vlan_test_update:
  assumes "v div 8 < length m"
    and f: "\<And>b n. bit (f b (vlan_bit v)) n \<longleftrightarrow> (if n = v mod 8 then c else bit b n)"
  shows "vlan_test (m[v div 8 := f (m ! (v div 8)) (vlan_bit v)]) w \<longleftrightarrow> (if w = v then c else vlan_test m w)"
proof -
  have "w = v \<longleftrightarrow> w div 8 = v div 8 \<and> w mod 8 = v mod 8" by (metis div_mult_mod_eq)
  then show ?thesis using assms by (auto simp: vlan_test_bit nth_list_update)
qed


lemma vlan_loop_ok:
  assumes f: "\<And>v b n. bit (f b (vlan_bit v)) n \<longleftrightarrow> (if n = v mod 8 then c else bit b n)"
  shows "(\<forall>v \<in> set vs. v div 8 < length m) \<Longrightarrow>
    \<exists>m'. vlan_loop f vs m = Some m' \<and> length m' = length m \<and>
      (\<forall>w. vlan_test m' w \<longleftrightarrow> (if w \<in> set vs then c else vlan_test m w))"
proof (induction vs arbitrary: m)
  case (Cons v vs)
  let ?m = "m[v div 8 := f (m ! (v div 8)) (vlan_bit v)]"
  obtain m' where "vlan_loop f vs ?m = Some m'" "length m' = length ?m"
      "\<forall>w. vlan_test m' w \<longleftrightarrow> (if w \<in> set vs then c else vlan_test ?m w)"
    using Cons.IH [of ?m] Cons.prems by auto
  then show ?case
    using Cons.prems vlan_test_update [of v m f c, OF _ f] by auto
qed simp

lemma vlan_loop_outside:
  "v \<in> set vs \<Longrightarrow> length m \<le> v div 8 \<Longrightarrow> vlan_loop f vs m = None"
  by (induction vs arbitrary: m) auto

lemma set_bit_step: "bit (b OR vlan_bit v) n \<longleftrightarrow> (if n = v mod 8 then True else bit b n)"
  by (auto simp: vlan_bit_def bit_simps)

lemma clear_bit_step: "bit (b AND NOT (vlan_bit v)) n \<longleftrightarrow> (if n = v mod 8 then False else bit b n)"
proof (cases "n < 8")
  case True
  then show ?thesis by (auto simp: vlan_bit_def bit_simps)
next
  case False
  then have "\<not> bit b n" "\<not> bit (b AND NOT (vlan_bit v)) n" using bit_imp_le_length [of _ n] by fastforce+
  then show ?thesis by simp
qed

lemma vlan_first_found:
  "(\<forall>v \<in> set vs. v div 8 < length m) \<Longrightarrow>
   vlan_first vs m = Some (case List.find (vlan_test m) vs of None \<Rightarrow> 0 | Some v \<Rightarrow> v)"
  by (induction vs) auto

text \<open>
  The vlan bitmap is a set of vlans: setting a range adds exactly it, unsetting
  removes exactly it, both stay inside the bitmap when the range does, and the query returns the
  first vlan of the range that is in the set, or 0.
\<close>

theorem vlan_map_is_set:
  assumes "unat vlan_end < 8 * length m"
  shows "\<exists>a d. erps_vlan_map_set m vlan_start vlan_end = Some a \<and>
      erps_vlan_map_unset m vlan_start vlan_end = Some d \<and> length a = length m \<and> length d = length m \<and>
      (\<forall>v. vlan_test a v \<longleftrightarrow> vlan_test m v \<or> unat vlan_start \<le> v \<and> v \<le> unat vlan_end) \<and>
      (\<forall>v. vlan_test d v \<longleftrightarrow> vlan_test m v \<and> \<not> (unat vlan_start \<le> v \<and> v \<le> unat vlan_end)) \<and>
      erps_vlan_map_isset m vlan_start vlan_end =
        Some (case List.find (vlan_test m) [unat vlan_start..<unat vlan_end + 1] of None \<Rightarrow> 0 | Some v \<Rightarrow> v)"
proof -
  let ?r = "vlan_range vlan_start vlan_end"
  have r: "set ?r = {unat vlan_start..unat vlan_end}" by (auto simp: vlan_range_def)
  then have ok: "\<forall>v \<in> set ?r. v div 8 < length m" using assms by auto
  obtain a where a: "vlan_loop (\<lambda>b x. b OR x) ?r m = Some a" "length a = length m"
      "\<forall>w. vlan_test a w \<longleftrightarrow> (if w \<in> set ?r then True else vlan_test m w)"
    using vlan_loop_ok [of "\<lambda>b x. b OR x" True, OF set_bit_step ok] by blast
  obtain d where d: "vlan_loop (\<lambda>b x. b AND NOT x) ?r m = Some d" "length d = length m"
      "\<forall>w. vlan_test d w \<longleftrightarrow> (if w \<in> set ?r then False else vlan_test m w)"
    using vlan_loop_ok [of "\<lambda>b x. b AND NOT x" False, OF clear_bit_step ok] by blast
  have q: "erps_vlan_map_isset m vlan_start vlan_end =
      Some (case List.find (vlan_test m) [unat vlan_start..<unat vlan_end + 1] of None \<Rightarrow> 0 | Some v \<Rightarrow> v)"
    using vlan_first_found [OF ok] by (simp only: erps_vlan_map_isset_def vlan_range_def)
  show ?thesis
    by (rule exI [of _ a], rule exI [of _ d])
      (use a d q r in \<open>simp add: erps_vlan_map_set_def erps_vlan_map_unset_def, blast\<close>)
qed

lemma vlan_map_is_set_witness:
  "\<exists>a. erps_vlan_map_set (replicate 512 0) 100 109 = Some a \<and> vlan_test a 105 \<and> \<not> vlan_test a 110"
proof -
  have "unat (109 :: u16) < 8 * length (replicate 512 (0 :: u8))" by simp
  from vlan_map_is_set [OF this, of 100] obtain a where
    "erps_vlan_map_set (replicate 512 0) 100 109 = Some a"
    "\<forall>v. vlan_test a v \<longleftrightarrow> vlan_test (replicate 512 0) v \<or> unat (100 :: u16) \<le> v \<and> v \<le> unat (109 :: u16)"
    by blast
  moreover have "\<not> vlan_test (replicate 512 0) 110" by (simp add: vlan_test_def)
  ultimately show ?thesis by simp
qed

section \<open>The session table\<close>

text \<open>The table is well-formed and files every session under its number.\<close>

definition sessions_ok :: "erps_state \<Rightarrow> bool" where
  "sessions_ok s \<longleftrightarrow> hash_wf (\<lambda>k. k \<noteq> 0) (erps_session_table s) \<and>
     (\<forall>b \<in> set (hash_bucket_loop (erps_session_table s)).
        data b \<noteq> 0 \<and> hash_key b = ucast (sess_id (info (heap s (data b)))))"

definition session_at :: "erps_state \<Rightarrow> u16 \<Rightarrow> nat" where
  "session_at s n = fst (run_state (erps_sess_lookup n) s)"

lemma session_at_find:
  "session_at s n = (if n < 1 \<or> n > ERPS_NUM then 0
     else case hios_hash_find (erps_session_table s) (ucast n) of None \<Rightarrow> 0 | Some b \<Rightarrow> data b)"
  by (simp add: session_at_def erps_sess_lookup_def)

lemma table_init_ok: "n \<noteq> 0 \<Longrightarrow> sessions_ok (post (erps_sess_table_init n) s)"
  unfolding sessions_ok_def post_def erps_sess_table_init_def
  by (auto simp: hash_bucket_loop_def hios_hash_init_def erps_compare_sess_def split: if_splits
      intro!: hios_hash_init_wf [unfolded hios_hash_init_def])


text \<open>The node \<open>erps_sess_add\<close> puts into the table.\<close>

definition sess_node :: "erps_state \<Rightarrow> nat \<Rightarrow> nat \<Rightarrow> (u32, nat) hash_bucket" where
  "sess_node s a p = \<lparr>addr = a, hashval = 0, hash_key = ucast (sess_id (info (heap s p))), data = p\<rparr>"

lemma ucast_16_32: "(ucast (a :: u16) :: u32) = ucast b \<longleftrightarrow> a = b" "(ucast (a :: u16) :: u32) = 0 \<longleftrightarrow> a = 0"
  by (transfer, simp add: take_bit_eq_mod)+

lemma sess_add_run:
  assumes "p \<noteq> 0" "a \<noteq> 0" "hios_hash_add (erps_session_table s) (sess_node s a p) = (0, tab)"
  shows "run_state (erps_sess_add a p) s = (ERRNO_SUCCESS, s\<lparr>erps_session_table := tab\<rparr>)"
  using assms by (simp add: erps_sess_add_def sess_node_def info_of_def split_def)

text \<open>
  C21: Creating a session makes exactly its number known, keeps the table well-formed, and
  deleting it (with no CFM session bound) restores every other lookup; a full table refuses and
  stays as it is.
\<close>

theorem session_table_roundtrip:
  assumes ok: "sessions_ok s" and p: "p \<noteq> 0" "a \<noteq> 0" and fr: "hash_fresh (erps_session_table s) (sess_node s a p)"
    and n: "n = sess_id (info (heap s p))" "1 \<le> n" "n \<le> ERPS_NUM"
    and cfm: "east_cfm_session_id (info (heap s p)) = 0" "west_cfm_session_id (info (heap s p)) = 0"
  shows "if hash_size (erps_session_table s) = num_entries (erps_session_table s)
    then run_state (erps_sess_add a p) s = (ERRNO_OVERSIZE, s)
    else let t = post (erps_sess_add a p) s; u = post (erps_sess_delete n) t in
      fst (run_state (erps_sess_add a p) s) = ERRNO_SUCCESS \<and> sessions_ok t \<and>
      session_at t = (session_at s)(n := p) \<and>
      fst (run_state (erps_sess_delete n) t) = ERRNO_SUCCESS \<and> sessions_ok u \<and>
      session_at u = session_at s"
proof (cases "hash_size (erps_session_table s) = num_entries (erps_session_table s)")
  case True
  then show ?thesis
    using p by (simp add: erps_sess_add_def hios_hash_add_full info_of_def split_def)
next
  case False
  let ?tab = "erps_session_table s" and ?b = "sess_node s a p"
  let ?st = "?b\<lparr>hashval := compute_hash ?tab (hash_key ?b)\<rparr>"
  obtain tab where add: "hios_hash_add ?tab ?b = (0, tab)"
    using False by (simp add: hios_hash_add_def Let_def)
  have wf: "hash_wf (\<lambda>k. k \<noteq> 0) ?tab" using ok by (simp add: sessions_ok_def)
  have key: "hash_key ?b = ucast n" "data ?b = p" by (simp_all add: sess_node_def n)
  have nz: "(ucast n :: u32) \<noteq> 0" using n(2) by (auto simp: ucast_16_32)
  have wf': "hash_wf (\<lambda>k. k \<noteq> 0) tab" by (rule hash.add_inv [OF wf fr add])
  have find: "hios_hash_find tab k = (if k = ucast n then Some ?st else hios_hash_find ?tab k)" for k
    using hash.add_find [OF wf fr add, of k] nz by (simp add: key)
  have was: "hios_hash_find ?tab (ucast n) = None"
    using fr by (auto simp: hios_hash_find_None_iff [OF wf] hash_fresh_def key)
  have "hios_hash_find tab (ucast n) = Some ?st" by (simp add: find)
  note del = hash.del_found [OF wf' this]
  let ?t = "s\<lparr>erps_session_table := tab\<rparr>" and ?u = "s\<lparr>erps_session_table := hios_hash_delete tab ?st\<rparr>"
  have t: "run_state (erps_sess_add a p) s = (ERRNO_SUCCESS, ?t)" by (rule sess_add_run [OF p add])
  have u: "run_state (erps_sess_delete n) ?t = (ERRNO_SUCCESS, ?u)"
    using cfm by (simp add: erps_sess_delete_def find info_of_def split_def key)
  have "set (hash_bucket_loop tab) = insert ?st (set (hash_bucket_loop ?tab))"
    using hios_hash_add_loop [OF wf add] by auto
  then have okt: "sessions_ok ?t" using ok wf' p n by (auto simp: sessions_ok_def key)
  have "set (hash_bucket_loop (hios_hash_delete tab ?st)) \<subseteq> set (hash_bucket_loop tab)"
    using hios_hash_delete_loop [OF wf'] hash.found_in [OF wf' \<open>hios_hash_find tab (ucast n) = Some ?st\<close>] by fastforce
  then have oku: "sessions_ok ?u" using okt del(1) by (auto simp: sessions_ok_def)
  have lk: "session_at ?t = (session_at s)(n := p)"
    using n(2,3) by (auto simp: fun_eq_iff session_at_find find ucast_16_32 key)
  have restored: "session_at ?u m = session_at s m" for m
    using del(2) del(3) [of "ucast m"] was
    by (cases "m = n") (simp_all add: session_at_find find ucast_16_32)
  show ?thesis
    using False okt oku lk restored by (simp add: t u post_def Let_def fun_eq_iff)
qed


lemma empty_table: "hash_bucket_loop (hios_hash_init n c e) = []"
  by (simp add: hash_bucket_loop_def hios_hash_init_def)

lemma session_table_roundtrip_witness:
  "let s = one_session (owner_info ERPS_STATE_INIT ERPS_INVALID_EVENT) [] in
   session_at (post (erps_sess_add 7 1) s) = (session_at s)(1 := 1)"
proof -
  let ?s = "one_session (owner_info ERPS_STATE_INIT ERPS_INVALID_EVENT) []"
  have tab: "erps_session_table ?s = hios_hash_init 10 erps_compute_sess erps_compare_sess"
    by (simp add: one_session_def)
  have "hash_wf (\<lambda>k. k \<noteq> 0) (erps_session_table ?s)"
    unfolding tab by (rule hios_hash_init_wf) (auto simp: erps_compare_sess_def split: if_splits)
  then have "sessions_ok ?s" by (simp add: sessions_ok_def tab empty_table)
  moreover have "hash_fresh (erps_session_table ?s) (sess_node ?s 7 1)"
    by (simp add: hash_fresh_def tab empty_table)
  moreover have "hash_size (erps_session_table ?s) \<noteq> num_entries (erps_session_table ?s)"
    by (simp add: tab hios_hash_init_def)
  ultimately show ?thesis
    using session_table_roundtrip [of ?s 1 7 1] by (simp add: owner_info_def zero_sess_def zero_info_def Let_def)
qed

end
