(* ===== verification/ElpsModel.thy ===== *)
theory ElpsModel
  imports L2Common
begin

text \<open>
  Data and primitive effects of the Ethernet linear protection (G.8031) module \<open>l2/aps\<close>.  A
  \<open>struct elps_sess *\<close> is an address into \<open>heap\<close>, \<open>0\<close> is NULL.  What leaves the process is
  recorded in order: \<open>hal_log\<close> holds every message to the hardware layer with the copy of the
  session it carries and the code the caller got back, \<open>pkt_log\<close> every APS frame, \<open>alarm_log\<close>
  every call of the alarm library.  The answers of the hardware layer, the packet layer and
  \<open>malloc\<close> are an environment.
\<close>

section \<open>Enumerations of \<open>elps.h\<close>\<close>

datatype elps_status =
    ELPS_NO_REQUEST | ELPS_DO_NOT_REVERT | ELPS_WAIT_TO_RESTORE | ELPS_MANUAL_SWITCH
  | ELPS_SIGNAL_FAIL_FOR_WORKING | ELPS_FORCED_SWITCH | ELPS_SIGNAL_FAIL_FOR_PROTECTION
  | ELPS_LOCKOUT_OF_PROTECTION

text \<open>The numbers given to the states; the code compares them.\<close>

fun status_num :: "elps_status \<Rightarrow> nat" where
  "status_num ELPS_NO_REQUEST = 0"
| "status_num ELPS_DO_NOT_REVERT = 1"
| "status_num ELPS_WAIT_TO_RESTORE = 5"
| "status_num ELPS_MANUAL_SWITCH = 8"
| "status_num ELPS_SIGNAL_FAIL_FOR_WORKING = 11"
| "status_num ELPS_FORCED_SWITCH = 13"
| "status_num ELPS_SIGNAL_FAIL_FOR_PROTECTION = 14"
| "status_num ELPS_LOCKOUT_OF_PROTECTION = 15"

instantiation elps_status :: linorder
begin

definition less_eq_elps_status :: "elps_status \<Rightarrow> elps_status \<Rightarrow> bool" where
  "less_eq_elps_status a b \<longleftrightarrow> status_num a \<le> status_num b"

definition less_elps_status :: "elps_status \<Rightarrow> elps_status \<Rightarrow> bool" where
  "less_elps_status a b \<longleftrightarrow> status_num a < status_num b"

instance
proof
  fix a b c :: elps_status
  show "a < b \<longleftrightarrow> a \<le> b \<and> \<not> b \<le> a" "a \<le> a" "a \<le> b \<or> b \<le> a"
    by (auto simp: less_eq_elps_status_def less_elps_status_def)
  show "a \<le> b \<Longrightarrow> b \<le> c \<Longrightarrow> a \<le> c" by (simp add: less_eq_elps_status_def)
  show "a \<le> b \<Longrightarrow> b \<le> a \<Longrightarrow> a = b"
    by (cases a; cases b) (simp_all add: less_eq_elps_status_def)
qed

end

datatype elps_action = ELPS_ACTION_INVILD | ELPS_FORWRAD_MASTER | ELPS_FORWRAD_BACKUP

datatype elps_port_event = PORT_STATE_DOWN | PORT_STATE_UP | CC_STATE_DOWN | CC_STATE_UP

text \<open>
  A received frame stores its four bits of request in the event; the numbers that have no name
  are \<open>APS_UNASSIGNED\<close>.
\<close>

datatype elps_event =
    APS_ELPS_NR | APS_ELPS_DNR | APS_ELPS_WTR | APS_ELPS_MS | APS_ELPS_SF_W | APS_ELPS_FS
  | APS_ELPS_SF_P | APS_ELPS_LO | APS_UNASSIGNED "4 word"
  | LOCAL_ELPS_LOP | LOCAL_ELPS_FS | LOCAL_ELPS_SF_W | LOCAL_ELPS_W_RECOVERS_FROM_SF
  | LOCAL_ELPS_SF_P | LOCAL_ELPS_P_RECOVERS_FROM_SF | LOCAL_ELPS_MS | LOCAL_ELPS_CLEAR
  | LOCAL_ELPS_WTR_EXPIRES

definition aps_event :: "4 word \<Rightarrow> elps_event" where
  "aps_event r =
     (if r = 0 then APS_ELPS_NR else if r = 1 then APS_ELPS_DNR else if r = 5 then APS_ELPS_WTR
      else if r = 8 then APS_ELPS_MS else if r = 11 then APS_ELPS_SF_W else if r = 13 then APS_ELPS_FS
      else if r = 14 then APS_ELPS_SF_P else if r = 15 then APS_ELPS_LO else APS_UNASSIGNED r)"

datatype aps_status = APS_STATUS_DISABLE | APS_STATUS_ENABLE

text \<open>Message subtypes of \<open>lib/oam_common.h\<close> and codes of \<open>lib/errcode.h\<close>.\<close>

datatype elps_subtype = OAM_SUBTYPE_ELPS_SESSION | OAM_SUBTYPE_ELPS_STG

abbreviation (input) ELPS_LOWER_PRIO_CMD :: errno where "ELPS_LOWER_PRIO_CMD \<equiv> 201"
abbreviation (input) ELPS_IS_ALREADY_FS :: errno where "ELPS_IS_ALREADY_FS \<equiv> 202"
abbreviation (input) ELPS_IS_NOT_FS :: errno where "ELPS_IS_NOT_FS \<equiv> 203"
abbreviation (input) ELPS_IS_ALREADY_MS :: errno where "ELPS_IS_ALREADY_MS \<equiv> 204"
abbreviation (input) ELPS_IS_NOT_MS :: errno where "ELPS_IS_NOT_MS \<equiv> 205"
abbreviation (input) ELPS_IS_ALREADY_LOP :: errno where "ELPS_IS_ALREADY_LOP \<equiv> 206"
abbreviation (input) ELPS_IS_NOT_LOP :: errno where "ELPS_IS_NOT_LOP \<equiv> 207"
abbreviation (input) ELPS_RECV_APS_ABDR_INVALID :: u8 where "ELPS_RECV_APS_ABDR_INVALID \<equiv> 209"
abbreviation (input) ELPS_RECV_APS_B_INVALID :: u8 where "ELPS_RECV_APS_B_INVALID \<equiv> 210"
abbreviation (input) ELPS_NO_APS_RECV :: u8 where "ELPS_NO_APS_RECV \<equiv> 212"

abbreviation (input) ELPS_NUM :: u16 where "ELPS_NUM \<equiv> 128"

section \<open>Records\<close>

record elps_global =
  pkt_recv :: u32
  pkt_send_cnt :: u32
  pkt_err :: u32
  sess_total :: u16
  sess_enable :: u16
  debug_packet :: u8

record elps_info =
  sess_id :: u16
  pvlan :: u16
  data_vlan_map :: "u8 list"
  data_vlan_set_flag :: u8
  master_port_mac :: "u8 list"
  backup_port_mac :: "u8 list"
  master_port :: u32
  backup_port :: u32
  active_port :: u32
  keepalive :: u16
  holdoff :: u16
  wtr :: u16
  dfop_alarm :: u8
  current_status :: elps_status
  current_event :: elps_event
  status :: aps_status
  failback :: failback_e
  fs_enable :: u8
  ms_enable :: u8
  lck_enable :: u8
  priority :: u8
  master_cfm_session :: u16
  backup_cfm_session :: u16
  switch_action :: elps_action

record elps_sess =
  info :: elps_info
  pkeepalive_timer :: nat
  pholdoff_timer :: nat
  pwtr_timer :: nat
  dfop_timer :: nat

text \<open>The APS frame; bit fields keep their width, one-bit fields are booleans.\<close>

record aps_pkt =
  pkt_level :: "3 word"
  version :: "5 word"
  pkt_opcode :: u8
  flag :: u8
  tlv_offset :: u8
  request_state :: "4 word"
  port_type_A :: bool
  port_type_B :: bool
  port_type_D :: bool
  port_type_R :: bool
  request_signal :: u8
  bridge_signal :: u8
  bridge_type :: bool
  reserved :: "7 word"
  end_tlv :: u8

text \<open>The timer callbacks of \<open>elps_timer.c\<close> with their argument.\<close>

datatype elps_cb = Cb_wtr nat | Cb_holdoff nat | Cb_msg nat | Cb_dfop nat

datatype elps_alarm = PORT_PS2P | PORT_PS_FAIL

datatype alarm_call = Alarm_report u32 elps_alarm bool | Alarm_register u32 | Alarm_unregister u32

record elps_hal_msg =
  msg_subtype :: elps_subtype
  msg_opcode :: ipc_opcode
  msg_index :: u16
  payload :: elps_sess
  answer :: int

record aps_sent =
  out_ifindex :: u32
  dmac :: "u8 list"
  svlan :: u16
  cos :: u8
  pdu :: aps_pkt
  send_result :: int

text \<open>What is used of an interface of \<open>l2_if.c\<close>: \<open>if_down\<close> is \<open>down_flag == IFNET_LINKDOWN\<close>.\<close>

record l2if =
  if_down :: bool
  if_switch :: bool
  if_mac :: "u8 list"

record elps_state =
  heap :: "nat \<Rightarrow> elps_sess"
  elps_session_table :: "(u32, nat) hash_table"
  gelps :: elps_global
  timers :: "elps_cb hp_lists"
  timer_allocs :: nat
  hal_log :: "elps_hal_msg list"
  pkt_log :: "aps_sent list"
  alarm_log :: "alarm_call list"
  l2ifs :: "u32 \<Rightarrow> l2if option"
  cfm_heap :: "nat \<Rightarrow> cfm_sess"
  cfm_sess_table :: "u16 \<Rightarrow> nat"
  md_bind :: "u8 \<Rightarrow> u16 option"
  ma_bind :: "u16 \<Rightarrow> u16 option"

text \<open>
  The environment: what happens at the n-th exchange with the hardware layer and to the n-th
  frame, and what \<open>malloc\<close> returns for the n-th timer.
\<close>

record elps_env =
  sync_answer :: "nat \<Rightarrow> sync_out"
  pkt_answer :: "nat \<Rightarrow> pkt_out"
  timer_malloc :: "nat \<Rightarrow> nat"

type_synonym 'a elps = "(elps_state, 'a) state"

section \<open>Primitive effects\<close>

definition elps_at :: "nat \<Rightarrow> elps_sess elps" where
  "elps_at p = gets (\<lambda>s. heap s p)"

definition elps_info_of :: "nat \<Rightarrow> elps_info elps" where
  "elps_info_of p = gets (\<lambda>s. info (heap s p))"

definition elps_upd :: "nat \<Rightarrow> (elps_sess \<Rightarrow> elps_sess) \<Rightarrow> unit elps" where
  "elps_upd p f = modify (\<lambda>s. s\<lparr>heap := (heap s)(p := f (heap s p))\<rparr>)"

definition elps_upd_info :: "nat \<Rightarrow> (elps_info \<Rightarrow> elps_info) \<Rightarrow> unit elps" where
  "elps_upd_info p f = elps_upd p (\<lambda>x. x\<lparr>info := f (info x)\<rparr>)"

definition elps_set_status :: "nat \<Rightarrow> elps_status \<Rightarrow> unit elps" where
  "elps_set_status p st = elps_upd_info p (\<lambda>i. i\<lparr>current_status := st\<rparr>)"

definition elps_set_event :: "nat \<Rightarrow> elps_event \<Rightarrow> unit elps" where
  "elps_set_event p ev = elps_upd_info p (\<lambda>i. i\<lparr>current_event := ev\<rparr>)"

definition elps_set_active :: "nat \<Rightarrow> u32 \<Rightarrow> unit elps" where
  "elps_set_active p port = elps_upd_info p (\<lambda>i. i\<lparr>active_port := port\<rparr>)"

definition elps_set_action :: "nat \<Rightarrow> elps_action \<Rightarrow> unit elps" where
  "elps_set_action p act = elps_upd_info p (\<lambda>i. i\<lparr>switch_action := act\<rparr>)"

definition elps_set_dfop :: "nat \<Rightarrow> u8 \<Rightarrow> unit elps" where
  "elps_set_dfop p a = elps_upd_info p (\<lambda>i. i\<lparr>dfop_alarm := a\<rparr>)"

definition elps_set_aps :: "nat \<Rightarrow> aps_status \<Rightarrow> unit elps" where
  "elps_set_aps p st = elps_upd_info p (\<lambda>i. i\<lparr>status := st\<rparr>)"

definition elps_upd_global :: "(elps_global \<Rightarrow> elps_global) \<Rightarrow> unit elps" where
  "elps_upd_global f = modify (\<lambda>s. s\<lparr>gelps := f (gelps s)\<rparr>)"

text \<open>\<open>l2_msg_send_hal_wait_ack\<close> with a session; every caller passes its number as index.\<close>

definition elps_send_hal :: "elps_env \<Rightarrow> nat \<Rightarrow> elps_subtype \<Rightarrow> ipc_opcode \<Rightarrow> int elps" where
  "elps_send_hal E p subtype opc = State (\<lambda>s.
     let r = hal_answer (sync_answer E (length (hal_log s)))
     in (r, s\<lparr>hal_log := hal_log s @
           [\<lparr>msg_subtype = subtype, msg_opcode = opc, msg_index = sess_id (info (heap s p)), payload = heap s p,
             answer = r\<rparr>]\<rparr>))"

definition elps_pkt_send :: "elps_env \<Rightarrow> u32 \<Rightarrow> u8 list \<Rightarrow> u16 \<Rightarrow> u8 \<Rightarrow> aps_pkt \<Rightarrow> int elps" where
  "elps_pkt_send E ifindex mac vlan c pkt = State (\<lambda>s.
     let r = pkt_code (pkt_answer E (length (pkt_log s)))
     in (r, s\<lparr>pkt_log := pkt_log s @
           [\<lparr>out_ifindex = ifindex, dmac = mac, svlan = vlan, cos = c, pdu = pkt, send_result = r\<rparr>]\<rparr>))"

definition elps_report :: "alarm_call \<Rightarrow> unit elps" where
  "elps_report a = modify (\<lambda>s. s\<lparr>alarm_log := alarm_log s @ [a]\<rparr>)"

definition elps_timer_add :: "elps_env \<Rightarrow> bool \<Rightarrow> elps_cb \<Rightarrow> int \<Rightarrow> nat elps" where
  "elps_timer_add E loop cb ms = State (\<lambda>s.
     case high_pre_timer_add (timer_malloc E (timer_allocs s)) loop (Some cb) ms (timers s) of
       (i, h) \<Rightarrow> (i, s\<lparr>timers := h, timer_allocs := timer_allocs s + 1\<rparr>))"

definition elps_timer_delete :: "nat \<Rightarrow> unit elps" where
  "elps_timer_delete i = modify (\<lambda>s. s\<lparr>timers := snd (high_pre_timer_delete i (timers s))\<rparr>)"

definition elps_l2if_lookup :: "u32 \<Rightarrow> l2if option elps" where
  "elps_l2if_lookup ifindex = gets (\<lambda>s. l2ifs s ifindex)"

definition elps_cfm_lookup :: "u16 \<Rightarrow> nat elps" where
  "elps_cfm_lookup i = gets (\<lambda>s. cfm_sess_table s i)"

definition elps_cfm_at :: "nat \<Rightarrow> cfm_sess elps" where
  "elps_cfm_at c = gets (\<lambda>s. cfm_heap s c)"

text \<open>The sessions \<open>HASH_BUCKET_LOOP\<close> visits.\<close>

definition elps_sessions :: "nat list elps" where
  "elps_sessions = gets (\<lambda>s. map data (hash_bucket_loop (elps_session_table s)))"

end
