(* ===== verification/ElpsPkt.thy ===== *)
theory ElpsPkt
  imports ElpsModel
begin

text \<open>
  Timers and frames of the linear protection: starting and stopping timers
  (\<open>aps/elps_timer.c\<close>) and sending APS frames (\<open>aps/elps_pkt.c\<close>).  The callbacks that run the
  state machine are in \<open>ElpsFsm\<close>.
\<close>

section \<open>Timers of a session\<close>

text \<open>The body of the stop functions: delete the timer of a field and clear the field.\<close>

definition elps_stop_timer ::
  "(elps_sess \<Rightarrow> nat) \<Rightarrow> ((nat \<Rightarrow> nat) \<Rightarrow> elps_sess \<Rightarrow> elps_sess) \<Rightarrow> nat \<Rightarrow> unit elps" where
  "elps_stop_timer fld fld_update p =
     (if p = 0 then State_Monad.return ()
      else do {
        x \<leftarrow> elps_at p;
        when_m (fld x \<noteq> 0) (do {
          elps_timer_delete (fld x);
          elps_upd p (fld_update (\<lambda>_. 0))
        })
      })"

text \<open>The body of the start functions: stop the timer, then add one and store its id.\<close>

definition elps_start_timer ::
  "elps_env \<Rightarrow> (elps_sess \<Rightarrow> nat) \<Rightarrow> ((nat \<Rightarrow> nat) \<Rightarrow> elps_sess \<Rightarrow> elps_sess) \<Rightarrow>
   bool \<Rightarrow> elps_cb \<Rightarrow> (elps_info \<Rightarrow> int) \<Rightarrow> nat \<Rightarrow> unit elps" where
  "elps_start_timer E fld fld_update loop cb ms p =
     (if p = 0 then State_Monad.return ()
      else do {
        elps_stop_timer fld fld_update p;
        i \<leftarrow> elps_info_of p;
        t \<leftarrow> elps_timer_add E loop cb (ms i);
        elps_upd p (fld_update (\<lambda>_. t))
      })"

text \<open>Minutes times 60 are stored in 16 bits, and so are four keepalive intervals.\<close>

definition elps_wtr_ms :: "elps_info \<Rightarrow> int" where
  "elps_wtr_ms i = uint (wtr i * 60) * 1000"

definition elps_dfop_ms :: "elps_info \<Rightarrow> int" where
  "elps_dfop_ms i = uint (keepalive i * 4) * 1000"

definition elps_start_wtr_timer :: "elps_env \<Rightarrow> nat \<Rightarrow> unit elps" where
  "elps_start_wtr_timer E p = elps_start_timer E pwtr_timer pwtr_timer_update False (Cb_wtr p) elps_wtr_ms p"

definition elps_stop_wtr_timer :: "nat \<Rightarrow> unit elps" where
  "elps_stop_wtr_timer p = elps_stop_timer pwtr_timer pwtr_timer_update p"

text \<open>This one leaves the field until the new id is stored.\<close>

definition elps_start_holdoff_timer :: "elps_env \<Rightarrow> nat \<Rightarrow> unit elps" where
  "elps_start_holdoff_timer E p =
     (if p = 0 then State_Monad.return ()
      else do {
        x \<leftarrow> elps_at p;
        when_m (pholdoff_timer x \<noteq> 0) (elps_timer_delete (pholdoff_timer x));
        t \<leftarrow> elps_timer_add E False (Cb_holdoff p) (uint (holdoff (info x)) * 1000);
        elps_upd p (pholdoff_timer_update (\<lambda>_. t))
      })"

definition elps_start_msg_timer :: "elps_env \<Rightarrow> nat \<Rightarrow> unit elps" where
  "elps_start_msg_timer E p =
     elps_start_timer E pkeepalive_timer pkeepalive_timer_update True (Cb_msg p) (\<lambda>i. uint (keepalive i) * 1000) p"

definition elps_stop_msg_timer :: "nat \<Rightarrow> unit elps" where
  "elps_stop_msg_timer p = elps_stop_timer pkeepalive_timer pkeepalive_timer_update p"

definition elps_start_dfop_timer :: "elps_env \<Rightarrow> nat \<Rightarrow> unit elps" where
  "elps_start_dfop_timer E p = elps_start_timer E dfop_timer dfop_timer_update False (Cb_dfop p) elps_dfop_ms p"

definition elps_stop_dfop_timer :: "nat \<Rightarrow> unit elps" where
  "elps_stop_dfop_timer p = elps_stop_timer dfop_timer dfop_timer_update p"

definition elps_clear_timer :: "nat \<Rightarrow> int elps" where
  "elps_clear_timer p =
     (if p = 0 then State_Monad.return 0
      else do {
        elps_stop_timer pkeepalive_timer pkeepalive_timer_update p;
        elps_stop_timer pholdoff_timer pholdoff_timer_update p;
        elps_stop_timer pwtr_timer pwtr_timer_update p;
        elps_stop_timer dfop_timer dfop_timer_update p;
        State_Monad.return 0
      })"

section \<open>Sending\<close>

text \<open>The frame that describes a session, and the port it leaves by.\<close>

definition aps_frame :: "elps_info \<Rightarrow> aps_pkt" where
  "aps_frame i =
     (let signal = (if active_port i = master_port i then 0 else if active_port i = backup_port i then 1 else 0)
      in \<lparr>pkt_level = 7, version = 0, pkt_opcode = 39, flag = 0, tlv_offset = 4,
          request_state = of_nat (status_num (current_status i)), port_type_A = True, port_type_B = True,
          port_type_D = True, port_type_R = (failback i = FAILBACK_ENABLE), request_signal = signal,
          bridge_signal = signal, bridge_type = False, reserved = 0, end_tlv = 0\<rparr>)"

definition aps_port :: "elps_info \<Rightarrow> u32" where
  "aps_port i = (if current_status i = ELPS_SIGNAL_FAIL_FOR_PROTECTION then master_port i else backup_port i)"

definition aps_mac :: "u8 list" where
  "aps_mac = [0x01, 0x80, 0xC2, 0x00, 0x00, 0x30 OR 7]"

definition aps_send :: "elps_env \<Rightarrow> nat \<Rightarrow> int elps" where
  "aps_send E p =
     (if p = 0 then State_Monad.return ERRNO_FAIL
      else do {
        x \<leftarrow> elps_at p;
        elps_upd_global (\<lambda>g. g\<lparr>pkt_send_cnt := pkt_send_cnt g + 1\<rparr>);
        when_m (dfop_timer x = 0 \<and> dfop_alarm (info x) \<noteq> ELPS_NO_APS_RECV) (elps_start_dfop_timer E p);
        ret \<leftarrow> elps_pkt_send E (aps_port (info x)) aps_mac (pvlan (info x)) (priority (info x)) (aps_frame (info x));
        State_Monad.return (if ret = NET_FAILED then ERRNO_FAIL else ERRNO_SUCCESS)
      })"

definition aps_send_burst :: "elps_env \<Rightarrow> nat \<Rightarrow> int elps" where
  "aps_send_burst E p =
     (if p = 0 then State_Monad.return ERRNO_FAIL
      else do {
        elps_stop_msg_timer p;
        _ \<leftarrow> aps_send E p;
        _ \<leftarrow> aps_send E p;
        _ \<leftarrow> aps_send E p;
        elps_upd p (pkeepalive_timer_update (\<lambda>_. 0));
        elps_start_msg_timer E p;
        State_Monad.return ERRNO_SUCCESS
      })"

end
