(* ===== verification/ElpsFsm.thy ===== *)
theory ElpsFsm
  imports ElpsPkt
begin

text \<open>
  The state machine of the linear protection: its action functions (\<open>aps/elps_fsm.c\<close>), the
  dispatcher, port events and reception (\<open>aps/elps_pkt.c\<close>), the timer callbacks
  (\<open>aps/elps_timer.c\<close>) and the operator's switches (\<open>aps/elps.c\<close>).
\<close>

section \<open>Paths\<close>

definition elps_find_cfm :: "u32 \<Rightarrow> u16 \<Rightarrow> nat elps" where
  "elps_find_cfm ifindex sid = do {
     c \<leftarrow> elps_cfm_lookup sid;
     (if c \<noteq> 0 then do {
        x \<leftarrow> elps_cfm_at c;
        State_Monad.return (if cfm_ifindex x = ifindex then c else 0)
      }
      else State_Monad.return 0)
   }"

text \<open>
  The question every action function asks of a port and the CFM session bound to it: is its link
  down, or else is the session there and down?  \<open>None\<close>: there is no such interface.
\<close>

definition path_failed :: "u32 \<Rightarrow> u16 \<Rightarrow> bool option elps" where
  "path_failed port cfm = do {
     c \<leftarrow> (if cfm \<noteq> 0 then elps_find_cfm port cfm else State_Monad.return 0);
     pif \<leftarrow> elps_l2if_lookup port;
     (case pif of
        None \<Rightarrow> State_Monad.return None
      | Some n \<Rightarrow>
          if if_down n then State_Monad.return (Some True)
          else if c \<noteq> 0 then do {
            x \<leftarrow> elps_cfm_at c;
            State_Monad.return (Some (cfm_down x))
          }
          else State_Monad.return (Some False))
   }"

definition master_failed :: "elps_info \<Rightarrow> bool option elps" where
  "master_failed i = path_failed (master_port i) (master_cfm_session i)"

definition backup_failed :: "elps_info \<Rightarrow> bool option elps" where
  "backup_failed i = path_failed (backup_port i) (backup_cfm_session i)"

section \<open>Switching\<close>

definition report_switch :: "u32 \<Rightarrow> bool \<Rightarrow> unit elps" where
  "report_switch port rise = elps_report (Alarm_report port PORT_PS2P rise)"

definition report_backup :: "u32 \<Rightarrow> bool \<Rightarrow> unit elps" where
  "report_backup port rise = elps_report (Alarm_report port PORT_PS_FAIL rise)"

text \<open>
  Ask the hardware to forward on a path; when it agrees the path becomes the active one and the
  switch is reported, when it does not the function returns \<open>err\<close>.
\<close>

definition elps_forward :: "elps_env \<Rightarrow> nat \<Rightarrow> elps_action \<Rightarrow> errno \<Rightarrow> int elps" where
  "elps_forward E p act err = do {
     elps_set_action p act;
     ret \<leftarrow> elps_send_hal E p OAM_SUBTYPE_ELPS_STG IPC_OPCODE_UPDATE;
     (if ret \<noteq> ERRNO_SUCCESS then State_Monad.return err
      else do {
        i \<leftarrow> elps_info_of p;
        elps_set_active p (if act = ELPS_FORWRAD_MASTER then master_port i else backup_port i);
        report_switch (master_port i) (act \<noteq> ELPS_FORWRAD_MASTER);
        State_Monad.return ERRNO_SUCCESS
      })
   }"

text \<open>How most action functions end: announce the new state unless a step before failed.\<close>

definition aps_announce :: "elps_env \<Rightarrow> nat \<Rightarrow> int \<Rightarrow> int elps" where
  "aps_announce E p ret =
     (if ret \<noteq> ERRNO_SUCCESS then State_Monad.return ret
      else do { _ \<leftarrow> aps_send_burst E p; State_Monad.return ERRNO_SUCCESS })"

section \<open>Local requests\<close>

definition elps_local_handle_lop :: "elps_env \<Rightarrow> nat \<Rightarrow> int elps" where
  "elps_local_handle_lop E p =
     (if p = 0 then State_Monad.return ERRNO_FAIL
      else do {
        elps_set_status p ELPS_LOCKOUT_OF_PROTECTION;
        i \<leftarrow> elps_info_of p;
        ret \<leftarrow> (if active_port i = backup_port i then elps_forward E p ELPS_FORWRAD_MASTER ERRNO_IPC
               else State_Monad.return ERRNO_SUCCESS);
        aps_announce E p ret
      })"

definition elps_local_handle_fs :: "elps_env \<Rightarrow> nat \<Rightarrow> int elps" where
  "elps_local_handle_fs E p =
     (if p = 0 then State_Monad.return ERRNO_FAIL
      else do {
        elps_set_status p ELPS_FORCED_SWITCH;
        i \<leftarrow> elps_info_of p;
        ret \<leftarrow> (if active_port i = master_port i then elps_forward E p ELPS_FORWRAD_BACKUP ERRNO_IPC
               else State_Monad.return ERRNO_SUCCESS);
        aps_announce E p ret
      })"

definition elps_local_handle_ms :: "elps_env \<Rightarrow> nat \<Rightarrow> int elps" where
  "elps_local_handle_ms E p =
     (if p = 0 then State_Monad.return ERRNO_FAIL
      else do {
        elps_set_status p ELPS_MANUAL_SWITCH;
        i \<leftarrow> elps_info_of p;
        ret \<leftarrow> (if active_port i = master_port i then elps_forward E p ELPS_FORWRAD_BACKUP ERRNO_IPC
               else State_Monad.return ERRNO_SUCCESS);
        aps_announce E p ret
      })"

text \<open>Enter the state of a failed path, leaving the wait to restore.\<close>

definition enter_failed :: "nat \<Rightarrow> elps_status \<Rightarrow> unit elps" where
  "enter_failed p st = do {
     i \<leftarrow> elps_info_of p;
     when_m (current_status i = ELPS_WAIT_TO_RESTORE) (elps_stop_wtr_timer p);
     elps_set_status p st
   }"

text \<open>The two halves of \<open>elps_link_down_handler\<close>: the active port is the backup, or the master.\<close>

definition link_down_on_backup :: "elps_env \<Rightarrow> nat \<Rightarrow> int elps" where
  "link_down_on_backup E p = do {
     i \<leftarrow> elps_info_of p;
     b \<leftarrow> backup_failed i;
     (case b of
        None \<Rightarrow> State_Monad.return ERRNO_FAIL
      | Some True \<Rightarrow> do {
          enter_failed p ELPS_SIGNAL_FAIL_FOR_PROTECTION;
          ret \<leftarrow> elps_forward E p ELPS_FORWRAD_MASTER ERRNO_FAIL;
          (if ret \<noteq> ERRNO_SUCCESS then State_Monad.return ret
           else do {
             report_backup (backup_port i) True;
             aps_announce E p ERRNO_SUCCESS
           })
        }
      | Some False \<Rightarrow>
          if current_status i > ELPS_SIGNAL_FAIL_FOR_WORKING then State_Monad.return ERRNO_EXISTED
          else do {
            m \<leftarrow> master_failed i;
            (case m of
               None \<Rightarrow> State_Monad.return ERRNO_FAIL
             | Some True \<Rightarrow> do {
                 enter_failed p ELPS_SIGNAL_FAIL_FOR_WORKING;
                 elps_set_active p (backup_port i);
                 aps_announce E p ERRNO_SUCCESS
               }
             | Some False \<Rightarrow> State_Monad.return ERRNO_EXISTED)
          })
   }"

definition link_down_on_master :: "elps_env \<Rightarrow> nat \<Rightarrow> int elps" where
  "link_down_on_master E p = do {
     i \<leftarrow> elps_info_of p;
     b \<leftarrow> backup_failed i;
     (case b of
        None \<Rightarrow> State_Monad.return ERRNO_FAIL
      | Some True \<Rightarrow> do {
          enter_failed p ELPS_SIGNAL_FAIL_FOR_PROTECTION;
          elps_set_active p (master_port i);
          report_backup (backup_port i) True;
          aps_announce E p ERRNO_SUCCESS
        }
      | Some False \<Rightarrow>
          if current_status i > ELPS_SIGNAL_FAIL_FOR_WORKING then State_Monad.return ERRNO_EXISTED
          else do {
            m \<leftarrow> master_failed i;
            (case m of
               None \<Rightarrow> State_Monad.return ERRNO_FAIL
             | Some True \<Rightarrow> do {
                 enter_failed p ELPS_SIGNAL_FAIL_FOR_WORKING;
                 ret \<leftarrow> elps_forward E p ELPS_FORWRAD_BACKUP ERRNO_FAIL;
                 aps_announce E p ret
               }
             | Some False \<Rightarrow> State_Monad.return ERRNO_EXISTED)
          })
   }"

definition elps_link_down_handler :: "elps_env \<Rightarrow> nat \<Rightarrow> int elps" where
  "elps_link_down_handler E p =
     (if p = 0 then State_Monad.return ERRNO_FAIL
      else do {
        i \<leftarrow> elps_info_of p;
        (if current_status i = ELPS_LOCKOUT_OF_PROTECTION then State_Monad.return ERRNO_EXISTED
         else if active_port i = backup_port i then link_down_on_backup E p
         else if active_port i = master_port i then link_down_on_master E p
         else State_Monad.return ERRNO_EXISTED)
      })"

definition elps_local_handle_sf :: "elps_env \<Rightarrow> nat \<Rightarrow> int elps" where
  "elps_local_handle_sf E p =
     (if p = 0 then State_Monad.return ERRNO_FAIL
      else do {
        x \<leftarrow> elps_at p;
        (if holdoff (info x) = 0 then elps_link_down_handler E p
         else if pholdoff_timer x = 0 then do {
           elps_start_holdoff_timer E p;
           State_Monad.return ERRNO_FAIL
         }
         else State_Monad.return ERRNO_EXISTED)
      })"

definition elps_local_handle_fsclear :: "elps_env \<Rightarrow> nat \<Rightarrow> int elps" where
  "elps_local_handle_fsclear E p =
     (if p = 0 then State_Monad.return ERRNO_FAIL
      else do {
        x \<leftarrow> elps_at p;
        m \<leftarrow> (if pholdoff_timer x = 0 then master_failed (info x) else State_Monad.return (Some False));
        (case m of
           None \<Rightarrow> State_Monad.return ERRNO_FAIL
         | Some True \<Rightarrow> do {
             elps_set_status p ELPS_SIGNAL_FAIL_FOR_WORKING;
             elps_set_active p (backup_port (info x));
             report_switch (master_port (info x)) True;
             aps_announce E p ERRNO_SUCCESS
           }
         | Some False \<Rightarrow>
             if failback (info x) = FAILBACK_ENABLE then do {
               elps_set_status p ELPS_NO_REQUEST;
               ret \<leftarrow> elps_forward E p ELPS_FORWRAD_MASTER ERRNO_IPC;
               aps_announce E p ret
             }
             else do {
               elps_set_status p ELPS_DO_NOT_REVERT;
               elps_set_active p (backup_port (info x));
               aps_announce E p ERRNO_SUCCESS
             })
      })"

definition elps_local_handle_msclear :: "elps_env \<Rightarrow> nat \<Rightarrow> int elps" where
  "elps_local_handle_msclear E p =
     (if p = 0 then State_Monad.return ERRNO_FAIL
      else do {
        i \<leftarrow> elps_info_of p;
        (if failback i = FAILBACK_ENABLE then do {
           elps_set_status p ELPS_NO_REQUEST;
           ret \<leftarrow> elps_forward E p ELPS_FORWRAD_MASTER ERRNO_IPC;
           aps_announce E p ret
         }
         else do {
           elps_set_status p ELPS_DO_NOT_REVERT;
           aps_announce E p ERRNO_SUCCESS
         })
      })"

text \<open>The last part of the next function, taken when neither path has failed or a hold-off runs.\<close>

definition lop_release :: "elps_env \<Rightarrow> nat \<Rightarrow> int elps" where
  "lop_release E p = do {
     i \<leftarrow> elps_info_of p;
     elps_set_status p ELPS_NO_REQUEST;
     elps_set_active p (master_port i);
     aps_announce E p ERRNO_SUCCESS
   }"

definition elps_local_handle_lopclear :: "elps_env \<Rightarrow> nat \<Rightarrow> int elps" where
  "elps_local_handle_lopclear E p =
     (if p = 0 then State_Monad.return ERRNO_FAIL
      else do {
        x \<leftarrow> elps_at p;
        (if pholdoff_timer x \<noteq> 0 then lop_release E p
         else do {
           b \<leftarrow> backup_failed (info x);
           (case b of
              None \<Rightarrow> State_Monad.return ERRNO_FAIL
            | Some True \<Rightarrow> do {
                elps_set_status p ELPS_SIGNAL_FAIL_FOR_PROTECTION;
                elps_set_active p (master_port (info x));
                report_backup (backup_port (info x)) True;
                aps_announce E p ERRNO_SUCCESS
              }
            | Some False \<Rightarrow> do {
                m \<leftarrow> master_failed (info x);
                (case m of
                   None \<Rightarrow> State_Monad.return ERRNO_FAIL
                 | Some True \<Rightarrow> do {
                     elps_set_status p ELPS_SIGNAL_FAIL_FOR_WORKING;
                     ret \<leftarrow> elps_forward E p ELPS_FORWRAD_BACKUP ERRNO_IPC;
                     aps_announce E p ret
                   }
                 | Some False \<Rightarrow> lop_release E p)
              })
         })
      })"

text \<open>
  Recovery.  When the backup path recovers, the alarm about it is taken back before the switch
  is reported.
\<close>

definition backup_recovers :: "elps_env \<Rightarrow> nat \<Rightarrow> int elps" where
  "backup_recovers E p = do {
     i \<leftarrow> elps_info_of p;
     m \<leftarrow> master_failed i;
     (case m of
        None \<Rightarrow> State_Monad.return ERRNO_FAIL
      | Some True \<Rightarrow> do {
          elps_set_status p ELPS_SIGNAL_FAIL_FOR_WORKING;
          elps_set_action p ELPS_FORWRAD_BACKUP;
          ret \<leftarrow> elps_send_hal E p OAM_SUBTYPE_ELPS_STG IPC_OPCODE_UPDATE;
          (if ret \<noteq> ERRNO_SUCCESS then State_Monad.return ERRNO_IPC
           else do {
             elps_set_active p (backup_port i);
             report_backup (backup_port i) False;
             report_switch (master_port i) True;
             aps_announce E p ERRNO_SUCCESS
           })
        }
      | Some False \<Rightarrow> do {
          report_backup (backup_port i) False;
          elps_set_status p ELPS_NO_REQUEST;
          aps_announce E p ERRNO_SUCCESS
        })
   }"

definition elps_local_handle_rsf :: "elps_env \<Rightarrow> nat \<Rightarrow> int elps" where
  "elps_local_handle_rsf E p =
     (if p = 0 then State_Monad.return ERRNO_FAIL
      else do {
        i \<leftarrow> elps_info_of p;
        (if current_event i = LOCAL_ELPS_W_RECOVERS_FROM_SF \<and> current_status i = ELPS_SIGNAL_FAIL_FOR_WORKING then do {
           (if failback i = FAILBACK_ENABLE then do {
              elps_set_status p ELPS_WAIT_TO_RESTORE;
              elps_start_wtr_timer E p
            }
            else elps_set_status p ELPS_DO_NOT_REVERT);
           aps_announce E p ERRNO_SUCCESS
         }
         else if current_event i = LOCAL_ELPS_P_RECOVERS_FROM_SF \<and> current_status i = ELPS_SIGNAL_FAIL_FOR_PROTECTION
         then backup_recovers E p
         else aps_announce E p ERRNO_SUCCESS)
      })"

definition elps_local_handle_wtr_timeout :: "elps_env \<Rightarrow> nat \<Rightarrow> int elps" where
  "elps_local_handle_wtr_timeout E p =
     (if p = 0 then State_Monad.return ERRNO_FAIL
      else do {
        elps_set_action p ELPS_FORWRAD_MASTER;
        ret \<leftarrow> elps_send_hal E p OAM_SUBTYPE_ELPS_STG IPC_OPCODE_UPDATE;
        (if ret \<noteq> ERRNO_SUCCESS then State_Monad.return ERRNO_IPC
         else do {
           i \<leftarrow> elps_info_of p;
           elps_set_active p (master_port i);
           elps_set_status p ELPS_NO_REQUEST;
           report_switch (master_port i) False;
           aps_announce E p ERRNO_SUCCESS
         })
      })"

section \<open>Requests of the far end\<close>

definition elps_aps_change_to_nrw :: "elps_env \<Rightarrow> nat \<Rightarrow> int elps" where
  "elps_aps_change_to_nrw E p =
     (if p = 0 then State_Monad.return ERRNO_FAIL
      else do {
        i \<leftarrow> elps_info_of p;
        ret \<leftarrow> (if active_port i = backup_port i then elps_forward E p ELPS_FORWRAD_MASTER ERRNO_IPC
               else State_Monad.return (if current_status i = ELPS_NO_REQUEST then ERRNO_EXISTED else ERRNO_SUCCESS));
        (if ret \<noteq> ERRNO_SUCCESS then State_Monad.return ret
         else do {
           elps_set_status p ELPS_NO_REQUEST;
           aps_announce E p ERRNO_SUCCESS
         })
      })"

definition elps_aps_change_to_nrp :: "elps_env \<Rightarrow> nat \<Rightarrow> int elps" where
  "elps_aps_change_to_nrp E p =
     (if p = 0 then State_Monad.return ERRNO_FAIL
      else do {
        i \<leftarrow> elps_info_of p;
        ret \<leftarrow> (if active_port i = master_port i then elps_forward E p ELPS_FORWRAD_BACKUP ERRNO_IPC
               else State_Monad.return (if current_status i = ELPS_NO_REQUEST then ERRNO_EXISTED else ERRNO_SUCCESS));
        (if ret \<noteq> ERRNO_SUCCESS then State_Monad.return ret
         else do {
           elps_set_status p ELPS_NO_REQUEST;
           aps_announce E p ERRNO_SUCCESS
         })
      })"

text \<open>
  \<open>elps_aps_handle_nr\<close>: the far end requests nothing and uses the master path; first with the
  master active here, then with the backup.
\<close>

definition nr_rest_on_master :: "nat \<Rightarrow> elps_info \<Rightarrow> int elps" where
  "nr_rest_on_master p i = do {
     elps_set_status p ELPS_NO_REQUEST;
     elps_set_active p (master_port i);
     State_Monad.return ERRNO_EXISTED
   }"

definition nr_on_master :: "elps_env \<Rightarrow> nat \<Rightarrow> elps_sess \<Rightarrow> int elps" where
  "nr_on_master E p x =
     (if pholdoff_timer x \<noteq> 0 then nr_rest_on_master p (info x)
      else do {
        b \<leftarrow> backup_failed (info x);
        (case b of
           None \<Rightarrow> State_Monad.return ERRNO_FAIL
         | Some True \<Rightarrow> do {
             elps_set_status p ELPS_SIGNAL_FAIL_FOR_PROTECTION;
             elps_set_active p (master_port (info x));
             report_backup (backup_port (info x)) True;
             aps_announce E p ERRNO_SUCCESS
           }
         | Some False \<Rightarrow> do {
             m \<leftarrow> master_failed (info x);
             (case m of
                None \<Rightarrow> State_Monad.return ERRNO_FAIL
              | Some True \<Rightarrow> do {
                  elps_set_status p ELPS_SIGNAL_FAIL_FOR_WORKING;
                  ret \<leftarrow> elps_forward E p ELPS_FORWRAD_BACKUP ERRNO_IPC;
                  aps_announce E p ret
                }
              | Some False \<Rightarrow> nr_rest_on_master p (info x))
           })
      })"

definition nr_on_backup :: "elps_env \<Rightarrow> nat \<Rightarrow> elps_sess \<Rightarrow> int elps" where
  "nr_on_backup E p x = do {
     m \<leftarrow> (if pholdoff_timer x = 0 then master_failed (info x) else State_Monad.return (Some False));
     (case m of
        None \<Rightarrow> State_Monad.return ERRNO_FAIL
      | Some True \<Rightarrow> do {
          elps_set_status p ELPS_SIGNAL_FAIL_FOR_WORKING;
          elps_set_active p (backup_port (info x));
          report_switch (master_port (info x)) True;
          aps_announce E p ERRNO_SUCCESS
        }
      | Some False \<Rightarrow> do {
          elps_set_status p ELPS_NO_REQUEST;
          ret \<leftarrow> elps_forward E p ELPS_FORWRAD_MASTER ERRNO_IPC;
          aps_announce E p ret
        })
   }"

text \<open>The far end requests nothing and still uses the backup path.\<close>

definition nr_far_on_backup :: "elps_env \<Rightarrow> nat \<Rightarrow> elps_info \<Rightarrow> int elps" where
  "nr_far_on_backup E p i =
     (if failback i = FAILBACK_ENABLE then do {
        elps_set_status p ELPS_NO_REQUEST;
        (if active_port i = backup_port i then do {
           ret \<leftarrow> elps_forward E p ELPS_FORWRAD_MASTER ERRNO_IPC;
           aps_announce E p ret
         }
         else State_Monad.return ERRNO_EXISTED)
      }
      else if active_port i = backup_port i then do {
        elps_set_status p ELPS_DO_NOT_REVERT;
        aps_announce E p ERRNO_SUCCESS
      }
      else do {
        elps_set_status p ELPS_NO_REQUEST;
        State_Monad.return ERRNO_EXISTED
      })"

definition elps_aps_handle_nr :: "elps_env \<Rightarrow> nat \<Rightarrow> aps_pkt option \<Rightarrow> int elps" where
  "elps_aps_handle_nr E p aps_pdu =
     (if p = 0 then State_Monad.return ERRNO_FAIL
      else case aps_pdu of
        None \<Rightarrow> State_Monad.return ERRNO_FAIL
      | Some pkt \<Rightarrow> do {
          x \<leftarrow> elps_at p;
          (if request_signal pkt = 0 \<and> bridge_signal pkt = 0 then
             if active_port (info x) = master_port (info x) then nr_on_master E p x
             else if active_port (info x) = backup_port (info x) then nr_on_backup E p x
             else aps_announce E p ERRNO_SUCCESS
           else if request_signal pkt = 1 \<and> bridge_signal pkt = 1 then nr_far_on_backup E p (info x)
           else aps_announce E p ERRNO_SUCCESS)
        })"

definition elps_aps_handle_dnr :: "elps_env \<Rightarrow> nat \<Rightarrow> int elps" where
  "elps_aps_handle_dnr E p =
     (if p = 0 then State_Monad.return ERRNO_FAIL
      else do {
        i \<leftarrow> elps_info_of p;
        (if failback i = FAILBACK_ENABLE then do {
           ret \<leftarrow> (if active_port i = master_port i then elps_forward E p ELPS_FORWRAD_BACKUP ERRNO_IPC
                  else State_Monad.return (if current_status i = ELPS_NO_REQUEST then ERRNO_EXISTED else ERRNO_SUCCESS));
           (if ret \<noteq> ERRNO_SUCCESS then State_Monad.return ret
            else do {
              elps_set_status p ELPS_NO_REQUEST;
              aps_announce E p ERRNO_SUCCESS
            })
         }
         else do {
           elps_set_status p ELPS_DO_NOT_REVERT;
           ret \<leftarrow> (if active_port i = master_port i then elps_forward E p ELPS_FORWRAD_BACKUP ERRNO_IPC
                  else State_Monad.return ERRNO_SUCCESS);
           aps_announce E p ret
         })
      })"

section \<open>The dispatcher\<close>

text \<open>Requests of lower priority than the state, and numbers without a name, do nothing.\<close>

definition elps_dispatch :: "elps_env \<Rightarrow> nat \<Rightarrow> aps_pkt option \<Rightarrow> elps_event \<Rightarrow> elps_status \<Rightarrow> int elps" where
  "elps_dispatch E p aps_pdu event st =
     (let guarded = (\<lambda>b m. if b then m else State_Monad.return ERRNO_FAIL) in
      case event of
        APS_ELPS_NR \<Rightarrow> guarded (st = ELPS_NO_REQUEST) (elps_aps_handle_nr E p aps_pdu)
      | APS_ELPS_DNR \<Rightarrow> guarded (st < ELPS_DO_NOT_REVERT) (elps_aps_handle_dnr E p)
      | APS_ELPS_WTR \<Rightarrow> guarded (st < ELPS_WAIT_TO_RESTORE) (elps_aps_change_to_nrp E p)
      | APS_ELPS_MS \<Rightarrow> guarded (st < ELPS_MANUAL_SWITCH) (elps_aps_change_to_nrp E p)
      | APS_ELPS_SF_W \<Rightarrow> guarded (st < ELPS_SIGNAL_FAIL_FOR_WORKING) (elps_aps_change_to_nrp E p)
      | APS_ELPS_FS \<Rightarrow> guarded (st < ELPS_FORCED_SWITCH) (elps_aps_change_to_nrp E p)
      | APS_ELPS_SF_P \<Rightarrow> guarded (st < ELPS_SIGNAL_FAIL_FOR_PROTECTION) (elps_aps_change_to_nrw E p)
      | APS_ELPS_LO \<Rightarrow> guarded (st \<noteq> ELPS_LOCKOUT_OF_PROTECTION) (elps_aps_change_to_nrw E p)
      | LOCAL_ELPS_LOP \<Rightarrow> guarded (st \<noteq> ELPS_LOCKOUT_OF_PROTECTION) (elps_local_handle_lop E p)
      | LOCAL_ELPS_SF_P \<Rightarrow> guarded (st < ELPS_SIGNAL_FAIL_FOR_PROTECTION) (elps_local_handle_sf E p)
      | LOCAL_ELPS_FS \<Rightarrow> guarded (st < ELPS_FORCED_SWITCH) (elps_local_handle_fs E p)
      | LOCAL_ELPS_SF_W \<Rightarrow> guarded (st < ELPS_SIGNAL_FAIL_FOR_WORKING) (elps_local_handle_sf E p)
      | LOCAL_ELPS_W_RECOVERS_FROM_SF \<Rightarrow> guarded (st = ELPS_SIGNAL_FAIL_FOR_WORKING) (elps_local_handle_rsf E p)
      | LOCAL_ELPS_P_RECOVERS_FROM_SF \<Rightarrow> guarded (st = ELPS_SIGNAL_FAIL_FOR_PROTECTION) (elps_local_handle_rsf E p)
      | LOCAL_ELPS_MS \<Rightarrow> guarded (st < ELPS_MANUAL_SWITCH) (elps_local_handle_ms E p)
      | LOCAL_ELPS_CLEAR \<Rightarrow>
          if st = ELPS_FORCED_SWITCH then elps_local_handle_fsclear E p
          else if st = ELPS_MANUAL_SWITCH then elps_local_handle_msclear E p
          else if st = ELPS_LOCKOUT_OF_PROTECTION then elps_local_handle_lopclear E p
          else State_Monad.return ERRNO_FAIL
      | LOCAL_ELPS_WTR_EXPIRES \<Rightarrow> guarded (st = ELPS_WAIT_TO_RESTORE) (elps_local_handle_wtr_timeout E p)
      | APS_UNASSIGNED _ \<Rightarrow> State_Monad.return ERRNO_FAIL)"

text \<open>A transition that succeeded is told to the hardware layer; if it refuses, the session is disabled.\<close>

definition elps_tell_hal :: "elps_env \<Rightarrow> nat \<Rightarrow> int elps" where
  "elps_tell_hal E p = do {
     ret \<leftarrow> elps_send_hal E p OAM_SUBTYPE_ELPS_SESSION IPC_OPCODE_UPDATE;
     (if ret \<noteq> ERRNO_SUCCESS then do {
        elps_set_aps p APS_STATUS_DISABLE;
        State_Monad.return ERRNO_IPC
      }
      else State_Monad.return ERRNO_SUCCESS)
   }"

definition elps_fsm :: "elps_env \<Rightarrow> nat \<Rightarrow> aps_pkt option \<Rightarrow> elps_event \<Rightarrow> int elps" where
  "elps_fsm E p aps_pdu event =
     (if p = 0 then State_Monad.return ERRNO_FAIL
      else do {
        i \<leftarrow> elps_info_of p;
        (if status i = APS_STATUS_DISABLE then State_Monad.return ERRNO_FAIL
         else do {
           ret \<leftarrow> elps_dispatch E p aps_pdu event (current_status i);
           (if ret = ERRNO_SUCCESS then elps_tell_hal E p else State_Monad.return ERRNO_SUCCESS)
         })
      })"

section \<open>Starting a session\<close>

definition elps_init_session :: "elps_env \<Rightarrow> nat \<Rightarrow> int elps" where
  "elps_init_session E p =
     (if p = 0 then State_Monad.return ERRNO_FAIL
      else do {
        elps_set_status p ELPS_NO_REQUEST;
        elps_set_event p APS_ELPS_NR;
        i \<leftarrow> elps_info_of p;
        elps_set_active p (master_port i);
        b \<leftarrow> backup_failed i;
        m \<leftarrow> master_failed i;
        (case b of
           None \<Rightarrow> State_Monad.return ERRNO_FAIL
         | Some True \<Rightarrow> do {
             elps_set_event p LOCAL_ELPS_SF_P;
             elps_fsm E p None LOCAL_ELPS_SF_P
           }
         | Some False \<Rightarrow>
             (case m of
                None \<Rightarrow> State_Monad.return ERRNO_FAIL
              | Some True \<Rightarrow> do {
                  elps_set_event p LOCAL_ELPS_SF_W;
                  elps_fsm E p None LOCAL_ELPS_SF_W
                }
              | Some False \<Rightarrow> do {
                  ret \<leftarrow> aps_send E p;
                  (if ret \<noteq> ERRNO_SUCCESS then State_Monad.return ERRNO_FAIL
                   else do {
                     elps_start_msg_timer E p;
                     State_Monad.return ERRNO_SUCCESS
                   })
                }))
      })"

section \<open>Events of ports and CFM sessions\<close>

text \<open>
  The event for one side of a session: \<open>cfm\<close> is the CFM session bound to the port, \<open>failed\<close> the
  state that stands for its failure, \<open>sf\<close> and \<open>rec\<close> the events of failure and recovery.  The
  variable \<open>sess\<close> of the C function lives across the loop over all sessions; \<open>old\<close> is its value,
  and the first result the new one.
\<close>

definition side_event ::
  "u32 \<Rightarrow> u16 \<Rightarrow> elps_port_event \<Rightarrow> u16 \<Rightarrow> elps_status \<Rightarrow> elps_status \<Rightarrow> elps_event \<Rightarrow> elps_event \<Rightarrow> nat \<Rightarrow>
   (nat \<times> elps_event option) elps" where
  "side_event ifindex sid event cfm st failed sf rec old =
     (case event of
        PORT_STATE_DOWN \<Rightarrow> State_Monad.return (old, Some sf)
      | PORT_STATE_UP \<Rightarrow> do {
          c \<leftarrow> (if cfm \<noteq> 0 then elps_find_cfm ifindex cfm else State_Monad.return old);
          x \<leftarrow> elps_cfm_at c;
          State_Monad.return (c, if c \<noteq> 0 \<and> cfm_down x then Some sf else if st = failed then Some rec else None)
        }
      | CC_STATE_DOWN \<Rightarrow> State_Monad.return (old, if cfm = sid then Some sf else None)
      | CC_STATE_UP \<Rightarrow> State_Monad.return (old, if cfm = sid \<and> st = failed then Some rec else None))"

definition elps_update_side ::
  "elps_env \<Rightarrow> u32 \<Rightarrow> u16 \<Rightarrow> elps_port_event \<Rightarrow> u16 \<Rightarrow> elps_status \<Rightarrow> elps_event \<Rightarrow> elps_event \<Rightarrow> nat \<Rightarrow> nat \<Rightarrow> nat elps" where
  "elps_update_side E ifindex sid event cfm failed sf rec old p = do {
     i \<leftarrow> elps_info_of p;
     r \<leftarrow> side_event ifindex sid event cfm (current_status i) failed sf rec old;
     (case snd r of
        None \<Rightarrow> State_Monad.return (fst r)
      | Some ev \<Rightarrow> do {
          elps_set_event p ev;
          _ \<leftarrow> elps_fsm E p None ev;
          State_Monad.return (fst r)
        })
   }"

definition elps_update_one :: "elps_env \<Rightarrow> u32 \<Rightarrow> u16 \<Rightarrow> elps_port_event \<Rightarrow> nat \<Rightarrow> nat \<Rightarrow> nat elps" where
  "elps_update_one E ifindex sid event old p = do {
     i \<leftarrow> elps_info_of p;
     (if ifindex = master_port i then
        elps_update_side E ifindex sid event (master_cfm_session i) ELPS_SIGNAL_FAIL_FOR_WORKING
          LOCAL_ELPS_SF_W LOCAL_ELPS_W_RECOVERS_FROM_SF old p
      else if ifindex = backup_port i then
        elps_update_side E ifindex sid event (backup_cfm_session i) ELPS_SIGNAL_FAIL_FOR_PROTECTION
          LOCAL_ELPS_SF_P LOCAL_ELPS_P_RECOVERS_FROM_SF old p
      else State_Monad.return old)
   }"

fun elps_update_loop :: "elps_env \<Rightarrow> u32 \<Rightarrow> u16 \<Rightarrow> elps_port_event \<Rightarrow> nat \<Rightarrow> nat list \<Rightarrow> int elps" where
  "elps_update_loop E ifindex sid event old [] = State_Monad.return ERRNO_SUCCESS"
| "elps_update_loop E ifindex sid event old (p # ps) = do {
     old \<leftarrow> elps_update_one E ifindex sid event old p;
     elps_update_loop E ifindex sid event old ps
   }"

definition elps_state_update :: "elps_env \<Rightarrow> u32 \<Rightarrow> u16 \<Rightarrow> elps_port_event \<Rightarrow> int elps" where
  "elps_state_update E ifindex sid event =
     (if ifindex = 0 then State_Monad.return ERRNO_FAIL
      else do { ps \<leftarrow> elps_sessions; elps_update_loop E ifindex sid event 0 ps })"

section \<open>Received frames\<close>

record aps_rx =
  in_ifindex :: u32
  rx_svlan :: u16
  rx_aps :: aps_pkt

definition aps_count_err :: "unit elps" where
  "aps_count_err = elps_upd_global (\<lambda>g. g\<lparr>pkt_err := pkt_err g + 1\<rparr>)"

definition aps_recv_one :: "elps_env \<Rightarrow> aps_rx \<Rightarrow> nat \<Rightarrow> unit elps" where
  "aps_recv_one E k p = do {
     i \<leftarrow> elps_info_of p;
     when_m (status i = APS_STATUS_ENABLE \<and> (master_port i = in_ifindex k \<or> backup_port i = in_ifindex k) \<and>
             rx_svlan k = pvlan i)
       (do {
          elps_set_dfop p 0;
          elps_stop_dfop_timer p;
          (if \<not> port_type_A (rx_aps k) \<and> (port_type_B (rx_aps k) \<or> port_type_D (rx_aps k)) then do {
             aps_count_err;
             elps_set_dfop p ELPS_RECV_APS_ABDR_INVALID
           }
           else if \<not> port_type_B (rx_aps k) then do {
             elps_set_dfop p 0;
             aps_count_err;
             elps_set_dfop p ELPS_RECV_APS_B_INVALID
           }
           else do {
             elps_set_dfop p 0;
             elps_set_event p (aps_event (request_state (rx_aps k)));
             _ \<leftarrow> elps_fsm E p (Some (rx_aps k)) (aps_event (request_state (rx_aps k)));
             State_Monad.return ()
           })
        })
   }"

fun aps_recv_loop :: "elps_env \<Rightarrow> aps_rx \<Rightarrow> nat list \<Rightarrow> unit elps" where
  "aps_recv_loop E k [] = State_Monad.return ()"
| "aps_recv_loop E k (p # ps) = do { aps_recv_one E k p; aps_recv_loop E k ps }"

definition aps_recv :: "elps_env \<Rightarrow> aps_rx option \<Rightarrow> int elps" where
  "aps_recv E ppkt =
     (case ppkt of
        None \<Rightarrow> State_Monad.return ERRNO_FAIL
      | Some k \<Rightarrow> do {
          elps_upd_global (\<lambda>g. g\<lparr>pkt_recv := pkt_recv g + 1\<rparr>);
          ps \<leftarrow> elps_sessions;
          aps_recv_loop E k ps;
          State_Monad.return ERRNO_SUCCESS
        })"

section \<open>Timer callbacks\<close>

definition elps_wtr_expiry :: "elps_env \<Rightarrow> nat \<Rightarrow> int elps" where
  "elps_wtr_expiry E p = do {
     elps_upd p (pwtr_timer_update (\<lambda>_. 0));
     elps_set_event p LOCAL_ELPS_WTR_EXPIRES;
     elps_fsm E p None LOCAL_ELPS_WTR_EXPIRES
   }"

definition elps_holdoff_expiry :: "elps_env \<Rightarrow> nat \<Rightarrow> int elps" where
  "elps_holdoff_expiry E p = do {
     elps_upd p (pholdoff_timer_update (\<lambda>_. 0));
     ret \<leftarrow> elps_link_down_handler E p;
     (if ret = ERRNO_SUCCESS then elps_tell_hal E p else State_Monad.return ERRNO_SUCCESS)
   }"

definition elps_msg_expiry :: "elps_env \<Rightarrow> nat \<Rightarrow> int elps" where
  "elps_msg_expiry E p = do {
     i \<leftarrow> elps_info_of p;
     (if status i = APS_STATUS_ENABLE then aps_send E p else State_Monad.return 1)
   }"

definition elps_dfop_expiry :: "nat \<Rightarrow> int elps" where
  "elps_dfop_expiry p = do {
     elps_upd p (dfop_timer_update (\<lambda>_. 0));
     i \<leftarrow> elps_info_of p;
     elps_set_dfop p (if current_status i = ELPS_SIGNAL_FAIL_FOR_PROTECTION then 0 else ELPS_NO_APS_RECV);
     State_Monad.return 1
   }"

definition elps_callback :: "elps_env \<Rightarrow> elps_cb \<Rightarrow> int elps" where
  "elps_callback E cb =
     (case cb of
        Cb_wtr p \<Rightarrow> elps_wtr_expiry E p
      | Cb_holdoff p \<Rightarrow> elps_holdoff_expiry E p
      | Cb_msg p \<Rightarrow> elps_msg_expiry E p
      | Cb_dfop p \<Rightarrow> elps_dfop_expiry p)"

text \<open>One tick of the process's timer: \<open>high_pre_timer_dotick\<close> with the callbacks above.\<close>

definition elps_tick :: "elps_env \<Rightarrow> elps_state \<Rightarrow> elps_state option" where
  "elps_tick E s =
     high_pre_timer_dotick timers (\<lambda>h s. s\<lparr>timers := h\<rparr>) (\<lambda>cb s. snd (run_state (elps_callback E cb) s)) s"

section \<open>The operator's switches\<close>

text \<open>What the three functions share once they have found the request acceptable.\<close>

definition elps_request :: "elps_env \<Rightarrow> nat \<Rightarrow> elps_event \<Rightarrow> int elps" where
  "elps_request E p ev = do {
     elps_set_event p ev;
     elps_fsm E p None ev
   }"

definition elps_sess_forceswitch :: "elps_env \<Rightarrow> nat \<Rightarrow> bool \<Rightarrow> int elps" where
  "elps_sess_forceswitch E p is_creat =
     (if p = 0 then State_Monad.return ERRNO_FAIL
      else do {
        i \<leftarrow> elps_info_of p;
        (if is_creat then
           if current_status i = ELPS_LOCKOUT_OF_PROTECTION \<or> current_status i = ELPS_SIGNAL_FAIL_FOR_PROTECTION
           then State_Monad.return ELPS_LOWER_PRIO_CMD
           else if current_status i = ELPS_FORCED_SWITCH then State_Monad.return ELPS_IS_ALREADY_FS
           else elps_request E p LOCAL_ELPS_FS
         else if current_status i \<noteq> ELPS_FORCED_SWITCH then State_Monad.return ELPS_IS_NOT_FS
         else elps_request E p LOCAL_ELPS_CLEAR)
      })"

definition elps_sess_manualswitch :: "elps_env \<Rightarrow> nat \<Rightarrow> bool \<Rightarrow> int elps" where
  "elps_sess_manualswitch E p is_creat =
     (if p = 0 then State_Monad.return ERRNO_FAIL
      else do {
        i \<leftarrow> elps_info_of p;
        (if is_creat then
           if current_status i = ELPS_LOCKOUT_OF_PROTECTION \<or> current_status i = ELPS_SIGNAL_FAIL_FOR_PROTECTION \<or>
              current_status i = ELPS_FORCED_SWITCH \<or> current_status i = ELPS_SIGNAL_FAIL_FOR_WORKING
           then State_Monad.return ELPS_LOWER_PRIO_CMD
           else if current_status i = ELPS_MANUAL_SWITCH then State_Monad.return ELPS_IS_ALREADY_MS
           else elps_request E p LOCAL_ELPS_MS
         else if current_status i \<noteq> ELPS_MANUAL_SWITCH then State_Monad.return ELPS_IS_NOT_MS
         else elps_request E p LOCAL_ELPS_CLEAR)
      })"

definition elps_sess_lock :: "elps_env \<Rightarrow> nat \<Rightarrow> bool \<Rightarrow> int elps" where
  "elps_sess_lock E p is_creat =
     (if p = 0 then State_Monad.return ERRNO_FAIL
      else do {
        i \<leftarrow> elps_info_of p;
        (if is_creat then
           if current_status i = ELPS_LOCKOUT_OF_PROTECTION then State_Monad.return ELPS_IS_ALREADY_LOP
           else elps_request E p LOCAL_ELPS_LOP
         else if current_status i \<noteq> ELPS_LOCKOUT_OF_PROTECTION then State_Monad.return ELPS_IS_NOT_LOP
         else elps_request E p LOCAL_ELPS_CLEAR)
      })"

end
