(* ===== verification/ElpsCmd.thy ===== *)
theory ElpsCmd
  imports ElpsFsm
begin

text \<open>
  Sessions of the linear protection: the session table, enabling and disabling
  (\<open>aps/elps.c\<close>), and the commands that configure and drive a session (\<open>aps/elps_cmd.c\<close>).  The
  result of a command is \<open>True\<close> for \<open>CMD_SUCCESS\<close> and \<open>False\<close> for \<open>CMD_WARNING\<close>; numbers among its
  arguments are those that \<open>atoi\<close> yields, and the session is \<open>vty->index\<close>.
\<close>

section \<open>The vlan bitmap\<close>

definition elps_vlan_map_set :: "u8 list \<Rightarrow> u16 \<Rightarrow> u16 \<Rightarrow> u8 list option" where
  "elps_vlan_map_set bitmap vlan_start vlan_end =
     vlan_loop (\<lambda>b x. b OR x) (vlan_range vlan_start vlan_end) bitmap"

definition elps_vlan_map_unset :: "u8 list \<Rightarrow> u16 \<Rightarrow> u16 \<Rightarrow> u8 list option" where
  "elps_vlan_map_unset bitmap vlan_start vlan_end =
     vlan_loop (\<lambda>b x. b AND NOT x) (vlan_range vlan_start vlan_end) bitmap"

definition elps_vlan_map_isset :: "u8 list \<Rightarrow> u16 \<Rightarrow> u16 \<Rightarrow> nat option" where
  "elps_vlan_map_isset bitmap vlan_start vlan_end = vlan_first (vlan_range vlan_start vlan_end) bitmap"

section \<open>The session table\<close>

definition elps_compute_sess :: "u32 \<Rightarrow> u32" where
  "elps_compute_sess k = (if k = 0 then 0 else k)"

definition elps_compare_sess :: "(u32, nat) hash_bucket \<Rightarrow> u32 \<Rightarrow> int" where
  "elps_compare_sess b k =
     (if k = 0 then ERRNO_PARAM_ILLEGAL else if hash_key b = k then 0 else 1)"

definition elps_sess_table_init :: "u32 \<Rightarrow> unit elps" where
  "elps_sess_table_init n =
     (if n = 0 then State_Monad.return ()
      else modify (\<lambda>s. s\<lparr>elps_session_table := hios_hash_init n elps_compute_sess elps_compare_sess\<rparr>))"

definition elps_zero_info :: elps_info where
  "elps_zero_info = \<lparr>sess_id = 0, pvlan = 0, data_vlan_map = replicate 512 0, data_vlan_set_flag = 0,
     master_port_mac = replicate 6 0, backup_port_mac = replicate 6 0, master_port = 0, backup_port = 0,
     active_port = 0, keepalive = 0, holdoff = 0, wtr = 0, dfop_alarm = 0, current_status = ELPS_NO_REQUEST,
     current_event = APS_ELPS_NR, status = APS_STATUS_DISABLE, failback = FAILBACK_ENABLE, fs_enable = 0,
     ms_enable = 0, lck_enable = 0, priority = 0, master_cfm_session = 0, backup_cfm_session = 0,
     switch_action = ELPS_ACTION_INVILD\<rparr>"

definition elps_zero_sess :: elps_sess where
  "elps_zero_sess = \<lparr>info = elps_zero_info, pkeepalive_timer = 0, pholdoff_timer = 0, pwtr_timer = 0, dfop_timer = 0\<rparr>"

text \<open>\<open>a\<close> is what \<open>XMALLOC\<close> returns.\<close>

definition elps_sess_create :: "nat \<Rightarrow> u16 \<Rightarrow> nat elps" where
  "elps_sess_create a sid =
     (if a = 0 then State_Monad.return 0
      else do {
        elps_upd a (\<lambda>_. elps_zero_sess\<lparr>info := elps_zero_info\<lparr>sess_id := sid, keepalive := 5, priority := 6,
          wtr := 5, failback := FAILBACK_ENABLE\<rparr>\<rparr>);
        State_Monad.return a
      })"

definition elps_sess_add :: "nat \<Rightarrow> nat \<Rightarrow> int elps" where
  "elps_sess_add item_addr p =
     (if item_addr = 0 then State_Monad.return ERRNO_MALLOC
      else do {
        i \<leftarrow> elps_info_of p;
        s \<leftarrow> State_Monad.get;
        let (ret, tab) = hios_hash_add (elps_session_table s)
               \<lparr>addr = item_addr, hashval = 0, hash_key = ucast (sess_id i), data = p\<rparr>;
        State_Monad.set (s\<lparr>elps_session_table := tab\<rparr>);
        State_Monad.return (if ret \<noteq> 0 then ERRNO_OVERSIZE else ERRNO_SUCCESS)
      })"

definition elps_sess_lookup :: "u16 \<Rightarrow> nat elps" where
  "elps_sess_lookup sid =
     (if sid < 1 \<or> sid > ELPS_NUM then State_Monad.return 0
      else gets (\<lambda>s. case hios_hash_find (elps_session_table s) (ucast sid) of
          None \<Rightarrow> 0
        | Some b \<Rightarrow> data b))"

text \<open>\<open>cfm_session_bind_elps\<close> and \<open>cfm_session_unbind_elps\<close> of \<open>cfm/cfm_session.c\<close>: the counts go up or down by one.\<close>

definition cfm_count :: "(u16 \<Rightarrow> u16) \<Rightarrow> u16 \<Rightarrow> nat elps" where
  "cfm_count f sid = State (\<lambda>s.
     let c = cfm_sess_table s sid in
     if c = 0 then (0, s)
     else
       let x = cfm_heap s c
       in (c, s\<lparr>cfm_heap := (cfm_heap s)(c := x\<lparr>elps_bind := f (elps_bind x)\<rparr>),
                md_bind := (md_bind s)(md_index x := map_option f (md_bind s (md_index x))),
                ma_bind := (ma_bind s)(ma_index x := map_option f (ma_bind s (ma_index x)))\<rparr>))"

definition elps_bind_cfm :: "u16 \<Rightarrow> nat elps" where
  "elps_bind_cfm sid = cfm_count (\<lambda>n. n + 1) sid"

definition elps_unbind_cfm :: "u16 \<Rightarrow> nat elps" where
  "elps_unbind_cfm sid = cfm_count (\<lambda>n. n - 1) sid"

definition elps_sess_delete :: "u16 \<Rightarrow> int elps" where
  "elps_sess_delete sid = do {
     s \<leftarrow> State_Monad.get;
     (case hios_hash_find (elps_session_table s) (ucast sid) of
        None \<Rightarrow> State_Monad.return ERRNO_NOT_FOUND
      | Some item \<Rightarrow> do {
          i \<leftarrow> elps_info_of (data item);
          m \<leftarrow> (if data item \<noteq> 0 \<and> master_cfm_session i \<noteq> 0
                then elps_unbind_cfm (master_cfm_session i) else State_Monad.return 1);
          (if m = 0 then State_Monad.return ERRNO_FAIL
           else do {
             b \<leftarrow> (if data item \<noteq> 0 \<and> backup_cfm_session i \<noteq> 0
                   then elps_unbind_cfm (backup_cfm_session i) else State_Monad.return 1);
             (if b = 0 then State_Monad.return ERRNO_FAIL
              else do {
                modify (\<lambda>s. s\<lparr>elps_session_table := hios_hash_delete (elps_session_table s) item\<rparr>);
                State_Monad.return ERRNO_SUCCESS
              })
           })
        })
   }"

section \<open>Enabling and disabling\<close>

text \<open>\<open>ifm_get_ifindex_by_usp\<close> of \<open>lib/ifm_common.c\<close>: the index of an interface from its parts.\<close>

record ifm_usp =
  usp_type :: u32
  usp_unit :: u8
  usp_slot :: u8
  usp_port :: u8
  sub_port :: u16

definition ifm_get_ifindex_by_usp :: "ifm_usp \<Rightarrow> u32" where
  "ifm_get_ifindex_by_usp u =
     (if usp_type u = 0 then 0
      else if 16 < usp_type u then 0
      else if 7 < usp_unit u then 0
      else if 31 < usp_slot u then 0
      else if 4095 < sub_port u then 0
      else push_bit 28 (usp_type u AND 0xF) OR push_bit 25 (ucast (usp_unit u) AND 0x7) OR
           push_bit 20 (ucast (usp_slot u) AND 0x1F) OR push_bit 12 (ucast (usp_port u) AND 0xFF) OR
           (ucast (sub_port u) AND 0xFFF))"

text \<open>The port whose alarms \<open>elps_sess_enable\<close> registers; the index of the backup port loses its upper bits.\<close>

definition alarm_port :: "elps_info \<Rightarrow> u32" where
  "alarm_port i = ifm_get_ifindex_by_usp
     \<lparr>usp_type = 16, usp_unit = 1, usp_slot = 0, usp_port = ucast (backup_port i), sub_port = 0\<rparr>"

definition elps_sess_enable :: "elps_env \<Rightarrow> nat \<Rightarrow> int elps" where
  "elps_sess_enable E p =
     (if p = 0 then State_Monad.return ERRNO_SUCCESS
      else do {
        i \<leftarrow> elps_info_of p;
        (if status i = APS_STATUS_ENABLE then State_Monad.return ERRNO_SUCCESS
         else do {
           elps_set_aps p APS_STATUS_ENABLE;
           ret \<leftarrow> elps_send_hal E p OAM_SUBTYPE_ELPS_SESSION IPC_OPCODE_ADD;
           (if ret \<noteq> ERRNO_SUCCESS then do {
              elps_set_aps p APS_STATUS_DISABLE;
              State_Monad.return ERRNO_IPC
            }
            else do {
              elps_report (Alarm_register (alarm_port i));
              State_Monad.return ERRNO_SUCCESS
            })
         })
      })"

definition elps_sess_disable :: "elps_env \<Rightarrow> nat \<Rightarrow> int elps" where
  "elps_sess_disable E p =
     (if p = 0 then State_Monad.return ERRNO_SUCCESS
      else do {
        i \<leftarrow> elps_info_of p;
        (if status i = APS_STATUS_DISABLE then State_Monad.return ERRNO_SUCCESS
         else do {
           ret \<leftarrow> elps_send_hal E p OAM_SUBTYPE_ELPS_SESSION IPC_OPCODE_DELETE;
           (if ret \<noteq> ERRNO_SUCCESS then State_Monad.return ERRNO_IPC
            else do {
              elps_set_aps p APS_STATUS_DISABLE;
              elps_report (Alarm_unregister (backup_port i));
              State_Monad.return ERRNO_SUCCESS
            })
         })
      })"

section \<open>The bulk query\<close>

text \<open>An entry is a copy of \<open>info\<close> with the names of the two ports; \<open>name\<close> is \<open>ifm_get_name_by_ifindex\<close>.\<close>

record hhrelps_snmp =
  snmp_info :: elps_info
  master_name :: "u8 list"
  backup_name :: "u8 list"

definition elps_entry :: "(u32 \<Rightarrow> u8 list) \<Rightarrow> elps_info \<Rightarrow> hhrelps_snmp" where
  "elps_entry name i = \<lparr>snmp_info = i,
     master_name = (if master_port i \<noteq> 0 then name (master_port i) else replicate 32 0),
     backup_name = (if backup_port i \<noteq> 0 then name (backup_port i) else replicate 32 0)\<rparr>"

fun elps_bulk_copy :: "(nat \<Rightarrow> hhrelps_snmp) \<Rightarrow> nat \<Rightarrow> nat list \<Rightarrow> hhrelps_snmp list \<Rightarrow> hhrelps_snmp list" where
  "elps_bulk_copy get mx [] buf = buf"
| "elps_bulk_copy get mx (p # ps) buf =
     (if p = 0 then elps_bulk_copy get mx ps buf
      else let buf' = buf @ [get p] in if length buf' = mx then buf' else elps_bulk_copy get mx ps buf')"

fun elps_after_session :: "(nat \<Rightarrow> elps_info) \<Rightarrow> u32 \<Rightarrow> nat list \<Rightarrow> nat list" where
  "elps_after_session get sid [] = []"
| "elps_after_session get sid (p # ps) =
     (if p \<noteq> 0 \<and> sid = ucast (sess_id (get p)) then ps else elps_after_session get sid ps)"

definition elps_get_bulk :: "(u32 \<Rightarrow> u8 list) \<Rightarrow> u32 \<Rightarrow> nat \<Rightarrow> elps_state \<Rightarrow> hhrelps_snmp list" where
  "elps_get_bulk name session_id elps_max s =
     (let ps = map data (hash_bucket_loop (elps_session_table s));
          get = (\<lambda>p. info (heap s p))
      in elps_bulk_copy (\<lambda>p. elps_entry name (get p)) elps_max
           (if session_id = 0 then ps else elps_after_session get session_id ps) [])"

section \<open>Commands that create and configure a session\<close>

text \<open>\<open>elps session\<close>: \<open>a\<close> and \<open>item\<close> are what \<open>XMALLOC\<close> returns; the result is \<open>vty->index\<close>.\<close>

definition elps_session :: "nat \<Rightarrow> nat \<Rightarrow> int \<Rightarrow> nat option elps" where
  "elps_session a item n = do {
     p \<leftarrow> elps_sess_lookup (of_int n);
     (if p \<noteq> 0 then State_Monad.return (Some p)
      else do {
        p \<leftarrow> elps_sess_create a (of_int n);
        (if p = 0 then State_Monad.return None
         else do {
           ret \<leftarrow> elps_sess_add item p;
           (if ret \<noteq> ERRNO_SUCCESS then State_Monad.return None
            else do {
              elps_upd_global (\<lambda>g. g\<lparr>sess_total := sess_total g + 1\<rparr>);
              State_Monad.return (Some p)
            })
         })
      })
   }"

definition no_elps_session :: "int \<Rightarrow> bool elps" where
  "no_elps_session n = do {
     p \<leftarrow> elps_sess_lookup (of_int n);
     (if p = 0 then State_Monad.return False
      else do {
        i \<leftarrow> elps_info_of p;
        (if status i \<noteq> APS_STATUS_DISABLE then State_Monad.return False
         else do {
           ret \<leftarrow> elps_sess_delete (of_int n);
           (if ret = ERRNO_NOT_FOUND \<or> ret = ERRNO_FAIL then State_Monad.return False
            else do {
              elps_upd_global (\<lambda>g. g\<lparr>sess_total := sess_total g - 1\<rparr>);
              State_Monad.return True
            })
         })
      })
   }"

text \<open>The check most commands start with.\<close>

definition if_disabled :: "nat \<Rightarrow> bool elps \<Rightarrow> bool elps" where
  "if_disabled p m = do {
     i \<leftarrow> elps_info_of p;
     (if status i \<noteq> APS_STATUS_DISABLE then State_Monad.return False else m)
   }"

definition set_option :: "nat \<Rightarrow> (elps_info \<Rightarrow> elps_info) \<Rightarrow> bool elps" where
  "set_option p f = if_disabled p (do { elps_upd_info p f; State_Monad.return True })"

text \<open>\<open>l2if_get\<close>: the interface, created when it is not there; \<open>mk\<close> is what \<open>l2if_create\<close> makes.\<close>

definition elps_l2if_get :: "(u32 \<Rightarrow> l2if option) \<Rightarrow> u32 \<Rightarrow> l2if option elps" where
  "elps_l2if_get mk ifindex = do {
     pif \<leftarrow> elps_l2if_lookup ifindex;
     (case pif of
        Some n \<Rightarrow> State_Monad.return (Some n)
      | None \<Rightarrow>
          (case mk ifindex of
             None \<Rightarrow> State_Monad.return None
           | Some n \<Rightarrow> do {
               modify (\<lambda>s. s\<lparr>l2ifs := (l2ifs s)(ifindex \<mapsto> n)\<rparr>);
               State_Monad.return (Some n)
             }))
   }"

text \<open>\<open>ifindex_m\<close> and \<open>ifindex_b\<close> are what \<open>ifm_get_ifindex_by_name\<close> makes of the names.\<close>

definition elps_protect_port :: "(u32 \<Rightarrow> l2if option) \<Rightarrow> u32 \<Rightarrow> u32 \<Rightarrow> nat \<Rightarrow> bool elps" where
  "elps_protect_port mk ifindex_m ifindex_b p = if_disabled p (do {
     i \<leftarrow> elps_info_of p;
     (if master_port i \<noteq> 0 \<and> backup_port i \<noteq> 0 then State_Monad.return False
      else if ifindex_m = 0 then State_Monad.return False
      else do {
        pif \<leftarrow> elps_l2if_get mk ifindex_m;
        (case pif of
           None \<Rightarrow> State_Monad.return False
         | Some n \<Rightarrow>
             if \<not> if_switch n then State_Monad.return False
             else do {
               elps_upd_info p (\<lambda>i. i\<lparr>master_port_mac := if_mac n\<rparr>);
               (if ifindex_b = 0 then State_Monad.return False
                else do {
                  pif \<leftarrow> elps_l2if_get mk ifindex_b;
                  (case pif of
                     None \<Rightarrow> State_Monad.return False
                   | Some n \<Rightarrow>
                       if \<not> if_switch n then State_Monad.return False
                       else if ifindex_m = ifindex_b then State_Monad.return False
                       else do {
                         elps_upd_info p (\<lambda>i. i\<lparr>backup_port_mac := if_mac n\<rparr>);
                         elps_upd_info p (\<lambda>i. i\<lparr>master_port := ifindex_m, active_port := ifindex_m,
                           backup_port := ifindex_b\<rparr>);
                         State_Monad.return True
                       })
                })
             })
      })
   })"

definition no_elps_protect_port :: "nat \<Rightarrow> bool elps" where
  "no_elps_protect_port p = if_disabled p (do {
     i \<leftarrow> elps_info_of p;
     (if master_port i = 0 \<or> backup_port i = 0 then State_Monad.return False
      else do {
        m \<leftarrow> (if master_cfm_session i \<noteq> 0 then elps_unbind_cfm (master_cfm_session i) else State_Monad.return 1);
        (if m = 0 then State_Monad.return False
         else do {
           elps_upd_info p (\<lambda>i. i\<lparr>master_cfm_session := 0\<rparr>);
           b \<leftarrow> (if backup_cfm_session i \<noteq> 0 then elps_unbind_cfm (backup_cfm_session i) else State_Monad.return 1);
           (if b = 0 then State_Monad.return False
            else do {
              elps_upd_info p (\<lambda>i. i\<lparr>backup_cfm_session := 0, master_port := 0, backup_port := 0,
                data_vlan_map := the (elps_vlan_map_unset (data_vlan_map i) 1 4094)\<rparr>);
              State_Monad.return True
            })
         })
      })
   })"

section \<open>Vlans of a session\<close>

text \<open>The two ends of a range in order; the second may be missing.\<close>

definition vlan_ends :: "int \<Rightarrow> int option \<Rightarrow> u16 \<times> u16" where
  "vlan_ends a b =
     (case b of
        None \<Rightarrow> (of_int a, of_int a)
      | Some v \<Rightarrow> if v < uint (of_int a :: u16) then (of_int v, of_int a) else (of_int a, of_int v))"

definition share_port :: "elps_info \<Rightarrow> elps_info \<Rightarrow> bool" where
  "share_port i j \<longleftrightarrow> master_port i = master_port j \<or> master_port i = backup_port j \<or>
     backup_port i = master_port j \<or> backup_port i = backup_port j"

text \<open>
  Another session on one of the ports may not protect a vlan of the range, nor be without vlans,
  which means all of them.
\<close>

definition vlan_conflict :: "elps_info \<Rightarrow> elps_info \<Rightarrow> u16 \<Rightarrow> u16 \<Rightarrow> bool" where
  "vlan_conflict i j vlan_start vlan_end \<longleftrightarrow>
     sess_id i \<noteq> sess_id j \<and> share_port i j \<and>
     (the (elps_vlan_map_isset (data_vlan_map j) vlan_start vlan_end) \<noteq> 0 \<or>
      the (elps_vlan_map_isset (data_vlan_map j) 1 4094) = 0)"

text \<open>The range is stored in every round, so also when a later session turns out to be in conflict.\<close>

fun data_vlan_loop :: "nat \<Rightarrow> u16 \<Rightarrow> u16 \<Rightarrow> nat list \<Rightarrow> bool elps" where
  "data_vlan_loop p a b [] = State_Monad.return True"
| "data_vlan_loop p a b (q # qs) = do {
     i \<leftarrow> elps_info_of p;
     j \<leftarrow> elps_info_of q;
     (if vlan_conflict i j a b then State_Monad.return False
      else do {
        elps_upd_info p (\<lambda>i. i\<lparr>data_vlan_map := the (elps_vlan_map_set (data_vlan_map i) a b)\<rparr>);
        elps_upd_info p (\<lambda>i. i\<lparr>data_vlan_set_flag := 1\<rparr>);
        data_vlan_loop p a b qs
      })
   }"

definition elps_data_vlan :: "int \<Rightarrow> int option \<Rightarrow> nat \<Rightarrow> bool elps" where
  "elps_data_vlan x y p = if_disabled p (do {
     i \<leftarrow> elps_info_of p;
     (case vlan_ends x y of (a, b) \<Rightarrow>
        if a < 1 \<or> a > 4094 \<or> b < 1 \<or> b > 4094 then State_Monad.return False
        else if master_port i = 0 \<or> backup_port i = 0 then State_Monad.return False
        else do { qs \<leftarrow> elps_sessions; data_vlan_loop p a b qs })
   })"

definition no_elps_data_vlan :: "int \<Rightarrow> int option \<Rightarrow> nat \<Rightarrow> bool elps" where
  "no_elps_data_vlan x y p = if_disabled p (do {
     i \<leftarrow> elps_info_of p;
     (case vlan_ends x y of (a, b) \<Rightarrow>
        if the (elps_vlan_map_isset (data_vlan_map i) a b) = 0 then State_Monad.return False
        else do {
          elps_upd_info p (\<lambda>i. i\<lparr>data_vlan_map := the (elps_vlan_map_unset (data_vlan_map i) a b)\<rparr>);
          State_Monad.return True
        })
   })"

definition no_elps_data_vlan_all :: "nat \<Rightarrow> bool elps" where
  "no_elps_data_vlan_all p =
     set_option p (\<lambda>i. i\<lparr>data_vlan_map := the (elps_vlan_map_unset (data_vlan_map i) 1 4094)\<rparr>)"

definition elps_primary_vlan :: "int \<Rightarrow> nat \<Rightarrow> bool elps" where
  "elps_primary_vlan n p = if_disabled p (do {
     i \<leftarrow> elps_info_of p;
     (if (of_int n :: u16) < 1 \<or> (of_int n :: u16) > 4094 then State_Monad.return False
      else if pvlan i \<noteq> 0 then State_Monad.return False
      else do { elps_upd_info p (\<lambda>i. i\<lparr>pvlan := of_int n\<rparr>); State_Monad.return True })
   })"

definition no_elps_primary_vlan :: "nat \<Rightarrow> bool elps" where
  "no_elps_primary_vlan p = if_disabled p (do {
     i \<leftarrow> elps_info_of p;
     (if pvlan i \<noteq> 0 then do { elps_upd_info p (\<lambda>i. i\<lparr>pvlan := 0\<rparr>); State_Monad.return True }
      else State_Monad.return False)
   })"

section \<open>Options\<close>

definition elps_keep_alive :: "int \<Rightarrow> nat \<Rightarrow> bool elps" where
  "elps_keep_alive n p = if_disabled p
     (if (of_int n :: u16) < 1 \<or> (of_int n :: u16) > 600 then State_Monad.return False
      else do { elps_upd_info p (\<lambda>i. i\<lparr>keepalive := of_int n\<rparr>); State_Monad.return True })"

definition no_elps_keep_alive :: "nat \<Rightarrow> bool elps" where
  "no_elps_keep_alive p = set_option p (\<lambda>i. i\<lparr>keepalive := 5\<rparr>)"

definition elps_hold_off :: "int \<Rightarrow> nat \<Rightarrow> bool elps" where
  "elps_hold_off n p = set_option p (\<lambda>i. i\<lparr>holdoff := of_int n\<rparr>)"

definition no_elps_hold_off :: "nat \<Rightarrow> bool elps" where
  "no_elps_hold_off p = set_option p (\<lambda>i. i\<lparr>holdoff := 0\<rparr>)"

definition elps_backup_create :: "nat \<Rightarrow> bool elps" where
  "elps_backup_create p = set_option p (\<lambda>i. i\<lparr>failback := FAILBACK_DISABLE, wtr := 0\<rparr>)"

definition elps_backup_failback :: "int option \<Rightarrow> nat \<Rightarrow> bool elps" where
  "elps_backup_failback n p =
     set_option p (\<lambda>i. i\<lparr>failback := FAILBACK_ENABLE, wtr := (case n of Some v \<Rightarrow> of_int v | None \<Rightarrow> 5)\<rparr>)"

definition no_elps_backup_create :: "nat \<Rightarrow> bool elps" where
  "no_elps_backup_create p = set_option p (\<lambda>i. i\<lparr>failback := FAILBACK_ENABLE, wtr := 5\<rparr>)"

definition elps_priority :: "int \<Rightarrow> nat \<Rightarrow> bool elps" where
  "elps_priority n p = set_option p (\<lambda>i. i\<lparr>priority := of_int n\<rparr>)"

definition no_elps_priority :: "nat \<Rightarrow> bool elps" where
  "no_elps_priority p = set_option p (\<lambda>i. i\<lparr>priority := 6\<rparr>)"

text \<open>Which of the two CFM sessions a binding command is about.\<close>

datatype elps_side = Master | Backup

fun side_cfm :: "elps_side \<Rightarrow> elps_info \<Rightarrow> u16" where
  "side_cfm Master i = master_cfm_session i"
| "side_cfm Backup i = backup_cfm_session i"

fun set_side_cfm :: "elps_side \<Rightarrow> u16 \<Rightarrow> elps_info \<Rightarrow> elps_info" where
  "set_side_cfm Master c i = i\<lparr>master_cfm_session := c\<rparr>"
| "set_side_cfm Backup c i = i\<lparr>backup_cfm_session := c\<rparr>"

fun protected_port :: "elps_side \<Rightarrow> elps_info \<Rightarrow> u32" where
  "protected_port Master i = master_port i"
| "protected_port Backup i = backup_port i"

definition elps_bind_cfm_session :: "int \<Rightarrow> elps_side \<Rightarrow> nat \<Rightarrow> bool elps" where
  "elps_bind_cfm_session n sd p = if_disabled p (do {
     i \<leftarrow> elps_info_of p;
     (if side_cfm sd i \<noteq> 0 then State_Monad.return False
      else do {
        c \<leftarrow> elps_find_cfm (protected_port sd i) (of_int n);
        (if c = 0 then State_Monad.return False
         else do {
           elps_upd_info p (set_side_cfm sd (of_int n));
           b \<leftarrow> elps_bind_cfm (of_int n);
           (if b = 0 then do { elps_upd_info p (set_side_cfm sd 0); State_Monad.return False }
            else State_Monad.return True)
         })
      })
   })"

definition no_elps_bind_cfm_session :: "int \<Rightarrow> elps_side \<Rightarrow> nat \<Rightarrow> bool elps" where
  "no_elps_bind_cfm_session n sd p = if_disabled p (do {
     i \<leftarrow> elps_info_of p;
     (if side_cfm sd i \<noteq> of_int n then State_Monad.return False
      else do {
        elps_upd_info p (set_side_cfm sd 0);
        b \<leftarrow> elps_unbind_cfm (of_int n);
        (if b = 0 then do { elps_upd_info p (set_side_cfm sd (of_int n)); State_Monad.return False }
         else State_Monad.return True)
      })
   })"

section \<open>Commands that drive a session\<close>

text \<open>Without vlans a session protects its ports alone.\<close>

fun port_taken :: "nat \<Rightarrow> nat list \<Rightarrow> bool elps" where
  "port_taken p [] = State_Monad.return False"
| "port_taken p (q # qs) = do {
     i \<leftarrow> elps_info_of p;
     j \<leftarrow> elps_info_of q;
     (if sess_id i \<noteq> sess_id j \<and> share_port i j then State_Monad.return True else port_taken p qs)
   }"

definition elps_cmd_enable :: "elps_env \<Rightarrow> nat \<Rightarrow> bool elps" where
  "elps_cmd_enable E p = if_disabled p (do {
     i \<leftarrow> elps_info_of p;
     (if master_port i = 0 \<or> backup_port i = 0 then State_Monad.return False
      else if pvlan i = 0 then State_Monad.return False
      else do {
        qs \<leftarrow> elps_sessions;
        t \<leftarrow> (if the (elps_vlan_map_isset (data_vlan_map i) 1 4094) = 0 then port_taken p qs else State_Monad.return False);
        (if t then State_Monad.return False
         else do {
           ret \<leftarrow> elps_sess_enable E p;
           (if ret \<noteq> ERRNO_SUCCESS then State_Monad.return False
            else do {
              _ \<leftarrow> elps_init_session E p;
              elps_upd_global (\<lambda>g. g\<lparr>sess_enable := sess_enable g + 1\<rparr>);
              State_Monad.return True
            })
         })
      })
   })"

definition elps_cmd_disable :: "elps_env \<Rightarrow> nat \<Rightarrow> bool elps" where
  "elps_cmd_disable E p = do {
     i \<leftarrow> elps_info_of p;
     (if status i = APS_STATUS_DISABLE then State_Monad.return False
      else do {
        ret \<leftarrow> elps_sess_disable E p;
        (if ret \<noteq> ERRNO_SUCCESS then State_Monad.return False
         else do {
           _ \<leftarrow> elps_clear_timer p;
           elps_upd_global (\<lambda>g. g\<lparr>sess_enable := sess_enable g - 1\<rparr>);
           State_Monad.return True
         })
      })
   }"

definition elps_debug_packet :: "bool \<Rightarrow> bool elps" where
  "elps_debug_packet on = do {
     s \<leftarrow> State_Monad.get;
     (if sess_enable (gelps s) = 0 then State_Monad.return False
      else do {
        elps_upd_global (\<lambda>g. g\<lparr>debug_packet := (if on then 1 else 0)\<rparr>);
        State_Monad.return True
      })
   }"

text \<open>The six commands \<open>[no] elps force-switch\<close>, \<open>manual-switch\<close> and \<open>lockout\<close>.\<close>

definition elps_admin :: "(elps_env \<Rightarrow> nat \<Rightarrow> bool \<Rightarrow> int elps) \<Rightarrow> elps_env \<Rightarrow> bool \<Rightarrow> nat \<Rightarrow> bool elps" where
  "elps_admin switch E is_creat p = do {
     i \<leftarrow> elps_info_of p;
     (if status i = APS_STATUS_DISABLE then State_Monad.return False
      else do {
        ret \<leftarrow> switch E p is_creat;
        State_Monad.return (ret = ERRNO_SUCCESS)
      })
   }"

definition elps_admin_force :: "elps_env \<Rightarrow> bool \<Rightarrow> nat \<Rightarrow> bool elps" where
  "elps_admin_force = elps_admin elps_sess_forceswitch"

definition elps_admin_manual :: "elps_env \<Rightarrow> bool \<Rightarrow> nat \<Rightarrow> bool elps" where
  "elps_admin_manual = elps_admin elps_sess_manualswitch"

definition elps_admin_lockout :: "elps_env \<Rightarrow> bool \<Rightarrow> nat \<Rightarrow> bool elps" where
  "elps_admin_lockout = elps_admin elps_sess_lock"

end
