(* ===== verification/ElpsLogic.thy ===== *)
theory ElpsLogic
  imports ElpsCmd "HOL-Library.Sublist"
begin

text \<open>
  Reasoning about the linear protection code: rules for the primitive effects; locale
  \<open>elps_quiet\<close> for relations that sending and timers respect, \<open>elps_frame\<close> for relations that
  every primitive effect on a session respects, and hence every operation; and what the
  relations in use say: sending changes no decision, no operation changes the configuration, a
  tick ends.
\<close>

section \<open>Rules for the primitives\<close>

lemma wp_elps_at [wp_simps]: "wp (elps_at p) Q s = Q (heap s p) s"
  by (simp add: elps_at_def wp_simps)

lemma wp_elps_info_of [wp_simps]: "wp (elps_info_of p) Q s = Q (info (heap s p)) s"
  by (simp add: elps_info_of_def wp_simps)

lemma wp_elps_upd [wp_simps]: "wp (elps_upd p f) Q s = Q () (s\<lparr>heap := (heap s)(p := f (heap s p))\<rparr>)"
  by (simp add: elps_upd_def wp_simps)

lemma wp_elps_upd_info [wp_simps]:
  "wp (elps_upd_info p f) Q s = Q () (s\<lparr>heap := (heap s)(p := (heap s p)\<lparr>info := f (info (heap s p))\<rparr>)\<rparr>)"
  by (simp add: elps_upd_info_def wp_simps)

lemmas wp_elps_setters [wp_simps] =
  elps_set_status_def [THEN arg_cong [where f = "\<lambda>m. wp m Q s" for Q s], unfolded wp_elps_upd_info]
  elps_set_event_def [THEN arg_cong [where f = "\<lambda>m. wp m Q s" for Q s], unfolded wp_elps_upd_info]
  elps_set_active_def [THEN arg_cong [where f = "\<lambda>m. wp m Q s" for Q s], unfolded wp_elps_upd_info]
  elps_set_action_def [THEN arg_cong [where f = "\<lambda>m. wp m Q s" for Q s], unfolded wp_elps_upd_info]
  elps_set_dfop_def [THEN arg_cong [where f = "\<lambda>m. wp m Q s" for Q s], unfolded wp_elps_upd_info]
  elps_set_aps_def [THEN arg_cong [where f = "\<lambda>m. wp m Q s" for Q s], unfolded wp_elps_upd_info]

text \<open>The message sent, and the log extended by it.\<close>

definition elps_msg_at :: "elps_env \<Rightarrow> nat \<Rightarrow> elps_subtype \<Rightarrow> ipc_opcode \<Rightarrow> elps_state \<Rightarrow> elps_hal_msg" where
  "elps_msg_at E p subtype opc s =
     \<lparr>msg_subtype = subtype, msg_opcode = opc, msg_index = sess_id (info (heap s p)), payload = heap s p,
      answer = hal_answer (sync_answer E (length (hal_log s)))\<rparr>"

lemma wp_elps_send_hal [wp_simps]:
  "wp (elps_send_hal E p subtype opc) Q s =
   Q (hal_answer (sync_answer E (length (hal_log s)))) (s\<lparr>hal_log := hal_log s @ [elps_msg_at E p subtype opc s]\<rparr>)"
  by (simp add: elps_send_hal_def wp_def Let_def elps_msg_at_def)

lemma wp_elps_upd_global [wp_simps]: "wp (elps_upd_global f) Q s = Q () (s\<lparr>gelps := f (gelps s)\<rparr>)"
  by (simp add: elps_upd_global_def wp_simps)

lemma wp_elps_report [wp_simps]: "wp (elps_report a) Q s = Q () (s\<lparr>alarm_log := alarm_log s @ [a]\<rparr>)"
  by (simp add: elps_report_def wp_simps)

lemma wp_elps_lookups [wp_simps]: "wp (elps_l2if_lookup i) Q s = Q (l2ifs s i) s"
  "wp (elps_cfm_lookup c) Q' s = Q' (cfm_sess_table s c) s" "wp (elps_cfm_at a) P s = P (cfm_heap s a) s"
  "wp elps_sessions P' s = P' (map data (hash_bucket_loop (elps_session_table s))) s"
  by (simp_all add: elps_l2if_lookup_def elps_cfm_lookup_def elps_cfm_at_def elps_sessions_def wp_simps)

text \<open>What the question about a path sees.\<close>

definition path_view :: "elps_state \<Rightarrow> u32 \<Rightarrow> u16 \<Rightarrow> bool option" where
  "path_view s port cfm =
     map_option (\<lambda>n. if_down n \<or> cfm \<noteq> 0 \<and> cfm_sess_table s cfm \<noteq> 0 \<and>
       cfm_ifindex (cfm_heap s (cfm_sess_table s cfm)) = port \<and> cfm_down (cfm_heap s (cfm_sess_table s cfm)))
     (l2ifs s port)"

lemma wp_path_failed [wp_simps]: "wp (path_failed port cfm) Q s = Q (path_view s port cfm) s"
  by (cases "l2ifs s port")
    (simp_all add: path_failed_def elps_find_cfm_def wp_simps path_view_def)

section \<open>Frame rules\<close>

text \<open>A preorder on states that sending frames and handling the timers of the session \<open>p\<close> respects.\<close>

locale elps_quiet =
  fixes E :: elps_env and R :: "elps_state \<Rightarrow> elps_state \<Rightarrow> bool" and p :: nat
  assumes R_preorder: "preorder_rel R"
    and R_timer_field: "\<And>t. keeps R (elps_upd p (pkeepalive_timer_update (\<lambda>_. t)))"
      "\<And>t. keeps R (elps_upd p (pwtr_timer_update (\<lambda>_. t)))"
      "\<And>t. keeps R (elps_upd p (dfop_timer_update (\<lambda>_. t)))"
    and R_pkt: "\<And>i m v c k. keeps R (elps_pkt_send E i m v c k)"
    and R_global: "\<And>f. keeps R (elps_upd_global f)"
    and R_timer_add: "\<And>l cb ms. keeps R (elps_timer_add E l cb ms)"
    and R_timer_delete: "\<And>i. keeps R (elps_timer_delete i)"
begin

lemmas quiet_prims = R_timer_field R_pkt R_global R_timer_add R_timer_delete

lemmas quiet_intros = keeps_return [OF R_preorder] keeps_bind [OF R_preorder] keeps_if
  keeps_when_m [OF R_preorder] keeps_gets [OF R_preorder] keeps_get [OF R_preorder] keeps_let
  keeps_case_option keeps_case_prod

lemma quiet_reads: "keeps R (elps_at q)" "keeps R (elps_info_of q)" "keeps R (elps_l2if_lookup n)"
  "keeps R (elps_cfm_lookup c)" "keeps R (elps_cfm_at q)" "keeps R elps_sessions"
  by (simp_all add: elps_at_def elps_info_of_def elps_l2if_lookup_def elps_cfm_lookup_def elps_cfm_at_def
      elps_sessions_def keeps_gets R_preorder)

lemma quiet_stops: "keeps R (elps_stop_timer pkeepalive_timer pkeepalive_timer_update p)"
  "keeps R (elps_stop_timer pwtr_timer pwtr_timer_update p)"
  "keeps R (elps_stop_timer dfop_timer dfop_timer_update p)"
  unfolding elps_stop_timer_def by (intro quiet_intros quiet_reads quiet_prims)+

lemma quiet_named_stops: "keeps R (elps_stop_wtr_timer p)" "keeps R (elps_stop_msg_timer p)" "keeps R (elps_stop_dfop_timer p)"
  unfolding elps_stop_wtr_timer_def elps_stop_msg_timer_def elps_stop_dfop_timer_def by (rule quiet_stops)+

lemma quiet_starts: "keeps R (elps_start_wtr_timer E p)" "keeps R (elps_start_msg_timer E p)" "keeps R (elps_start_dfop_timer E p)"
  unfolding elps_start_wtr_timer_def elps_start_msg_timer_def elps_start_dfop_timer_def elps_start_timer_def
  by (intro quiet_intros quiet_reads quiet_prims quiet_stops)+

lemma quiet_sending: "keeps R (aps_send E p)"
  unfolding aps_send_def by (intro quiet_intros quiet_reads quiet_prims quiet_starts)

lemma quiet_burst: "keeps R (aps_send_burst E p)"
  unfolding aps_send_burst_def by (intro quiet_intros quiet_prims quiet_named_stops quiet_starts quiet_sending)

lemma quiet_announce: "keeps R (aps_announce E p r)"
  unfolding aps_announce_def by (intro quiet_intros quiet_burst)

lemma quiet_find: "keeps R (elps_find_cfm i c)"
  unfolding elps_find_cfm_def by (intro quiet_intros quiet_reads)

lemma quiet_paths: "keeps R (path_failed n c)" "keeps R (master_failed i)" "keeps R (backup_failed i)"
proof -
  show "keeps R (path_failed n c)" for n c
    unfolding path_failed_def by (intro quiet_intros quiet_reads quiet_find)
  then show "keeps R (master_failed i)" "keeps R (backup_failed i)"
    by (simp_all add: master_failed_def backup_failed_def)
qed

lemmas quiet_ops = quiet_intros quiet_reads quiet_prims quiet_stops quiet_named_stops quiet_starts quiet_sending
  quiet_burst quiet_announce quiet_find quiet_paths

end

text \<open>A preorder that all primitive effects on the session respect.\<close>

locale elps_frame = elps_quiet +
  assumes R_holdoff: "\<And>t. keeps R (elps_upd p (pholdoff_timer_update (\<lambda>_. t)))"
    and R_status: "\<And>st. keeps R (elps_set_status p st)"
    and R_event: "\<And>ev. keeps R (elps_set_event p ev)"
    and R_active: "\<And>b. keeps R (elps_set_active p b)"
    and R_action: "\<And>a. keeps R (elps_set_action p a)"
    and R_dfop: "\<And>a. keeps R (elps_set_dfop p a)"
    and R_aps: "\<And>st. keeps R (elps_set_aps p st)"
    and R_hal: "\<And>st opc. keeps R (elps_send_hal E p st opc)"
    and R_report: "\<And>a. keeps R (elps_report a)"
begin

lemmas frame_prims = R_holdoff R_status R_event R_active R_action R_dfop R_aps R_hal R_report

lemma reports: "keeps R (report_switch n b)" "keeps R (report_backup n b)"
  by (simp_all add: report_switch_def report_backup_def R_report)

lemma holdoff_timer: "keeps R (elps_start_holdoff_timer E p)"
  unfolding elps_start_holdoff_timer_def by (intro quiet_ops frame_prims)

lemma forwards: "keeps R (elps_forward E p a e)"
  unfolding elps_forward_def by (intro quiet_ops frame_prims reports)

lemma entering: "keeps R (enter_failed p st)"
  unfolding enter_failed_def by (intro quiet_ops frame_prims)

lemmas basics = quiet_ops frame_prims reports forwards entering holdoff_timer

lemma case_bool_option: "keeps R m \<Longrightarrow> keeps R n \<Longrightarrow> keeps R k \<Longrightarrow>
    keeps R (case b of None \<Rightarrow> m | Some True \<Rightarrow> n | Some False \<Rightarrow> k)"
  by (simp split: option.split bool.split)

lemma link_down: "keeps R (elps_link_down_handler E p)"
  unfolding elps_link_down_handler_def link_down_on_backup_def link_down_on_master_def
  by (intro case_bool_option basics)

lemma local_handlers: "keeps R (elps_local_handle_lop E p)" "keeps R (elps_local_handle_fs E p)"
  "keeps R (elps_local_handle_ms E p)" "keeps R (elps_local_handle_sf E p)" "keeps R (elps_local_handle_fsclear E p)"
  "keeps R (elps_local_handle_msclear E p)" "keeps R (elps_local_handle_lopclear E p)"
  "keeps R (elps_local_handle_rsf E p)" "keeps R (elps_local_handle_wtr_timeout E p)"
  unfolding elps_local_handle_lop_def elps_local_handle_fs_def elps_local_handle_ms_def elps_local_handle_sf_def
    elps_local_handle_fsclear_def elps_local_handle_msclear_def elps_local_handle_lopclear_def lop_release_def
    elps_local_handle_rsf_def backup_recovers_def elps_local_handle_wtr_timeout_def
  by (intro case_bool_option basics link_down)+

lemma far_handlers: "keeps R (elps_aps_change_to_nrw E p)" "keeps R (elps_aps_change_to_nrp E p)"
  "keeps R (elps_aps_handle_nr E p pkt)" "keeps R (elps_aps_handle_dnr E p)"
  unfolding elps_aps_change_to_nrw_def elps_aps_change_to_nrp_def elps_aps_handle_nr_def elps_aps_handle_dnr_def
    nr_on_master_def nr_on_backup_def nr_rest_on_master_def nr_far_on_backup_def
  by (intro case_bool_option basics)+

lemma dispatching: "keeps R (elps_dispatch E p pkt ev st)"
  unfolding elps_dispatch_def Let_def
  by (cases ev) (simp_all add: local_handlers far_handlers quiet_intros)

lemma telling: "keeps R (elps_tell_hal E p)"
  unfolding elps_tell_hal_def by (intro basics)

lemma fsm: "keeps R (elps_fsm E p pkt ev)"
  unfolding elps_fsm_def by (intro basics dispatching telling)

lemma initialization: "keeps R (elps_init_session E p)"
  unfolding elps_init_session_def by (intro case_bool_option basics fsm)

lemma requests: "keeps R (elps_request E p ev)" "keeps R (elps_sess_forceswitch E p c)"
  "keeps R (elps_sess_manualswitch E p c)" "keeps R (elps_sess_lock E p c)"
  unfolding elps_sess_forceswitch_def elps_sess_manualswitch_def elps_sess_lock_def elps_request_def
  by (intro basics fsm)+

lemma updates: "keeps R (elps_update_one E ifindex sid ev old p)"
proof -
  have "keeps R (side_event ifindex sid ev c st f a b old)" for c st f a b
    unfolding side_event_def by (cases ev) (simp_all add: basics)
  then have "keeps R (elps_update_side E ifindex sid ev c f a b old p)" for c f a b
    unfolding elps_update_side_def by (intro basics fsm)
  then show ?thesis unfolding elps_update_one_def by (intro basics)
qed

lemma receptions: "keeps R (aps_recv_one E k p)"
  unfolding aps_recv_one_def aps_count_err_def by (intro basics fsm)

lemma callback_ops: "keeps R (elps_wtr_expiry E p)" "keeps R (elps_holdoff_expiry E p)" "keeps R (elps_msg_expiry E p)"
  "keeps R (elps_dfop_expiry p)"
  unfolding elps_wtr_expiry_def elps_holdoff_expiry_def elps_msg_expiry_def elps_dfop_expiry_def
  by (intro basics fsm link_down telling)+

lemma commands: "keeps R (elps_cmd_disable E p)" "keeps R (elps_admin_force E c p)" "keeps R (elps_admin_manual E c p)"
  "keeps R (elps_admin_lockout E c p)"
proof -
  have "keeps R (elps_stop_timer pholdoff_timer pholdoff_timer_update p)"
    unfolding elps_stop_timer_def by (intro basics)
  then have "keeps R (elps_clear_timer p)" unfolding elps_clear_timer_def by (intro basics)
  then show "keeps R (elps_cmd_disable E p)"
    unfolding elps_cmd_disable_def elps_sess_disable_def by (intro basics)
  show "keeps R (elps_admin_force E c p)" "keeps R (elps_admin_manual E c p)" "keeps R (elps_admin_lockout E c p)"
    unfolding elps_admin_force_def elps_admin_manual_def elps_admin_lockout_def elps_admin_def
    by (intro basics requests)+
qed

end

text \<open>When it holds for all sessions, the operations that walk the session table respect it, too.\<close>

locale elps_frame_all =
  fixes E :: elps_env and R :: "elps_state \<Rightarrow> elps_state \<Rightarrow> bool"
  assumes each: "\<And>p. elps_frame E R p"
begin

lemma each_is_quiet: "elps_quiet E R p"
  by (rule elps_frame.axioms(1) [OF each])

lemma R_order: "preorder_rel R"
  by (rule elps_quiet.R_preorder [OF each_is_quiet])

lemmas walk_intros = elps_quiet.quiet_intros [OF each_is_quiet] elps_quiet.quiet_reads [OF each_is_quiet]
  elps_quiet.R_global [OF each_is_quiet]

lemma port_events: "keeps R (elps_state_update E ifindex sid ev)"
proof -
  have "keeps R (elps_update_loop E ifindex sid ev old ps)" for ps old
    by (induction ps arbitrary: old) (auto intro!: walk_intros elps_frame.updates [OF each])
  then show ?thesis unfolding elps_state_update_def by (intro walk_intros)
qed

lemma frames_in: "keeps R (aps_recv E pkt)"
proof -
  have "keeps R (aps_recv_loop E k ps)" for k ps
    by (induction ps) (auto intro!: walk_intros elps_frame.receptions [OF each])
  then show ?thesis unfolding aps_recv_def by (intro walk_intros)
qed

lemma timeouts: "keeps R (elps_callback E cb)"
  unfolding elps_callback_def by (cases cb) (simp_all add: elps_frame.callback_ops [OF each])

lemma start_command: "keeps R (elps_cmd_enable E p)"
proof -
  have "keeps R (port_taken p qs)" for qs
    by (induction qs) (auto intro!: walk_intros)
  then show ?thesis
    unfolding elps_cmd_enable_def if_disabled_def elps_sess_enable_def
    by (intro walk_intros elps_frame.basics [OF each] elps_frame.initialization [OF each])
qed

end

section \<open>The operations of the module\<close>

text \<open>The entry points of the rest of the process, once the sessions are configured.\<close>

datatype elps_op =
    Elps_port u32 u16 elps_port_event
  | Elps_recv "aps_rx option"
  | Elps_timer elps_cb
  | Elps_enable nat
  | Elps_disable nat
  | Elps_force bool nat
  | Elps_manual bool nat
  | Elps_lock bool nat

definition elps_exec :: "elps_env \<Rightarrow> elps_op \<Rightarrow> elps_state \<Rightarrow> elps_state" where
  "elps_exec E oper s =
     (case oper of
        Elps_port i c ev \<Rightarrow> post (elps_state_update E i c ev) s
      | Elps_recv pkt \<Rightarrow> post (aps_recv E pkt) s
      | Elps_timer cb \<Rightarrow> post (elps_callback E cb) s
      | Elps_enable p \<Rightarrow> post (elps_cmd_enable E p) s
      | Elps_disable p \<Rightarrow> post (elps_cmd_disable E p) s
      | Elps_force c p \<Rightarrow> post (elps_admin_force E c p) s
      | Elps_manual c p \<Rightarrow> post (elps_admin_manual E c p) s
      | Elps_lock c p \<Rightarrow> post (elps_admin_lockout E c p) s)"

context elps_frame_all
begin

lemma exec_respects: "R s (elps_exec E oper s)"
  unfolding elps_exec_def
  by (cases oper) (simp_all add: keepsD port_events frames_in timeouts start_command elps_frame.commands [OF each])

lemma fold_respects: "R s (fold (elps_exec E) ops s)"
proof (induction ops arbitrary: s)
  case Nil
  then show ?case using R_order by (simp add: preorder_rel_def)
next
  case (Cons oper ops)
  then show ?case using R_order exec_respects unfolding preorder_rel_def by (metis fold_simps(2))
qed

end

lemmas elps_prim_defs = elps_upd_def elps_upd_info_def elps_pkt_send_def elps_upd_global_def elps_timer_add_def
  elps_timer_delete_def elps_set_status_def elps_set_event_def elps_set_active_def elps_set_action_def
  elps_set_dfop_def elps_set_aps_def elps_send_hal_def elps_report_def keeps_def post_def Let_def

section \<open>What sending leaves alone\<close>

definition elps_same :: "elps_state \<Rightarrow> elps_state \<Rightarrow> bool" where
  "elps_same s t \<longleftrightarrow>
     (\<forall>q. info (heap t q) = info (heap s q) \<and> pholdoff_timer (heap t q) = pholdoff_timer (heap s q)) \<and>
     hal_log t = hal_log s \<and> alarm_log t = alarm_log s \<and> elps_session_table t = elps_session_table s \<and>
     l2ifs t = l2ifs s \<and> cfm_heap t = cfm_heap s \<and> cfm_sess_table t = cfm_sess_table s"

interpretation hush: elps_quiet E elps_same p for E p
proof
  show "preorder_rel elps_same" by (simp add: preorder_rel_def elps_same_def)
qed (auto simp: elps_prim_defs elps_same_def split: prod.split)

lemma elps_same_post:
  assumes "keeps elps_same m"
  shows "info (heap (post m s) q) = info (heap s q)" "pholdoff_timer (heap (post m s) q) = pholdoff_timer (heap s q)"
    "hal_log (post m s) = hal_log s" "alarm_log (post m s) = alarm_log s"
    "elps_session_table (post m s) = elps_session_table s" "l2ifs (post m s) = l2ifs s"
    "cfm_heap (post m s) = cfm_heap s" "cfm_sess_table (post m s) = cfm_sess_table s"
  using keepsD [OF assms, of s] by (simp_all add: elps_same_def)

text \<open>Timers alone do not send, either.\<close>

definition no_frames :: "elps_state \<Rightarrow> elps_state \<Rightarrow> bool" where
  "no_frames s t \<longleftrightarrow> elps_same s t \<and> pkt_log t = pkt_log s"

lemma no_frames_order: "preorder_rel no_frames"
  by (auto simp: preorder_rel_def no_frames_def elps_same_def)

lemma no_frames_prims:
  "keeps no_frames (elps_upd p (pkeepalive_timer_update (\<lambda>_. t)))" "keeps no_frames (elps_upd p (pwtr_timer_update (\<lambda>_. t)))"
  "keeps no_frames (elps_upd p (dfop_timer_update (\<lambda>_. t)))" "keeps no_frames (elps_timer_add E l cb ms)"
  "keeps no_frames (elps_timer_delete i)" "keeps no_frames (elps_upd_global f)"
  by (auto simp: elps_prim_defs elps_same_def no_frames_def split: prod.split)

lemmas no_frames_intros = keeps_return [OF no_frames_order] keeps_bind [OF no_frames_order] keeps_if
  keeps_when_m [OF no_frames_order] keeps_gets [OF no_frames_order] no_frames_prims

lemma no_frames_stops: "keeps no_frames (elps_stop_wtr_timer p)" "keeps no_frames (elps_stop_msg_timer p)"
  "keeps no_frames (elps_stop_dfop_timer p)"
  unfolding elps_stop_wtr_timer_def elps_stop_msg_timer_def elps_stop_dfop_timer_def elps_stop_timer_def elps_at_def
  by (intro no_frames_intros)+

lemma no_frames_starts: "keeps no_frames (elps_start_wtr_timer E p)" "keeps no_frames (elps_start_msg_timer E p)"
  "keeps no_frames (elps_start_dfop_timer E p)"
  unfolding elps_start_wtr_timer_def elps_start_msg_timer_def elps_start_dfop_timer_def elps_start_timer_def
    elps_stop_timer_def elps_at_def elps_info_of_def
  by (intro no_frames_intros)+

lemma no_frames_post:
  assumes "keeps no_frames m"
  shows "pkt_log (post m s) = pkt_log s" "info (heap (post m s) q) = info (heap s q)"
  using keepsD [OF assms, of s] by (simp_all add: no_frames_def elps_same_def)

text \<open>The frame sent as the n-th of the log, and those of a burst.\<close>

definition aps_sent_at :: "elps_env \<Rightarrow> elps_info \<Rightarrow> nat \<Rightarrow> aps_sent" where
  "aps_sent_at E i n = \<lparr>out_ifindex = aps_port i, dmac = aps_mac, svlan = pvlan i, cos = priority i,
     pdu = aps_frame i, send_result = pkt_code (pkt_answer E n)\<rparr>"

lemma wp_aps_unit: "wp m Q s = Q () (post m s)" for m :: "unit elps"
  by (simp add: wp_post)

lemma send_one:
  assumes "p \<noteq> 0"
  shows "pkt_log (post (aps_send E p) s) = pkt_log s @ [aps_sent_at E (info (heap s p)) (length (pkt_log s))]"
proof -
  let ?s = "s\<lparr>gelps := (gelps s)\<lparr>pkt_send_cnt := pkt_send_cnt (gelps s) + 1\<rparr>\<rparr>"
  have "wp (aps_send E p) (\<lambda>_ t. pkt_log t = pkt_log s @ [aps_sent_at E (info (heap s p)) (length (pkt_log s))]) s"
    using assms no_frames_post(1) [OF no_frames_starts(3), of E p ?s]
    by (simp add: aps_send_def wp_simps wp_aps_unit [of "elps_start_dfop_timer E p"] elps_pkt_send_def wp_def [of "State f" for f] Let_def aps_sent_at_def)
  then show ?thesis by (simp add: wp_post)
qed

lemma post_bind: "post (State_Monad.bind m f) s = post (f (fst (run_state m s))) (post m s)"
  by (simp add: post_def split_def)

lemma burst_frames:
  assumes "p \<noteq> 0"
  shows "pkt_log (post (aps_send_burst E p) s) = pkt_log s @ map (aps_sent_at E (info (heap s p))) [length (pkt_log s)..<length (pkt_log s) + 3]"
proof -
  have up: "[n..<n + 3] = [n, n + 1, n + 2]" for n :: nat by (simp add: upt_rec)
  show ?thesis
    using assms
    by (simp add: aps_send_burst_def post_bind send_one elps_same_post(1) [OF hush.quiet_sending]
        no_frames_post [OF no_frames_stops(2)] no_frames_post(1) [OF no_frames_starts(2)]
        no_frames_post(1) [OF no_frames_prims(1)] post_def [of "State_Monad.return x" for x] up)
qed

lemma aps_burst_result: "fst (run_state (aps_send_burst E p) s) = (if p = 0 then ERRNO_FAIL else ERRNO_SUCCESS)"
  by (simp add: aps_send_burst_def split_def)

lemma wp_aps_burst [wp_simps]:
  "wp (aps_send_burst E p) Q s = Q (if p = 0 then ERRNO_FAIL else ERRNO_SUCCESS) (post (aps_send_burst E p) s)"
  by (simp only: wp_post aps_burst_result)

lemmas wp_aps_silent [wp_simps] =
  wp_aps_unit [of "elps_stop_wtr_timer p" for p] wp_aps_unit [of "elps_start_wtr_timer E p" for E p]
  wp_aps_unit [of "elps_stop_dfop_timer p" for p]

lemmas aps_silent_simps [simp] =
  elps_same_post [OF hush.quiet_burst] elps_same_post [OF hush.quiet_named_stops(1)]
  elps_same_post [OF hush.quiet_named_stops(3)] elps_same_post [OF hush.quiet_starts(1)]
  no_frames_post(1) [OF no_frames_stops(1)] no_frames_post(1) [OF no_frames_stops(3)] no_frames_post(1) [OF no_frames_starts(1)]

end
