(* ===== verification/ElpsSpec.thy ===== *)
theory ElpsSpec
  imports ElpsLogic
begin

text \<open>
  An abstract account of the linear protection and its refinement.  The abstract state of a
  session is its protection state and the path in use; \<open>aps_table\<close> says what an event does to
  it, given which paths have failed.  The state machine, with a hardware layer that
  acknowledges, does what the table says, tells the far end in three frames, and leaves the
  hardware on the path the session names.
\<close>

section \<open>The table\<close>

datatype path = On_master | On_backup

type_synonym aps_view = "elps_status \<times> path"

record aps_conditions =
  master_bad :: "bool option"
  backup_bad :: "bool option"
  reverts :: bool
  holding :: bool
  defers :: bool

text \<open>A failure is looked for on the backup path first; a stronger state does not look at the master.\<close>

definition on_failure :: "aps_conditions \<Rightarrow> elps_status \<Rightarrow> aps_view option" where
  "on_failure c st =
     (case backup_bad c of
        None \<Rightarrow> None
      | Some True \<Rightarrow> Some (ELPS_SIGNAL_FAIL_FOR_PROTECTION, On_master)
      | Some False \<Rightarrow>
          if st \<le> ELPS_SIGNAL_FAIL_FOR_WORKING \<and> master_bad c = Some True
          then Some (ELPS_SIGNAL_FAIL_FOR_WORKING, On_backup) else None)"

text \<open>A request of the far end: use that path, unless this end has no request and is there.\<close>

definition on_request :: "path \<Rightarrow> aps_view \<Rightarrow> aps_view option" where
  "on_request pt v = (if v = (ELPS_NO_REQUEST, pt) then None else Some (ELPS_NO_REQUEST, pt))"

text \<open>What follows the end of a lockout, and the far end's words that it has no request.\<close>

definition on_release :: "aps_conditions \<Rightarrow> aps_view option" where
  "on_release c =
     (if holding c then Some (ELPS_NO_REQUEST, On_master)
      else case backup_bad c of
        None \<Rightarrow> None
      | Some True \<Rightarrow> Some (ELPS_SIGNAL_FAIL_FOR_PROTECTION, On_master)
      | Some False \<Rightarrow>
          (case master_bad c of
             None \<Rightarrow> None
           | Some True \<Rightarrow> Some (ELPS_SIGNAL_FAIL_FOR_WORKING, On_backup)
           | Some False \<Rightarrow> Some (ELPS_NO_REQUEST, On_master)))"

definition leave_backup :: "aps_conditions \<Rightarrow> aps_view \<Rightarrow> aps_view option" where
  "leave_backup c v =
     (if holding c then Some v
      else case master_bad c of
        None \<Rightarrow> None
      | Some True \<Rightarrow> Some (ELPS_SIGNAL_FAIL_FOR_WORKING, On_backup)
      | Some False \<Rightarrow> Some v)"

definition on_no_request :: "aps_conditions \<Rightarrow> u8 \<times> u8 \<Rightarrow> path \<Rightarrow> aps_view option" where
  "on_no_request c signals pt =
     (if signals = (0, 0) then
        (case pt of
           On_master \<Rightarrow> if holding c \<or> on_release c = Some (ELPS_NO_REQUEST, On_master) then None else on_release c
         | On_backup \<Rightarrow> leave_backup c (ELPS_NO_REQUEST, On_master))
      else if signals = (1, 1) then
        (case pt of
           On_master \<Rightarrow> None
         | On_backup \<Rightarrow> Some (if reverts c then (ELPS_NO_REQUEST, On_master) else (ELPS_DO_NOT_REVERT, On_backup)))
      else Some (ELPS_NO_REQUEST, pt))"

text \<open>Back to the master path if the session reverts.\<close>

definition reverted :: "aps_conditions \<Rightarrow> aps_view" where
  "reverted c = (if reverts c then (ELPS_NO_REQUEST, On_master) else (ELPS_DO_NOT_REVERT, On_backup))"

fun aps_table :: "aps_conditions \<Rightarrow> (u8 \<times> u8) option \<Rightarrow> elps_event \<Rightarrow> aps_view \<Rightarrow> aps_view option" where
  "aps_table c sg APS_ELPS_NR (st, pt) =
     (case sg of None \<Rightarrow> None | Some x \<Rightarrow> if st = ELPS_NO_REQUEST then on_no_request c x pt else None)"
| "aps_table c sg APS_ELPS_DNR (st, pt) =
     (if st < ELPS_DO_NOT_REVERT then
        if reverts c then on_request On_backup (st, pt) else Some (ELPS_DO_NOT_REVERT, On_backup)
      else None)"
| "aps_table c sg APS_ELPS_WTR (st, pt) =
     (if st < ELPS_WAIT_TO_RESTORE then on_request On_backup (st, pt) else None)"
| "aps_table c sg APS_ELPS_MS (st, pt) =
     (if st < ELPS_MANUAL_SWITCH then on_request On_backup (st, pt) else None)"
| "aps_table c sg APS_ELPS_SF_W (st, pt) =
     (if st < ELPS_SIGNAL_FAIL_FOR_WORKING then on_request On_backup (st, pt) else None)"
| "aps_table c sg APS_ELPS_FS (st, pt) =
     (if st < ELPS_FORCED_SWITCH then on_request On_backup (st, pt) else None)"
| "aps_table c sg APS_ELPS_SF_P (st, pt) =
     (if st < ELPS_SIGNAL_FAIL_FOR_PROTECTION then on_request On_master (st, pt) else None)"
| "aps_table c sg APS_ELPS_LO (st, pt) =
     (if st < ELPS_LOCKOUT_OF_PROTECTION then on_request On_master (st, pt) else None)"
| "aps_table c sg (APS_UNASSIGNED n) v = None"
| "aps_table c sg LOCAL_ELPS_LOP (st, pt) =
     (if st < ELPS_LOCKOUT_OF_PROTECTION then Some (ELPS_LOCKOUT_OF_PROTECTION, On_master) else None)"
| "aps_table c sg LOCAL_ELPS_FS (st, pt) =
     (if st < ELPS_FORCED_SWITCH then Some (ELPS_FORCED_SWITCH, On_backup) else None)"
| "aps_table c sg LOCAL_ELPS_MS (st, pt) =
     (if st < ELPS_MANUAL_SWITCH then Some (ELPS_MANUAL_SWITCH, On_backup) else None)"
| "aps_table c sg LOCAL_ELPS_SF_W (st, pt) =
     (if st < ELPS_SIGNAL_FAIL_FOR_WORKING \<and> \<not> defers c then on_failure c st else None)"
| "aps_table c sg LOCAL_ELPS_SF_P (st, pt) =
     (if st < ELPS_SIGNAL_FAIL_FOR_PROTECTION \<and> \<not> defers c then on_failure c st else None)"
| "aps_table c sg LOCAL_ELPS_W_RECOVERS_FROM_SF (st, pt) =
     (if st = ELPS_SIGNAL_FAIL_FOR_WORKING
      then Some (if reverts c then ELPS_WAIT_TO_RESTORE else ELPS_DO_NOT_REVERT, On_backup) else None)"
| "aps_table c sg LOCAL_ELPS_P_RECOVERS_FROM_SF (st, pt) =
     (if st = ELPS_SIGNAL_FAIL_FOR_PROTECTION then leave_backup (c\<lparr>holding := False\<rparr>) (ELPS_NO_REQUEST, On_master) else None)"
| "aps_table c sg LOCAL_ELPS_CLEAR (st, pt) =
     (if st = ELPS_FORCED_SWITCH then leave_backup c (reverted c)
      else if st = ELPS_MANUAL_SWITCH then Some (reverted c)
      else if st = ELPS_LOCKOUT_OF_PROTECTION then on_release c
      else None)"
| "aps_table c sg LOCAL_ELPS_WTR_EXPIRES (st, pt) =
     (if st = ELPS_WAIT_TO_RESTORE then Some (ELPS_NO_REQUEST, On_master) else None)"

text \<open>The path that each state other than \<open>ELPS_NO_REQUEST\<close> uses.\<close>

fun state_path :: "elps_status \<Rightarrow> path option" where
  "state_path ELPS_NO_REQUEST = None"
| "state_path ELPS_SIGNAL_FAIL_FOR_PROTECTION = Some On_master"
| "state_path ELPS_LOCKOUT_OF_PROTECTION = Some On_master"
| "state_path _ = Some On_backup"

definition consistent :: "aps_view \<Rightarrow> bool" where
  "consistent v \<longleftrightarrow> state_path (fst v) = None \<or> state_path (fst v) = Some (snd v)"

lemmas table_defs = on_failure_def on_request_def on_release_def leave_backup_def on_no_request_def reverted_def

lemma table_consistent:
  assumes "aps_table c sg ev v = Some w"
  shows "consistent w"
  using assms
  by (cases "(c, sg, ev, v)" rule: aps_table.cases)
    (auto simp: table_defs consistent_def split: if_splits option.splits bool.splits path.splits)

lemma status_less_simps [simp]: "a < b \<longleftrightarrow> status_num a < status_num b" "a \<le> b \<longleftrightarrow> status_num a \<le> status_num b" for a b :: elps_status
  by (simp_all add: less_elps_status_def less_eq_elps_status_def)

lemma status_num_eq [simp]: "status_num a = status_num b \<longleftrightarrow> a = b"
  by (cases a; cases b) simp_all

section \<open>What a session looks like\<close>

definition aps_path :: "elps_info \<Rightarrow> path" where
  "aps_path i = (if active_port i = backup_port i then On_backup else On_master)"

definition aps_view :: "elps_state \<Rightarrow> nat \<Rightarrow> aps_view" where
  "aps_view s p = (current_status (info (heap s p)), aps_path (info (heap s p)))"

definition conditions :: "elps_state \<Rightarrow> nat \<Rightarrow> aps_conditions" where
  "conditions s p =
     (let i = info (heap s p) in
      \<lparr>master_bad = path_view s (master_port i) (master_cfm_session i),
       backup_bad = path_view s (backup_port i) (backup_cfm_session i),
       reverts = (failback i = FAILBACK_ENABLE), holding = (pholdoff_timer (heap s p) \<noteq> 0), defers = (holdoff i \<noteq> 0)\<rparr>)"

text \<open>
  The hardware: an acknowledged switch message with the number of a session selects its path.
  Before the first one it forwards on the master path.
\<close>

definition stg_step :: "u16 \<Rightarrow> elps_hal_msg \<Rightarrow> path \<Rightarrow> path" where
  "stg_step sid m pt =
     (if msg_subtype m = OAM_SUBTYPE_ELPS_STG \<and> answer m = 0 \<and> msg_index m = sid then
        (case switch_action (info (payload m)) of
           ELPS_FORWRAD_MASTER \<Rightarrow> On_master | ELPS_FORWRAD_BACKUP \<Rightarrow> On_backup | ELPS_ACTION_INVILD \<Rightarrow> pt)
      else pt)"

definition hw_path :: "u16 \<Rightarrow> elps_hal_msg list \<Rightarrow> path" where
  "hw_path sid log = fold (stg_step sid) log On_master"

lemma hw_path_snoc [simp]: "hw_path sid (log @ [m]) = stg_step sid m (hw_path sid log)"
  by (simp add: hw_path_def)

text \<open>A session whose record, state and hardware agree.\<close>

definition in_order :: "elps_state \<Rightarrow> nat \<Rightarrow> bool" where
  "in_order s p \<longleftrightarrow>
     (let i = info (heap s p) in
      p \<noteq> 0 \<and> master_port i \<noteq> backup_port i \<and> active_port i \<in> {master_port i, backup_port i} \<and>
      consistent (aps_view s p) \<and> hw_path (sess_id i) (hal_log s) = aps_path i)"

definition hal_acks :: "elps_env \<Rightarrow> bool" where
  "hal_acks E \<longleftrightarrow> (\<forall>n. hal_answer (sync_answer E n) = 0)"

text \<open>The fields that only configuration commands write.\<close>

definition elps_config :: "elps_info \<Rightarrow> elps_info" where
  "elps_config i = i\<lparr>active_port := 0, dfop_alarm := 0, current_status := ELPS_NO_REQUEST, current_event := APS_ELPS_NR,
     status := APS_STATUS_DISABLE, switch_action := ELPS_ACTION_INVILD\<rparr>"

text \<open>
  The outcome of an action function: it fails and nothing happens, or it succeeds, the session
  has moved, and three frames tell the far end.
\<close>

definition outcome :: "elps_env \<Rightarrow> nat \<Rightarrow> elps_state \<Rightarrow> aps_view option \<Rightarrow> errno \<Rightarrow> elps_state \<Rightarrow> bool" where
  "outcome E p s v r t \<longleftrightarrow>
     (case v of
        None \<Rightarrow> r \<noteq> ERRNO_SUCCESS \<and> aps_view t p = aps_view s p \<and> pkt_log t = pkt_log s
      | Some w \<Rightarrow> r = ERRNO_SUCCESS \<and> aps_view t p = w \<and>
          pkt_log t = pkt_log s @ map (aps_sent_at E (info (heap t p))) [length (pkt_log s)..<length (pkt_log s) + 3]) \<and>
     in_order t p \<and> elps_config (info (heap t p)) = elps_config (info (heap s p)) \<and>
     status (info (heap t p)) = status (info (heap s p)) \<and> (\<forall>q. q \<noteq> p \<longrightarrow> info (heap t q) = info (heap s q))"


lemma path_view_upd [simp]: "path_view (s\<lparr>heap := h\<rparr>) = path_view s" "path_view (s\<lparr>hal_log := l\<rparr>) = path_view s"
  "path_view (s\<lparr>alarm_log := a\<rparr>) = path_view s"
  by (simp_all add: path_view_def fun_eq_iff)

lemmas outcome_simps = outcome_def in_order_def aps_view_def aps_path_def Let_def wp_simps stg_step_def elps_msg_at_def
  elps_config_def burst_frames aps_announce_def elps_forward_def report_switch_def report_backup_def
  master_failed_def backup_failed_def consistent_def conditions_def enter_failed_def

lemma outcome_lop:
  assumes "hal_acks E" "in_order s p"
  shows "wp (elps_local_handle_lop E p) (outcome E p s (Some (ELPS_LOCKOUT_OF_PROTECTION, On_master))) s"
  using assms unfolding elps_local_handle_lop_def hal_acks_def by (auto simp: outcome_simps)

lemma outcome_fs:
  assumes "hal_acks E" "in_order s p"
  shows "wp (elps_local_handle_fs E p) (outcome E p s (Some (ELPS_FORCED_SWITCH, On_backup))) s"
  using assms unfolding elps_local_handle_fs_def hal_acks_def by (auto simp: outcome_simps)

lemma outcome_ms:
  assumes "hal_acks E" "in_order s p"
  shows "wp (elps_local_handle_ms E p) (outcome E p s (Some (ELPS_MANUAL_SWITCH, On_backup))) s"
  using assms unfolding elps_local_handle_ms_def hal_acks_def by (auto simp: outcome_simps)

lemma outcome_fsclear:
  assumes "hal_acks E" "in_order s p" "current_status (info (heap s p)) = ELPS_FORCED_SWITCH"
  shows "wp (elps_local_handle_fsclear E p) (outcome E p s (leave_backup (conditions s p) (reverted (conditions s p)))) s"
  using assms unfolding elps_local_handle_fsclear_def hal_acks_def
  by (auto simp: outcome_simps table_defs split: option.splits bool.splits)

lemma outcome_msclear:
  assumes "hal_acks E" "in_order s p" "current_status (info (heap s p)) = ELPS_MANUAL_SWITCH"
  shows "wp (elps_local_handle_msclear E p) (outcome E p s (Some (reverted (conditions s p)))) s"
  using assms unfolding elps_local_handle_msclear_def hal_acks_def
  by (auto simp: outcome_simps table_defs split: option.splits bool.splits)

lemma outcome_lopclear:
  assumes "hal_acks E" "in_order s p" "current_status (info (heap s p)) = ELPS_LOCKOUT_OF_PROTECTION"
  shows "wp (elps_local_handle_lopclear E p) (outcome E p s (on_release (conditions s p))) s"
  using assms unfolding elps_local_handle_lopclear_def lop_release_def hal_acks_def
  by (auto simp: outcome_simps table_defs split: option.splits bool.splits)

lemma outcome_link_down:
  assumes "hal_acks E" "in_order s p" "current_status (info (heap s p)) \<noteq> ELPS_LOCKOUT_OF_PROTECTION"
  shows "wp (elps_link_down_handler E p) (outcome E p s (on_failure (conditions s p) (current_status (info (heap s p))))) s"
  using assms unfolding elps_link_down_handler_def link_down_on_backup_def link_down_on_master_def hal_acks_def
  by (auto simp: outcome_simps on_failure_def split: option.splits bool.splits)

lemma wp_start_holdoff:
  "wp (elps_start_holdoff_timer E p) Q s = Q () (post (elps_start_holdoff_timer E p) s)"
  by (rule wp_aps_unit)

lemma start_holdoff_leaves:
  "info (heap (post (elps_start_holdoff_timer E p) s) q) = info (heap s q)"
  "pkt_log (post (elps_start_holdoff_timer E p) s) = pkt_log s" "hal_log (post (elps_start_holdoff_timer E p) s) = hal_log s"
proof -
  have "keeps (\<lambda>s t. (\<forall>q. info (heap t q) = info (heap s q)) \<and> pkt_log t = pkt_log s \<and> hal_log t = hal_log s)
      (elps_start_holdoff_timer E p)" (is "keeps ?R _")
  proof -
    have R: "preorder_rel ?R" by (simp add: preorder_rel_def)
    show ?thesis
      unfolding elps_start_holdoff_timer_def elps_at_def
      by (intro keeps_return [OF R] keeps_bind [OF R] keeps_if keeps_when_m [OF R] keeps_gets [OF R])
        (auto simp: elps_prim_defs split: prod.split)
  qed
  from keepsD [OF this, of s] show "info (heap (post (elps_start_holdoff_timer E p) s) q) = info (heap s q)"
    "pkt_log (post (elps_start_holdoff_timer E p) s) = pkt_log s" "hal_log (post (elps_start_holdoff_timer E p) s) = hal_log s"
    by simp_all
qed

lemma outcome_sf:
  assumes "hal_acks E" "in_order s p" "current_status (info (heap s p)) \<noteq> ELPS_LOCKOUT_OF_PROTECTION"
  shows "wp (elps_local_handle_sf E p)
    (outcome E p s (if defers (conditions s p) then None else on_failure (conditions s p) (current_status (info (heap s p))))) s"
proof (cases "holdoff (info (heap s p)) = 0")
  case True
  then show ?thesis
    using outcome_link_down [OF assms] assms(2) unfolding elps_local_handle_sf_def
    by (simp add: wp_simps conditions_def Let_def in_order_def)
next
  case False
  then show ?thesis using assms(2) unfolding elps_local_handle_sf_def
    by (auto simp: outcome_simps wp_start_holdoff start_holdoff_leaves)
qed

lemma outcome_recovers:
  assumes "hal_acks E" "in_order s p"
    and "current_event (info (heap s p)) = LOCAL_ELPS_W_RECOVERS_FROM_SF" "current_status (info (heap s p)) = ELPS_SIGNAL_FAIL_FOR_WORKING"
  shows "wp (elps_local_handle_rsf E p) (outcome E p s
    (Some (if reverts (conditions s p) then ELPS_WAIT_TO_RESTORE else ELPS_DO_NOT_REVERT, On_backup))) s"
  using assms unfolding elps_local_handle_rsf_def hal_acks_def by (auto simp: outcome_simps)

lemma outcome_backup_recovers:
  assumes "hal_acks E" "in_order s p"
    and "current_event (info (heap s p)) = LOCAL_ELPS_P_RECOVERS_FROM_SF" "current_status (info (heap s p)) = ELPS_SIGNAL_FAIL_FOR_PROTECTION"
  shows "wp (elps_local_handle_rsf E p) (outcome E p s
    (leave_backup ((conditions s p)\<lparr>holding := False\<rparr>) (ELPS_NO_REQUEST, On_master))) s"
  using assms unfolding elps_local_handle_rsf_def backup_recovers_def hal_acks_def
  by (auto simp: outcome_simps leave_backup_def split: option.splits bool.splits)

lemma outcome_wtr:
  assumes "hal_acks E" "in_order s p" "current_status (info (heap s p)) = ELPS_WAIT_TO_RESTORE"
  shows "wp (elps_local_handle_wtr_timeout E p) (outcome E p s (Some (ELPS_NO_REQUEST, On_master))) s"
  using assms unfolding elps_local_handle_wtr_timeout_def hal_acks_def by (auto simp: outcome_simps)

lemma outcome_nrw:
  assumes "hal_acks E" "in_order s p"
  shows "wp (elps_aps_change_to_nrw E p) (outcome E p s (on_request On_master (aps_view s p))) s"
  using assms unfolding elps_aps_change_to_nrw_def hal_acks_def by (auto simp: outcome_simps on_request_def)

lemma outcome_nrp:
  assumes "hal_acks E" "in_order s p"
  shows "wp (elps_aps_change_to_nrp E p) (outcome E p s (on_request On_backup (aps_view s p))) s"
  using assms unfolding elps_aps_change_to_nrp_def hal_acks_def by (auto simp: outcome_simps on_request_def)

lemma outcome_dnr:
  assumes "hal_acks E" "in_order s p"
  shows "wp (elps_aps_handle_dnr E p) (outcome E p s
    (if reverts (conditions s p) then on_request On_backup (aps_view s p) else Some (ELPS_DO_NOT_REVERT, On_backup))) s"
  using assms unfolding elps_aps_handle_dnr_def hal_acks_def by (auto simp: outcome_simps on_request_def)

text \<open>The three parts of the reception of a no-request.\<close>

lemma outcome_nr_on_master:
  assumes "hal_acks E" "in_order s p" "current_status (info (heap s p)) = ELPS_NO_REQUEST"
    "active_port (info (heap s p)) = master_port (info (heap s p))"
  shows "wp (nr_on_master E p (heap s p)) (outcome E p s (on_no_request (conditions s p) (0, 0) On_master)) s"
proof (cases "pholdoff_timer (heap s p) = 0")
  case True
  consider "path_view s (backup_port (info (heap s p))) (backup_cfm_session (info (heap s p))) = None"
    | "path_view s (backup_port (info (heap s p))) (backup_cfm_session (info (heap s p))) = Some True"
    | "path_view s (backup_port (info (heap s p))) (backup_cfm_session (info (heap s p))) = Some False"
    by (metis (full_types) not_Some_eq)
  then show ?thesis
  proof cases
    case 3
    consider "path_view s (master_port (info (heap s p))) (master_cfm_session (info (heap s p))) = None"
      | "path_view s (master_port (info (heap s p))) (master_cfm_session (info (heap s p))) = Some True"
      | "path_view s (master_port (info (heap s p))) (master_cfm_session (info (heap s p))) = Some False"
      by (metis (full_types) not_Some_eq)
    then show ?thesis
      using assms True 3 unfolding nr_on_master_def nr_rest_on_master_def hal_acks_def
      by cases (auto simp: outcome_simps on_no_request_def on_release_def)
  qed (use assms True in \<open>auto simp: nr_on_master_def hal_acks_def outcome_simps on_no_request_def on_release_def\<close>)
next
  case False
  then show ?thesis using assms unfolding nr_on_master_def nr_rest_on_master_def
    by (auto simp: outcome_simps on_no_request_def)
qed

lemma outcome_nr_on_backup:
  assumes "hal_acks E" "in_order s p" "current_status (info (heap s p)) = ELPS_NO_REQUEST"
    "active_port (info (heap s p)) = backup_port (info (heap s p))"
  shows "wp (nr_on_backup E p (heap s p)) (outcome E p s (on_no_request (conditions s p) (0, 0) On_backup)) s"
  using assms unfolding nr_on_backup_def hal_acks_def
  by (auto simp: outcome_simps on_no_request_def leave_backup_def split: option.splits bool.splits)

lemma outcome_nr_far:
  assumes "hal_acks E" "in_order s p" "current_status (info (heap s p)) = ELPS_NO_REQUEST"
  shows "wp (nr_far_on_backup E p (info (heap s p))) (outcome E p s (on_no_request (conditions s p) (1, 1) (aps_path (info (heap s p))))) s"
  using assms unfolding nr_far_on_backup_def hal_acks_def
  by (auto simp: outcome_simps on_no_request_def)

lemma outcome_announce:
  assumes "in_order s p"
  shows "wp (aps_announce E p ERRNO_SUCCESS) (outcome E p s (Some (aps_view s p))) s"
  using assms by (auto simp: outcome_simps)

definition signals :: "aps_pkt \<Rightarrow> u8 \<times> u8" where
  "signals k = (request_signal k, bridge_signal k)"

lemma outcome_nr:
  assumes "hal_acks E" "in_order s p" "current_status (info (heap s p)) = ELPS_NO_REQUEST"
  shows "wp (elps_aps_handle_nr E p pkt) (outcome E p s (aps_table (conditions s p) (map_option signals pkt) APS_ELPS_NR (aps_view s p))) s"
proof (cases pkt)
  case None
  then show ?thesis using assms unfolding elps_aps_handle_nr_def by (auto simp: outcome_simps)
next
  case (Some k)
  have v: "aps_view s p = (ELPS_NO_REQUEST, aps_path (info (heap s p)))" using assms(3) by (simp add: aps_view_def)
  have ports: "p \<noteq> 0" "master_port (info (heap s p)) \<noteq> backup_port (info (heap s p))"
    "active_port (info (heap s p)) = master_port (info (heap s p)) \<or> active_port (info (heap s p)) = backup_port (info (heap s p))"
    using assms(2) by (auto simp: in_order_def Let_def)
  consider (zero) "signals k = (0, 0)" | (one) "signals k = (1, 1)" | (other) "signals k \<noteq> (0, 0)" "signals k \<noteq> (1, 1)" by blast
  then show ?thesis
  proof cases
    case zero
    from ports(3) show ?thesis
    proof
      assume m: "active_port (info (heap s p)) = master_port (info (heap s p))"
      then have "aps_path (info (heap s p)) = On_master" using ports(2) by (simp add: aps_path_def)
      then show ?thesis using outcome_nr_on_master [OF assms m] zero Some m ports v
        by (simp add: elps_aps_handle_nr_def wp_simps signals_def)
    next
      assume m: "active_port (info (heap s p)) = backup_port (info (heap s p))"
      then have "aps_path (info (heap s p)) = On_backup" by (simp add: aps_path_def)
      then show ?thesis using outcome_nr_on_backup [OF assms m] zero Some m ports v
        by (simp add: elps_aps_handle_nr_def wp_simps signals_def)
    qed
  next
    case one
    then show ?thesis using outcome_nr_far [OF assms] Some ports v
      by (simp add: elps_aps_handle_nr_def wp_simps signals_def)
  next
    case other
    then have n: "\<not> (request_signal k = 0 \<and> bridge_signal k = 0)" "\<not> (request_signal k = 1 \<and> bridge_signal k = 1)"
      by (auto simp: signals_def)
    show ?thesis using outcome_announce [OF assms(2), of E] Some ports v other n
      by (simp add: elps_aps_handle_nr_def wp_simps on_no_request_def if_not_P)
  qed
qed

text \<open>Choosing the action function: what the table says.\<close>

lemma outcome_nothing:
  assumes "in_order s p"
  shows "outcome E p s None ERRNO_FAIL s"
  using assms by (simp add: outcome_def)

lemma dispatch_table:
  assumes "hal_acks E" "in_order s p" "current_event (info (heap s p)) = ev"
  shows "wp (elps_dispatch E p pkt ev (current_status (info (heap s p))))
    (outcome E p s (aps_table (conditions s p) (map_option signals pkt) ev (aps_view s p))) s"
proof -
  let ?st = "current_status (info (heap s p))"
  have v: "aps_view s p = (?st, aps_path (info (heap s p)))" by (simp add: aps_view_def)
  have top: "status_num ?st < 15 \<longleftrightarrow> ?st \<noteq> ELPS_LOCKOUT_OF_PROTECTION"
    by (cases ?st) simp_all
  note runs = elps_dispatch_def Let_def v wp_return outcome_nothing [OF assms(2)] top
  note acks = assms(1,2)
  show ?thesis
  proof (cases ev)
    case APS_ELPS_NR
    then show ?thesis using outcome_nr [OF acks, of pkt] by (cases "?st = ELPS_NO_REQUEST"; cases pkt) (simp_all add: runs)
  next
    case LOCAL_ELPS_CLEAR
    then show ?thesis using outcome_fsclear [OF acks] outcome_msclear [OF acks] outcome_lopclear [OF acks] by (auto simp: runs)
  next
    case LOCAL_ELPS_SF_W
    then show ?thesis using outcome_sf [OF acks] by (cases "?st = ELPS_LOCKOUT_OF_PROTECTION") (auto simp: runs)
  next
    case LOCAL_ELPS_SF_P
    then show ?thesis using outcome_sf [OF acks] by (cases "?st = ELPS_LOCKOUT_OF_PROTECTION") (auto simp: runs)
  next
    case LOCAL_ELPS_W_RECOVERS_FROM_SF
    then show ?thesis using outcome_recovers [OF acks, unfolded assms(3)] by (auto simp: runs conditions_def Let_def)
  next
    case LOCAL_ELPS_P_RECOVERS_FROM_SF
    then show ?thesis using outcome_backup_recovers [OF acks, unfolded assms(3)] by (auto simp: runs)
  next
    case APS_ELPS_DNR
    then show ?thesis using outcome_dnr [OF acks] by (auto simp: runs)
  next
    case LOCAL_ELPS_WTR_EXPIRES
    then show ?thesis using outcome_wtr [OF acks] by (auto simp: runs)
  qed (use outcome_lop [OF acks] outcome_fs [OF acks] outcome_ms [OF acks] outcome_nrp [OF acks] outcome_nrw [OF acks] v
      in \<open>auto simp: runs\<close>)
qed

text \<open>The machine: an outcome that is a transition is also told to the hardware layer.\<close>

lemma tell_keeps:
  assumes "hal_acks E" "in_order t p"
  shows "wp (elps_tell_hal E p) (\<lambda>r u. r = ERRNO_SUCCESS \<and> heap u = heap t \<and> pkt_log u = pkt_log t \<and> in_order u p) t"
  using assms by (simp add: elps_tell_hal_def wp_simps hal_acks_def in_order_def Let_def aps_view_def stg_step_def elps_msg_at_def)

definition stepped :: "elps_env \<Rightarrow> nat \<Rightarrow> elps_state \<Rightarrow> aps_view option \<Rightarrow> elps_state \<Rightarrow> bool" where
  "stepped E p s v t \<longleftrightarrow>
     in_order t p \<and>
     (case v of
        None \<Rightarrow> aps_view t p = aps_view s p \<and> pkt_log t = pkt_log s
      | Some w \<Rightarrow> aps_view t p = w \<and>
          pkt_log t = pkt_log s @ map (aps_sent_at E (info (heap t p))) [length (pkt_log s)..<length (pkt_log s) + 3]) \<and>
     elps_config (info (heap t p)) = elps_config (info (heap s p)) \<and>
     status (info (heap t p)) = status (info (heap s p)) \<and> (\<forall>q. q \<noteq> p \<longrightarrow> info (heap t q) = info (heap s q))"

lemma fsm_steps:
  assumes "hal_acks E" "in_order s p" "current_event (info (heap s p)) = ev" "status (info (heap s p)) \<noteq> APS_STATUS_DISABLE"
  shows "wp (elps_fsm E p pkt ev) (\<lambda>r t. r = ERRNO_SUCCESS \<and>
    stepped E p s (aps_table (conditions s p) (map_option signals pkt) ev (aps_view s p)) t) s"
proof -
  let ?v = "aps_table (conditions s p) (map_option signals pkt) ev (aps_view s p)"
  have p: "p \<noteq> 0" using assms(2) by (simp add: in_order_def Let_def)
  have "wp (if r = ERRNO_SUCCESS then elps_tell_hal E p else State_Monad.return ERRNO_SUCCESS)
      (\<lambda>r t. r = ERRNO_SUCCESS \<and> stepped E p s ?v t) t" if o: "outcome E p s ?v r t" for r t
  proof (cases "r = ERRNO_SUCCESS")
    case True
    have "in_order t p" using o by (simp add: outcome_def)
    from wp_mono [OF tell_keeps [OF assms(1) this]] show ?thesis
      using True o by (auto simp: stepped_def outcome_def aps_view_def split: option.splits elim!: wp_mono [rotated])
  next
    case False
    then show ?thesis using o by (auto simp: wp_return stepped_def outcome_def split: option.splits)
  qed
  note rest = this
  have "wp (elps_dispatch E p pkt ev (current_status (info (heap s p))))
      (\<lambda>r t. wp (if r = ERRNO_SUCCESS then elps_tell_hal E p else State_Monad.return ERRNO_SUCCESS)
        (\<lambda>r t. r = ERRNO_SUCCESS \<and> stepped E p s ?v t) t) s"
    by (rule wp_mono [OF dispatch_table [OF assms(1-3)] rest])
  then show ?thesis
    using p assms(4) by (simp only: elps_fsm_def if_False wp_bind wp_elps_info_of)
qed

end
