(* ===== verification/ElpsProps.thy ===== *)
theory ElpsProps
  imports ElpsSpec
begin

text \<open>
  What the operations of the linear protection keep: the configuration and the history of
  messages whatever the hardware answers; the agreement of every session with the hardware
  when it acknowledges; and that a tick of the timers returns.
\<close>

section \<open>Configuration and history\<close>

definition elps_config_kept :: "elps_state \<Rightarrow> elps_state \<Rightarrow> bool" where
  "elps_config_kept s t \<longleftrightarrow>
     (\<forall>q. elps_config (info (heap t q)) = elps_config (info (heap s q))) \<and>
     elps_session_table t = elps_session_table s \<and> l2ifs t = l2ifs s \<and>
     cfm_heap t = cfm_heap s \<and> cfm_sess_table t = cfm_sess_table s \<and>
     prefix (hal_log s) (hal_log t) \<and> prefix (pkt_log s) (pkt_log t) \<and> prefix (alarm_log s) (alarm_log t)"

interpretation lasting: elps_frame_all E elps_config_kept for E
proof
  show "preorder_rel elps_config_kept" for p
    unfolding preorder_rel_def elps_config_kept_def by (auto intro: prefix_order.trans)
qed (auto simp: elps_prim_defs elps_config_kept_def elps_config_def split: prod.split)

text \<open>
  No event, command or timer of the running linear protection changes the configuration of
  a session, the session table or what it knows of ports and CFM sessions, and what has been
  sent to the hardware layer, to the far end and to the alarm library stays sent, whatever the
  answers are and however many operations run.
\<close>

theorem elps_operations_keep_configuration: "elps_config_kept s (fold (elps_exec E) ops s)"
  by (rule lasting.fold_respects)

section \<open>A tick ends\<close>

definition elps_fewer_expired :: "elps_state \<Rightarrow> elps_state \<Rightarrow> bool" where
  "elps_fewer_expired s t \<longleftrightarrow> length (tempHead (timers t)) \<le> length (tempHead (timers s))"

interpretation draining: elps_frame_all E elps_fewer_expired for E
proof
  show "preorder_rel elps_fewer_expired" for p by (auto simp: preorder_rel_def elps_fewer_expired_def)
qed (auto simp: elps_prim_defs elps_fewer_expired_def delete_shorter dest: add_same_temp split: prod.split)

text \<open>
  A tick of the process timer with the callbacks of the linear protection returns, though the
  callbacks stop and start timers and run the state machine.
\<close>

theorem elps_tick_returns: "\<exists>t. elps_tick E s = Some t"
  unfolding elps_tick_def
proof (rule dotick_terminates)
  show "length (tempHead (timers (snd (run_state (elps_callback E cb) s)))) \<le> length (tempHead (timers s))" for cb s
    using keepsD [OF draining.timeouts, of s E cb] by (simp add: elps_fewer_expired_def post_def)
qed simp

section \<open>A session and the hardware\<close>

text \<open>What an operation on one session can touch.\<close>

definition confined :: "nat \<Rightarrow> elps_state \<Rightarrow> elps_state \<Rightarrow> bool" where
  "confined p s t \<longleftrightarrow>
     (\<exists>new. hal_log t = hal_log s @ new \<and> (\<forall>m\<in>set new. msg_index m = sess_id (info (heap s p)))) \<and>
     elps_config (info (heap t p)) = elps_config (info (heap s p)) \<and>
     (\<forall>q. q \<noteq> p \<longrightarrow> info (heap t q) = info (heap s q)) \<and> elps_session_table t = elps_session_table s"

lemma config_sess_id: "elps_config i = elps_config j \<Longrightarrow> sess_id i = sess_id j"
  by (drule arg_cong [where f = sess_id]) (simp add: elps_config_def)

interpretation walled: elps_frame E "confined p" p for E p
proof
  show "preorder_rel (confined p)"
    unfolding preorder_rel_def confined_def by auto (metis config_sess_id)
qed (auto simp: elps_prim_defs confined_def elps_config_def split: prod.split)

lemma stg_steps_other:
  assumes "\<forall>m\<in>set ms. msg_index m \<noteq> sid"
  shows "hw_path sid (log @ ms) = hw_path sid log"
  using assms by (induction ms rule: rev_induct) (simp_all add: stg_step_def flip: append_assoc)

lemma confined_others:
  assumes "confined p s t" "in_order s q" "q \<noteq> p" "sess_id (info (heap s q)) \<noteq> sess_id (info (heap s p))"
  shows "in_order t q"
  using assms by (auto simp: confined_def in_order_def Let_def aps_view_def stg_steps_other)

text \<open>Operations that leave a session in order.\<close>

definition stays :: "nat \<Rightarrow> elps_state \<Rightarrow> elps_state \<Rightarrow> bool" where
  "stays p s t \<longleftrightarrow> (in_order s p \<longrightarrow> in_order t p)"

lemma stays_order: "preorder_rel (stays p)"
  by (auto simp: preorder_rel_def stays_def)

interpretation steady: elps_quiet E "stays p" p for E p
proof
  show "preorder_rel (stays p)" by (rule stays_order)
qed (auto simp: elps_prim_defs stays_def in_order_def aps_view_def aps_path_def split: prod.split)

lemma stays_prims: "keeps (stays p) (elps_set_event p ev)" "keeps (stays p) (elps_set_dfop p a)"
  "keeps (stays p) (elps_report c)" "keeps (stays p) (elps_upd p (pholdoff_timer_update (\<lambda>_. t)))"
  by (auto simp: elps_prim_defs stays_def in_order_def aps_view_def aps_path_def)

lemma keeps_stays_wp:
  assumes "\<And>s. in_order s p \<Longrightarrow> wp m (\<lambda>_ t. in_order t p) s"
  shows "keeps (stays p) m"
  using assms by (simp add: keeps_def stays_def wp_post)

lemma in_order_nz: "in_order s p \<Longrightarrow> p \<noteq> 0"
  by (simp add: in_order_def Let_def)

lemma stays_fsm:
  assumes "hal_acks E" "\<And>r. keeps (stays p) (f r)"
  shows "keeps (stays p) (State_Monad.bind (elps_set_event p ev) (\<lambda>_. State_Monad.bind (elps_fsm E p pkt ev) f))"
proof (rule keeps_stays_wp)
  fix s assume o: "in_order s p"
  let ?s = "post (elps_set_event p ev) s"
  have s': "in_order ?s p" "current_event (info (heap ?s p)) = ev"
    using o keepsD [OF stays_prims(1) [of p ev], of s] by (simp_all add: stays_def elps_prim_defs)
  have "wp (elps_fsm E p pkt ev) (\<lambda>_ t. in_order t p) ?s"
  proof (cases "status (info (heap ?s p))")
    case APS_STATUS_DISABLE
    then show ?thesis using s'(1) in_order_nz [OF o] by (simp add: elps_fsm_def wp_simps)
  next
    case APS_STATUS_ENABLE
    then show ?thesis by (intro wp_mono [OF fsm_steps [OF assms(1) s', of pkt]]) (simp_all add: stepped_def)
  qed
  then have "wp (elps_fsm E p pkt ev) (\<lambda>r t. wp (f r) (\<lambda>_ u. in_order u p) t) ?s"
    by (rule wp_mono) (use keepsD [OF assms(2)] in \<open>auto simp: stays_def wp_post\<close>)
  then show "wp (State_Monad.bind (elps_set_event p ev) (\<lambda>_. State_Monad.bind (elps_fsm E p pkt ev) f)) (\<lambda>_ t. in_order t p) s"
    by (simp add: wp_bind wp_aps_unit [of "elps_set_event p ev"])
qed

lemma stays_request:
  assumes "hal_acks E"
  shows "keeps (stays p) (elps_request E p ev)"
  using stays_fsm [OF assms, where f = State_Monad.return and p = p and ev = ev and pkt = None]
  by (simp add: elps_request_def keeps_return [OF stays_order])

lemmas stays_ops = steady.quiet_ops stays_prims stays_request stays_fsm

lemma stays_updates:
  assumes "hal_acks E"
  shows "keeps (stays p) (elps_update_one E ifindex sid ev old p)"
proof -
  have "keeps (stays p) (side_event ifindex sid ev c st f a b old)" for c st f a b
    unfolding side_event_def by (cases ev) (simp_all add: stays_ops)
  then have "keeps (stays p) (elps_update_side E ifindex sid ev c f a b old p)" for c f a b
    unfolding elps_update_side_def by (intro stays_ops assms)
  then show ?thesis unfolding elps_update_one_def by (intro stays_ops)
qed

lemma stays_receptions:
  assumes "hal_acks E"
  shows "keeps (stays p) (aps_recv_one E k p)"
  unfolding aps_recv_one_def aps_count_err_def by (intro stays_ops assms)

lemma stays_tell:
  assumes "hal_acks E"
  shows "keeps (stays p) (elps_tell_hal E p)"
  by (rule keeps_stays_wp, rule wp_mono, erule tell_keeps [OF assms]) simp

lemma stays_link_down:
  assumes "hal_acks E"
  shows "keeps (stays p) (elps_link_down_handler E p)"
proof (rule keeps_stays_wp)
  fix s assume o: "in_order s p"
  show "wp (elps_link_down_handler E p) (\<lambda>_ t. in_order t p) s"
  proof (cases "current_status (info (heap s p)) = ELPS_LOCKOUT_OF_PROTECTION")
    case True
    then show ?thesis using o in_order_nz [OF o] by (simp add: elps_link_down_handler_def wp_simps)
  next
    case False
    then show ?thesis using outcome_link_down [OF assms o] by (auto simp: outcome_def elim!: wp_mono)
  qed
qed

lemma stays_callbacks:
  assumes "hal_acks E"
  shows "keeps (stays p) (elps_wtr_expiry E p)" "keeps (stays p) (elps_holdoff_expiry E p)"
    "keeps (stays p) (elps_msg_expiry E p)" "keeps (stays p) (elps_dfop_expiry p)"
proof -
  show "keeps (stays p) (elps_wtr_expiry E p)"
    unfolding elps_wtr_expiry_def elps_request_def [symmetric] by (intro stays_ops assms)
  show "keeps (stays p) (elps_holdoff_expiry E p)"
    unfolding elps_holdoff_expiry_def by (intro stays_ops stays_tell stays_link_down assms)
  show "keeps (stays p) (elps_msg_expiry E p)" "keeps (stays p) (elps_dfop_expiry p)"
    unfolding elps_msg_expiry_def elps_dfop_expiry_def by (intro stays_ops)+
qed

lemma stays_switches:
  assumes "hal_acks E"
  shows "keeps (stays p) (elps_admin_force E c p)" "keeps (stays p) (elps_admin_manual E c p)"
    "keeps (stays p) (elps_admin_lockout E c p)"
  unfolding elps_admin_force_def elps_admin_manual_def elps_admin_lockout_def elps_admin_def
    elps_sess_forceswitch_def elps_sess_manualswitch_def elps_sess_lock_def
  by (intro stays_ops assms)+

section \<open>All sessions and the hardware\<close>

text \<open>
  A set of sessions that holds those of the table: each is in order, and their numbers differ.
\<close>

definition agreed :: "nat set \<Rightarrow> elps_state \<Rightarrow> bool" where
  "agreed S s \<longleftrightarrow>
     (\<forall>p\<in>S. in_order s p) \<and> inj_on (\<lambda>p. sess_id (info (heap s p))) S \<and>
     set (map data (hash_bucket_loop (elps_session_table s))) \<subseteq> S"

definition agreement :: "nat set \<Rightarrow> elps_state \<Rightarrow> elps_state \<Rightarrow> bool" where
  "agreement S s t \<longleftrightarrow> (agreed S s \<longrightarrow> agreed S t)"

lemma agreement_order: "preorder_rel (agreement S)"
  by (auto simp: preorder_rel_def agreement_def)

lemma agreement_one:
  assumes "p \<in> S" "keeps (confined p) m" "keeps (stays p) m"
  shows "keeps (agreement S) m"
  unfolding keeps_def agreement_def
proof (intro allI impI)
  fix s assume a: "agreed S s"
  let ?t = "post m s"
  have c: "confined p s ?t" by (rule keepsD [OF assms(2)])
  have "in_order s p" using a assms(1) by (simp add: agreed_def)
  then have o: "in_order ?t p" using keepsD [OF assms(3), of s] by (simp add: stays_def)
  have ids: "sess_id (info (heap ?t q)) = sess_id (info (heap s q))" for q
  proof (cases "q = p")
    case True
    then show ?thesis using c config_sess_id [of "info (heap ?t p)" "info (heap s p)"] by (simp add: confined_def)
  next
    case False
    then show ?thesis using c by (simp add: confined_def)
  qed
  have "in_order ?t q" if "q \<in> S" for q
  proof (cases "q = p")
    case False
    then have "sess_id (info (heap s q)) \<noteq> sess_id (info (heap s p))"
      using a assms(1) that unfolding agreed_def by (metis (mono_tags, lifting) inj_onD)
    moreover have "in_order s q" using a that by (simp add: agreed_def)
    ultimately show ?thesis using confined_others [OF c _ False] by simp
  qed (use o in simp)
  moreover have "elps_session_table ?t = elps_session_table s" using c by (simp add: confined_def)
  ultimately show "agreed S ?t" using a by (simp only: agreed_def ids simp_thms) blast
qed

lemma agreement_global: "keeps (agreement S) (elps_upd_global f)"
  by (auto simp: elps_prim_defs agreement_def agreed_def in_order_def aps_view_def)

lemma agreement_walk:
  assumes "hal_acks E" "set ps \<subseteq> S"
  shows "keeps (agreement S) (elps_update_loop E ifindex sid ev old ps)" (is ?u)
    and "keeps (agreement S) (aps_recv_loop E k ps)" (is ?r)
proof -
  show ?u using assms(2)
  proof (induction ps arbitrary: old)
    case (Cons p ps)
    have "keeps (agreement S) (elps_update_one E ifindex sid ev old p)"
      by (rule agreement_one [OF _ walled.updates stays_updates [OF assms(1)]]) (use Cons.prems in simp)
    then show ?case using Cons by (simp add: keeps_bind [OF agreement_order])
  qed (simp add: keeps_return [OF agreement_order])
  show ?r using assms(2)
  proof (induction ps)
    case (Cons p ps)
    have "keeps (agreement S) (aps_recv_one E k p)"
      by (rule agreement_one [OF _ walled.receptions stays_receptions [OF assms(1)]]) (use Cons.prems in simp)
    then show ?case using Cons by (simp add: keeps_bind [OF agreement_order])
  qed (simp add: keeps_return [OF agreement_order])
qed

text \<open>An operation on a running session: not its start and stop, which the hardware is told in another message.\<close>

fun concerns :: "nat set \<Rightarrow> elps_op \<Rightarrow> bool" where
  "concerns S (Elps_port i c ev) = True"
| "concerns S (Elps_recv k) = True"
| "concerns S (Elps_timer cb) = (case cb of Cb_wtr p \<Rightarrow> p \<in> S | Cb_holdoff p \<Rightarrow> p \<in> S | Cb_msg p \<Rightarrow> p \<in> S | Cb_dfop p \<Rightarrow> p \<in> S)"
| "concerns S (Elps_force c p) = (p \<in> S)"
| "concerns S (Elps_manual c p) = (p \<in> S)"
| "concerns S (Elps_lock c p) = (p \<in> S)"
| "concerns S (Elps_enable p) = False"
| "concerns S (Elps_disable p) = False"

lemma wp_agreement:
  assumes "keeps (agreement S) m" "agreed S s"
  shows "agreed S (post m s)"
  using keepsD [OF assms(1), of s] assms(2) by (simp add: agreement_def)

lemma agreed_exec:
  assumes "hal_acks E" "agreed S s" "concerns S oper"
  shows "agreed S (elps_exec E oper s)"
proof -
  have ps: "set (map data (hash_bucket_loop (elps_session_table s))) \<subseteq> S" using assms(2) by (simp add: agreed_def)
  note one = wp_agreement [OF agreement_one assms(2)]
  show ?thesis
  proof (cases oper)
    case (Elps_port i c ev)
    have "post (elps_state_update E i c ev) s =
        (if i = 0 then s else post (elps_update_loop E i c ev 0 (map data (hash_bucket_loop (elps_session_table s)))) s)"
      by (simp add: elps_state_update_def elps_sessions_def post_def)
    then show ?thesis
      using Elps_port wp_agreement [OF agreement_walk(1) [OF assms(1) ps] assms(2)] assms(2) by (simp add: elps_exec_def)
  next
    case (Elps_recv pkt)
    show ?thesis
    proof (cases pkt)
      case None
      then show ?thesis using Elps_recv assms(2) by (simp add: elps_exec_def aps_recv_def post_def)
    next
      case (Some k)
      let ?s = "post (elps_upd_global (\<lambda>g. g\<lparr>pkt_recv := pkt_recv g + 1\<rparr>)) s"
      have g: "agreed S ?s" by (rule wp_agreement [OF agreement_global assms(2)])
      have "elps_session_table ?s = elps_session_table s" by (simp add: elps_prim_defs)
      then have "post (aps_recv E pkt) s = post (aps_recv_loop E k (map data (hash_bucket_loop (elps_session_table s)))) ?s"
        by (simp add: Some aps_recv_def post_bind elps_sessions_def post_def [of "State_Monad.return x" for x]
            post_def [of "gets f" for f] split_def)
      then show ?thesis
        using Elps_recv wp_agreement [OF agreement_walk(2) [OF assms(1) ps] g] by (simp add: elps_exec_def)
    qed
  next
    case (Elps_timer cb)
    then show ?thesis using assms(3)
      by (cases cb) (simp_all add: elps_exec_def elps_callback_def one walled.callback_ops stays_callbacks [OF assms(1)])
  qed (use assms(3) in \<open>simp_all add: elps_exec_def one walled.commands stays_switches [OF assms(1)]\<close>)
qed

end
