(* ===== verification/ElpsSafety.thy ===== *)
theory ElpsSafety
  imports ElpsProps
begin

text \<open>
  What the protection is for: the state machine implements its table, traffic leaves a port
  that goes down, both ends of a line choose the same path, and what happens to a switch that
  the hardware layer refuses.
\<close>

section \<open>A session to try things on\<close>

definition line_info :: "elps_status \<Rightarrow> elps_event \<Rightarrow> u32 \<Rightarrow> elps_info" where
  "line_info st ev act = elps_zero_info\<lparr>sess_id := 1, pvlan := 100, master_port := 10, backup_port := 20, active_port := act,
     status := APS_STATUS_ENABLE, keepalive := 5, priority := 6, wtr := 5, current_status := st, current_event := ev\<rparr>"

definition one_line :: "elps_info \<Rightarrow> u32 set \<Rightarrow> elps_state" where
  "one_line i down = \<lparr>heap = (\<lambda>_. elps_zero_sess)(1 := elps_zero_sess\<lparr>info := i\<rparr>),
     elps_session_table = hios_hash_init 10 elps_compute_sess elps_compare_sess,
     gelps = \<lparr>pkt_recv = 0, pkt_send_cnt = 0, pkt_err = 0, sess_total = 1, sess_enable = 1, debug_packet = 0\<rparr>,
     timers = high_pre_timer_init 10, timer_allocs = 0, hal_log = [], pkt_log = [], alarm_log = [],
     l2ifs = (\<lambda>n. Some \<lparr>if_down = (n \<in> down), if_switch = True, if_mac = replicate 6 0\<rparr>),
     cfm_heap = (\<lambda>_. \<lparr>cfm_ifindex = 0, cfm_down = False, elps_bind = 0, md_index = 0, ma_index = 0\<rparr>),
     cfm_sess_table = (\<lambda>_. 0), md_bind = (\<lambda>_. None), ma_bind = (\<lambda>_. None)\<rparr>"

definition willing :: elps_env where
  "willing = \<lparr>sync_answer = (\<lambda>_. Sync_ret 0 (Some (IPC_OPCODE_ACK, 0))), pkt_answer = (\<lambda>_. Pkt_ret 0), timer_malloc = (\<lambda>n. n + 1)\<rparr>"

lemma willing_acks: "hal_acks willing"
  by (simp add: hal_acks_def willing_def hal_answer_def)

lemma line_ready:
  "in_order (one_line (line_info ELPS_NO_REQUEST ev 10) down) 1"
  "info (heap (one_line i down) 1) = i" "current_event (line_info st ev act) = ev"
  "status (line_info st ev act) = APS_STATUS_ENABLE" "current_status (line_info st ev act) = st"
  "holdoff (line_info st ev act) = 0" "pholdoff_timer (heap (one_line i down) 1) = 0"
  "hal_log (one_line i down) = []" "pkt_log (one_line i down) = []" "sess_id (line_info st ev act) = 1"
  "active_port (line_info st ev act) = act" "master_port (line_info st ev act) = 10" "backup_port (line_info st ev act) = 20"
  "pvlan (line_info st ev act) = 100" "failback (line_info st ev act) = FAILBACK_ENABLE"
  by (simp_all add: one_line_def line_info_def elps_zero_sess_def elps_zero_info_def in_order_def aps_view_def aps_path_def
      consistent_def hw_path_def)

lemma line_conditions:
  "conditions (one_line (line_info st ev act) down) 1 =
     \<lparr>master_bad = Some (10 \<in> down), backup_bad = Some (20 \<in> down), reverts = True, holding = False, defers = False\<rparr>"
  by (simp add: one_line_def line_info_def elps_zero_sess_def elps_zero_info_def conditions_def path_view_def)

lemma line_agreed: "agreed {1} (one_line (line_info ELPS_NO_REQUEST APS_ELPS_NR 10) down)"
proof -
  have "hash_bucket_loop (elps_session_table (one_line i down)) = []" for i
    by (simp add: one_line_def hash_bucket_loop_def hios_hash_init_def)
  then show ?thesis using line_ready(1) by (simp add: agreed_def)
qed

section \<open>The machine and its table\<close>

text \<open>
  C10: The state machine of an enabled session that agrees with hardware which acknowledges
  implements its table: for every event it returns
  success, the new state and path are those of the table (or the old ones where it has no
  entry), the far end is told in exactly three frames that carry them (and only then), the
  hardware has selected the path, and the configuration and the other sessions are as before.
\<close>

theorem elps_fsm_implements_table:
  assumes "hal_acks E" "in_order s p" "current_event (info (heap s p)) = ev" "status (info (heap s p)) \<noteq> APS_STATUS_DISABLE"
  shows "wp (elps_fsm E p pkt ev) (\<lambda>r t. r = ERRNO_SUCCESS \<and>
    stepped E p s (aps_table (conditions s p) (map_option signals pkt) ev (aps_view s p)) t) s"
  using assms by (rule fsm_steps)

lemma elps_fsm_implements_table_witness:
  "wp (elps_fsm willing 1 None LOCAL_ELPS_SF_W) (\<lambda>_ t. aps_view t 1 = (ELPS_SIGNAL_FAIL_FOR_WORKING, On_backup))
     (one_line (line_info ELPS_NO_REQUEST LOCAL_ELPS_SF_W 10) {10})"
  by (rule wp_mono [OF elps_fsm_implements_table [OF willing_acks line_ready(1)]])
    (simp_all del: One_nat_def add: line_ready line_conditions stepped_def aps_view_def on_failure_def)

section \<open>Sessions and hardware\<close>

text \<open>
  C11: As long as the hardware layer acknowledges, every running session and the hardware agree:
  whatever port events, CFM events, frames, timer expiries and operator's switches happen, in
  any order and for any number of sessions, the path the hardware has selected for a session is
  the one the session holds active, and the protection state is one that uses this path.
\<close>

theorem hardware_follows_sessions:
  assumes "hal_acks E" "agreed S s" "\<forall>oper\<in>set ops. concerns S oper"
  shows "agreed S (fold (elps_exec E) ops s)"
  using assms(2,3) by (induction ops arbitrary: s) (simp_all add: agreed_exec [OF assms(1)])

lemma hardware_follows_sessions_witness:
  "in_order (fold (elps_exec willing) [Elps_port 10 0 PORT_STATE_DOWN, Elps_force True 1, Elps_timer (Cb_wtr 1), Elps_force False 1]
     (one_line (line_info ELPS_NO_REQUEST APS_ELPS_NR 10) {10})) 1"
  using hardware_follows_sessions [OF willing_acks line_agreed [of "{10}"],
      of "[Elps_port 10 0 PORT_STATE_DOWN, Elps_force True 1, Elps_timer (Cb_wtr 1), Elps_force False 1]"]
  by (simp add: agreed_def)

section \<open>A port goes down\<close>

fun other_path :: "path \<Rightarrow> path" where
  "other_path On_master = On_backup"
| "other_path On_backup = On_master"

fun path_port :: "elps_info \<Rightarrow> path \<Rightarrow> u32" where
  "path_port i On_master = master_port i"
| "path_port i On_backup = backup_port i"

fun path_bad :: "aps_conditions \<Rightarrow> path \<Rightarrow> bool option" where
  "path_bad c On_master = master_bad c"
| "path_bad c On_backup = backup_bad c"

lemma in_order_path: "in_order s p \<Longrightarrow> hw_path (sess_id (info (heap s p))) (hal_log s) = snd (aps_view s p)"
  by (simp add: in_order_def Let_def aps_view_def)

lemma stepped_hw:
  assumes "stepped E p s v t"
  shows "hw_path (sess_id (info (heap s p))) (hal_log t) = snd (case v of None \<Rightarrow> aps_view s p | Some w \<Rightarrow> w)"
proof -
  have "sess_id (info (heap s p)) = sess_id (info (heap t p))" using assms by (intro config_sess_id) (simp add: stepped_def)
  then show ?thesis using assms in_order_path [of t p] by (simp add: stepped_def split: option.splits)
qed

text \<open>The event is stored before the machine runs; nothing else that the machine looks at changes.\<close>

definition with_event :: "elps_event \<Rightarrow> nat \<Rightarrow> elps_state \<Rightarrow> elps_state" where
  "with_event ev p s = s\<lparr>heap := (heap s)(p := (heap s p)\<lparr>info := (info (heap s p))\<lparr>current_event := ev\<rparr>\<rparr>)\<rparr>"

lemma with_event_same:
  "in_order (with_event ev p s) p = in_order s p" "conditions (with_event ev p s) p = conditions s p"
  "aps_view (with_event ev p s) p = aps_view s p" "current_event (info (heap (with_event ev p s) p)) = ev"
  "status (info (heap (with_event ev p s) p)) = status (info (heap s p))"
  by (simp_all add: with_event_def in_order_def conditions_def aps_view_def aps_path_def Let_def path_view_def)

lemma with_event_stepped: "stepped E p (with_event ev p s) v t = stepped E p s v t"
  unfolding stepped_def with_event_same by (auto simp: with_event_def elps_config_def split: option.split)

lemma request_steps:
  assumes "hal_acks E" "in_order s p" "status (info (heap s p)) \<noteq> APS_STATUS_DISABLE"
    and "\<And>t. stepped E p s (aps_table (conditions s p) (map_option signals pkt) ev (aps_view s p)) t \<Longrightarrow> wp (f ERRNO_SUCCESS) Q t"
  shows "wp (State_Monad.bind (elps_set_event p ev) (\<lambda>_. State_Monad.bind (elps_fsm E p pkt ev) f)) Q s"
proof -
  have "wp (elps_fsm E p pkt ev) (\<lambda>r t. wp (f r) Q t) (with_event ev p s)"
    by (rule wp_mono [OF fsm_steps [OF assms(1)]]) (use assms(2-4) in \<open>auto simp: with_event_same with_event_stepped\<close>)
  then show ?thesis by (simp only: wp_bind wp_elps_setters with_event_def)
qed

lemma operator_steps:
  assumes "hal_acks E" "in_order s p" "status (info (heap s p)) \<noteq> APS_STATUS_DISABLE"
    and "\<And>t. stepped E p s (aps_table (conditions s p) None ev (aps_view s p)) t \<Longrightarrow> Q ERRNO_SUCCESS t"
  shows "wp (elps_request E p ev) Q s"
  using request_steps [OF assms(1-3), where pkt = None and f = State_Monad.return and Q = Q and ev = ev] assms(4)
  by (simp add: elps_request_def wp_return)

text \<open>With a hold-off time the failure only starts a timer, unless one runs; nothing else changes.\<close>

definition holdoff_request :: "elps_env \<Rightarrow> nat \<Rightarrow> elps_state \<Rightarrow> nat \<times> elps_cb hp_lists" where
  "holdoff_request E p s = high_pre_timer_add (timer_malloc E (timer_allocs s)) False (Some (Cb_holdoff p))
     (uint (holdoff (info (heap s p))) * 1000) (timers s)"

fun failure_event :: "path \<Rightarrow> elps_event" where
  "failure_event On_master = LOCAL_ELPS_SF_W"
| "failure_event On_backup = LOCAL_ELPS_SF_P"

fun failure_status :: "path \<Rightarrow> elps_status" where
  "failure_status On_master = ELPS_SIGNAL_FAIL_FOR_WORKING"
| "failure_status On_backup = ELPS_SIGNAL_FAIL_FOR_PROTECTION"

definition put_off :: "elps_env \<Rightarrow> path \<Rightarrow> nat \<Rightarrow> elps_state \<Rightarrow> elps_state \<Rightarrow> bool" where
  "put_off E pt p s t \<longleftrightarrow>
     info (heap t p) = (info (heap s p))\<lparr>current_event := failure_event pt\<rparr> \<and> hal_log t = hal_log s \<and>
     path_view t = path_view s \<and>
     (current_status (info (heap s p)) < failure_status pt \<and> pholdoff_timer (heap s p) = 0 \<longrightarrow>
       (pholdoff_timer (heap t p), timers t) = holdoff_request E p s)"

lemma wp_first_holdoff:
  assumes "p \<noteq> 0" "pholdoff_timer (heap s p) = 0"
  shows "wp (elps_start_holdoff_timer E p) Q s =
    Q () (s\<lparr>timers := snd (holdoff_request E p s), timer_allocs := timer_allocs s + 1,
      heap := (heap s)(p := (heap s p)\<lparr>pholdoff_timer := fst (holdoff_request E p s)\<rparr>)\<rparr>)"
  using assms by (simp add: elps_start_holdoff_timer_def wp_simps elps_timer_add_def wp_def [of "State f" for f]
      holdoff_request_def split: prod.split)

lemma failure_put_off:
  assumes "p \<noteq> 0" "status (info (heap s p)) \<noteq> APS_STATUS_DISABLE" "holdoff (info (heap s p)) \<noteq> 0"
  shows "wp (State_Monad.bind (elps_set_event p (failure_event pt)) (\<lambda>_. State_Monad.bind (elps_fsm E p None (failure_event pt))
    (\<lambda>_. State_Monad.return old))) (\<lambda>_. put_off E pt p s) s"
  using assms
  by (cases pt; cases "pholdoff_timer (heap s p) = 0")
    (simp_all add: elps_fsm_def elps_dispatch_def elps_local_handle_sf_def wp_simps wp_first_holdoff put_off_def
      holdoff_request_def path_view_def fun_eq_iff Let_def)

lemma put_off_same:
  assumes "put_off E pt p s t"
  shows "in_order t p = in_order s p" "aps_view t p = aps_view s p" "current_status (info (heap t p)) = current_status (info (heap s p))"
    "path_bad (conditions t p) = path_bad (conditions s p)" "sess_id (info (heap t p)) = sess_id (info (heap s p))"
proof -
  show "path_bad (conditions t p) = path_bad (conditions s p)"
  proof
    fix pt show "path_bad (conditions t p) pt = path_bad (conditions s p) pt"
      using assms by (cases pt) (simp_all add: put_off_def conditions_def Let_def)
  qed
qed (use assms in \<open>simp_all add: put_off_def in_order_def aps_view_def aps_path_def Let_def\<close>)

lemma expiry_moves:
  assumes "hal_acks E" "in_order s p"
    and "path_bad (conditions s p) pt = Some True" "path_bad (conditions s p) (other_path pt) = Some False"
    and "pt = On_backup \<or> current_status (info (heap s p)) < ELPS_SIGNAL_FAIL_FOR_PROTECTION"
  shows "wp (elps_holdoff_expiry E p) (\<lambda>_ t. hw_path (sess_id (info (heap s p))) (hal_log t) = other_path pt) s"
proof -
  let ?i = "info (heap s p)"
  let ?u = "s\<lparr>heap := (heap s)(p := (heap s p)\<lparr>pholdoff_timer := 0\<rparr>)\<rparr>"
  have c: "consistent (aps_view s p)" and hw: "hw_path (sess_id ?i) (hal_log s) = aps_path ?i"
    using assms(2) by (simp_all add: in_order_def Let_def)
  have u: "in_order ?u p" "aps_view ?u p = aps_view s p" "conditions ?u p = (conditions s p)\<lparr>holding := False\<rparr>"
    using assms(2) by (simp_all add: in_order_def aps_view_def aps_path_def conditions_def Let_def)
  have v: "aps_view s p = (current_status ?i, aps_path ?i)" by (simp add: aps_view_def)
  show ?thesis
  proof (cases "current_status ?i = ELPS_LOCKOUT_OF_PROTECTION")
    case True
    then have "pt = On_backup" "aps_path ?i = On_master" using assms(5) c by (auto simp: v consistent_def)
    then show ?thesis using True hw in_order_nz [OF assms(2)]
      by (simp add: elps_holdoff_expiry_def elps_link_down_handler_def wp_simps)
  next
    case False
    let ?o = "on_failure (conditions s p) (current_status ?i)"
    have "on_failure (conditions ?u p) (current_status (info (heap ?u p))) = ?o"
      by (simp add: u on_failure_def split: option.split bool.split)
    then have o: "wp (elps_link_down_handler E p) (outcome E p ?u ?o) ?u"
      using outcome_link_down [OF assms(1) u(1)] False by simp
    have path: "snd (case ?o of None \<Rightarrow> aps_view s p | Some w \<Rightarrow> w) = other_path pt"
      using assms(3-5) c False unfolding v
      by (cases pt; cases "current_status ?i") (auto simp: on_failure_def consistent_def)
    have "wp (if r = ERRNO_SUCCESS then elps_tell_hal E p else State_Monad.return ERRNO_SUCCESS)
        (\<lambda>_ t. hw_path (sess_id ?i) (hal_log t) = other_path pt) w" if w: "outcome E p ?u ?o r w" for r w
    proof -
      have e: "elps_config (info (heap w p)) = elps_config ?i" "in_order w p" using w by (simp_all add: outcome_def)
      have "snd (aps_view w p) = other_path pt" using w path u(2) by (simp add: outcome_def split: option.splits)
      moreover have "sess_id (info (heap w p)) = sess_id ?i" using e(1) by (rule config_sess_id)
      ultimately have "hw_path (sess_id ?i) (hal_log u) = other_path pt" if "in_order u p" "heap u = heap w" for u
        using in_order_path [OF that(1)] that(2) by (simp add: aps_view_def)
      then show ?thesis
        using e(2) by (auto simp: wp_return intro!: wp_mono [OF tell_keeps [OF assms(1) e(2)]])
    qed
    then have "wp (elps_link_down_handler E p) (\<lambda>r. wp (if r = ERRNO_SUCCESS then elps_tell_hal E p else State_Monad.return ERRNO_SUCCESS)
        (\<lambda>_ t. hw_path (sess_id ?i) (hal_log t) = other_path pt)) ?u"
      by (rule wp_mono [OF o])
    then show ?thesis by (simp only: elps_holdoff_expiry_def wp_bind wp_elps_upd)
  qed
qed

text \<open>
  C12: When a port of an enabled session that agrees with its hardware goes down and the other path
  works, the hardware, as long as it acknowledges, forwards on the other path: without a
  hold-off time after the event has been handled; with one, the path stays at first, the hold-off
  timer is started if the session's state is weaker than the failure and none runs, and
  the path is the other one after the timer's callback.  It does not matter which side failed and
  what the session was doing, but for a master port that fails under a lockout or a failed
  backup path, where traffic stays on the master path.
\<close>

theorem port_down_moves_traffic:
  assumes "hal_acks E" "in_order s p" "status (info (heap s p)) \<noteq> APS_STATUS_DISABLE"
    and "path_bad (conditions s p) pt = Some True" "path_bad (conditions s p) (other_path pt) = Some False"
    and "pt = On_backup \<or> current_status (info (heap s p)) < ELPS_SIGNAL_FAIL_FOR_PROTECTION"
  shows "wp (elps_update_one E (path_port (info (heap s p)) pt) sid PORT_STATE_DOWN old p)
    (\<lambda>_ t. if holdoff (info (heap s p)) = 0 then hw_path (sess_id (info (heap s p))) (hal_log t) = other_path pt
       else hw_path (sess_id (info (heap s p))) (hal_log t) = aps_path (info (heap s p)) \<and>
         (current_status (info (heap s p)) < failure_status pt \<and> pholdoff_timer (heap s p) = 0 \<longrightarrow>
           (pholdoff_timer (heap t p), timers t) = holdoff_request E p s) \<and>
         wp (elps_holdoff_expiry E p) (\<lambda>_ v. hw_path (sess_id (info (heap s p))) (hal_log v) = other_path pt) t) s"
    (is "wp _ (\<lambda>_. ?Q) s")
proof -
  let ?i = "info (heap s p)"
  have ports: "master_port ?i \<noteq> backup_port ?i" and c: "consistent (aps_view s p)"
    using assms(2) by (simp_all add: in_order_def Let_def)
  have "wp (State_Monad.bind (elps_set_event p (failure_event pt)) (\<lambda>_. State_Monad.bind (elps_fsm E p None (failure_event pt))
      (\<lambda>_. State_Monad.return old))) (\<lambda>_. ?Q) s"
  proof (cases "holdoff ?i = 0")
    case True
    have v: "aps_view s p = (current_status ?i, aps_path ?i)" by (simp add: aps_view_def)
    have d: "\<not> defers (conditions s p)" using True by (simp add: conditions_def Let_def)
    have "snd (case aps_table (conditions s p) None (failure_event pt) (aps_view s p) of None \<Rightarrow> aps_view s p | Some w \<Rightarrow> w) = other_path pt"
      using assms(4-6) c d unfolding v
      by (cases pt; cases "current_status ?i") (auto simp: on_failure_def consistent_def)
    with True show ?thesis by (intro request_steps [OF assms(1-3)]) (auto simp: wp_return dest: stepped_hw)
  next
    case False
    have "?Q t" if t: "put_off E pt p s t" for t
    proof -
      note same = put_off_same [OF t]
      have "wp (elps_holdoff_expiry E p) (\<lambda>_ v. hw_path (sess_id ?i) (hal_log v) = other_path pt) t"
        using expiry_moves [OF assms(1), of t p pt] assms(2,4-6) same by simp
      then show ?thesis using t in_order_path [OF assms(2)] False by (simp add: put_off_def aps_view_def)
    qed
    then show ?thesis by (intro wp_mono [OF failure_put_off [OF in_order_nz [OF assms(2)] assms(3) False]])
  qed
  then show ?thesis
    using ports by (cases pt) (simp_all add: elps_update_one_def elps_update_side_def side_event_def wp_simps)
qed

lemma port_down_moves_traffic_witness:
  "wp (elps_update_one willing 10 0 PORT_STATE_DOWN 0 1)
     (\<lambda>_ t. hw_path 1 (hal_log t) = On_master \<and> wp (elps_holdoff_expiry willing 1) (\<lambda>_ v. hw_path 1 (hal_log v) = On_backup) t)
     (one_line ((line_info ELPS_NO_REQUEST APS_ELPS_NR 10)\<lparr>holdoff := 3\<rparr>) {10})"
proof -
  let ?s = "one_line ((line_info ELPS_NO_REQUEST APS_ELPS_NR 10)\<lparr>holdoff := 3\<rparr>) {10}"
  have "in_order ?s 1" "path_bad (conditions ?s 1) On_master = Some True" "path_bad (conditions ?s 1) On_backup = Some False"
    "aps_path (info (heap ?s 1)) = On_master"
    by (simp_all add: one_line_def line_info_def elps_zero_sess_def elps_zero_info_def in_order_def aps_view_def aps_path_def
        consistent_def hw_path_def conditions_def path_view_def)
  from wp_mono [OF port_down_moves_traffic [OF willing_acks this(1) _ this(2), where sid = 0 and old = 0]] this show ?thesis
    by (simp del: One_nat_def add: line_ready)
qed

section \<open>The far end\<close>

text \<open>The frame of a session with the record \<open>i\<close>, received at a port of the line.\<close>

definition received :: "elps_info \<Rightarrow> u32 \<Rightarrow> u16 \<Rightarrow> aps_rx" where
  "received i port vlan = \<lparr>in_ifindex = port, rx_svlan = vlan, rx_aps = aps_frame i\<rparr>"

fun far_event :: "elps_status \<Rightarrow> elps_event" where
  "far_event ELPS_NO_REQUEST = APS_ELPS_NR"
| "far_event ELPS_DO_NOT_REVERT = APS_ELPS_DNR"
| "far_event ELPS_WAIT_TO_RESTORE = APS_ELPS_WTR"
| "far_event ELPS_MANUAL_SWITCH = APS_ELPS_MS"
| "far_event ELPS_SIGNAL_FAIL_FOR_WORKING = APS_ELPS_SF_W"
| "far_event ELPS_FORCED_SWITCH = APS_ELPS_FS"
| "far_event ELPS_SIGNAL_FAIL_FOR_PROTECTION = APS_ELPS_SF_P"
| "far_event ELPS_LOCKOUT_OF_PROTECTION = APS_ELPS_LO"

lemma frame_event: "aps_event (request_state (aps_frame i)) = far_event (current_status i)"
  by (cases "current_status i") (simp_all add: aps_frame_def aps_event_def Let_def)

text \<open>What a receiver does before it looks at the request: it clears the alarm and its timer.\<close>

lemma heard_same:
  assumes "\<And>q. info (heap u q) = (if q = p then (info (heap s p))\<lparr>dfop_alarm := 0\<rparr> else info (heap s q))"
    and "pholdoff_timer (heap u p) = pholdoff_timer (heap s p)" "pkt_log u = pkt_log s" "hal_log u = hal_log s"
    "l2ifs u = l2ifs s" "cfm_heap u = cfm_heap s" "cfm_sess_table u = cfm_sess_table s"
  shows "in_order u p = in_order s p" "conditions u p = conditions s p" "aps_view u p = aps_view s p"
    "status (info (heap u p)) = status (info (heap s p))" "stepped E p u v t = stepped E p s v t"
proof -
  show v: "aps_view u p = aps_view s p" by (simp add: aps_view_def assms aps_path_def)
  then show "in_order u p = in_order s p" by (simp add: in_order_def Let_def assms aps_path_def)
  have "path_view u = path_view s" by (simp add: path_view_def fun_eq_iff assms)
  then show "conditions u p = conditions s p" by (simp add: conditions_def Let_def assms)
  show "status (info (heap u p)) = status (info (heap s p))" by (simp add: assms)
  show "stepped E p u v t = stepped E p s v t"
    unfolding stepped_def v by (auto simp: assms elps_config_def split: option.split)
qed

lemma recv_steps:
  assumes "hal_acks E" "in_order s p" "status (info (heap s p)) = APS_STATUS_ENABLE"
    and "port \<in> {master_port (info (heap s p)), backup_port (info (heap s p))}"
    and "\<And>t. stepped E p s
      (aps_table (conditions s p) (Some (signals (aps_frame i))) (far_event (current_status i)) (aps_view s p)) t \<Longrightarrow> Q t"
  shows "wp (aps_recv_one E (received i port (pvlan (info (heap s p)))) p) (\<lambda>_. Q) s"
proof -
  let ?d = "\<lambda>s. s\<lparr>heap := (heap s)(p := (heap s p)\<lparr>info := (info (heap s p))\<lparr>dfop_alarm := 0\<rparr>\<rparr>)\<rparr>"
  let ?u = "?d (post (elps_stop_dfop_timer p) (?d s))"
  have u: "info (heap ?u q) = (if q = p then (info (heap s p))\<lparr>dfop_alarm := 0\<rparr> else info (heap s q))"
    "pholdoff_timer (heap ?u p) = pholdoff_timer (heap s p)" "pkt_log ?u = pkt_log s" "hal_log ?u = hal_log s"
    "l2ifs ?u = l2ifs s" "cfm_heap ?u = cfm_heap s" "cfm_sess_table ?u = cfm_sess_table s" for q
    by simp_all
  note same = heard_same [OF u]
  have k: "in_ifindex (received i port v) = port" "rx_svlan (received i port v) = v" "rx_aps (received i port v) = aps_frame i" for v
    by (simp_all add: received_def)
  have types: "port_type_A (aps_frame i)" "port_type_B (aps_frame i)" "port_type_D (aps_frame i)"
    by (simp_all add: aps_frame_def Let_def)
  have "wp (State_Monad.bind (elps_set_event p (far_event (current_status i)))
      (\<lambda>_. State_Monad.bind (elps_fsm E p (Some (aps_frame i)) (far_event (current_status i))) (\<lambda>_. State_Monad.return ()))) (\<lambda>_. Q) ?u"
    by (rule request_steps) (use assms same in \<open>auto simp: wp_return\<close>)
  then show ?thesis
    using assms(3,4) by (simp add: aps_recv_one_def wp_simps k types frame_event eq_commute)
qed

lemma follows_request:
  assumes "hal_acks E" "in_order s p" "status (info (heap s p)) = APS_STATUS_ENABLE"
    and "port \<in> {master_port (info (heap s p)), backup_port (info (heap s p))}"
    and "consistent (current_status i, aps_path i)" "current_status (info (heap s p)) < current_status i"
  shows "wp (aps_recv_one E (received i port (pvlan (info (heap s p)))) p)
    (\<lambda>_ t. hw_path (sess_id (info (heap s p))) (hal_log t) = aps_path i) s"
proof (rule recv_steps [OF assms(1-4)])
  fix t
  let ?v = "aps_table (conditions s p) (Some (signals (aps_frame i))) (far_event (current_status i)) (aps_view s p)"
  assume t: "stepped E p s ?v t"
  have v: "aps_view s p = (current_status (info (heap s p)), aps_path (info (heap s p)))" by (simp add: aps_view_def)
  have "snd (case ?v of None \<Rightarrow> aps_view s p | Some w \<Rightarrow> w) = aps_path i"
    using assms(5,6) unfolding v
    by (cases "current_status i") (auto simp: on_request_def consistent_def)
  then show "hw_path (sess_id (info (heap s p))) (hal_log t) = aps_path i"
    using stepped_hw [OF t] by simp
qed

text \<open>
  C14: A frame of the far end that carries a request of higher priority makes the hardware
  select the path that the far end uses.  (The session is enabled and agrees with hardware that
  acknowledges, the frame comes in on one of its ports and its vlan, and the sender's state is
  one that uses its path.)
\<close>

theorem far_end_is_followed:
  assumes "hal_acks E" "in_order s p" "status (info (heap s p)) = APS_STATUS_ENABLE"
    and "port \<in> {master_port (info (heap s p)), backup_port (info (heap s p))}"
    and "consistent (current_status i, aps_path i)" "current_status (info (heap s p)) < current_status i"
  shows "wp (aps_recv_one E (received i port (pvlan (info (heap s p)))) p)
    (\<lambda>_ t. hw_path (sess_id (info (heap s p))) (hal_log t) = aps_path i) s"
  using assms by (rule follows_request)

lemma far_end_is_followed_witness:
  "wp (aps_recv_one willing (received (line_info ELPS_MANUAL_SWITCH LOCAL_ELPS_MS 20) 20 100) 1)
     (\<lambda>_ t. hw_path 1 (hal_log t) = On_backup) (one_line (line_info ELPS_NO_REQUEST APS_ELPS_NR 10) {})"
  using far_end_is_followed [OF willing_acks line_ready(1), of APS_ELPS_NR "{}" 20 "line_info ELPS_MANUAL_SWITCH LOCAL_ELPS_MS 20"]
  by (simp del: One_nat_def add: line_ready consistent_def aps_path_def)

text \<open>The two ends at rest: no request, on the master path, both paths working or a hold-off timer running.\<close>

definition at_rest :: "aps_conditions \<Rightarrow> elps_info \<Rightarrow> elps_info \<Rightarrow> bool" where
  "at_rest c i j \<longleftrightarrow> current_status i = ELPS_NO_REQUEST \<and> aps_path i = On_master \<and> aps_path j = On_master \<and>
     (holding c \<or> master_bad c = Some False \<and> backup_bad c = Some False)"

lemma rest_signals: "aps_path i = On_master \<Longrightarrow> signals (aps_frame i) = (0, 0)"
  by (simp add: signals_def aps_frame_def aps_path_def Let_def split: if_splits)

text \<open>
  C15: A frame of the far end whose request is not of higher priority than the state of an enabled
  session that agrees with its hardware (which acknowledges) changes neither state nor path, and
  is not answered.  When the session has no request itself, this holds for a frame without a request
  of an end that is, like the session, on the master path, while both paths work or the
  hold-off timer runs; in the other cases without requests the session follows the table of
  \<open>elps_fsm_implements_table\<close>.
\<close>

theorem weaker_request_is_ignored:
  assumes "hal_acks E" "in_order s p" "status (info (heap s p)) = APS_STATUS_ENABLE"
    and "port \<in> {master_port (info (heap s p)), backup_port (info (heap s p))}"
    and "current_status i \<le> current_status (info (heap s p))"
    and "current_status (info (heap s p)) \<noteq> ELPS_NO_REQUEST \<or> at_rest (conditions s p) (info (heap s p)) i"
  shows "wp (aps_recv_one E (received i port (pvlan (info (heap s p)))) p)
    (\<lambda>_ t. aps_view t p = aps_view s p \<and> pkt_log t = pkt_log s) s"
proof (rule recv_steps [OF assms(1-4)])
  fix t
  let ?v = "aps_table (conditions s p) (Some (signals (aps_frame i))) (far_event (current_status i)) (aps_view s p)"
  assume t: "stepped E p s ?v t"
  have "?v = None"
    using assms(5,6)
  proof (cases "current_status (info (heap s p)) = ELPS_NO_REQUEST")
    case True
    then have "at_rest (conditions s p) (info (heap s p)) i" "current_status i = ELPS_NO_REQUEST"
      using assms(5,6) by (cases "current_status i"; simp)+
    then show ?thesis using rest_signals [of i] True
      by (auto simp: aps_view_def at_rest_def on_no_request_def on_release_def)
  next
    case False
    then show ?thesis using assms(5) by (cases "current_status i") (simp_all add: aps_view_def)
  qed
  then show "aps_view t p = aps_view s p \<and> pkt_log t = pkt_log s" using t by (simp add: stepped_def)
qed

lemma weaker_request_is_ignored_witness:
  "wp (aps_recv_one willing (received (line_info ELPS_NO_REQUEST APS_ELPS_NR 20) 20 100) 1)
     (\<lambda>_ t. aps_view t 1 = (ELPS_SIGNAL_FAIL_FOR_PROTECTION, On_master))
     (one_line (line_info ELPS_SIGNAL_FAIL_FOR_PROTECTION LOCAL_ELPS_SF_P 10) {20})"
proof -
  let ?s = "one_line (line_info ELPS_SIGNAL_FAIL_FOR_PROTECTION LOCAL_ELPS_SF_P 10) {20}"
  have "in_order ?s 1" "aps_view ?s 1 = (ELPS_SIGNAL_FAIL_FOR_PROTECTION, On_master)"
    by (simp_all del: One_nat_def add: in_order_def aps_view_def line_ready aps_path_def consistent_def hw_path_def)
  then show ?thesis
    using weaker_request_is_ignored [OF willing_acks, of ?s 1 20 "line_info ELPS_NO_REQUEST APS_ELPS_NR 20"]
    by (simp del: One_nat_def add: line_ready wp_conj)
qed

section \<open>Both ends\<close>

lemma last_frame:
  assumes "stepped E p s (Some w) t"
  shows "pdu (last (pkt_log t)) = aps_frame (info (heap t p))"
  using assms by (simp add: stepped_def aps_sent_at_def last_map)

text \<open>
  C13: A forced switch of the operator moves both ends, when both sessions are enabled, agree with
  hardware that acknowledges, and are in a state weaker than a forced switch (so not under a
  lockout, a failed backup path, or a forced switch already): the command succeeds and the
  hardware of this end forwards on the backup path, and when the far end receives the last frame
  that was sent, on one of its ports and its vlan, its hardware forwards on the backup path as well.
\<close>

theorem forced_switch_moves_both_ends:
  assumes "hal_acks E" "in_order s p" "status (info (heap s p)) = APS_STATUS_ENABLE"
    and "current_status (info (heap s p)) < ELPS_FORCED_SWITCH"
    and "hal_acks F" "in_order u q" "status (info (heap u q)) = APS_STATUS_ENABLE"
    and "current_status (info (heap u q)) < ELPS_FORCED_SWITCH"
    and "port \<in> {master_port (info (heap u q)), backup_port (info (heap u q))}"
  shows "wp (elps_admin_force E True p) (\<lambda>r t. r \<and> hw_path (sess_id (info (heap s p))) (hal_log t) = On_backup \<and>
      wp (aps_recv_one F \<lparr>in_ifindex = port, rx_svlan = pvlan (info (heap u q)), rx_aps = pdu (last (pkt_log t))\<rparr> q)
        (\<lambda>_ v. hw_path (sess_id (info (heap u q))) (hal_log v) = On_backup) u) s" (is "wp _ ?Q s")
proof -
  have v: "aps_table (conditions s p) None LOCAL_ELPS_FS (aps_view s p) = Some (ELPS_FORCED_SWITCH, On_backup)"
    using assms(4) by (simp add: aps_view_def)
  have "?Q True t" if t: "stepped E p s (Some (ELPS_FORCED_SWITCH, On_backup)) t" for t
  proof -
    let ?i = "info (heap t p)"
    have i: "current_status ?i = ELPS_FORCED_SWITCH" "aps_path ?i = On_backup"
      using t by (simp_all add: stepped_def aps_view_def)
    have "wp (aps_recv_one F (received ?i port (pvlan (info (heap u q)))) q)
        (\<lambda>_ v. hw_path (sess_id (info (heap u q))) (hal_log v) = On_backup) u"
      using follows_request [OF assms(5-7,9), of ?i] assms(8) i by (simp add: consistent_def)
    then show ?thesis using stepped_hw [OF t] last_frame [OF t] by (simp add: received_def)
  qed
  then have "wp (elps_request E p LOCAL_ELPS_FS) (\<lambda>r. ?Q (r = ERRNO_SUCCESS)) s"
    by (intro operator_steps assms) (use v assms(3) in auto)
  then have "wp (elps_request E p LOCAL_ELPS_FS) (\<lambda>r. wp (State_Monad.return (r = ERRNO_SUCCESS)) ?Q) s"
    by (rule wp_mono) (simp add: wp_return)
  then show ?thesis
    using assms(3,4) in_order_nz [OF assms(2)]
    by (auto simp: elps_admin_force_def elps_admin_def elps_sess_forceswitch_def wp_bind wp_elps_info_of)
qed

lemma forced_switch_moves_both_ends_witness:
  "wp (elps_admin_force willing True 1) (\<lambda>r t. r \<and> hw_path 1 (hal_log t) = On_backup \<and>
      wp (aps_recv_one willing \<lparr>in_ifindex = 20, rx_svlan = 100, rx_aps = pdu (last (pkt_log t))\<rparr> 1)
        (\<lambda>_ v. hw_path 1 (hal_log v) = On_backup) (one_line (line_info ELPS_NO_REQUEST APS_ELPS_NR 10) {}))
     (one_line (line_info ELPS_NO_REQUEST APS_ELPS_NR 10) {10})"
  using forced_switch_moves_both_ends [OF willing_acks line_ready(1) _ _ willing_acks line_ready(1),
      of APS_ELPS_NR "{10}" APS_ELPS_NR "{}" 20]
  by (simp del: One_nat_def add: line_ready)

section \<open>A switch that is refused\<close>

text \<open>
  C16: When the hardware layer refuses a forced switch, the command still succeeds and the session
  is in the state of a forced switch, but traffic stays on the master path and the far end is
  told nothing.
\<close>

theorem refused_switch_is_reported_as_done:
  assumes "in_order s p" "status (info (heap s p)) = APS_STATUS_ENABLE" "current_status (info (heap s p)) < ELPS_FORCED_SWITCH"
    and "aps_path (info (heap s p)) = On_master" "hal_answer (sync_answer E (length (hal_log s))) \<noteq> 0"
  shows "wp (elps_admin_force E True p) (\<lambda>r t. r \<and> aps_view t p = (ELPS_FORCED_SWITCH, On_master) \<and> pkt_log t = pkt_log s) s"
proof -
  have p: "p \<noteq> 0" "active_port (info (heap s p)) = master_port (info (heap s p))" "master_port (info (heap s p)) \<noteq> backup_port (info (heap s p))"
    using assms(1,4) by (auto simp: in_order_def Let_def aps_path_def split: if_splits)
  show ?thesis
    using assms(2-5) p
    by (auto simp: elps_admin_force_def elps_admin_def elps_sess_forceswitch_def elps_request_def elps_fsm_def elps_dispatch_def
        elps_local_handle_fs_def elps_forward_def aps_announce_def wp_simps Let_def aps_view_def aps_path_def)
qed


definition refusing :: elps_env where
  "refusing = willing\<lparr>sync_answer := (\<lambda>_. Sync_ret 0 (Some (IPC_OPCODE_NACK, 1)))\<rparr>"

lemma refused_switch_is_reported_as_done_witness:
  "wp (elps_admin_force refusing True 1) (\<lambda>r t. r \<and> aps_view t 1 = (ELPS_FORCED_SWITCH, On_master) \<and> pkt_log t = [])
     (one_line (line_info ELPS_NO_REQUEST APS_ELPS_NR 10) {})"
proof -
  have "hal_answer (sync_answer refusing n) \<noteq> 0" for n by (simp add: refusing_def hal_answer_def)
  then show ?thesis
    using refused_switch_is_reported_as_done [OF line_ready(1), of APS_ELPS_NR "{}" refusing]
    by (simp del: One_nat_def add: line_ready aps_path_def)
qed

text \<open>
  And when the operator then clears it while the master path is down, the session moves to the
  backup path without telling the hardware, which stays on the failed one.
\<close>

lemma hardware_left_behind:
  assumes "aps_view s p = (ELPS_FORCED_SWITCH, On_master)" "hw_path (sess_id (info (heap s p))) (hal_log s) = On_master"
    and "p \<noteq> 0" "master_port (info (heap s p)) \<noteq> backup_port (info (heap s p))"
    and "status (info (heap s p)) = APS_STATUS_ENABLE" "pholdoff_timer (heap s p) = 0"
    and "path_view s (master_port (info (heap s p))) (master_cfm_session (info (heap s p))) = Some True"
  shows "wp (elps_admin_force E False p) (\<lambda>_ t. aps_view t p = (ELPS_SIGNAL_FAIL_FOR_WORKING, On_backup) \<and>
    hw_path (sess_id (info (heap s p))) (hal_log t) = On_master) s"
proof -
  have v: "current_status (info (heap s p)) = ELPS_FORCED_SWITCH" using assms(1) by (simp add: aps_view_def)
  have v': "path_view (s\<lparr>heap := h, hal_log := l\<rparr>) n c = path_view s n c" for h l n c by (simp add: path_view_def)
  show ?thesis
    using assms(2-7) v v'
    by (auto simp: elps_admin_force_def elps_admin_def elps_sess_forceswitch_def elps_request_def elps_fsm_def elps_dispatch_def
        elps_local_handle_fsclear_def elps_tell_hal_def master_failed_def report_switch_def
        aps_announce_def wp_simps Let_def aps_view_def aps_path_def stg_step_def elps_msg_at_def)
qed


end
