(* ===== verification/Spec2Isabelle.thy ===== *)
theory Spec2Isabelle
  imports EventLoopSafety HashTable IndexPool LabelM HPTimer RouteIter StreamProps ErpsSafety ErpsService ErpsTable ElpsSafety
begin

text \<open>
  HiOS-IPC is the control software of a packet transport switch: a set of Linux processes (the
  layer 2 protocols in \<open>l2/\<close>, MPLS in \<open>mpls/\<close>, the routing daemons taken over from Quagga, a
  shell, an SNMP agent and many small configuration services) that talk to each other and to
  a hardware layer through message queues and share the library \<open>lib/\<close>.  This development
  models the parts on which the protection and forwarding functions rest: the shared
  containers, the message buffers, the timer and the event loop of the library, the routing table, the label manager, and the
  two Ethernet protection protocols, on rings and on lines, with everything they call.

  Paths below are relative to \<open>src/\<close>.

  \<^bold>\<open>The theories, from the bottom.\<close>

  \<^item> \<open>Prelude\<close>: machine types, return codes, C functions as state transformers
    (\<open>State_Monad\<close>) with a weakest precondition calculus in \<open>wp_simps\<close>, and generic lemmas.

  \<^item> \<open>HashTable\<close> (\<open>lib/hash1.c\<close>): the chained hash table every daemon keeps its sessions in.
    Locale \<open>keyed_store\<close> is its contract; the tables of the ring protection and of the label
    manager are interpretations of it.  Shown: the table is a map under any sequence of
    operations, iterating visits what is stored, the bound of the string hash.

  \<^item> \<open>IndexPool\<close> (\<open>lib/index.c\<close>) and \<open>LabelM\<close> (\<open>mpls/labelm.c\<close>): bitmap allocators of numbers and
    of MPLS labels.  Locale \<open>id_allocator\<close> is their contract (nothing is held twice under any
    interleaving of allocations and releases).

  \<^item> \<open>HPTimer\<close> (\<open>lib/hptimer.c\<close>): the list of timers in which a node stores the ticks after its
    predecessor.  The abstraction \<open>due\<close> gives every timer its remaining ticks; locale
    \<open>timer_service\<close> states what starting, cancelling and ticking do to it, and that a timer
    expires exactly when it should.

  \<^item> \<open>PQueue\<close> (\<open>lib/pqueue.c\<close>): the binary heap in an array, with a comparison and a callback that
    tells an element its position.  Locale \<open>queue_callbacks\<close> is what it relies on of the two.

  \<^item> \<open>EventLoop\<close> (\<open>lib/thread.c\<close>, \<open>lib/timer.c\<close>, \<open>lib/sigevent.c\<close>): the scheduler of every daemon.
    Threads live in a heap, linked into six lists and two queues; adding, cancelling, signals
    and the loop of \<open>thread_fetch\<close>.  \<open>ThreadLists\<close> gives the doubly linked lists their members;
    \<open>EventLoopInv\<close> holds the invariant (every thread is where its type says), the
    interpretation of \<open>queue_callbacks\<close> and the steps of which operations are made;
    \<open>EventLoopOps\<close> the effect of each operation; \<open>EventLoopRun\<close> the calls of a daemon in any
    order, reachable states and progress; \<open>EventLoopSafety\<close> the properties: no call gets
    stuck, what is handed out is well typed, waiting threads are served in order and in
    time, cancelled ones are gone, the timer queue sorts and is never served.

  \<^item> \<open>Prefix\<close> (\<open>lib/prefix.c\<close>): IP prefixes.  Matching, masks and conversions against the bits
    \<open>pbits\<close> of a prefix.

  \<^item> \<open>RouteTable\<close> (\<open>lib/table.c\<close>, \<open>lib/table.h\<close>): the Patricia tree all routing daemons store
    their routes in, as a heap of nodes with parent and child pointers and counted locks.
    \<open>RouteOrder\<close> shows that the order of iteration is the lexicographic order of the bits;
    \<open>RouteTree\<close> abstracts the heap to a binary radix tree with a context (\<open>rep\<close>, \<open>radix\<close>,
    \<open>forks\<close>); \<open>RouteOps\<close> shows that each operation does to the tree what it should; \<open>RouteMap\<close>
    abstracts the tree to a map from networks to counted entries, which locale \<open>locked_map\<close>
    states as a contract; \<open>RouteIter\<close> is about iterating, pausing and freeing.

  \<^item> \<open>Stream\<close> (\<open>lib/stream.c\<close>, \<open>lib/stream.h\<close>): the byte buffers of messages, with their
    positions, and queues of them.  \<open>StreamProps\<close> reads a stream as the bytes not yet read: a
    call whose arguments are legal (\<open>stream_legal\<close>) never leaves the buffer, locale \<open>wire_field\<close> is the contract of the fields of a
    message, whole messages come back behind what was unread before, and a queue of streams is a list.

  \<^item> \<open>L2Common\<close>: what the two protection protocols share (answers of the hardware layer, CFM
    sessions, vlan bitmaps).

  \<^item> \<open>ErpsModel\<close>, \<open>ErpsPkt\<close>, \<open>ErpsSession\<close>, \<open>ErpsAction\<close>, \<open>ErpsFsm\<close> (\<open>l2/raps/\<close>, with the functions
    of \<open>l2/l2_msg.c\<close>, \<open>lib/msg_ipc_n.c\<close>, \<open>lib/pkt_buffer.c\<close> and \<open>l2/cfm/cfm_session.c\<close> it calls): the
    Ethernet ring protection of G.8032.  Sessions live at addresses of \<open>heap\<close>; every message
    to the hardware and every frame is recorded in \<open>hal_log\<close> and \<open>pkt_log\<close>.  The order is that
    of the code: data and effects, frames and timers, session management, one function per
    event (\<open>erps_fsm_action.c\<close>), and the dispatcher with port events, reception and timers.

  \<^item> \<open>ErpsLogic\<close>, \<open>ErpsRules\<close>: locales for relations that every primitive keeps and hence every
    operation (\<open>erps_frame\<close> and its instances).  \<open>ErpsStates\<close> uses them for what no operation
    changes and for the edges of the state machine; \<open>ErpsSafety\<close> replays the hardware from the
    messages and shows that it agrees with the session and that the ring stays blocked when
    it must; \<open>ErpsService\<close> and \<open>ErpsTable\<close> are about frames, the vlan bitmap, identifiers and
    the session table.

  \<^item> \<open>ElpsModel\<close>, \<open>ElpsPkt\<close>, \<open>ElpsFsm\<close>, \<open>ElpsCmd\<close> (\<open>l2/aps/\<close>): the Ethernet linear protection of
    G.8031, which moves the traffic of a session between a master and a backup port.  Again
    data and effects, timers and frames (\<open>elps_timer.c\<close>, \<open>aps_send\<close>), the state machine with one
    function per event (\<open>elps_fsm.c\<close>), port events and reception (\<open>elps_pkt.c\<close>) and the
    operator's switches (\<open>elps.c\<close>), then session management and the commands (\<open>elps_cmd.c\<close>).

  \<^item> \<open>ElpsLogic\<close>: the rules of the primitives and the locales \<open>elps_quiet\<close>, \<open>elps_frame\<close> and
    \<open>elps_frame_all\<close> for relations that sending, all operations on one session, and all
    operations of the module respect.  \<open>ElpsSpec\<close> has the abstract table of states and paths
    (\<open>aps_table\<close>), the path in hardware replayed from the acknowledged messages (\<open>hw_path\<close>),
    and shows action function by action function that the machine does what the table says.
    \<open>ElpsProps\<close> interprets the locales: what is never changed, that a tick ends, and that any
    number of sessions and the hardware agree after any sequence of operations.
    \<open>ElpsSafety\<close> shows what the protection is for (a failed port is left, at once or after the
    hold-off time, both ends use the same path, weaker requests are ignored) and what a refusing hardware layer leads to.

  \<^bold>\<open>How the code is read.\<close>  Integers have their width and wrap around.  Pointers are
  addresses (\<open>nat\<close>, \<open>0\<close> for NULL, or an option) into explicit heaps, so that aliasing is that
  of the code.  An assertion that fails, an access outside an array and a loop that does not
  return have the result \<open>None\<close>; the properties show which calls have a result.  What an
  operation gets from outside is a parameter: \<open>mem\<close> the addresses the allocator returns,
  \<open>erps_env\<close> and \<open>elps_env\<close> the answers of the hardware layer, of the packet layer and of
  \<open>malloc\<close>, for a command that names ports what the interface manager makes of the names,
  for a stream the bytes that \<open>read\<close> and its relatives answer,
  \<open>inet_aton\<close> and \<open>inet_pton\<close> for the parsers of prefixes, and for the event loop \<open>run\<close> the
  effect of the signal handlers, \<open>now\<close> the clock, and a list of turns: the signals caught
  and the answer of \<open>select\<close> in every turn of its endless loop.  Of the handlers it is
  supposed that they keep the invariant, which every call of the event loop does.
  The agreement of sessions and hardware supposes that the hardware layer acknowledges; what
  a state of the hardware means is read off the messages it acknowledged, the one for the
  number of a session selecting its path.

  \<^bold>\<open>Bounds.\<close>  \<open>route_visit\<close>, the loop of a client over a table, is given the number of rounds;
  the number of nodes is enough.  \<open>thread_fetch\<close> is given the turns that the loop makes and answers
  \<open>Waiting\<close> when it would go on; the first answer of \<open>select\<close> ends it when something waits.  The timer's list is walked by structural recursion.  All
  other loops are recursions that end or \<open>partial_function\<close>s whose results are shown to exist.

  \<^bold>\<open>Not modelled.\<close>  Locks and threads (each operation is one step), debug output, show
  commands, the configuration commands of the ring protection, the message queues themselves, and the other protocols and daemons,
  which are listed with reasons in the manifest.  In \<open>lib/prefix.c\<close> the Ethernet prefixes and
  the printing functions, in \<open>struct route_node\<close> the unused pointer \<open>aggregate\<close> and the back
  pointer \<open>table\<close>; of the event loop the accounting of processor time and its display, and the
  set of exceptional descriptors, to which nothing is ever added.  Descriptors are numbers
  without a bound, the counters of threads and allocations and the ticks of the timer do not wrap,
  and the memory of a session that is deleted is not reused, so neither are pointers to it that
  a timer still holds.
\<close>

end
